(* ===== verification/Xv6_Prelude.thy ===== *)
theory Xv6_Prelude
  imports Main "HOL-Library.Word"
begin

text \<open>
  Shared vocabulary of the development: the C integer types of \<^verbatim>\<open>kernel/types.h\<close> as machine
  words, the result type of kernel code that may call \<^verbatim>\<open>panic\<close>, the little-endian byte
  encoding used wherever the kernel overlays a C struct on raw bytes, and the generic
  list and word lemmas the component theories rely on.
\<close>

unbundle bit_operations_syntax

section \<open>Integer types (kernel/types.h)\<close>

type_synonym u8 = "8 word"
type_synonym u16 = "16 word"
type_synonym u32 = "32 word"
type_synonym u64 = "64 word"

text \<open>A C \<^verbatim>\<open>int\<close> is a 32-bit word read with \<^term>\<open>sint\<close>.\<close>

type_synonym i32 = "32 word"

section \<open>Outcomes: returning or panicking\<close>

text \<open>
  \<^verbatim>\<open>panic\<close> (\<^verbatim>\<open>kernel/printf.c\<close>) never returns. A kernel function that can reach it has an
  \<open>outcome\<close>: the panic message, or the value it returns. \<open>Sleeps\<close> marks that the caller has to
  wait for another process (\<^verbatim>\<open>sleep\<close> in \<^verbatim>\<open>kernel/proc.c\<close>) before it can go on, and \<open>Diverges\<close> that a
  loop of the source does not end, and \<open>Undefined\<close> that C gives the access no meaning (an array index out
  of range, a null pointer).
\<close>

datatype 'a outcome = Panic string | Sleeps | Diverges | Undefined | Ok 'a

primrec obind :: "'a outcome \<Rightarrow> ('a \<Rightarrow> 'b outcome) \<Rightarrow> 'b outcome" where
  "obind (Panic e) f = Panic e"
| "obind Sleeps f = Sleeps"
| "obind Diverges f = Diverges"
| "obind Undefined f = Undefined"
| "obind (Ok x) f = f x"

definition opanic_unless :: "bool \<Rightarrow> string \<Rightarrow> unit outcome" where
  "opanic_unless b e = (if b then Ok () else Panic e)"

text \<open>A loop defined by \<^theory_text>\<open>partial_function (option)\<close> as a kernel computation.\<close>

primrec of_loop :: "'a option \<Rightarrow> 'a outcome" where
  "of_loop None = Diverges"
| "of_loop (Some x) = Ok x"

text \<open>A counting loop whose body may fail.\<close>

primrec ofold :: "('a \<Rightarrow> 's \<Rightarrow> 's outcome) \<Rightarrow> 'a list \<Rightarrow> 's \<Rightarrow> 's outcome" where
  "ofold f [] s = Ok s"
| "ofold f (x # xs) s = obind (f x s) (ofold f xs)"

named_theorems outcome_iff "when a composed kernel computation returns"

lemma obind_Ok_iff [outcome_iff]: "obind m f = Ok y \<longleftrightarrow> (\<exists>x. m = Ok x \<and> f x = Ok y)"
  by (cases m) auto

lemma obind_Panic_iff [outcome_iff]:
  "obind m f = Panic e \<longleftrightarrow> m = Panic e \<or> (\<exists>x. m = Ok x \<and> f x = Panic e)"
  by (cases m) auto

lemma opanic_unless_Ok [outcome_iff]: "opanic_unless b e = Ok u \<longleftrightarrow> b"
  by (simp add: opanic_unless_def)

lemma opanic_unless_True [simp]: "opanic_unless True e = Ok ()"
  by (simp add: opanic_unless_def)

lemma opanic_unless_False [simp]: "opanic_unless False e = Panic e"
  by (simp add: opanic_unless_def)

lemma obind_cong [fundef_cong]:
  "m = m' \<Longrightarrow> (\<And>x. m' = Ok x \<Longrightarrow> f x = g x) \<Longrightarrow> obind m f = obind m' g"
  by (cases m') auto

lemma obind_assoc: "obind (obind m f) g = obind m (\<lambda>x. obind (f x) g)"
  by (cases m) auto

primrec returns :: "'a outcome \<Rightarrow> bool" where
  "returns (Panic e) \<longleftrightarrow> False"
| "returns Sleeps \<longleftrightarrow> False"
| "returns Diverges \<longleftrightarrow> False"
| "returns Undefined \<longleftrightarrow> False"
| "returns (Ok x) \<longleftrightarrow> True"

primrec (nonexhaustive) the_Ok :: "'a outcome \<Rightarrow> 'a" where
  "the_Ok (Ok x) = x"

lemma returns_iff: "returns m \<longleftrightarrow> (\<exists>x. m = Ok x)"
  by (cases m) auto

section \<open>Little-endian bytes\<close>

text \<open>
  RISC-V is little-endian: a C integer of \<open>n\<close> bytes occupies the bytes of
  \<open>le_encode n v\<close> at increasing addresses, and reading them back gives \<open>le_decode\<close>.
\<close>

primrec le_encode :: "nat \<Rightarrow> nat \<Rightarrow> u8 list" where
  "le_encode 0 v = []"
| "le_encode (Suc n) v = word_of_nat v # le_encode n (v div 256)"

primrec le_decode :: "u8 list \<Rightarrow> nat" where
  "le_decode [] = 0"
| "le_decode (b # bs) = unat b + 256 * le_decode bs"

lemma length_le_encode [simp]: "length (le_encode n v) = n"
  by (induction n arbitrary: v) auto

lemma unat_word_of_nat_u8: "unat (word_of_nat v :: u8) = v mod 256"
  by (simp add: unat_of_nat)

lemma le_decode_encode [simp]: "le_decode (le_encode n v) = v mod 256 ^ n"
proof (induction n arbitrary: v)
  case 0
  then show ?case by simp
next
  case (Suc n)
  have "v mod 256 + 256 * (v div 256 mod 256 ^ n) = v mod (256 * 256 ^ n)"
    by (simp add: mod_mult2_eq)
  then show ?case by (simp add: Suc.IH unat_word_of_nat_u8)
qed

lemma unat_u8_less: "unat (b :: u8) < 256"
  using unsigned_less [of b] by simp

lemma le_decode_less: "le_decode bs < 256 ^ length bs"
proof (induction bs)
  case Nil
  then show ?case by simp
next
  case (Cons b bs)
  then have "le_decode bs + 1 \<le> 256 ^ length bs" by simp
  then have "256 * (le_decode bs + 1) \<le> 256 * 256 ^ length bs" by (rule mult_le_mono2)
  moreover have "unat b < 256" by (rule unat_u8_less)
  ultimately show ?case by simp
qed

lemma le_encode_decode [simp]: "le_encode (length bs) (le_decode bs) = bs"
proof (induction bs)
  case Nil
  then show ?case by simp
next
  case (Cons b bs)
  have "word_of_nat (unat b + 256 * le_decode bs) = b"
    by (rule word_unat_eq_iff [THEN iffD2])
      (use unat_u8_less [of b] in \<open>simp add: unat_word_of_nat_u8 del: of_nat_add of_nat_mult\<close>)
  moreover have "(unat b + 256 * le_decode bs) div 256 = le_decode bs"
    using unat_u8_less [of b] by simp
  ultimately show ?case using Cons by simp
qed

section \<open>Word offsets\<close>

lemma unat_u64_less: "unat (x :: u64) < 2 ^ 64"
  by (rule unsigned_less [THEN less_le_trans]) simp

lemma unat_u32_less: "unat (x :: u32) < 2 ^ 32"
  by (rule unsigned_less [THEN less_le_trans]) simp

lemma unat_word_of_nat_u64: "i < 2 ^ 64 \<Longrightarrow> unat (word_of_nat i :: u64) = i"
  by (simp add: unat_of_nat)

lemma eq_add_of_nat_iff:
  "i < 2 ^ 64 \<Longrightarrow> (x :: u64) = a + word_of_nat i \<longleftrightarrow> unat (x - a) = i"
proof -
  assume i: "i < 2 ^ 64"
  have "x = a + word_of_nat i \<longleftrightarrow> x - a = word_of_nat i"
    by (auto simp: algebra_simps)
  also have "\<dots> \<longleftrightarrow> unat (x - a) = i"
    by (simp add: word_unat_eq_iff unat_word_of_nat_u64 [OF i])
  finally show ?thesis .
qed

lemma unat_add_of_nat_diff [simp]:
  "i < 2 ^ 64 \<Longrightarrow> unat ((a :: u64) + word_of_nat i - a) = i"
  using eq_add_of_nat_iff [of i "a + word_of_nat i" a] by simp

lemma add_word_of_nat_unat_diff [simp]: "(a :: u64) + word_of_nat (unat (x - a)) = x"
  by simp

lemma unat_neg_u64: "(d :: u64) \<noteq> 0 \<Longrightarrow> unat (- d) = 2 ^ 64 - unat d"
  using unat_sub_if' [of 0 d] unat_u64_less [of d] by (simp add: unat_eq_0)

lemma unat_add_of_nat_u64:
  "unat (d :: u64) + i < 2 ^ 64 \<Longrightarrow> unat (d + word_of_nat i) = unat d + i"
  by (simp add: unat_plus_if' unat_word_of_nat_u64)

lemma unat_u32_le: "unat (n :: u32) \<le> 2 ^ 64"
  using unat_u32_less [of n] by simp

lemma unat_src_offset:
  assumes "unat s + i < 2 ^ 64"
  shows "unat (s + word_of_nat i - d) =
    (if unat d \<le> unat s + i then unat s + i - unat d else unat s + i + 2 ^ 64 - unat (d :: u64))"
  using unat_sub_if' [of "s + word_of_nat i" d] by (simp add: unat_add_of_nat_u64 [OF assms])

lemma sint_word_of_nat: "k < 2 ^ 31 \<Longrightarrow> sint (word_of_nat k :: i32) = int k"
  by (simp add: signed_of_nat signed_take_bit_eq_if_positive take_bit_nat_eq_self bit_iff_odd
      take_bit_int_eq_self)

lemma scast_word_of_nat:
  "k < 2 ^ 31 \<Longrightarrow> scast (word_of_nat k :: i32) = (word_of_nat k :: u64)"
  by (metis of_int_of_nat_eq of_int_sint sint_word_of_nat)

lemma ucast_u64_i32: "(ucast (w :: u64) :: i32) = word_of_nat (unat w)"
  by simp


section \<open>Integer fields of byte arrays\<close>

text \<open>
  On-disk structures are arrays of bytes; an integer field of \<open>n\<close> bytes at offset \<open>off\<close> is read and
  written in place.
\<close>

definition get_le :: "nat \<Rightarrow> u8 list \<Rightarrow> nat \<Rightarrow> nat" where
  "get_le n d off = le_decode (take n (drop off d))"

definition put_le :: "nat \<Rightarrow> nat \<Rightarrow> nat \<Rightarrow> u8 list \<Rightarrow> u8 list" where
  "put_le n off v d = take off d @ le_encode n v @ drop (off + n) d"

lemma length_put_le [simp]: "off + n \<le> length d \<Longrightarrow> length (put_le n off v d) = length d"
  by (simp add: put_le_def)

lemma get_put_le_same: "off + n \<le> length d \<Longrightarrow> v < 256 ^ n \<Longrightarrow> get_le n (put_le n off v d) off = v"
  by (simp add: get_le_def put_le_def le_decode_encode)

lemma get_put_le_other:
  assumes "off + n \<le> length d" and "o' + k \<le> off \<or> off + n \<le> o'"
  shows "get_le k (put_le n off v d) o' = get_le k d o'"
  using assms(2)
proof
  assume "o' + k \<le> off"
  then have "take k (drop o' (put_le n off v d)) = take k (drop o' d)"
    using assms(1) by (intro nth_equalityI) (auto simp: put_le_def nth_append)
  then show ?thesis by (simp add: get_le_def)
next
  assume "off + n \<le> o'"
  then have "drop o' (put_le n off v d) = drop o' d"
    using assms(1) by (simp add: put_le_def)
  then show ?thesis by (simp add: get_le_def)
qed

lemma put_le_get_le: "off + n \<le> length d \<Longrightarrow> put_le n off (get_le n d off) d = d"
proof -
  assume a: "off + n \<le> length d"
  have "length (take n (drop off d)) = n" using a by simp
  then have "le_encode n (le_decode (take n (drop off d))) = take n (drop off d)"
    by (metis le_encode_decode)
  moreover have "d = take off d @ take n (drop off d) @ drop (off + n) d"
    using append_take_drop_id [of n "drop off d"] by (simp add: add.commute)
  ultimately show ?thesis by (simp add: put_le_def get_le_def)
qed


lemma ofold_append: "ofold f (xs @ ys) s = obind (ofold f xs s) (ofold f ys)"
proof (induction xs arbitrary: s)
  case (Cons x xs)
  then show ?case by (cases "f x s") simp_all
qed simp

text \<open>Loop rule: an invariant indexed by the iteration carries through a counting loop.\<close>

lemma ofold_upt:
  assumes "P 0 s" and "\<And>i t. i < n \<Longrightarrow> P i t \<Longrightarrow> \<exists>u. f i t = Ok u \<and> P (Suc i) u"
  shows "\<exists>u. ofold f [0..<n] s = Ok u \<and> P n u"
  using assms
proof (induction n)
  case (Suc n)
  then obtain t where t: "ofold f [0..<n] s = Ok t" "P n t" by force
  then obtain u where "f n t = Ok u" "P (Suc n) u" using Suc.prems(2) [of n t] by blast
  then show ?case using t by (simp add: ofold_append)
qed simp

section \<open>What a computation yields\<close>

text \<open>What holds of the value of a computation if it returns, and rules to prove it along the code.\<close>

definition yields :: "'a outcome \<Rightarrow> ('a \<Rightarrow> bool) \<Rightarrow> bool" where
  "yields m P \<longleftrightarrow> (\<forall>x. m = Ok x \<longrightarrow> P x)"

named_theorems yields_rules "rules for what a computation yields"

lemma yieldsD: "yields m P \<Longrightarrow> m = Ok x \<Longrightarrow> P x"
  by (simp add: yields_def)

lemma yields_basic [yields_rules]: "P x \<Longrightarrow> yields (Ok x) P" "yields (Panic e) P" "yields Sleeps P" "yields Diverges P" "yields Undefined P"
  by (simp_all add: yields_def)

lemma yields_obind [yields_rules]: "yields m (\<lambda>x. yields (f x) P) \<Longrightarrow> yields (obind m f) P"
  by (auto simp: yields_def outcome_iff)

lemma yields_if [yields_rules]: "(b \<Longrightarrow> yields m P) \<Longrightarrow> (\<not> b \<Longrightarrow> yields n P) \<Longrightarrow> yields (if b then m else n) P"
  by simp

lemma yields_option [yields_rules]:
  "(r = None \<Longrightarrow> yields m P) \<Longrightarrow> (\<And>x. r = Some x \<Longrightarrow> yields (f x) P) \<Longrightarrow> yields (case r of None \<Rightarrow> m | Some x \<Rightarrow> f x) P"
  by (cases r) simp_all

lemma yields_prod [yields_rules]: "(\<And>x y. r = (x, y) \<Longrightarrow> yields (f x y) P) \<Longrightarrow> yields (case r of (x, y) \<Rightarrow> f x y) P"
  by (cases r) simp

lemma yields_Let [yields_rules]: "yields (f x) P \<Longrightarrow> yields (Let x f) P"
  by simp

lemma yields_mono: "yields m Q \<Longrightarrow> (\<And>x. Q x \<Longrightarrow> P x) \<Longrightarrow> yields m P"
  by (simp add: yields_def)

lemma yields_ofold:
  assumes "\<And>x s. R st s \<Longrightarrow> yields (f x s) (R st)" and "R st s"
  shows "yields (ofold f xs s) (R st)"
  using assms(2)
proof (induction xs arbitrary: s)
  case (Cons x xs)
  show ?case unfolding ofold.simps
    by (rule yields_obind, rule yields_mono [OF assms(1) [OF Cons.prems]]) (rule Cons.IH)
qed (simp add: yields_rules)

end
