(* ===== verification/Xv6_Mem.thy ===== *)
theory Xv6_Mem
  imports Xv6_Prelude
begin

text \<open>
  Byte-addressed physical memory and the routines of \<^verbatim>\<open>kernel/string.c\<close> on it. Pointers
  are 64-bit words, pointer arithmetic wraps, and a load or store of a C integer moves its
  little-endian bytes. The loops of \<^verbatim>\<open>string.c\<close> are kept as loops; their closed forms are
  the lemmas the allocator and the page-table code use.
\<close>

section \<open>Memory, loads and stores\<close>

type_synonym memory = "u64 \<Rightarrow> u8"

definition read_bytes :: "memory \<Rightarrow> u64 \<Rightarrow> nat \<Rightarrow> u8 list" where
  "read_bytes m a n = map (\<lambda>i. m (a + word_of_nat i)) [0..<n]"

primrec write_bytes :: "memory \<Rightarrow> u64 \<Rightarrow> u8 list \<Rightarrow> memory" where
  "write_bytes m a [] = m"
| "write_bytes m a (b # bs) = write_bytes (m(a := b)) (a + 1) bs"

definition load64 :: "memory \<Rightarrow> u64 \<Rightarrow> u64" where
  "load64 m a = word_of_nat (le_decode (read_bytes m a 8))"

definition store64 :: "memory \<Rightarrow> u64 \<Rightarrow> u64 \<Rightarrow> memory" where
  "store64 m a v = write_bytes m a (le_encode 8 (unat v))"

section \<open>kernel/string.c\<close>

text \<open>\<^verbatim>\<open>for(i = 0; i < n; i++) cdst[i] = c;\<close> with \<^verbatim>\<open>c\<close> truncated to \<^verbatim>\<open>char\<close>.\<close>

definition memset :: "memory \<Rightarrow> u64 \<Rightarrow> i32 \<Rightarrow> u32 \<Rightarrow> memory" where
  "memset m dst c n = fold (\<lambda>i m. m(dst + word_of_nat i := ucast c)) [0..<unat n] m"

primrec memcmp_loop :: "memory \<Rightarrow> u64 \<Rightarrow> u64 \<Rightarrow> nat \<Rightarrow> int" where
  "memcmp_loop m s1 s2 0 = 0"
| "memcmp_loop m s1 s2 (Suc n) =
     (if m s1 \<noteq> m s2 then uint (m s1) - uint (m s2) else memcmp_loop m (s1 + 1) (s2 + 1) n)"

definition memcmp :: "memory \<Rightarrow> u64 \<Rightarrow> u64 \<Rightarrow> u32 \<Rightarrow> int" where
  "memcmp m v1 v2 n = memcmp_loop m v1 v2 (unat n)"

primrec copy_up :: "memory \<Rightarrow> u64 \<Rightarrow> u64 \<Rightarrow> nat \<Rightarrow> memory" where
  "copy_up m d s 0 = m"
| "copy_up m d s (Suc n) = copy_up (m(d := m s)) (d + 1) (s + 1) n"

primrec copy_down :: "memory \<Rightarrow> u64 \<Rightarrow> u64 \<Rightarrow> nat \<Rightarrow> memory" where
  "copy_down m d s 0 = m"
| "copy_down m d s (Suc n) = copy_down (m(d - 1 := m (s - 1))) (d - 1) (s - 1) n"

definition memmove :: "memory \<Rightarrow> u64 \<Rightarrow> u64 \<Rightarrow> u32 \<Rightarrow> memory" where
  "memmove m dst src n =
     (if n = 0 then m
      else if src < dst \<and> src + ucast n > dst
      then copy_down m (dst + ucast n) (src + ucast n) (unat n)
      else copy_up m dst src (unat n))"

definition memcpy :: "memory \<Rightarrow> u64 \<Rightarrow> u64 \<Rightarrow> u32 \<Rightarrow> memory" where
  "memcpy m dst src n = memmove m dst src n"

primrec strncmp_loop :: "memory \<Rightarrow> u64 \<Rightarrow> u64 \<Rightarrow> nat \<Rightarrow> int" where
  "strncmp_loop m p q 0 = 0"
| "strncmp_loop m p q (Suc n) =
     (if m p \<noteq> 0 \<and> m p = m q then strncmp_loop m (p + 1) (q + 1) n
      else uint (m p) - uint (m q))"

definition strncmp :: "memory \<Rightarrow> u64 \<Rightarrow> u64 \<Rightarrow> u32 \<Rightarrow> int" where
  "strncmp m p q n = strncmp_loop m p q (unat n)"

text \<open>
  The two loops of \<^verbatim>\<open>strncpy\<close>: copy until \<^verbatim>\<open>n\<close> runs out or a NUL has been copied, then
  fill the rest with NUL. A negative \<^verbatim>\<open>n\<close> copies nothing.
\<close>

primrec fill_nul :: "memory \<Rightarrow> u64 \<Rightarrow> nat \<Rightarrow> memory" where
  "fill_nul m s 0 = m"
| "fill_nul m s (Suc n) = fill_nul (m(s := 0)) (s + 1) n"

primrec strncpy_loop :: "memory \<Rightarrow> u64 \<Rightarrow> u64 \<Rightarrow> nat \<Rightarrow> memory" where
  "strncpy_loop m s t 0 = m"
| "strncpy_loop m s t (Suc n) =
     (let m' = m(s := m t)
      in if m' s \<noteq> 0 then strncpy_loop m' (s + 1) (t + 1) n else fill_nul m' (s + 1) n)"

definition strncpy :: "memory \<Rightarrow> u64 \<Rightarrow> u64 \<Rightarrow> i32 \<Rightarrow> memory" where
  "strncpy m s t n = strncpy_loop m s t (nat (sint n))"

primrec safestrcpy_loop :: "memory \<Rightarrow> u64 \<Rightarrow> u64 \<Rightarrow> nat \<Rightarrow> memory" where
  "safestrcpy_loop m s t 0 = m(s := 0)"
| "safestrcpy_loop m s t (Suc n) =
     (let m' = m(s := m t)
      in if m' s \<noteq> 0 then safestrcpy_loop m' (s + 1) (t + 1) n else m'(s + 1 := 0))"

definition safestrcpy :: "memory \<Rightarrow> u64 \<Rightarrow> u64 \<Rightarrow> i32 \<Rightarrow> memory" where
  "safestrcpy m s t n = (if sint n \<le> 0 then m else safestrcpy_loop m s t (nat (sint n) - 1))"

text \<open>\<^verbatim>\<open>strlen\<close> does not return when no NUL follows: \<^term>\<open>None\<close>.\<close>

partial_function (option) strlen_loop :: "memory \<Rightarrow> u64 \<Rightarrow> i32 \<Rightarrow> i32 option" where
  "strlen_loop m s n = (if m (s + scast n) = 0 then Some n else strlen_loop m s (n + 1))"

definition strlen :: "memory \<Rightarrow> u64 \<Rightarrow> i32 option" where
  "strlen m s = strlen_loop m s 0"

text \<open>The C string held by a byte buffer: its bytes before the first NUL.\<close>

definition cstr :: "u8 list \<Rightarrow> u8 list" where
  "cstr bs = takeWhile (\<lambda>b. b \<noteq> 0) bs"

text \<open>One iteration of a copy loop, by the offset it handles.\<close>

definition copy_byte :: "u64 \<Rightarrow> u64 \<Rightarrow> nat \<Rightarrow> memory \<Rightarrow> memory" where
  "copy_byte d s i m = m(d + word_of_nat i := m (s + word_of_nat i))"

section \<open>Closed forms of loads, stores and copies\<close>

lemma fold_upd_apply:
  "n \<le> 2 ^ 64 \<Longrightarrow> fold (\<lambda>i m. m(a + word_of_nat i := f i)) [0..<n] m x =
     (if unat (x - a) < n then f (unat (x - (a :: u64))) else m x)"
proof (induction n)
  case 0
  then show ?case by simp
next
  case (Suc n)
  then have "n < 2 ^ 64" by simp
  then have "x = a + word_of_nat n \<longleftrightarrow> unat (x - a) = n" by (rule eq_add_of_nat_iff)
  then show ?case using Suc by (auto simp: fun_upd_apply)
qed

lemma memset_apply:
  "memset m dst c n x = (if unat (x - dst) < unat n then ucast c else m x)"
  unfolding memset_def by (rule fold_upd_apply [OF unat_u32_le])

lemma write_bytes_fold:
  "write_bytes m a bs = fold (\<lambda>i m. m(a + word_of_nat i := bs ! i)) [0..<length bs] m"
proof (induction bs arbitrary: m a)
  case Nil
  then show ?case by simp
next
  case (Cons b bs)
  have upt: "[0..<length (b # bs)] = 0 # map Suc [0..<length bs]"
    by (simp add: upt_conv_Cons map_Suc_upt del: upt_Suc)
  have "write_bytes m a (b # bs) =
      fold (\<lambda>i m. m((a + 1) + word_of_nat i := bs ! i)) [0..<length bs] (m(a := b))"
    by (simp only: write_bytes.simps Cons)
  then show ?case unfolding upt by (simp add: fold_map o_def add.assoc del: fun_upd_apply)
qed

lemma write_bytes_apply:
  "length bs \<le> 2 ^ 64 \<Longrightarrow>
     write_bytes m a bs x = (if unat (x - a) < length bs then bs ! unat (x - a) else m x)"
  unfolding write_bytes_fold by (rule fold_upd_apply)

lemma length_read_bytes [simp]: "length (read_bytes m a n) = n"
  by (simp add: read_bytes_def)

lemma nth_read_bytes [simp]: "i < n \<Longrightarrow> read_bytes m a n ! i = m (a + word_of_nat i)"
  by (simp add: read_bytes_def)

lemma read_bytes_cong:
  "(\<And>i. i < n \<Longrightarrow> m (a + word_of_nat i) = m' (a + word_of_nat i)) \<Longrightarrow>
     read_bytes m a n = read_bytes m' a n"
  by (simp add: read_bytes_def)

lemma read_write_bytes:
  "length bs \<le> 2 ^ 64 \<Longrightarrow> read_bytes (write_bytes m a bs) a (length bs) = bs"
  by (rule nth_equalityI) (simp_all add: write_bytes_apply unat_word_of_nat_u64)

lemma load64_cong:
  "(\<And>i. i < 8 \<Longrightarrow> m (a + word_of_nat i) = m' (a + word_of_nat i)) \<Longrightarrow> load64 m a = load64 m' a"
  unfolding load64_def by (simp cong: read_bytes_cong)

lemma load64_store64 [simp]: "load64 (store64 m a v) a = v"
proof -
  have "read_bytes (store64 m a v) a 8 = le_encode 8 (unat v)"
    unfolding store64_def using read_write_bytes [of "le_encode 8 (unat v)" m a] by simp
  moreover have "unat v mod 256 ^ 8 = unat v"
    using unat_u64_less [of v] by simp
  ultimately show ?thesis by (simp add: load64_def)
qed

lemma store64_apply:
  "store64 m a v x = (if unat (x - a) < 8 then le_encode 8 (unat v) ! unat (x - a) else m x)"
  unfolding store64_def by (subst write_bytes_apply) simp_all

lemma store64_other: "8 \<le> unat (x - a) \<Longrightarrow> store64 m a v x = m x"
  by (simp add: store64_apply)

lemma load64_store64_other:
  assumes "8 \<le> unat (b - a)" and "8 \<le> unat (a - b)"
  shows "load64 (store64 m a v) b = load64 m b"
proof (rule load64_cong, rule store64_other)
  fix i :: nat
  assume "i < 8"
  define d where "d = b - a"
  then have "unat (- d) \<ge> 8" and "8 \<le> unat d" using assms by simp_all
  then have "unat d + i < 2 ^ 64"
    using unat_neg_u64 [of d] unat_u64_less [of d] \<open>i < 8\<close> by (cases "d = 0") auto
  then have "unat (d + word_of_nat i) = unat d + i" by (rule unat_add_of_nat_u64)
  then have "8 \<le> unat (d + word_of_nat i)" using \<open>8 \<le> unat d\<close> by simp
  then show "8 \<le> unat (b + word_of_nat i - a)"
    by (simp add: d_def algebra_simps)
qed

text \<open>
  Both copy loops visit every offset below \<open>n\<close> once; a byte is copied unchanged as long
  as its source has not been overwritten earlier in the visiting order.
\<close>

lemma copy_seq_apply:
  assumes "set is \<subseteq> {..<2 ^ 64}"
    and "\<And>pre i post. is = pre @ i # post \<Longrightarrow> unat (s + word_of_nat i - d) \<notin> set pre"
  shows "fold (copy_byte d s) is m x =
     (if unat (x - d) \<in> set is then m (s + (x - d)) else m (x :: u64))"
  using assms
proof (induction "is" arbitrary: x rule: rev_induct)
  case Nil
  then show ?case by simp
next
  case (snoc j js)
  have IH: "fold (copy_byte d s) js m y =
      (if unat (y - d) \<in> set js then m (s + (y - d)) else m y)" for y
  proof (rule snoc.IH)
    show "set js \<subseteq> {..<2 ^ 64}" using snoc.prems(1) by simp
    show "unat (s + word_of_nat i - d) \<notin> set pre" if "js = pre @ i # post" for pre i post
      using snoc.prems(2) [of pre i "post @ [j]"] that by simp
  qed
  have j: "j < 2 ^ 64" using snoc.prems(1) by simp
  have "unat (s + word_of_nat j - d) \<notin> set js"
    using snoc.prems(2) [of js j "[]"] by simp
  moreover have "x = d + word_of_nat j \<longleftrightarrow> unat (x - d) = j"
    by (rule eq_add_of_nat_iff [OF j])
  ultimately show ?case
    by (cases "x = d + word_of_nat j") (auto simp: IH copy_byte_def [of d s j])
qed

lemma copy_up_fold:
  "copy_up m d s n = fold (copy_byte d s) [0..<n] m"
proof (induction n arbitrary: m d s)
  case 0
  then show ?case by simp
next
  case (Suc n)
  have upt: "[0..<Suc n] = 0 # map Suc [0..<n]"
    by (simp add: upt_conv_Cons map_Suc_upt del: upt_Suc)
  have "copy_byte (d + 1) (s + 1) i = copy_byte d s (Suc i)" for i
    by (simp add: copy_byte_def fun_eq_iff add.assoc)
  then show ?case unfolding upt
    by (simp add: Suc fold_map o_def copy_byte_def [of d s 0] fun_upd_def)
qed

lemma copy_down_fold:
  "copy_down m (d + word_of_nat n) (s + word_of_nat n) n =
     fold (copy_byte d s) (rev [0..<n]) m"
proof (induction n arbitrary: m)
  case 0
  then show ?case by simp
next
  case (Suc n)
  have "d + word_of_nat (Suc n) - 1 = d + word_of_nat n"
    and "s + word_of_nat (Suc n) - 1 = s + word_of_nat n" by simp_all
  then show ?case by (simp only: copy_down.simps Suc upt_Suc rev_append rev.simps fold.simps
      fold_append o_apply append.simps if_True le0 copy_byte_def [of d s n])
qed

lemma copy_up_apply:
  assumes "unat s + n < 2 ^ 64" and "unat d \<le> unat s \<or> unat s + n \<le> unat d"
  shows "copy_up m d s n x = (if unat (x - d) < n then m (s + (x - d)) else m x)"
proof -
  have "unat (s + word_of_nat i - d) \<notin> set pre" if "[0..<n] = pre @ i # post" for pre i post
  proof -
    have "i < n" using that by (metis atLeastLessThan_iff in_set_conv_decomp set_upt)
    moreover have "sorted_wrt (<) (pre @ i # post)"
      using that by (metis sorted_wrt_upt)
    then have "\<forall>j \<in> set pre. j < i" by (simp add: sorted_wrt_append)
    moreover have "i \<le> unat (s + word_of_nat i - d)"
      using assms \<open>i < n\<close> unat_u64_less [of d] by (subst unat_src_offset) auto
    ultimately show ?thesis by auto
  qed
  then show ?thesis
    unfolding copy_up_fold using assms(1) by (subst copy_seq_apply) auto
qed

lemma copy_down_apply:
  assumes "unat s + n < 2 ^ 64" and "unat s < unat d" and "unat d + n \<le> 2 ^ 64"
  shows "copy_down m (d + word_of_nat n) (s + word_of_nat n) n x =
    (if unat (x - d) < n then m (s + (x - d)) else m x)"
proof -
  have "unat (s + word_of_nat i - d) \<notin> set pre" if "rev [0..<n] = pre @ i # post" for pre i post
  proof -
    have "[0..<n] = rev post @ i # rev pre" using that
      by (metis append_Cons append_Nil append_assoc rev_append rev_rev_ident rev_singleton_conv)
    then have "sorted_wrt (<) (rev post @ i # rev pre)" and set: "set [0..<n] = set (rev post @ i # rev pre)"
      by (metis sorted_wrt_upt, metis)
    then have "\<forall>j \<in> set pre. i < j" by (simp add: sorted_wrt_append)
    moreover have "i < n" and "\<forall>j \<in> set pre. j < n"
      using set by auto
    moreover have "unat (s + word_of_nat i - d) \<le> i \<or> n \<le> unat (s + word_of_nat i - d)"
      using assms \<open>i < n\<close> unat_u64_less [of d] by (subst (1 2) unat_src_offset) auto
    ultimately show ?thesis by fastforce
  qed
  then show ?thesis
    unfolding copy_down_fold using assms(1) by (subst copy_seq_apply) auto
qed

lemma memmove_apply:
  assumes "unat src + unat n < 2 ^ 64" and "unat dst + unat n \<le> 2 ^ 64"
  shows "memmove m dst src n x =
    (if unat (x - dst) < unat n then m (src + (x - dst)) else m x)"
proof -
  have n: "ucast n = (word_of_nat (unat n) :: u64)"
    by simp
  have sum: "unat (src + ucast n) = unat src + unat n"
    unfolding n by (rule unat_add_of_nat_u64 [OF assms(1)])
  show ?thesis
  proof (cases "src < dst \<and> src + ucast n > dst")
    case True
    then have "n \<noteq> 0" by auto
    with True show ?thesis
      unfolding memmove_def using assms copy_down_apply [of src "unat n" dst]
      by (simp add: word_less_nat_alt)
  next
    case False
    then have "unat dst \<le> unat src \<or> unat src + unat n \<le> unat dst"
      by (auto simp: word_less_nat_alt sum)
    with False show ?thesis
      unfolding memmove_def using copy_up_apply [OF assms(1)] by auto
  qed
qed

lemma read_bytes_Suc: "read_bytes m a (Suc n) = m a # read_bytes m (a + 1) n"
proof -
  have "[0..<Suc n] = 0 # map Suc [0..<n]"
    by (simp add: upt_conv_Cons map_Suc_upt del: upt_Suc)
  then show ?thesis by (simp add: read_bytes_def add.assoc del: upt_Suc)
qed

lemma read_bytes_0 [simp]: "read_bytes m a 0 = []"
  by (simp add: read_bytes_def)

lemma memcmp_loop_eq_0: "memcmp_loop m s1 s2 n = 0 \<longleftrightarrow> read_bytes m s1 n = read_bytes m s2 n"
  by (induction n arbitrary: s1 s2) (auto simp: read_bytes_Suc word_uint_eq_iff)

lemma cstr_simps [simp]: "cstr [] = []" "cstr (b # bs) = (if b = 0 then [] else b # cstr bs)"
  by (simp_all add: cstr_def)

lemma strncmp_loop_eq_0:
  "strncmp_loop m p q n = 0 \<longleftrightarrow> cstr (read_bytes m p n) = cstr (read_bytes m q n)"
  by (induction n arbitrary: p q) (auto simp: read_bytes_Suc word_uint_eq_iff)

lemma strlen_loop_finds:
  assumes "m (s + word_of_nat (n + k)) = 0" and "\<forall>j<n + k. n \<le> j \<longrightarrow> m (s + word_of_nat j) \<noteq> 0"
    and "n + k < 2 ^ 31"
  shows "strlen_loop m s (word_of_nat n) = Some (word_of_nat (n + k))"
  using assms
proof (induction k arbitrary: n)
  case 0
  then show ?case by (simp add: strlen_loop.simps scast_word_of_nat)
next
  case (Suc k)
  have "m (s + word_of_nat n) \<noteq> 0" using Suc.prems(2) by simp
  moreover have "scast (word_of_nat n :: i32) = (word_of_nat n :: u64)"
    using Suc.prems(3) by (intro scast_word_of_nat) simp
  moreover have "strlen_loop m s (word_of_nat (Suc n)) = Some (word_of_nat (Suc n + k))"
    using Suc.prems by (intro Suc.IH) auto
  moreover have "word_of_nat n + 1 = (word_of_nat (Suc n) :: i32)" by simp
  ultimately show ?case by (subst strlen_loop.simps) (simp only: if_False add_Suc_right add_Suc)
qed

lemma strlen_eq:
  "m (s + word_of_nat k) = 0 \<Longrightarrow> \<forall>j<k. m (s + word_of_nat j) \<noteq> 0 \<Longrightarrow> k < 2 ^ 31 \<Longrightarrow>
     strlen m s = Some (word_of_nat k)"
  unfolding strlen_def using strlen_loop_finds [of m s 0 k] by simp

lemma safestrcpy_loop_outside:
  "n < 2 ^ 64 \<Longrightarrow> n < unat (x - s) \<Longrightarrow> safestrcpy_loop m s t n x = m x"
proof (induction n arbitrary: m s t)
  case 0
  then show ?case by auto
next
  case (Suc n)
  have "x \<noteq> s" using Suc.prems by auto
  then have u: "unat (x - (s + 1)) = unat (x - s) - 1"
    using unat_minus_one [of "x - s"] by (simp add: algebra_simps)
  then have "x \<noteq> s + 1" and "n < unat (x - (s + 1))" using Suc.prems by auto
  with \<open>x \<noteq> s\<close> show ?case using Suc by (auto simp: Let_def)
qed

lemma read_bytes_upd_other:
  "\<forall>i<n. a + word_of_nat i \<noteq> x \<Longrightarrow> read_bytes (m(x := v)) a n = read_bytes m a n"
  by (auto intro: read_bytes_cong)

lemma safestrcpy_loop_cstr:
  assumes "n < 2 ^ 63"
    and "\<forall>i\<le>n. \<forall>j\<le>n. s + word_of_nat i \<noteq> t + word_of_nat j"
  shows "cstr (read_bytes (safestrcpy_loop m s t n) s (Suc n)) = take n (cstr (read_bytes m t (Suc n)))"
  using assms
proof (induction n arbitrary: m s t)
  case 0
  then show ?case by (simp add: read_bytes_Suc)
next
  case (Suc n)
  let ?m' = "m(s := m t)"
  have "unat (s - (s + 1)) = 2 ^ 64 - 1" using unat_neg_u64 [of 1] by simp
  then have hd: "safestrcpy_loop ?m' (s + 1) (t + 1) n s = m t"
    using Suc.prems(1) by (subst safestrcpy_loop_outside) auto
  have disj: "s + 1 + word_of_nat i \<noteq> t + 1 + word_of_nat j" if "i \<le> n" "j \<le> n" for i j
    using Suc.prems(2) that by auto
  have IH: "cstr (read_bytes (safestrcpy_loop ?m' (s + 1) (t + 1) n) (s + 1) (Suc n)) =
      take n (cstr (read_bytes ?m' (t + 1) (Suc n)))"
    using Suc.prems(1) disj by (intro Suc.IH) auto
  have "t + 1 + word_of_nat j \<noteq> s" if "j \<le> n" for j
    using Suc.prems(2) [rule_format, of 0 "Suc j"] that by (auto simp: algebra_simps)
  then have rest: "read_bytes ?m' (t + 1) (Suc n) = read_bytes m (t + 1) (Suc n)"
    by (intro read_bytes_upd_other) auto
  show ?case
  proof (cases "m t = 0")
    case True
    then show ?thesis by (simp add: read_bytes_Suc [of _ s] read_bytes_Suc [of _ t] Let_def)
  next
    case False
    then show ?thesis using IH rest hd
      by (simp add: read_bytes_Suc [of _ s] read_bytes_Suc [of _ t] Let_def)
  qed
qed

end
