(* ===== verification/Xv6_Riscv.thy ===== *)
theory Xv6_Riscv
  imports Xv6_Prelude
begin

text \<open>
  Address arithmetic of \<^verbatim>\<open>kernel/riscv.h\<close> and \<^verbatim>\<open>kernel/memlayout.h\<close>: page rounding, the
  Sv39 page-table index of a virtual address, the packing of a physical address into a
  page-table entry, and the memory layout constants.
\<close>

section \<open>Constants and macros\<close>

abbreviation (input) PGSIZE :: u64 where "PGSIZE \<equiv> 4096"

abbreviation (input) KERNBASE :: u64 where "KERNBASE \<equiv> 0x80000000"

abbreviation (input) PHYSTOP :: u64 where "PHYSTOP \<equiv> 0x88000000"

abbreviation (input) MAXVA :: u64 where "MAXVA \<equiv> 0x4000000000"

abbreviation (input) TRAMPOLINE :: u64 where "TRAMPOLINE \<equiv> MAXVA - PGSIZE"

abbreviation (input) TRAPFRAME :: u64 where "TRAPFRAME \<equiv> TRAMPOLINE - PGSIZE"

definition KSTACK :: "nat \<Rightarrow> u64" where
  "KSTACK p = TRAMPOLINE - (word_of_nat p + 1) * 2 * PGSIZE"

abbreviation (input) UART0 :: u64 where "UART0 \<equiv> 0x10000000"

abbreviation (input) VIRTIO0 :: u64 where "VIRTIO0 \<equiv> 0x10001000"

abbreviation (input) PLIC :: u64 where "PLIC \<equiv> 0x0c000000"

definition PGROUNDUP :: "u64 \<Rightarrow> u64" where
  "PGROUNDUP sz = (sz + PGSIZE - 1) AND NOT (PGSIZE - 1)"

definition PGROUNDDOWN :: "u64 \<Rightarrow> u64" where
  "PGROUNDDOWN a = a AND NOT (PGSIZE - 1)"

abbreviation (input) PTE_V :: u64 where "PTE_V \<equiv> 1"
abbreviation (input) PTE_R :: u64 where "PTE_R \<equiv> 2"
abbreviation (input) PTE_W :: u64 where "PTE_W \<equiv> 4"
abbreviation (input) PTE_X :: u64 where "PTE_X \<equiv> 8"
abbreviation (input) PTE_U :: u64 where "PTE_U \<equiv> 16"

definition PA2PTE :: "u64 \<Rightarrow> u64" where
  "PA2PTE pa = push_bit 10 (drop_bit 12 pa)"

definition PTE2PA :: "u64 \<Rightarrow> u64" where
  "PTE2PA pte = push_bit 12 (drop_bit 10 pte)"

definition PTE_FLAGS :: "u64 \<Rightarrow> u64" where
  "PTE_FLAGS pte = pte AND 0x3FF"

definition PXSHIFT :: "nat \<Rightarrow> nat" where
  "PXSHIFT level = 12 + 9 * level"

definition PX :: "nat \<Rightarrow> u64 \<Rightarrow> u64" where
  "PX level va = drop_bit (PXSHIFT level) va AND 0x1FF"

definition MAKE_SATP :: "u64 \<Rightarrow> u64" where
  "MAKE_SATP pagetable = push_bit 60 8 OR drop_bit 12 pagetable"

section \<open>Page rounding\<close>

lemma mask_numerals: "(4095 :: u64) = mask 12" "(1023 :: u64) = mask 10" "(511 :: u64) = mask 9"
  by (simp_all add: mask_eq_exp_minus_1)

lemma and_not_mask_eq: "(a :: u64) AND NOT (mask n) = push_bit n (drop_bit n a)"
  by (rule bit_word_eqI) (auto simp: bit_simps)

lemma PGROUNDDOWN_eq: "PGROUNDDOWN a = push_bit 12 (drop_bit 12 a)"
  by (simp add: PGROUNDDOWN_def mask_numerals and_not_mask_eq)

lemma unat_drop_bit: "unat (drop_bit n (a :: u64)) = unat a div 2 ^ n"
proof -
  have "take_bit 64 (unat a) = unat a" using unat_u64_less [of a] by (rule take_bit_nat_eq_self)
  then have "unat (drop_bit n a) = drop_bit n (unat a)" by (simp add: unsigned_drop_bit_eq)
  then show ?thesis by (simp only: drop_bit_eq_div)
qed

lemma unat_push_drop: "unat (push_bit n (drop_bit n (a :: u64))) = unat a div 2 ^ n * 2 ^ n"
proof -
  have "unat (push_bit n (drop_bit n a)) = take_bit 64 (push_bit n (unat (drop_bit n a)))"
    by (simp add: unsigned_push_bit_eq)
  moreover have "unat a div 2 ^ n * 2 ^ n < 2 ^ 64"
    using unat_u64_less [of a] by (meson div_times_less_eq_dividend le_less_trans)
  ultimately show ?thesis
    by (simp only: unat_drop_bit push_bit_eq_mult take_bit_nat_eq_self)
qed

lemma unat_PGROUNDDOWN: "unat (PGROUNDDOWN a) = unat a div 4096 * 4096"
  by (simp add: PGROUNDDOWN_eq unat_push_drop)

lemma unat_PGROUNDUP:
  "unat sz + 4095 < 2 ^ 64 \<Longrightarrow> unat (PGROUNDUP sz) = (unat sz + 4095) div 4096 * 4096"
proof -
  assume a: "unat sz + 4095 < 2 ^ 64"
  have "PGROUNDUP sz = PGROUNDDOWN (sz + word_of_nat 4095)"
    by (simp add: PGROUNDUP_def PGROUNDDOWN_def algebra_simps)
  moreover have "unat (sz + word_of_nat 4095) = unat sz + 4095"
    by (rule unat_add_of_nat_u64 [OF a])
  ultimately show ?thesis by (simp add: unat_PGROUNDDOWN del: of_nat_numeral)
qed

definition page_aligned :: "u64 \<Rightarrow> bool" where
  "page_aligned a \<longleftrightarrow> a mod PGSIZE = 0"

lemma page_aligned_unat: "page_aligned a \<longleftrightarrow> unat a mod 4096 = 0"
  by (simp add: page_aligned_def word_unat_eq_iff unat_mod)

lemma page_aligned_PGROUNDDOWN [simp]: "page_aligned (PGROUNDDOWN a)"
  by (simp add: page_aligned_unat unat_PGROUNDDOWN)

lemma PGROUNDDOWN_aligned [simp]: "page_aligned a \<Longrightarrow> PGROUNDDOWN a = a"
  by (auto simp: page_aligned_unat word_unat_eq_iff unat_PGROUNDDOWN)

lemma page_aligned_PGROUNDUP [simp]: "page_aligned (PGROUNDUP a)"
  using page_aligned_PGROUNDDOWN [of "a + PGSIZE - 1"]
  by (simp add: PGROUNDUP_def PGROUNDDOWN_def)

section \<open>Page-table entries and indices\<close>

lemma unat_and_mask: "unat ((a :: u64) AND mask n) = unat a mod 2 ^ n"
proof -
  have "a AND mask n = take_bit n a" by (simp add: take_bit_eq_mask)
  then have "unat (a AND mask n) = take_bit n (unat a)" by (simp only: unsigned_take_bit_eq)
  then show ?thesis by (simp only: take_bit_eq_mod)
qed

lemma unat_PX: "unat (PX l va) = unat va div 2 ^ PXSHIFT l mod 512"
  by (simp add: PX_def mask_numerals unat_and_mask unat_drop_bit)

lemma PX_less: "unat (PX l va) < 512"
  by (simp add: unat_PX)

lemma page_aligned_low_bits: "page_aligned pa \<Longrightarrow> n < 12 \<Longrightarrow> \<not> bit pa n"
  by (metis PGROUNDDOWN_aligned PGROUNDDOWN_eq bit_push_bit_iff not_le)

lemma flags_high_bits: "flags AND NOT 0x3FF = (0 :: u64) \<Longrightarrow> 10 \<le> n \<Longrightarrow> \<not> bit flags n"
proof
  assume "flags AND NOT 0x3FF = (0 :: u64)" and n: "10 \<le> n" and b: "bit flags n"
  moreover have "bit (flags AND NOT 0x3FF :: u64) n"
    using n b bit_imp_le_length [OF b]
    by (simp add: mask_numerals bit_simps)
  ultimately show False by simp
qed

lemma PTE2PA_PA2PTE:
  assumes "page_aligned pa" and "flags AND NOT 0x3FF = 0"
  shows "PTE2PA (PA2PTE pa OR flags) = pa"
proof (rule bit_word_eqI)
  fix n
  assume n: "n < LENGTH(64)"
  show "bit (PTE2PA (PA2PTE pa OR flags)) n = bit pa n"
  proof (cases "n < 12")
    case True
    then show ?thesis
      using page_aligned_low_bits [OF assms(1)] by (simp add: PTE2PA_def bit_simps)
  next
    case False
    moreover have "\<not> bit flags (10 + (n - 12))" by (rule flags_high_bits [OF assms(2)]) simp
    moreover have "bit (PA2PTE pa) (10 + (n - 12)) = bit pa n"
      using False n by (auto simp: PA2PTE_def bit_simps)
    ultimately show ?thesis using n
      by (simp add: PTE2PA_def bit_simps del: diff_Suc_Suc)
  qed
qed

lemma PTE_FLAGS_PA2PTE:
  assumes "flags AND NOT 0x3FF = 0"
  shows "PTE_FLAGS (PA2PTE pa OR flags) = flags"
proof (rule bit_word_eqI)
  fix n
  assume n: "n < LENGTH(64)"
  then show "bit (PTE_FLAGS (PA2PTE pa OR flags)) n = bit flags n"
    using flags_high_bits [OF assms, of n]
    by (cases "n < 10") (auto simp: PTE_FLAGS_def PA2PTE_def mask_numerals bit_simps)
qed

lemma page_aligned_PTE2PA [simp]: "page_aligned (PTE2PA pte)"
proof -
  have "PTE2PA pte = PGROUNDDOWN (PTE2PA pte)"
    unfolding PGROUNDDOWN_eq PTE2PA_def by (rule bit_word_eqI) (auto simp: bit_simps)
  then show ?thesis by (metis page_aligned_PGROUNDDOWN)
qed

end
