(* ===== verification/Xv6_Kalloc.thy ===== *)
theory Xv6_Kalloc
  imports Xv6_Mem Xv6_Riscv
begin

text \<open>
  The physical page allocator, \<^verbatim>\<open>kernel/kalloc.c\<close>. Free pages are threaded into a list
  through their own first eight bytes (\<^verbatim>\<open>struct run\<close>); \<^verbatim>\<open>kmem.freelist\<close> points at the first.
  \<^verbatim>\<open>end\<close> is the first address after the kernel image, a constant of the linked kernel, kept
  in the state record. The spin lock \<^verbatim>\<open>kmem.lock\<close> makes each body one atomic step.
\<close>

section \<open>State and operations\<close>

record kmem =
  mem :: memory
  freelist :: u64
  kend :: u64

definition kfree :: "u64 \<Rightarrow> kmem \<Rightarrow> kmem outcome" where
  "kfree pa s =
     (if pa mod PGSIZE \<noteq> 0 \<or> pa < kend s \<or> pa \<ge> PHYSTOP then Panic ''kfree''
      else let m1 = memset (mem s) pa 1 4096;
               m2 = store64 m1 pa (freelist s)
           in Ok (s\<lparr>mem := m2, freelist := pa\<rparr>))"

definition kalloc :: "kmem \<Rightarrow> u64 \<times> kmem" where
  "kalloc s =
     (let r = freelist s;
          s1 = (if r \<noteq> 0 then s\<lparr>freelist := load64 (mem s) r\<rparr> else s)
      in if r \<noteq> 0 then (r, s1\<lparr>mem := memset (mem s1) r 5 4096\<rparr>) else (r, s1))"

text \<open>
  \<^verbatim>\<open>freerange\<close>: the loop runs while \<^verbatim>\<open>p + PGSIZE <= pa_end\<close>; the pointer addition is taken
  without wrap-around, as for valid C pointers.
\<close>

function freerange_loop :: "u64 \<Rightarrow> u64 \<Rightarrow> kmem \<Rightarrow> kmem outcome" where
  "freerange_loop p pa_end s =
     (if unat p + 4096 \<le> unat pa_end
      then obind (kfree p s) (freerange_loop (p + PGSIZE) pa_end)
      else Ok s)"
  by pat_completeness auto
termination
proof (relation "measure (\<lambda>(p, pa_end, s). unat pa_end - unat p)")
  show "wf (measure (\<lambda>(p :: u64, pa_end :: u64, s :: kmem). unat pa_end - unat p))" by simp
next
  fix p pa_end :: u64 and s s' :: kmem
  assume le: "unat p + 4096 \<le> unat pa_end"
  then have "unat p + 4096 < 2 ^ 64" using unat_u64_less [of pa_end] by simp
  then have "unat (p + word_of_nat 4096) = unat p + 4096" by (rule unat_add_of_nat_u64)
  with le show "((p + PGSIZE, pa_end, s'), p, pa_end, s) \<in> measure (\<lambda>(p, pa_end, s). unat pa_end - unat p)"
    by simp
qed

declare freerange_loop.simps [simp del]

definition freerange :: "u64 \<Rightarrow> u64 \<Rightarrow> kmem \<Rightarrow> kmem outcome" where
  "freerange pa_start pa_end s = freerange_loop (PGROUNDUP pa_start) pa_end s"

definition kinit :: "kmem \<Rightarrow> kmem outcome" where
  "kinit s = freerange (kend s) PHYSTOP s"

partial_function (option) get_freemem_loop :: "memory \<Rightarrow> u64 \<Rightarrow> i32 \<Rightarrow> i32 option" where
  "get_freemem_loop m p freemem =
     (if p \<noteq> 0 then get_freemem_loop m (load64 m p) (freemem + 4096) else Some freemem)"

definition get_freemem :: "kmem \<Rightarrow> i32 option" where
  "get_freemem s = get_freemem_loop (mem s) (freelist s) 0"

section \<open>Pages of memory\<close>

lemma page_aligned_le: "page_aligned p \<Longrightarrow> unat p + 4096 \<le> 2 ^ 64"
proof -
  assume "page_aligned p"
  then obtain k where k: "unat p = 4096 * k"
    by (auto simp: page_aligned_unat mod_eq_0_iff_dvd elim: dvdE)
  then have "4096 * k < 4096 * 2 ^ 52" using unat_u64_less [of p] by simp
  then have "Suc k \<le> 2 ^ 52" by simp
  then have "4096 * Suc k \<le> 4096 * 2 ^ 52" by (rule mult_le_mono2)
  then show ?thesis using k by simp
qed

lemma unat_diff_page: "unat (x - p) < 4096 \<Longrightarrow> page_aligned p \<Longrightarrow> unat x = unat p + unat (x - p)"
proof -
  assume a: "unat (x - p) < 4096" "page_aligned p"
  then have "unat p + unat (x - p) < 2 ^ 64" using page_aligned_le [of p] by simp
  then have "unat (p + word_of_nat (unat (x - p))) = unat p + unat (x - p)"
    by (rule unat_add_of_nat_u64)
  then show ?thesis by simp
qed

lemma in_page_iff: "page_aligned p \<Longrightarrow> unat (x - p) < 4096 \<longleftrightarrow> PGROUNDDOWN x = p"
proof
  assume p: "page_aligned p"
  show "PGROUNDDOWN x = p" if "unat (x - p) < 4096"
  proof -
    obtain k where "unat p = 4096 * k"
      using p by (auto simp: page_aligned_unat mod_eq_0_iff_dvd elim: dvdE)
    then show ?thesis using unat_diff_page [OF that p] that
      by (simp add: word_unat_eq_iff [of "PGROUNDDOWN x"] unat_PGROUNDDOWN)
  qed
  show "unat (x - p) < 4096" if "PGROUNDDOWN x = p"
  proof -
    have "unat p = unat x div 4096 * 4096" using that unat_PGROUNDDOWN by metis
    then show ?thesis using unat_sub_if' [of x p] by (simp add: minus_div_mult_eq_mod) 
  qed
qed

lemma PGROUNDDOWN_offset:
  "page_aligned p \<Longrightarrow> k < 4096 \<Longrightarrow> PGROUNDDOWN (p + word_of_nat k) = p"
  using in_page_iff [of p "p + word_of_nat k"] by (simp add: unat_word_of_nat_u64)

definition pages_eq :: "u64 set \<Rightarrow> memory \<Rightarrow> memory \<Rightarrow> bool" where
  "pages_eq P m m' \<longleftrightarrow> (\<forall>x. PGROUNDDOWN x \<in> P \<longrightarrow> m x = m' x)"

lemma pages_eq_refl [simp]: "pages_eq P m m"
  by (simp add: pages_eq_def)

lemma pages_eq_trans: "pages_eq P m m' \<Longrightarrow> pages_eq Q m' m'' \<Longrightarrow> pages_eq (P \<inter> Q) m m''"
  by (simp add: pages_eq_def)

lemma pages_eq_mono: "pages_eq P m m' \<Longrightarrow> Q \<subseteq> P \<Longrightarrow> pages_eq Q m m'"
  by (auto simp: pages_eq_def)

lemma pages_eqD: "pages_eq P m m' \<Longrightarrow> PGROUNDDOWN x \<in> P \<Longrightarrow> m x = m' x"
  by (simp add: pages_eq_def)

lemma pages_eq_memset: "page_aligned p \<Longrightarrow> pages_eq (- {p}) m (memset m p c 4096)"
  by (auto simp: pages_eq_def memset_apply in_page_iff)

lemma pages_eq_store64:
  "page_aligned p \<Longrightarrow> k + 8 \<le> 4096 \<Longrightarrow> pages_eq (- {p}) m (store64 m (p + word_of_nat k) v)"
proof -
  assume p: "page_aligned p" and k: "k + 8 \<le> 4096"
  have "PGROUNDDOWN x = p" if "unat (x - (p + word_of_nat k)) < 8" for x
  proof -
    define j where "j = unat (x - (p + word_of_nat k))"
    have "x = p + word_of_nat k + word_of_nat j" by (simp add: j_def)
    then have "x = p + word_of_nat (k + j)" by (simp add: add.assoc)
    moreover have "k + j < 4096" using that k by (simp add: j_def)
    ultimately show ?thesis using PGROUNDDOWN_offset [OF p] by (simp only:)
  qed
  then show ?thesis by (auto simp: pages_eq_def store64_apply)
qed

lemma load64_pages_eq:
  assumes "pages_eq P m m'" and "page_aligned p" and "p \<in> P" and "k + 8 \<le> 4096"
  shows "load64 m (p + word_of_nat k) = load64 m' (p + word_of_nat k)"
proof (rule load64_cong)
  fix i :: nat
  assume "i < 8"
  then have "PGROUNDDOWN (p + word_of_nat (k + i)) = p"
    using assms by (intro PGROUNDDOWN_offset) auto
  then show "m (p + word_of_nat k + word_of_nat i) = m' (p + word_of_nat k + word_of_nat i)"
    using assms(1,3) by (simp add: pages_eq_def add.assoc)
qed

lemma load64_page_start:
  "pages_eq P m m' \<Longrightarrow> page_aligned p \<Longrightarrow> p \<in> P \<Longrightarrow> load64 m p = load64 m' p"
  using load64_pages_eq [of P m m' p 0] by simp

section \<open>The free list and its invariant\<close>

primrec run_list :: "memory \<Rightarrow> u64 \<Rightarrow> u64 list \<Rightarrow> bool" where
  "run_list m r [] \<longleftrightarrow> r = 0"
| "run_list m r (p # ps) \<longleftrightarrow> r = p \<and> p \<noteq> 0 \<and> run_list m (load64 m p) ps"

definition ram_page :: "kmem \<Rightarrow> u64 \<Rightarrow> bool" where
  "ram_page s p \<longleftrightarrow> page_aligned p \<and> kend s \<le> p \<and> p < PHYSTOP"

definition kmem_inv :: "kmem \<Rightarrow> u64 list \<Rightarrow> bool" where
  "kmem_inv s ps \<longleftrightarrow>
     KERNBASE \<le> kend s \<and> distinct ps \<and> (\<forall>p \<in> set ps. ram_page s p) \<and>
     run_list (mem s) (freelist s) ps"

lemma run_list_unique: "run_list m r ps \<Longrightarrow> run_list m r qs \<Longrightarrow> ps = qs"
proof (induction ps arbitrary: r qs)
  case Nil
  then show ?case by (cases qs) auto
next
  case (Cons p ps)
  then show ?case by (cases qs) auto
qed

lemma run_list_pages_eq:
  "pages_eq P m m' \<Longrightarrow> set ps \<subseteq> P \<Longrightarrow> \<forall>p \<in> set ps. page_aligned p \<Longrightarrow>
     run_list m r ps \<Longrightarrow> run_list m' r ps"
  by (induction ps arbitrary: r) (auto simp: load64_page_start)

lemma ram_page_nonzero: "ram_page s p \<Longrightarrow> KERNBASE \<le> kend s \<Longrightarrow> p \<noteq> 0"
  by (auto simp: ram_page_def word_le_nat_alt)

lemma kmem_inv_pages_eq:
  assumes "kmem_inv s ps" and "pages_eq P (mem s) m'" and "set ps \<subseteq> P"
  shows "kmem_inv (s\<lparr>mem := m'\<rparr>) ps"
  using assms run_list_pages_eq [OF assms(2,3)] by (auto simp: kmem_inv_def ram_page_def)

lemma kfree_ok:
  assumes "kmem_inv s ps" and "ram_page s pa" and "pa \<notin> set ps"
  obtains s' where "kfree pa s = Ok s'" and "kmem_inv s' (pa # ps)"
    and "pages_eq (- {pa}) (mem s) (mem s')" and "kend s' = kend s"
proof -
  let ?m1 = "memset (mem s) pa 1 4096"
  let ?m2 = "store64 ?m1 pa (freelist s)"
  let ?s' = "s\<lparr>mem := ?m2, freelist := pa\<rparr>"
  have al: "page_aligned pa" using assms(2) by (simp add: ram_page_def)
  have fr: "pages_eq (- {pa}) (mem s) ?m2"
    using pages_eq_trans [OF pages_eq_memset [OF al] pages_eq_store64 [OF al, of 0]] by simp
  have "kfree pa s = Ok ?s'"
    using assms(2) by (auto simp: kfree_def ram_page_def page_aligned_def Let_def)
  moreover have "run_list ?m2 (freelist s) ps"
    using run_list_pages_eq [OF fr] assms by (auto simp: kmem_inv_def ram_page_def)
  then have "kmem_inv ?s' (pa # ps)"
    using assms ram_page_nonzero [OF assms(2)] by (auto simp: kmem_inv_def ram_page_def)
  ultimately show ?thesis using that fr by simp
qed

lemma kalloc_empty: "kmem_inv s [] \<Longrightarrow> kalloc s = (0, s)"
  by (simp add: kmem_inv_def kalloc_def)

lemma kalloc_ok:
  assumes "kmem_inv s (p # ps)"
  obtains s' where "kalloc s = (p, s')" and "kmem_inv s' ps"
    and "pages_eq (- {p}) (mem s) (mem s')" and "kend s' = kend s"
    and "\<forall>x. PGROUNDDOWN x = p \<longrightarrow> mem s' x = 5"
proof -
  let ?m = "memset (mem s) p 5 4096"
  let ?s' = "s\<lparr>freelist := load64 (mem s) p, mem := ?m\<rparr>"
  have al: "page_aligned p" and p: "p \<noteq> 0" "freelist s = p"
    using assms by (auto simp: kmem_inv_def ram_page_def)
  have fr: "pages_eq (- {p}) (mem s) ?m" by (rule pages_eq_memset [OF al])
  have "kmem_inv (s\<lparr>freelist := load64 (mem s) p\<rparr>) ps"
    using assms by (auto simp: kmem_inv_def ram_page_def)
  then have "kmem_inv ?s' ps"
    using kmem_inv_pages_eq [of "s\<lparr>freelist := load64 (mem s) p\<rparr>" ps "- {p}" ?m] fr assms
    by (auto simp: kmem_inv_def)
  moreover have "kalloc s = (p, ?s')" using p by (simp add: kalloc_def)
  moreover have "?m x = 5" if "PGROUNDDOWN x = p" for x
    using that al by (simp add: memset_apply in_page_iff)
  ultimately show ?thesis using that [of ?s'] fr by simp
qed

definition avail :: "kmem \<Rightarrow> u64 set" where
  "avail s = {p. \<exists>ps. run_list (mem s) (freelist s) ps \<and> p \<in> set ps}"

definition kmem_ok :: "kmem \<Rightarrow> bool" where
  "kmem_ok s \<longleftrightarrow> (\<exists>ps. kmem_inv s ps)"

lemma avail_eq: "kmem_inv s ps \<Longrightarrow> avail s = set ps"
  by (auto simp: avail_def kmem_inv_def dest: run_list_unique)

lemma kmem_okI [intro]: "kmem_inv s ps \<Longrightarrow> kmem_ok s"
  by (auto simp: kmem_ok_def)

lemma kmem_okE:
  assumes "kmem_ok s" obtains ps where "kmem_inv s ps" and "avail s = set ps"
  using assms avail_eq by (auto simp: kmem_ok_def)

section \<open>The allocator interface\<close>

text \<open>
  What the clients of the allocator rely on: a pool of free frames, from which
  allocation takes one frame (or none when the pool is empty) and to which freeing adds
  one, each touching the bytes of that frame only.
\<close>

locale page_allocator =
  fixes alloc :: "'s \<Rightarrow> u64 \<times> 's"
    and free :: "u64 \<Rightarrow> 's \<Rightarrow> 's outcome"
    and inv :: "'s \<Rightarrow> bool"
    and pool :: "'s \<Rightarrow> u64 set"
    and bytes :: "'s \<Rightarrow> memory"
    and frame :: "'s \<Rightarrow> u64 \<Rightarrow> bool"
  assumes pool_finite: "inv s \<Longrightarrow> finite (pool s)"
    and pool_frame: "inv s \<Longrightarrow> p \<in> pool s \<Longrightarrow> frame s p"
    and frame_nonzero: "inv s \<Longrightarrow> frame s p \<Longrightarrow> p \<noteq> 0"
    and alloc_none: "inv s \<Longrightarrow> pool s = {} \<Longrightarrow> alloc s = (0, s)"
    and alloc_some: "inv s \<Longrightarrow> pool s \<noteq> {} \<Longrightarrow> alloc s = (p, s') \<Longrightarrow>
      inv s' \<and> p \<in> pool s \<and> pool s' = pool s - {p} \<and> frame s' = frame s \<and>
      pages_eq (- {p}) (bytes s) (bytes s')"
    and free_some: "inv s \<Longrightarrow> frame s p \<Longrightarrow> p \<notin> pool s \<Longrightarrow>
      \<exists>s'. free p s = Ok s' \<and> inv s' \<and> pool s' = insert p (pool s) \<and> frame s' = frame s \<and>
        pages_eq (- {p}) (bytes s) (bytes s')"
begin

lemma alloc_cases:
  assumes "inv s" and "alloc s = (p, s')"
  obtains (none) "p = 0" and "s' = s" and "pool s = {}"
  | (some) "p \<noteq> 0" and "frame s p" and "inv s'" and "p \<in> pool s" and "pool s' = pool s - {p}"
      and "frame s' = frame s" and "pages_eq (- {p}) (bytes s) (bytes s')"
proof (cases "pool s = {}")
  case True
  then show ?thesis using none assms alloc_none [OF assms(1)] by simp
next
  case False
  then have "inv s' \<and> p \<in> pool s \<and> pool s' = pool s - {p} \<and> frame s' = frame s \<and>
      pages_eq (- {p}) (bytes s) (bytes s')"
    using alloc_some assms by blast
  then show ?thesis using some pool_frame frame_nonzero assms(1) by blast
qed

lemma alloc_inv: "inv s \<Longrightarrow> alloc s = (p, s') \<Longrightarrow> inv s'"
  by (rule alloc_cases [of s p s']) auto

lemma alloc_zero_iff: "inv s \<Longrightarrow> alloc s = (p, s') \<Longrightarrow> p = 0 \<longleftrightarrow> pool s = {}"
  by (erule (1) alloc_cases) auto

lemma alloc_owned:
  assumes "inv s" and "alloc s = (p, s')" and "U \<inter> pool s = {}"
  shows "p \<notin> U \<or> p = 0" and "U \<inter> pool s' = {}" and "pages_eq U (bytes s) (bytes s')"
proof -
  show "p \<notin> U \<or> p = 0" by (rule alloc_cases [OF assms(1,2)]) (use assms in auto)
  show "U \<inter> pool s' = {}" by (rule alloc_cases [OF assms(1,2)]) (use assms in auto)
  show "pages_eq U (bytes s) (bytes s')"
    by (rule alloc_cases [OF assms(1,2)]) (use assms in \<open>auto elim!: pages_eq_mono\<close>)
qed

lemma alloc_card:
  assumes "inv s" and "alloc s = (p, s')" and "p \<noteq> 0"
  shows "card (pool s) = Suc (card (pool s'))"
  by (rule alloc_cases [OF assms(1,2)])
    (use assms(3) pool_finite [OF assms(1)] card_Suc_Diff1 [of "pool s" p] in auto)

lemma alloc_free:
  assumes "inv s" and "alloc s = (p, s')" and "p \<noteq> 0"
  obtains s'' where "free p s' = Ok s''" and "inv s''" and "pool s'' = pool s"
    and "pages_eq (- {p}) (bytes s) (bytes s'')"
  using assms(1,2)
proof (cases rule: alloc_cases)
  case none
  then show ?thesis using assms(3) by simp
next
  case some
  then obtain s'' where "free p s' = Ok s''" "inv s''" "pool s'' = insert p (pool s')"
    "pages_eq (- {p}) (bytes s') (bytes s'')"
    using free_some [of s' p] by auto
  moreover from this some have "pages_eq (- {p}) (bytes s) (bytes s'')"
    using pages_eq_trans by fastforce
  ultimately show ?thesis using that some by auto
qed

end

lemma kmem_ok_KERNBASE: "kmem_ok s \<Longrightarrow> KERNBASE \<le> kend s"
  by (auto simp: kmem_ok_def kmem_inv_def)

interpretation ka: page_allocator kalloc kfree kmem_ok avail mem ram_page
proof unfold_locales
  fix s :: kmem and p :: u64
  assume "kmem_ok s"
  then show "finite (avail s)" by (auto elim: kmem_okE)
  show "ram_page s p" if "p \<in> avail s"
    using that \<open>kmem_ok s\<close> by (auto elim!: kmem_okE simp: kmem_inv_def)
  show "p \<noteq> 0" if "ram_page s p"
    using ram_page_nonzero [OF that kmem_ok_KERNBASE [OF \<open>kmem_ok s\<close>]] .
  show "kalloc s = (0, s)" if "avail s = {}"
    using that \<open>kmem_ok s\<close> by (auto elim!: kmem_okE simp: kalloc_empty)
next
  fix s s' :: kmem and p :: u64
  assume "kmem_ok s" and ne: "avail s \<noteq> {}" and al: "kalloc s = (p, s')"
  then obtain q qs where inv: "kmem_inv s (q # qs)"
    by (metis kmem_okE list.exhaust set_empty)
  obtain t where "kalloc s = (q, t)" "kmem_inv t qs" "pages_eq (- {q}) (mem s) (mem t)"
    "kend t = kend s"
    by (rule kalloc_ok [OF inv])
  then show "kmem_ok s' \<and> p \<in> avail s \<and> avail s' = avail s - {p} \<and> ram_page s' = ram_page s \<and>
      pages_eq (- {p}) (mem s) (mem s')"
    using al avail_eq [OF inv] avail_eq [of t qs] inv
    by (auto simp: ram_page_def kmem_inv_def fun_eq_iff)
next
  fix s :: kmem and p :: u64
  assume "kmem_ok s" and fr: "ram_page s p" and np: "p \<notin> avail s"
  then obtain ps where inv: "kmem_inv s ps" and "avail s = set ps" by (auto elim: kmem_okE)
  with np have "p \<notin> set ps" by simp
  obtain s' where "kfree p s = Ok s'" "kmem_inv s' (p # ps)"
    "pages_eq (- {p}) (mem s) (mem s')" "kend s' = kend s"
    by (rule kfree_ok [OF inv fr \<open>p \<notin> set ps\<close>])
  then show "\<exists>s'. kfree p s = Ok s' \<and> kmem_ok s' \<and> avail s' = insert p (avail s) \<and>
      ram_page s' = ram_page s \<and> pages_eq (- {p}) (mem s) (mem s')"
    using avail_eq [of s' "p # ps"] \<open>avail s = set ps\<close>
    by (auto simp: ram_page_def fun_eq_iff)
qed

section \<open>Counting free memory\<close>

lemma get_freemem_loop_eq:
  "run_list m r ps \<Longrightarrow> get_freemem_loop m r f = Some (f + word_of_nat (4096 * length ps))"
proof (induction ps arbitrary: r f)
  case Nil
  then show ?case by (simp add: get_freemem_loop.simps)
next
  case (Cons p ps)
  then have "get_freemem_loop m r f = get_freemem_loop m (load64 m p) (f + 4096)"
    by (subst get_freemem_loop.simps) simp
  then show ?case using Cons by simp
qed

lemma ram_page_range:
  "ram_page s p \<Longrightarrow> KERNBASE \<le> kend s \<Longrightarrow> 0x80000000 \<le> unat p \<and> unat p < 0x88000000"
  by (auto simp: ram_page_def word_le_nat_alt word_less_nat_alt)

lemma card_avail_le: "kmem_ok s \<Longrightarrow> card (avail s) \<le> 32768"
proof -
  assume ok: "kmem_ok s"
  let ?f = "\<lambda>p. (unat p - 0x80000000) div 4096"
  have r: "0x80000000 \<le> unat p \<and> unat p < 0x88000000 \<and> unat p mod 4096 = 0" if "p \<in> avail s" for p
    using ka.pool_frame [OF ok that] ram_page_range [OF _ kmem_ok_KERNBASE [OF ok]]
    by (auto simp: ram_page_def page_aligned_unat)
  have "inj_on ?f (avail s)"
  proof (rule inj_onI)
    fix p q
    assume "p \<in> avail s" "q \<in> avail s" "?f p = ?f q"
    moreover obtain i j where "unat p = 4096 * i" "unat q = 4096 * j"
      using r [of p] r [of q] calculation by (meson dvdE mod_eq_0_iff_dvd)
    moreover have "4096 * k - 2147483648 = 4096 * (k - 524288)" for k :: nat by simp
    ultimately show "p = q" using r [of p] r [of q] by (auto simp: word_unat_eq_iff)
  qed
  moreover have "?f ` avail s \<subseteq> {..<32768}" using r by fastforce
  ultimately have "card (avail s) \<le> card {..<32768 :: nat}" by (metis card_inj_on_le finite_lessThan)
  then show ?thesis by simp
qed

lemma get_freemem_eq:
  assumes "kmem_ok s"
  shows "get_freemem s = Some (word_of_nat (4096 * card (avail s)))"
proof -
  obtain ps where inv: "kmem_inv s ps" and "avail s = set ps" by (rule kmem_okE [OF assms])
  then have "card (avail s) = length ps"
    by (simp add: kmem_inv_def distinct_card)
  then show ?thesis
    using get_freemem_loop_eq [of "mem s" "freelist s" ps 0] inv
    by (simp add: get_freemem_def kmem_inv_def)
qed

section \<open>Booting the allocator\<close>

lemma freerange_loop_ok:
  assumes "kmem_inv s ps" and "page_aligned p" and "kend s \<le> p" and "unat p \<le> unat PHYSTOP"
    and "\<forall>q \<in> set ps. unat q < unat p"
  shows "\<exists>s' qs. freerange_loop p PHYSTOP s = Ok s' \<and> kmem_inv s' qs \<and> kend s' = kend s \<and>
    set qs = set ps \<union> {q. page_aligned q \<and> p \<le> q \<and> q < PHYSTOP}"
  using assms
proof (induction p PHYSTOP s arbitrary: ps rule: freerange_loop.induct)
  case (1 p s)
  obtain k where k: "unat p = 4096 * k"
    using 1(3) by (auto simp: page_aligned_unat mod_eq_0_iff_dvd elim: dvdE)
  show ?case
  proof (cases "unat p + 4096 \<le> unat PHYSTOP")
    case False
    then have "unat p = unat PHYSTOP" using 1(5) k by simp
    then show ?thesis
      using False 1(2) by (subst freerange_loop.simps) (auto simp: word_le_nat_alt word_less_nat_alt)
  next
    case True
    then have lt: "p < PHYSTOP" by (simp add: word_less_nat_alt)
    have fr: "ram_page s p" using 1(3,4) lt by (simp add: ram_page_def)
    have "p \<notin> set ps" using 1(6) by auto
    then obtain s1 where s1: "kfree p s = Ok s1" "kmem_inv s1 (p # ps)" "kend s1 = kend s"
      using kfree_ok [OF 1(2) fr] by metis
    have up: "unat (p + PGSIZE) = unat p + 4096"
      using unat_add_of_nat_u64 [of p 4096] True by simp
    have "\<exists>s' qs. freerange_loop (p + PGSIZE) PHYSTOP s1 = Ok s' \<and> kmem_inv s' qs \<and> kend s' = kend s1 \<and>
        set qs = set (p # ps) \<union> {q. page_aligned q \<and> p + PGSIZE \<le> q \<and> q < PHYSTOP}"
    proof (rule "1.hyps" [OF True s1(1,2)])
      show "page_aligned (p + PGSIZE)" using k up by (simp add: page_aligned_unat)
      show "kend s1 \<le> p + PGSIZE" using 1(4) s1(3) up by (simp add: word_le_nat_alt)
      show "unat (p + PGSIZE) \<le> unat PHYSTOP" using True up by simp
      show "\<forall>q \<in> set (p # ps). unat q < unat (p + PGSIZE)" using 1(6) up by auto
    qed
    then obtain s' qs where fl: "freerange_loop (p + PGSIZE) PHYSTOP s1 = Ok s'" "kmem_inv s' qs"
      "kend s' = kend s1"
      "set qs = set (p # ps) \<union> {q. page_aligned q \<and> p + PGSIZE \<le> q \<and> q < PHYSTOP}"
      by blast
    have "page_aligned q \<and> p \<le> q \<and> q < PHYSTOP \<longleftrightarrow>
        q = p \<or> page_aligned q \<and> p + PGSIZE \<le> q \<and> q < PHYSTOP" for q
    proof (cases "page_aligned q")
      case True
      then obtain j where "unat q = 4096 * j"
        by (auto simp: page_aligned_unat mod_eq_0_iff_dvd elim: dvdE)
      then show ?thesis using k up lt 1(3) True
        by (auto simp: word_le_nat_alt word_less_nat_alt word_unat_eq_iff)
    qed (use 1(3) in auto)
    then have "set qs = set ps \<union> {q. page_aligned q \<and> p \<le> q \<and> q < PHYSTOP}"
      using fl(4) by auto
    then show ?thesis using True s1 fl by (subst freerange_loop.simps) auto
  qed
qed

lemma PGROUNDUP_least:
  assumes "unat a + 4095 < 2 ^ 64" and "page_aligned q"
  shows "a \<le> q \<longleftrightarrow> PGROUNDUP a \<le> q"
proof -
  obtain j where "unat q = 4096 * j"
    using assms(2) by (auto simp: page_aligned_unat mod_eq_0_iff_dvd elim: dvdE)
  then show ?thesis using unat_PGROUNDUP [OF assms(1)]
    by (simp add: word_le_nat_alt) linarith
qed

lemma kinit_ok:
  assumes "KERNBASE \<le> kend s" and "kend s \<le> PHYSTOP" and "freelist s = 0"
  shows "\<exists>s'. kinit s = Ok s' \<and> kmem_ok s' \<and> avail s' = {p. ram_page s p}"
proof -
  have b: "unat (kend s) + 4095 < 2 ^ 64"
    using assms(2) by (simp add: word_le_nat_alt)
  have inv: "kmem_inv s []" using assms by (simp add: kmem_inv_def)
  have "\<exists>s' qs. freerange_loop (PGROUNDUP (kend s)) PHYSTOP s = Ok s' \<and> kmem_inv s' qs \<and>
      kend s' = kend s \<and>
      set qs = set [] \<union> {q. page_aligned q \<and> PGROUNDUP (kend s) \<le> q \<and> q < PHYSTOP}"
  proof (rule freerange_loop_ok [OF inv])
    show "kend s \<le> PGROUNDUP (kend s)" using PGROUNDUP_least [OF b] by simp
    have "page_aligned PHYSTOP" by (simp add: page_aligned_unat)
    then show "unat (PGROUNDUP (kend s)) \<le> unat PHYSTOP"
      using PGROUNDUP_least [OF b, of PHYSTOP] assms(2) by (simp add: word_le_nat_alt)
  qed simp_all
  then obtain s' qs where "kinit s = Ok s'" and inv': "kmem_inv s' qs"
    and "set qs = {q. page_aligned q \<and> PGROUNDUP (kend s) \<le> q \<and> q < PHYSTOP}"
    by (auto simp: kinit_def freerange_def)
  then show ?thesis
    using avail_eq [OF inv'] PGROUNDUP_least [OF b] by (auto simp: ram_page_def)
qed

section \<open>Properties\<close>

text \<open>
  C13 (kinit). Booting the allocator never panics and leaves every whole page between the
  end of the kernel image and \<^verbatim>\<open>PHYSTOP\<close>, and nothing else, on the free list.
\<close>

theorem kinit_frees_all_ram:
  assumes "KERNBASE \<le> kend s" and "kend s \<le> PHYSTOP" and "freelist s = 0"
  shows "\<exists>s' ps. kinit s = Ok s' \<and> run_list (mem s') (freelist s') ps \<and> distinct ps \<and>
    set ps = {p. page_aligned p \<and> kend s \<le> p \<and> p < PHYSTOP}"
proof -
  obtain s' where s': "kinit s = Ok s'" "kmem_ok s'" "avail s' = {p. ram_page s p}"
    using kinit_ok [OF assms] by blast
  obtain ps where "kmem_inv s' ps" and "avail s' = set ps" by (rule kmem_okE [OF s'(2)])
  with s' show ?thesis by (auto simp: kmem_inv_def ram_page_def)
qed

definition example_kmem :: kmem where
  "example_kmem = \<lparr>mem = (\<lambda>_. 0), freelist = 0x87fff000, kend = 0x87ffe800\<rparr>"

lemma example_kmem_inv: "kmem_inv example_kmem [0x87fff000]"
proof -
  have "load64 (\<lambda>_. 0) 0x87fff000 = 0"
    by (simp add: load64_def read_bytes_def upt_rec)
  then show ?thesis
    by (simp add: kmem_inv_def example_kmem_def ram_page_def page_aligned_unat)
qed

theorem kinit_frees_all_ram_witness:
  "\<exists>s' ps. kinit (example_kmem\<lparr>freelist := 0\<rparr>) = Ok s' \<and> run_list (mem s') (freelist s') ps \<and>
    distinct ps \<and> set ps = {p. page_aligned p \<and> 0x87ffe800 \<le> p \<and> p < PHYSTOP}"
  using kinit_frees_all_ram [of "example_kmem\<lparr>freelist := 0\<rparr>"] by (simp add: example_kmem_def)

text \<open>
  C14 (kalloc). With the free list well formed, \<^verbatim>\<open>kalloc\<close> returns 0 exactly when no page is
  free; otherwise it returns a free page, filled with 5s, takes exactly that page off the
  list, and changes no byte of any other page.
\<close>

theorem kalloc_takes_one_page:
  assumes "kmem_ok s"
  shows "case kalloc s of (p, s') \<Rightarrow>
    kmem_ok s' \<and>
    (if avail s = {} then p = 0 \<and> s' = s
     else p \<in> avail s \<and> avail s' = avail s - {p} \<and>
       (\<forall>x. mem s' x = (if PGROUNDDOWN x = p then 5 else mem s x)))"
proof -
  obtain ps where inv: "kmem_inv s ps" and av: "avail s = set ps" by (rule kmem_okE [OF assms])
  show ?thesis
  proof (cases ps)
    case Nil
    then show ?thesis using inv av assms by (simp add: kalloc_empty)
  next
    case (Cons p qs)
    obtain s' where s': "kalloc s = (p, s')" "kmem_inv s' qs" "pages_eq (- {p}) (mem s) (mem s')"
      "kend s' = kend s" "\<forall>x. PGROUNDDOWN x = p \<longrightarrow> mem s' x = 5"
      by (rule kalloc_ok [OF inv [unfolded Cons]])
    moreover have "p \<notin> set qs" using inv Cons by (simp add: kmem_inv_def)
    ultimately show ?thesis using av Cons avail_eq [of s' qs]
      by (auto simp: pages_eq_def)
  qed
qed

theorem kalloc_takes_one_page_witness:
  "case kalloc example_kmem of (p, s') \<Rightarrow> p = 0x87fff000 \<and> avail s' = {}"
proof -
  have ok: "kmem_ok example_kmem" and av: "avail example_kmem = {0x87fff000}"
    using example_kmem_inv avail_eq [OF example_kmem_inv] by auto
  show ?thesis using kalloc_takes_one_page [OF ok] av by (auto split: prod.splits)
qed

text \<open>
  C15 (kfree). Freeing an allocated page succeeds, puts exactly that page back on the list,
  and changes no byte outside it; a misaligned or out-of-range pointer panics.
\<close>

theorem kfree_returns_page:
  assumes "kmem_ok s" and "pa \<notin> avail s"
  shows "if page_aligned pa \<and> kend s \<le> pa \<and> pa < PHYSTOP
    then \<exists>s'. kfree pa s = Ok s' \<and> kmem_ok s' \<and> avail s' = insert pa (avail s) \<and>
      (\<forall>x. PGROUNDDOWN x \<noteq> pa \<longrightarrow> mem s' x = mem s x)
    else kfree pa s = Panic ''kfree''"
proof (cases "ram_page s pa")
  case True
  then show ?thesis
    using ka.free_some [OF assms(1) True assms(2)] by (auto simp: ram_page_def pages_eq_def)
next
  case False
  then have "pa mod PGSIZE \<noteq> 0 \<or> pa < kend s \<or> pa \<ge> PHYSTOP"
    unfolding ram_page_def page_aligned_def by (metis not_le)
  then have "kfree pa s = Panic ''kfree''" unfolding kfree_def by (rule if_P)
  then show ?thesis using False by (simp add: ram_page_def)
qed

theorem kfree_returns_page_witness:
  "\<exists>s'. kfree 0x87ffe000 (example_kmem\<lparr>kend := 0x87ffe000\<rparr>) = Ok s' \<and>
     avail s' = {0x87ffe000, 0x87fff000}"
proof -
  let ?s = "example_kmem\<lparr>kend := 0x87ffe000\<rparr>"
  have inv: "kmem_inv ?s [0x87fff000]"
    using example_kmem_inv by (simp add: kmem_inv_def example_kmem_def ram_page_def)
  then have "kmem_ok ?s" and av: "avail ?s = {0x87fff000}" using avail_eq by auto
  then show ?thesis using kfree_returns_page [of ?s "0x87ffe000"]
    by (auto simp: page_aligned_unat example_kmem_def split: if_splits)
qed



end
