(* ===== verification/Xv6_Vm.thy ===== *)
theory Xv6_Vm
  imports Xv6_Kalloc
begin

text \<open>
  Page tables, \<^verbatim>\<open>kernel/vm.c\<close>, and the kernel-stack mapping loop \<^verbatim>\<open>proc_mapstacks\<close> of
  \<^verbatim>\<open>kernel/proc.c\<close>. Page tables live in the byte-addressed physical memory of the allocator
  state; every routine reads and writes page-table entries there, as the source does.
  Pointers are 64-bit words, \<^verbatim>\<open>int\<close> results 0 and -1 are the words 0 and -1, and a routine
  that may call \<^verbatim>\<open>panic\<close> returns an outcome. The last sections give the abstract
  reading of a three-level table: the pages it consists of and the entry it holds for an address.
\<close>

section \<open>Operations\<close>

abbreviation (input) set_pte :: "u64 \<Rightarrow> u64 \<Rightarrow> kmem \<Rightarrow> kmem" where
  "set_pte a v s \<equiv> s\<lparr>mem := store64 (mem s) a v\<rparr>"

abbreviation (input) zero_page :: "u64 \<Rightarrow> kmem \<Rightarrow> kmem" where
  "zero_page p s \<equiv> s\<lparr>mem := memset (mem s) p 0 4096\<rparr>"

fun walk_loop :: "nat \<Rightarrow> u64 \<Rightarrow> u64 \<Rightarrow> bool \<Rightarrow> kmem \<Rightarrow> u64 \<times> kmem" where
  "walk_loop 0 pagetable va alloc s = (pagetable + 8 * PX 0 va, s)"
| "walk_loop (Suc l) pagetable va alloc s =
     (let pte = pagetable + 8 * PX (Suc l) va in
      if load64 (mem s) pte AND PTE_V \<noteq> 0
      then walk_loop l (PTE2PA (load64 (mem s) pte)) va alloc s
      else if \<not> alloc then (0, s)
      else case kalloc s of (p, s1) \<Rightarrow>
        if p = 0 then (0, s1)
        else walk_loop l p va alloc (set_pte pte (PA2PTE p OR PTE_V) (zero_page p s1)))"

definition walk :: "u64 \<Rightarrow> u64 \<Rightarrow> bool \<Rightarrow> kmem \<Rightarrow> (u64 \<times> kmem) outcome" where
  "walk pagetable va alloc s =
     (if va \<ge> MAXVA then Panic ''walk'' else Ok (walk_loop 2 pagetable va alloc s))"

definition walkaddr :: "u64 \<Rightarrow> u64 \<Rightarrow> kmem \<Rightarrow> u64 outcome" where
  "walkaddr pagetable va s =
     (if va \<ge> MAXVA then Ok 0
      else obind (walk pagetable va False s) (\<lambda>(pte, s).
        if pte = 0 then Ok 0
        else if load64 (mem s) pte AND PTE_V = 0 then Ok 0
        else if load64 (mem s) pte AND PTE_U = 0 then Ok 0
        else Ok (PTE2PA (load64 (mem s) pte))))"

lemma walk_Ok_less: "walk pagetable va alloc s = Ok r \<Longrightarrow> va < MAXVA"
  by (simp add: walk_def not_le split: if_splits)

lemma add_PGSIZE_MAXVA:
  "a < MAXVA \<Longrightarrow> unat (a + PGSIZE) = unat a + 4096"
  using unat_add_of_nat_u64 [of a 4096] by (simp add: word_less_nat_alt)

text \<open>
  The loop of \<^verbatim>\<open>mappages\<close> ends because \<^verbatim>\<open>walk\<close> panics on an address of \<^verbatim>\<open>MAXVA\<close> or more.
\<close>

function mappages_loop ::
  "u64 \<Rightarrow> u64 \<Rightarrow> u64 \<Rightarrow> u64 \<Rightarrow> u64 \<Rightarrow> kmem \<Rightarrow> (i32 \<times> kmem) outcome" where
  "mappages_loop pagetable a lastva pa perm s =
     obind (walk pagetable a True s) (\<lambda>(pte, s1).
       if pte = 0 then Ok (-1, s1)
       else if load64 (mem s1) pte AND PTE_V \<noteq> 0 then Panic ''mappages: remap''
       else let s2 = set_pte pte (PA2PTE pa OR perm OR PTE_V) s1 in
         if a = lastva then Ok (0, s2)
         else mappages_loop pagetable (a + PGSIZE) lastva (pa + PGSIZE) perm s2)"
  by pat_completeness auto
termination
  by (relation "measure (\<lambda>(pagetable, a, lastva, pa, perm, s). unat MAXVA - unat a)")
    (auto dest!: walk_Ok_less simp: add_PGSIZE_MAXVA word_less_nat_alt)

declare mappages_loop.simps [simp del]

definition mappages :: "u64 \<Rightarrow> u64 \<Rightarrow> u64 \<Rightarrow> u64 \<Rightarrow> u64 \<Rightarrow> kmem \<Rightarrow> (i32 \<times> kmem) outcome" where
  "mappages pagetable va sz pa perm s =
     (if sz = 0 then Panic ''mappages: size''
      else mappages_loop pagetable (PGROUNDDOWN va) (PGROUNDDOWN (va + sz - 1)) pa perm s)"

definition kvmmap :: "u64 \<Rightarrow> u64 \<Rightarrow> u64 \<Rightarrow> u64 \<Rightarrow> u64 \<Rightarrow> kmem \<Rightarrow> kmem outcome" where
  "kvmmap kpgtbl va pa sz perm s =
     obind (mappages kpgtbl va sz pa perm s) (\<lambda>(r, s1).
       if r \<noteq> 0 then Panic ''kvmmap'' else Ok s1)"

primrec proc_mapstacks_loop :: "u64 \<Rightarrow> nat list \<Rightarrow> kmem \<Rightarrow> kmem outcome" where
  "proc_mapstacks_loop kpgtbl [] s = Ok s"
| "proc_mapstacks_loop kpgtbl (i # is) s =
     (case kalloc s of (pa, s1) \<Rightarrow>
        if pa = 0 then Panic ''kalloc''
        else obind (kvmmap kpgtbl (KSTACK i) pa PGSIZE (PTE_R OR PTE_W) s1) (proc_mapstacks_loop kpgtbl is))"

definition proc_mapstacks :: "u64 \<Rightarrow> kmem \<Rightarrow> kmem outcome" where
  "proc_mapstacks kpgtbl s = proc_mapstacks_loop kpgtbl [0..<64] s"

definition kvmmake :: "u64 \<Rightarrow> u64 \<Rightarrow> kmem \<Rightarrow> (u64 \<times> kmem) outcome" where
  "kvmmake etext trampoline s =
     (case kalloc s of (kpgtbl, s1) \<Rightarrow>
        obind (kvmmap kpgtbl UART0 UART0 PGSIZE (PTE_R OR PTE_W) (zero_page kpgtbl s1)) (\<lambda>s.
        obind (kvmmap kpgtbl VIRTIO0 VIRTIO0 PGSIZE (PTE_R OR PTE_W) s) (\<lambda>s.
        obind (kvmmap kpgtbl PLIC PLIC 0x400000 (PTE_R OR PTE_W) s) (\<lambda>s.
        obind (kvmmap kpgtbl KERNBASE KERNBASE (etext - KERNBASE) (PTE_R OR PTE_X) s) (\<lambda>s.
        obind (kvmmap kpgtbl etext etext (PHYSTOP - etext) (PTE_R OR PTE_W) s) (\<lambda>s.
        obind (kvmmap kpgtbl TRAMPOLINE trampoline PGSIZE (PTE_R OR PTE_X) s) (\<lambda>s.
        obind (proc_mapstacks kpgtbl s) (\<lambda>s.
        Ok (kpgtbl, s)))))))))"

function uvmunmap_loop :: "u64 \<Rightarrow> u64 \<Rightarrow> u64 \<Rightarrow> bool \<Rightarrow> kmem \<Rightarrow> kmem outcome" where
  "uvmunmap_loop pagetable a stop do_free s =
     (if a < stop then
        obind (walk pagetable a False s) (\<lambda>(pte, s1).
          if pte = 0 then Panic ''uvmunmap: walk''
          else if load64 (mem s1) pte AND PTE_V = 0 then Panic ''uvmunmap: not mapped''
          else if PTE_FLAGS (load64 (mem s1) pte) = PTE_V then Panic ''uvmunmap: not a leaf''
          else obind (if do_free then kfree (PTE2PA (load64 (mem s1) pte)) s1 else Ok s1) (\<lambda>s2.
            uvmunmap_loop pagetable (a + PGSIZE) stop do_free (set_pte pte 0 s2)))
      else Ok s)"
  by pat_completeness auto
termination
  by (relation "measure (\<lambda>(pagetable, a, stop, do_free, s). unat MAXVA - unat a)")
    (auto dest!: walk_Ok_less simp: add_PGSIZE_MAXVA word_less_nat_alt)

declare uvmunmap_loop.simps [simp del]

definition uvmunmap :: "u64 \<Rightarrow> u64 \<Rightarrow> u64 \<Rightarrow> bool \<Rightarrow> kmem \<Rightarrow> kmem outcome" where
  "uvmunmap pagetable va npages do_free s =
     (if va mod PGSIZE \<noteq> 0 then Panic ''uvmunmap: not aligned''
      else uvmunmap_loop pagetable va (va + npages * PGSIZE) do_free s)"

definition uvmcreate :: "kmem \<Rightarrow> u64 \<times> kmem" where
  "uvmcreate s =
     (case kalloc s of (pagetable, s1) \<Rightarrow>
        if pagetable = 0 then (0, s1) else (pagetable, zero_page pagetable s1))"

definition uvmfirst :: "u64 \<Rightarrow> u64 \<Rightarrow> u32 \<Rightarrow> kmem \<Rightarrow> kmem outcome" where
  "uvmfirst pagetable src sz s =
     (if sz \<ge> 4096 then Panic ''uvmfirst: more than a page''
      else case kalloc s of (p, s1) \<Rightarrow>
        obind (mappages pagetable 0 PGSIZE p (PTE_W OR PTE_R OR PTE_X OR PTE_U) (zero_page p s1))
          (\<lambda>(_, s2). Ok (s2\<lparr>mem := memmove (mem s2) p src sz\<rparr>)))"

text \<open>\<^verbatim>\<open>npages\<close> is an \<^verbatim>\<open>int\<close>: the page count is truncated to 32 bits and sign-extended.\<close>

definition uvmdealloc :: "u64 \<Rightarrow> u64 \<Rightarrow> u64 \<Rightarrow> kmem \<Rightarrow> (u64 \<times> kmem) outcome" where
  "uvmdealloc pagetable oldsz newsz s =
     (if newsz \<ge> oldsz then Ok (oldsz, s)
      else if PGROUNDUP newsz < PGROUNDUP oldsz then
        (let npages = (ucast ((PGROUNDUP oldsz - PGROUNDUP newsz) div PGSIZE) :: i32) in
         obind (uvmunmap pagetable (PGROUNDUP newsz) (scast npages) True s) (\<lambda>s1. Ok (newsz, s1)))
      else Ok (newsz, s))"

lemma mappages_Ok_less:
  assumes "mappages pagetable va sz pa perm s = Ok r"
  shows "va < MAXVA"
proof -
  have "returns (walk pagetable (PGROUNDDOWN va) True s)"
    using assms by (auto simp: mappages_def mappages_loop.simps [of pagetable "PGROUNDDOWN va"]
      returns_iff obind_Ok_iff split: if_splits)
  then have "unat (PGROUNDDOWN va) < unat MAXVA"
    by (auto simp: returns_iff word_less_nat_alt dest!: walk_Ok_less)
  then show ?thesis by (simp add: unat_PGROUNDDOWN word_less_nat_alt)
qed

function uvmalloc_loop :: "u64 \<Rightarrow> u64 \<Rightarrow> u64 \<Rightarrow> u64 \<Rightarrow> u64 \<Rightarrow> kmem \<Rightarrow> (u64 \<times> kmem) outcome" where
  "uvmalloc_loop pagetable a oldsz newsz xperm s =
     (if a < newsz then
        (case kalloc s of (p, s1) \<Rightarrow>
          if p = 0 then obind (uvmdealloc pagetable a oldsz s1) (\<lambda>(_, s2). Ok (0, s2))
          else obind (mappages pagetable a PGSIZE p (PTE_R OR PTE_U OR xperm) (zero_page p s1)) (\<lambda>(r, s2).
            if r \<noteq> 0 then
              obind (kfree p s2) (\<lambda>s3.
              obind (uvmdealloc pagetable a oldsz s3) (\<lambda>(_, s4). Ok (0, s4)))
            else uvmalloc_loop pagetable (a + PGSIZE) oldsz newsz xperm s2))
      else Ok (newsz, s))"
  by pat_completeness auto
termination
  by (relation "measure (\<lambda>(pagetable, a, oldsz, newsz, xperm, s). unat MAXVA - unat a)")
    (auto dest!: mappages_Ok_less simp: add_PGSIZE_MAXVA word_less_nat_alt)

declare uvmalloc_loop.simps [simp del]

definition uvmalloc :: "u64 \<Rightarrow> u64 \<Rightarrow> u64 \<Rightarrow> u64 \<Rightarrow> kmem \<Rightarrow> (u64 \<times> kmem) outcome" where
  "uvmalloc pagetable oldsz newsz xperm s =
     (if newsz < oldsz then Ok (oldsz, s)
      else uvmalloc_loop pagetable (PGROUNDUP oldsz) (PGROUNDUP oldsz) newsz xperm s)"

text \<open>
  \<^verbatim>\<open>freewalk\<close> with its loop index as an argument. The recursion follows pointers in memory, so it
  ends only on a finite tree; the value \<^term>\<open>None\<close> stands for an endless recursion.
\<close>

partial_function (option) freewalk_from :: "u64 \<Rightarrow> nat \<Rightarrow> kmem \<Rightarrow> kmem outcome option" where
  "freewalk_from pagetable i s =
     (if i < 512 then
        (let slot = pagetable + word_of_nat (8 * i); pte = load64 (mem s) slot in
         if pte AND PTE_V \<noteq> 0 \<and> pte AND (PTE_R OR PTE_W OR PTE_X) = 0 then
           Option.bind (freewalk_from (PTE2PA pte) 0 s) (\<lambda>r.
             if returns r then freewalk_from pagetable (i + 1) (set_pte slot 0 (the_Ok r)) else Some r)
         else if pte AND PTE_V \<noteq> 0 then Some (Panic ''freewalk: leaf'')
         else freewalk_from pagetable (i + 1) s)
      else Some (kfree pagetable s))"

definition freewalk :: "u64 \<Rightarrow> kmem \<Rightarrow> kmem outcome option" where
  "freewalk pagetable s = freewalk_from pagetable 0 s"

definition uvmfree :: "u64 \<Rightarrow> u64 \<Rightarrow> kmem \<Rightarrow> kmem outcome option" where
  "uvmfree pagetable sz s =
     (let r = (if sz > 0 then uvmunmap pagetable 0 (PGROUNDUP sz div PGSIZE) True s else Ok s) in
      if returns r then freewalk pagetable (the_Ok r) else Some r)"

function uvmcopy_loop :: "u64 \<Rightarrow> u64 \<Rightarrow> u64 \<Rightarrow> u64 \<Rightarrow> kmem \<Rightarrow> (i32 \<times> kmem) outcome" where
  "uvmcopy_loop old new sz i s =
     (if i < sz then
        obind (walk old i False s) (\<lambda>(pte, s1).
          if pte = 0 then Panic ''uvmcopy: pte should exist''
          else if load64 (mem s1) pte AND PTE_V = 0 then Panic ''uvmcopy: page not present''
          else let pa = PTE2PA (load64 (mem s1) pte); flags = PTE_FLAGS (load64 (mem s1) pte) in
            case kalloc s1 of (p, s2) \<Rightarrow>
              if p = 0 then obind (uvmunmap new 0 (i div PGSIZE) True s2) (\<lambda>s3. Ok (-1, s3))
              else obind (mappages new i PGSIZE p flags (s2\<lparr>mem := memmove (mem s2) p pa 4096\<rparr>)) (\<lambda>(r, s3).
                if r \<noteq> 0 then
                  obind (kfree p s3) (\<lambda>s4.
                  obind (uvmunmap new 0 (i div PGSIZE) True s4) (\<lambda>s5. Ok (-1, s5)))
                else uvmcopy_loop old new sz (i + PGSIZE) s3))
      else Ok (0, s))"
  by pat_completeness auto
termination
  by (relation "measure (\<lambda>(old, new, sz, i, s). unat MAXVA - unat i)")
    (auto dest!: mappages_Ok_less simp: add_PGSIZE_MAXVA word_less_nat_alt)

declare uvmcopy_loop.simps [simp del]

definition uvmcopy :: "u64 \<Rightarrow> u64 \<Rightarrow> u64 \<Rightarrow> kmem \<Rightarrow> (i32 \<times> kmem) outcome" where
  "uvmcopy old new sz s = uvmcopy_loop old new sz 0 s"

definition uvmclear :: "u64 \<Rightarrow> u64 \<Rightarrow> kmem \<Rightarrow> kmem outcome" where
  "uvmclear pagetable va s =
     obind (walk pagetable va False s) (\<lambda>(pte, s1).
       if pte = 0 then Panic ''uvmclear''
       else Ok (set_pte pte (load64 (mem s1) pte AND NOT PTE_U) s1))"

lemma PGROUNDDOWN_le: "PGROUNDDOWN a \<le> a"
  by (simp add: word_le_nat_alt unat_PGROUNDDOWN)

lemma unat_page_offset: "unat (a - PGROUNDDOWN a) = unat a mod 4096"
  using PGROUNDDOWN_le [of a]
  by (simp add: unat_sub_if' unat_PGROUNDDOWN word_le_nat_alt minus_div_mult_eq_mod)

definition page_room :: "u64 \<Rightarrow> u64 \<Rightarrow> u64" where
  "page_room va len = (let n = PGSIZE - (va - PGROUNDDOWN va) in if n > len then len else n)"

lemma unat_page_room: "unat (page_room va len) = min (unat len) (4096 - unat va mod 4096)"
proof -
  have "unat (PGSIZE - (va - PGROUNDDOWN va)) = 4096 - unat va mod 4096"
    using unat_page_offset [of va] mod_less_divisor [of 4096 "unat va"]
    by (simp add: unat_sub_if' [of PGSIZE "va - PGROUNDDOWN va"])
  then show ?thesis by (simp add: page_room_def Let_def word_less_nat_alt)
qed

lemma page_room_decreases:
  "0 < len \<Longrightarrow> unat (len - page_room va len) < unat len"
  by (simp add: unat_sub_if' unat_page_room word_less_nat_alt)

function copyout :: "u64 \<Rightarrow> u64 \<Rightarrow> u64 \<Rightarrow> u64 \<Rightarrow> kmem \<Rightarrow> (i32 \<times> kmem) outcome" where
  "copyout pagetable dstva src len s =
     (if 0 < len then
        let va0 = PGROUNDDOWN dstva in
        obind (walkaddr pagetable va0 s) (\<lambda>pa0.
          if pa0 = 0 then Ok (-1, s)
          else let n = page_room dstva len in
            copyout pagetable (va0 + PGSIZE) (src + n) (len - n)
              (s\<lparr>mem := memmove (mem s) (pa0 + (dstva - va0)) src (ucast n)\<rparr>))
      else Ok (0, s))"
  by pat_completeness auto
termination
  by (relation "measure (\<lambda>(pagetable, dstva, src, len, s). unat len)") (auto simp: page_room_decreases)

declare copyout.simps [simp del]

function copyin :: "u64 \<Rightarrow> u64 \<Rightarrow> u64 \<Rightarrow> u64 \<Rightarrow> kmem \<Rightarrow> (i32 \<times> kmem) outcome" where
  "copyin pagetable dst srcva len s =
     (if 0 < len then
        let va0 = PGROUNDDOWN srcva in
        obind (walkaddr pagetable va0 s) (\<lambda>pa0.
          if pa0 = 0 then Ok (-1, s)
          else let n = page_room srcva len in
            copyin pagetable (dst + n) (va0 + PGSIZE) (len - n)
              (s\<lparr>mem := memmove (mem s) dst (pa0 + (srcva - va0)) (ucast n)\<rparr>))
      else Ok (0, s))"
  by pat_completeness auto
termination
  by (relation "measure (\<lambda>(pagetable, dst, srcva, len, s). unat len)") (auto simp: page_room_decreases)

declare copyin.simps [simp del]

text \<open>
  The inner loop of \<^verbatim>\<open>copyinstr\<close> returns whether it stored a NUL, the memory, and the advanced
  \<^verbatim>\<open>dst\<close> and \<^verbatim>\<open>max\<close>.
\<close>

primrec copyinstr_page :: "nat \<Rightarrow> u64 \<Rightarrow> u64 \<Rightarrow> u64 \<Rightarrow> memory \<Rightarrow> bool \<times> memory \<times> u64 \<times> u64" where
  "copyinstr_page 0 p dst mx m = (False, m, dst, mx)"
| "copyinstr_page (Suc n) p dst mx m =
     (if m p = 0 then (True, m(dst := 0), dst, mx)
      else copyinstr_page n (p + 1) (dst + 1) (mx - 1) (m(dst := m p)))"

lemma copyinstr_page_max:
  "copyinstr_page n p dst mx m = (False, m', dst', mx') \<Longrightarrow> mx' = mx - word_of_nat n"
  by (induction n arbitrary: p dst mx m) (auto simp: algebra_simps split: if_splits)

function copyinstr :: "u64 \<Rightarrow> u64 \<Rightarrow> u64 \<Rightarrow> u64 \<Rightarrow> kmem \<Rightarrow> (i32 \<times> kmem) outcome" where
  "copyinstr pagetable dst srcva mx s =
     (if 0 < mx then
        let va0 = PGROUNDDOWN srcva in
        obind (walkaddr pagetable va0 s) (\<lambda>pa0.
          if pa0 = 0 then Ok (-1, s)
          else case copyinstr_page (unat (page_room srcva mx)) (pa0 + (srcva - va0)) dst mx (mem s) of
            (got_null, m, dst', mx') \<Rightarrow>
              if got_null then Ok (0, s\<lparr>mem := m\<rparr>)
              else copyinstr pagetable dst' (va0 + PGSIZE) mx' (s\<lparr>mem := m\<rparr>))
      else Ok (-1, s))"
  by pat_completeness auto
termination
  by (relation "measure (\<lambda>(pagetable, dst, srcva, mx, s). unat mx)")
    (auto dest!: sym [of "(False, _)"] copyinstr_page_max simp: page_room_decreases)

declare copyinstr.simps [simp del]

section \<open>Reading a page table\<close>

text \<open>
  Entry \<open>i\<close> of a page-table page, the page it points to, the set of pages a table of
  height \<open>l\<close> consists of, and the leaf entry it holds for a virtual address (0 where a
  directory entry is missing).
\<close>

definition ent :: "memory \<Rightarrow> u64 \<Rightarrow> nat \<Rightarrow> u64" where
  "ent m r i = load64 m (r + word_of_nat (8 * i))"

definition kid :: "memory \<Rightarrow> u64 \<Rightarrow> nat \<Rightarrow> u64 option" where
  "kid m r i = (if ent m r i AND PTE_V \<noteq> 0 then Some (PTE2PA (ent m r i)) else None)"

primrec tables :: "memory \<Rightarrow> nat \<Rightarrow> u64 \<Rightarrow> u64 set" where
  "tables m 0 r = {r}"
| "tables m (Suc l) r =
     insert r (\<Union>i \<in> {..<512}. case kid m r i of None \<Rightarrow> {} | Some c \<Rightarrow> tables m l c)"

abbreviation sub :: "memory \<Rightarrow> nat \<Rightarrow> u64 \<Rightarrow> nat \<Rightarrow> u64 set" where
  "sub m l r i \<equiv> (case kid m r i of None \<Rightarrow> {} | Some c \<Rightarrow> tables m l c)"

primrec pt_wf :: "memory \<Rightarrow> nat \<Rightarrow> u64 \<Rightarrow> bool" where
  "pt_wf m 0 r \<longleftrightarrow> page_aligned r"
| "pt_wf m (Suc l) r \<longleftrightarrow> page_aligned r \<and>
     (\<forall>i<512. \<forall>c. kid m r i = Some c \<longrightarrow>
        ent m r i AND (PTE_R OR PTE_W OR PTE_X) = 0 \<and> pt_wf m l c \<and> r \<notin> tables m l c) \<and>
     (\<forall>i<512. \<forall>j<512. i \<noteq> j \<longrightarrow> sub m l r i \<inter> sub m l r j = {})"

primrec pte_of :: "memory \<Rightarrow> nat \<Rightarrow> u64 \<Rightarrow> u64 \<Rightarrow> u64" where
  "pte_of m 0 r va = ent m r (unat (PX 0 va))"
| "pte_of m (Suc l) r va =
     (case kid m r (unat (PX (Suc l) va)) of None \<Rightarrow> 0 | Some c \<Rightarrow> pte_of m l c va)"

lemma slot_eq: "r + 8 * PX l va = r + word_of_nat (8 * unat (PX l va))"
  by simp

lemma kid_PX:
  "load64 m (r + 8 * PX l va) AND PTE_V \<noteq> 0 \<longleftrightarrow> kid m r (unat (PX l va)) \<noteq> None"
  "kid m r (unat (PX l va)) = Some c \<Longrightarrow> PTE2PA (load64 m (r + 8 * PX l va)) = c"
  by (auto simp: kid_def ent_def split: if_splits)

lemma pt_wf_aligned: "pt_wf m l r \<Longrightarrow> page_aligned r"
  by (cases l) auto

lemma root_in_tables [simp]: "r \<in> tables m l r"
  by (cases l) auto

lemma sub_subset: "i < 512 \<Longrightarrow> sub m l r i \<subseteq> tables m (Suc l) r"
  by auto

lemma pt_wf_disjoint:
  "pt_wf m (Suc l) r \<Longrightarrow> i < 512 \<Longrightarrow> j < 512 \<Longrightarrow> i \<noteq> j \<Longrightarrow> sub m l r i \<inter> sub m l r j = {}"
  unfolding pt_wf.simps by blast

lemma pt_wf_kid:
  "pt_wf m (Suc l) r \<Longrightarrow> i < 512 \<Longrightarrow> kid m r i = Some c \<Longrightarrow> pt_wf m l c \<and> r \<notin> tables m l c"
  unfolding pt_wf.simps by blast

lemma tables_aligned: "pt_wf m l r \<Longrightarrow> p \<in> tables m l r \<Longrightarrow> page_aligned p"
proof (induction l arbitrary: r)
  case (Suc l)
  show ?case
  proof (cases "p = r")
    case False
    then obtain i c where "i < 512" "kid m r i = Some c" "p \<in> tables m l c"
      using Suc.prems(2) by (auto split: option.splits)
    then show ?thesis using Suc.IH pt_wf_kid [OF Suc.prems(1)] by blast
  qed (use Suc.prems in simp)
qed simp

lemma ent_pages_eq:
  "pages_eq P m m' \<Longrightarrow> page_aligned r \<Longrightarrow> r \<in> P \<Longrightarrow> i < 512 \<Longrightarrow> ent m' r i = ent m r i"
  unfolding ent_def by (rule load64_pages_eq [symmetric]) auto

lemma kid_ent: "ent m' r i = ent m r i \<Longrightarrow> kid m' r i = kid m r i"
  by (simp add: kid_def)

text \<open>A table reads the same after any change outside its own pages.\<close>

lemma table_frame:
  assumes "pt_wf m l r" and "pages_eq P m m'" and "tables m l r \<subseteq> P"
  shows "tables m' l r = tables m l r \<and> pt_wf m' l r \<and> (\<forall>va. pte_of m' l r va = pte_of m l r va)"
  using assms
proof (induction l arbitrary: r)
  case 0
  then show ?case using ent_pages_eq [OF _ _ _ PX_less] by fastforce
next
  case (Suc l)
  have e: "ent m' r i = ent m r i" if "i < 512" for i
    using ent_pages_eq [OF Suc.prems(2) _ _ that] Suc.prems by auto
  then have k: "kid m' r i = kid m r i" if "i < 512" for i
    using that kid_ent by blast
  have IH: "tables m' l c = tables m l c \<and> pt_wf m' l c \<and> (\<forall>va. pte_of m' l c va = pte_of m l c va)"
    if "i < 512" "kid m r i = Some c" for i c
  proof (rule Suc.IH)
    show "pt_wf m l c" using that Suc.prems(1) by auto
    show "tables m l c \<subseteq> P" using that sub_subset [OF that(1), of m l r] Suc.prems(3) by auto
  qed (rule Suc.prems(2))
  have s: "sub m' l r i = sub m l r i" if "i < 512" for i
    using IH [OF that] k [OF that] by (cases "kid m r i") auto
  have "tables m' (Suc l) r = tables m (Suc l) r" using s by simp
  moreover have "pt_wf m' (Suc l) r"
    using Suc.prems(1) IH k e s unfolding pt_wf.simps by metis
  moreover have "pte_of m' (Suc l) r va = pte_of m (Suc l) r va" for va
    using IH [OF PX_less] k [OF PX_less, of "Suc l" va] by (auto split: option.split)
  ultimately show ?case by simp
qed

lemmas tables_frame = table_frame [THEN conjunct1]
  and pt_wf_frame = table_frame [THEN conjunct2, THEN conjunct1]
  and pte_of_frame = table_frame [THEN conjunct2, THEN conjunct2, rule_format]

text \<open>
  Changing the subtable under one directory entry, possibly growing it by a set \<open>A\<close> of
  fresh pages, keeps the rest of the table.
\<close>

lemma table_update:
  assumes wf: "pt_wf m (Suc l) r" and i: "i < 512"
    and oth: "\<forall>j<512. j \<noteq> i \<longrightarrow> ent m' r j = ent m r j"
    and c: "kid m' r i = Some c" "ent m' r i AND (PTE_R OR PTE_W OR PTE_X) = 0" "pt_wf m' l c"
    and t: "tables m' l c = sub m l r i \<union> A" and A: "A \<inter> tables m (Suc l) r = {}"
    and fr: "pages_eq (- insert r (sub m l r i \<union> A)) m m'"
  shows "pt_wf m' (Suc l) r" and "tables m' (Suc l) r = tables m (Suc l) r \<union> A"
    and "\<And>va. unat (PX (Suc l) va) \<noteq> i \<Longrightarrow> pte_of m' (Suc l) r va = pte_of m (Suc l) r va"
    and "\<And>va. unat (PX (Suc l) va) = i \<Longrightarrow> pte_of m' (Suc l) r va = pte_of m' l c va"
proof -
  have k: "kid m' r j = kid m r j" if "j < 512" "j \<noteq> i" for j
    using that oth kid_ent by blast
  have rn: "r \<notin> sub m l r j" if "j < 512" for j
    using wf that by (auto split: option.splits)
  have F: "tables m' l d = tables m l d \<and> pt_wf m' l d \<and> (\<forall>va. pte_of m' l d va = pte_of m l d va)"
    if j: "j < 512" "j \<noteq> i" "kid m r j = Some d" for j d
  proof (rule table_frame [OF _ fr])
    show "pt_wf m l d" using wf j by auto
    have "sub m l r i \<inter> sub m l r j = {}" using pt_wf_disjoint [OF wf i j(1)] j(2) by simp
    then show "tables m l d \<subseteq> - insert r (sub m l r i \<union> A)"
      using j rn [OF j(1)] A sub_subset [OF j(1), of m l r] by auto
  qed
  have s: "sub m' l r j = sub m l r j" if "j < 512" "j \<noteq> i" for j
    using F [OF that] k [OF that] by (cases "kid m r j") auto
  have si: "sub m' l r i = sub m l r i \<union> A" using c t by simp
  have U: "(\<Union>j<512. sub m' l r j) = (\<Union>j<512. sub m l r j) \<union> A"
  proof (intro equalityI subsetI)
    fix x assume "x \<in> (\<Union>j<512. sub m' l r j)"
    then obtain j where "j < 512" "x \<in> sub m' l r j" by blast
    then show "x \<in> (\<Union>j<512. sub m l r j) \<union> A" using s [of j] si by (cases "j = i") auto
  next
    fix x assume "x \<in> (\<Union>j<512. sub m l r j) \<union> A"
    then consider "x \<in> A" | j where "j < 512" "x \<in> sub m l r j" by blast
    then show "x \<in> (\<Union>j<512. sub m' l r j)"
    proof cases
      case 1
      then show ?thesis using si i by blast
    next
      case (2 j)
      then show ?thesis using s [of j] si by (cases "j = i") auto
    qed
  qed
  then show T: "tables m' (Suc l) r = tables m (Suc l) r \<union> A" by simp
  have "sub m' l r j \<inter> sub m' l r j' = {}" if "j < 512" "j' < 512" "j \<noteq> j'" for j j'
  proof -
    have d: "sub m l r j \<inter> sub m l r j' = {}" by (rule pt_wf_disjoint [OF wf that])
    have "sub m l r j \<inter> A = {}" "sub m l r j' \<inter> A = {}"
      using A sub_subset [OF that(1), of m l r] sub_subset [OF that(2), of m l r] by auto
    then show ?thesis using d s si that by (cases "j = i"; cases "j' = i") auto
  qed
  moreover have "ent m' r j AND (PTE_R OR PTE_W OR PTE_X) = 0 \<and> pt_wf m' l d \<and> r \<notin> tables m' l d"
    if j: "j < 512" "kid m' r j = Some d" for j d
  proof (cases "j = i")
    case True
    then show ?thesis using c t j A rn [OF i] by auto
  next
    case False
    then have kj: "kid m r j = Some d" using j k by simp
    then show ?thesis using F [OF j(1) False kj] wf j(1) oth False by auto
  qed
  ultimately show "pt_wf m' (Suc l) r" using wf by simp
  show "pte_of m' (Suc l) r va = pte_of m (Suc l) r va" if "unat (PX (Suc l) va) \<noteq> i" for va
    using F [OF PX_less that] k [OF PX_less that] by (auto split: option.split)
  show "pte_of m' (Suc l) r va = pte_of m' l c va" if "unat (PX (Suc l) va) = i" for va
    using that c by simp
qed

section \<open>Walking a table\<close>

lemma walk_loop_ro: "snd (walk_loop l r va False s) = s"
  by (induction l arbitrary: r) (auto simp: Let_def)

text \<open>The address in \<open>slot\<close> holds the entry for \<open>va\<close>, and writing it changes that entry only.\<close>

definition same_index :: "nat \<Rightarrow> u64 \<Rightarrow> u64 \<Rightarrow> bool" where
  "same_index l va va' \<longleftrightarrow> (\<forall>k\<le>l. PX k va = PX k va')"

lemma same_index_Suc:
  "same_index (Suc l) va va' \<longleftrightarrow> PX (Suc l) va = PX (Suc l) va' \<and> same_index l va va'"
  by (auto simp: same_index_def le_Suc_eq)

definition slot_of :: "memory \<Rightarrow> nat \<Rightarrow> u64 \<Rightarrow> u64 \<Rightarrow> u64 \<Rightarrow> bool" where
  "slot_of m l r va slot \<longleftrightarrow> (\<exists>p k. p \<in> tables m l r \<and> k < 512 \<and> slot = p + word_of_nat (8 * k)) \<and>
     load64 m slot = pte_of m l r va \<and>
     (\<forall>e. pt_wf (store64 m slot e) l r \<and> tables (store64 m slot e) l r = tables m l r \<and>
        (\<forall>va'. pte_of (store64 m slot e) l r va' = (if same_index l va va' then e else pte_of m l r va')))"

lemma slot_of_page:
  assumes "slot_of m l r va slot" and "pt_wf m l r"
  obtains p where "p \<in> tables m l r" and "page_aligned p" and "PGROUNDDOWN slot = p"
    and "\<And>e. pages_eq (- {p}) m (store64 m slot e)"
proof -
  obtain p k where p: "p \<in> tables m l r" "k < 512" "slot = p + word_of_nat (8 * k)"
    using assms(1) unfolding slot_of_def by blast
  have "page_aligned p" by (rule tables_aligned [OF assms(2) p(1)])
  moreover from this have "PGROUNDDOWN slot = p"
    using PGROUNDDOWN_offset [of p "8 * k"] p by simp
  moreover have "pages_eq (- {p}) m (store64 m slot e)" for e
    using pages_eq_store64 [of p "8 * k" m e] p calculation by simp
  ultimately show ?thesis using that p by blast
qed

lemma ent_store_same: "ent (store64 m (r + word_of_nat (8 * i)) e) r i = e"
  by (simp add: ent_def)

lemma slot_distance:
  fixes r :: u64
  assumes "i < 512" and "j < 512" and "i \<noteq> j"
  shows "8 \<le> unat (r + word_of_nat (8 * i) - (r + word_of_nat (8 * j)))"
proof -
  have "r + word_of_nat (8 * i) - (r + word_of_nat (8 * j)) = word_of_nat (8 * i) - word_of_nat (8 * j)"
    by simp
  moreover have "unat (word_of_nat (8 * i) :: u64) = 8 * i" "unat (word_of_nat (8 * j) :: u64) = 8 * j"
    using assms by (auto intro!: unat_word_of_nat_u64 simp del: of_nat_mult)
  ultimately have "unat (r + word_of_nat (8 * i) - (r + word_of_nat (8 * j))) =
      (if 8 * j \<le> 8 * i then 8 * i - 8 * j else 8 * i + 2 ^ 64 - 8 * j)"
    by (simp add: unat_sub_if' [of "word_of_nat (8 * i)"] del: of_nat_mult)
  then show ?thesis using assms by (cases "j \<le> i") auto
qed

lemma ent_store_other:
  "i < 512 \<Longrightarrow> j < 512 \<Longrightarrow> i \<noteq> j \<Longrightarrow> ent (store64 m (r + word_of_nat (8 * i)) e) r j = ent m r j"
  unfolding ent_def by (intro load64_store64_other slot_distance) auto

lemma slot_of_kid:
  assumes wf: "pt_wf m (Suc l) r" and Some: "kid m r (unat (PX (Suc l) va)) = Some c"
    and so: "slot_of m l c va slot"
  shows "slot_of m (Suc l) r va slot"
proof -
  let ?i = "unat (PX (Suc l) va)"
  have wfc: "pt_wf m l c" and rn: "r \<notin> tables m l c"
    using pt_wf_kid [OF wf PX_less Some] by auto
  have sub: "sub m l r ?i = tables m l c" using Some by simp
  have tc: "tables m l c \<subseteq> tables m (Suc l) r"
    using sub_subset [OF PX_less, of m l r "Suc l" va] sub by simp
  obtain p where p: "p \<in> tables m l c" "\<And>e. pages_eq (- {p}) m (store64 m slot e)"
    using slot_of_page [OF so wfc] by metis
  have U: "pt_wf (store64 m slot e) (Suc l) r \<and> tables (store64 m slot e) (Suc l) r = tables m (Suc l) r \<and>
    (\<forall>va'. pte_of (store64 m slot e) (Suc l) r va' = (if same_index (Suc l) va va' then e else pte_of m (Suc l) r va'))"
    for e
  proof -
    let ?m = "store64 m slot e"
    have al: "page_aligned r" using wf by simp
    have en: "ent ?m r j = ent m r j" if "j < 512" for j
      by (rule ent_pages_eq [OF p(2) al _ that]) (use p rn in auto)
    have ki: "kid ?m r ?i = Some c" using Some kid_ent [OF en [OF PX_less]] by simp
    have nl: "ent ?m r ?i AND (PTE_R OR PTE_W OR PTE_X) = 0"
      using wf Some en [OF PX_less, of "Suc l" va] PX_less [of "Suc l" va] by simp
    have ch: "pt_wf ?m l c" "tables ?m l c = tables m l c"
      "\<And>va'. pte_of ?m l c va' = (if same_index l va va' then e else pte_of m l c va')"
      using so unfolding slot_of_def by auto
    have tu: "tables ?m l c = sub m l r ?i \<union> {}" using ch sub by simp
    have fr: "pages_eq (- insert r (sub m l r ?i \<union> {})) m ?m"
      using p sub by (auto intro!: pages_eq_mono [OF p(2)])
    note u = table_update [OF wf PX_less _ ki nl ch(1) tu _ fr]
    have "pte_of ?m (Suc l) r va' = (if same_index (Suc l) va va' then e else pte_of m (Suc l) r va')" for va'
    proof (cases "PX (Suc l) va' = PX (Suc l) va")
      case True
      moreover from this have "pte_of m (Suc l) r va' = pte_of m l c va'" using Some by simp
      ultimately show ?thesis using u(4) [of va'] en ch(3) [of va']
        by (simp add: same_index_Suc del: pte_of.simps)
    next
      case False
      then have "unat (PX (Suc l) va') \<noteq> ?i" by (simp add: word_unat_eq_iff)
      then show ?thesis using u(3) [of va'] en False by (simp add: same_index_Suc del: pte_of.simps)
    qed
    then show ?thesis using u(1,2) en by auto
  qed
  have "\<exists>p k. p \<in> tables m (Suc l) r \<and> k < 512 \<and> slot = p + word_of_nat (8 * k)"
    using so tc unfolding slot_of_def by blast
  moreover have "load64 m slot = pte_of m (Suc l) r va" using so Some unfolding slot_of_def by simp
  ultimately show ?thesis using U unfolding slot_of_def by blast
qed

lemma slot_of_leaf:
  assumes "page_aligned r" and "slot = r + 8 * PX 0 va"
  shows "slot_of m 0 r va slot"
proof -
  let ?i = "unat (PX 0 va)"
  have slot: "slot = r + word_of_nat (8 * ?i)" using assms by simp
  have "ent (store64 m slot e) r (unat (PX 0 va')) = (if PX 0 va = PX 0 va' then e else ent m r (unat (PX 0 va')))"
    for e va'
    unfolding slot using ent_store_same [of m r ?i e] ent_store_other [OF PX_less PX_less, of 0 va 0 va' m r e]
    by (cases "PX 0 va = PX 0 va'") (simp_all add: word_unat_eq_iff [of "PX 0 va"])
  then show ?thesis
    using slot PX_less [of 0 va] assms unfolding slot_of_def same_index_def
    by (auto simp: ent_def)
qed

lemma walk_loop_slot:
  assumes "pt_wf (mem s) l r" and "0 \<notin> tables (mem s) l r" and "walk_loop l r va False s = (slot, s')"
  shows "(slot = 0 \<longrightarrow> pte_of (mem s) l r va = 0) \<and> (slot \<noteq> 0 \<longrightarrow> slot_of (mem s) l r va slot)"
  using assms
proof (induction l arbitrary: r)
  case 0
  then have al: "page_aligned r" and slot: "slot = r + word_of_nat (8 * unat (PX 0 va))" by simp_all
  have "PGROUNDDOWN slot = r"
    unfolding slot by (rule PGROUNDDOWN_offset [OF al]) (use PX_less [of 0 va] in simp)
  then have "slot \<noteq> 0" using 0 by (auto simp: PGROUNDDOWN_def)
  then show ?case using slot_of_leaf [OF al] slot by simp
next
  case (Suc l)
  let ?i = "unat (PX (Suc l) va)"
  show ?case
  proof (cases "kid (mem s) r ?i")
    case None
    then have "slot = 0" using Suc.prems kid_PX(1) [of "mem s" r "Suc l" va] by (auto simp: Let_def)
    then show ?thesis using None by simp
  next
    case (Some c)
    have "walk_loop l c va False s = (slot, s')"
      using Suc.prems Some kid_PX [of "mem s" r "Suc l" va] by (auto simp: Let_def)
    then have "(slot = 0 \<longrightarrow> pte_of (mem s) l c va = 0) \<and> (slot \<noteq> 0 \<longrightarrow> slot_of (mem s) l c va slot)"
      using Suc.IH [of c] pt_wf_kid [OF Suc.prems(1) PX_less Some] Suc.prems(2)
        sub_subset [OF PX_less, of "mem s" l r "Suc l" va] Some by auto
    then show ?thesis using slot_of_kid [OF Suc.prems(1) Some] Some by simp
  qed
qed

text \<open>A table the allocator state supports: its pages are allocated RAM pages.\<close>

definition pt_ok :: "nat \<Rightarrow> u64 \<Rightarrow> kmem \<Rightarrow> bool" where
  "pt_ok l r s \<longleftrightarrow> kmem_ok s \<and> pt_wf (mem s) l r \<and> (\<forall>p \<in> tables (mem s) l r. ram_page s p \<and> p \<notin> avail s)"

text \<open>What an allocating walk does: the table grows by the pages taken from the pool, all entries stay.\<close>

definition pt_grow :: "nat \<Rightarrow> u64 \<Rightarrow> kmem \<Rightarrow> kmem \<Rightarrow> bool" where
  "pt_grow l r s s' \<longleftrightarrow> pt_ok l r s' \<and> kend s' = kend s \<and> avail s' \<subseteq> avail s \<and>
     tables (mem s') l r = tables (mem s) l r \<union> (avail s - avail s') \<and>
     pages_eq (- tables (mem s') l r) (mem s) (mem s') \<and>
     (\<forall>va. pte_of (mem s') l r va = pte_of (mem s) l r va)"

lemma pt_grow_refl: "pt_ok l r s \<Longrightarrow> pt_grow l r s s"
  by (simp add: pt_grow_def)

lemma kmem_ok_mem:
  assumes "kmem_ok s" and "pages_eq P (mem s) m" and "avail s \<subseteq> P"
  shows "kmem_ok (s\<lparr>mem := m\<rparr>)" and "avail (s\<lparr>mem := m\<rparr>) = avail s"
proof -
  obtain ps where ps: "kmem_inv s ps" "avail s = set ps" by (rule kmem_okE [OF assms(1)])
  then have "kmem_inv (s\<lparr>mem := m\<rparr>) ps" using kmem_inv_pages_eq assms(2,3) by blast
  then show "kmem_ok (s\<lparr>mem := m\<rparr>)" "avail (s\<lparr>mem := m\<rparr>) = avail s"
    using avail_eq ps by auto
qed

lemma ram_page_mem [simp]: "ram_page (s\<lparr>mem := m\<rparr>) = ram_page s"
  by (simp add: ram_page_def fun_eq_iff)

lemma ram_page_kend: "kend s' = kend s \<Longrightarrow> ram_page s' = ram_page s"
  by (simp add: ram_page_def fun_eq_iff)

lemma zero_table:
  assumes "page_aligned r" and "\<forall>i<512. ent m r i = 0"
  shows "pt_wf m l r" and "tables m l r = {r}" and "pte_of m l r va = 0"
proof -
  have "kid m r i = None" if "i < 512" for i using assms that by (simp add: kid_def)
  then show "pt_wf m l r" "tables m l r = {r}" "pte_of m l r va = 0"
    using assms PX_less by (cases l; auto)+
qed

lemma pt_okD:
  assumes "pt_ok l r s"
  shows "kmem_ok s" and "pt_wf (mem s) l r" and "tables (mem s) l r \<inter> avail s = {}"
    and "0 \<notin> tables (mem s) l r" and "page_aligned r" and "\<forall>p \<in> tables (mem s) l r. ram_page s p"
  using assms pt_wf_aligned ka.frame_nonzero [of s 0] unfolding pt_ok_def by blast+

lemma pt_growD:
  assumes "pt_grow l r s s'"
  shows "pt_ok l r s'" and "kend s' = kend s" and "avail s' \<subseteq> avail s"
    and "tables (mem s') l r = tables (mem s) l r \<union> (avail s - avail s')"
    and "pages_eq (- tables (mem s') l r) (mem s) (mem s')"
    and "pte_of (mem s') l r va = pte_of (mem s) l r va"
  using assms by (auto simp: pt_grow_def)

lemma kalloc_kend: "kalloc s = (p, s') \<Longrightarrow> kend s' = kend s"
  by (auto simp: kalloc_def Let_def split: if_splits)

lemma flags_and: "0x3FF AND k = k \<Longrightarrow> e AND k = PTE_FLAGS e AND k"
  by (simp only: PTE_FLAGS_def and.assoc)

lemma le_decode_zeros: "le_decode (replicate n 0) = 0"
  by (induction n) auto

lemma ent_zero_page:
  assumes "page_aligned p" and "i < 512"
  shows "ent (memset m p 0 4096) p i = 0"
proof -
  have "load64 (memset m p 0 4096) (p + word_of_nat (8 * i)) = load64 (\<lambda>_. 0) (p + word_of_nat (8 * i))"
  proof (rule load64_cong)
    fix k :: nat
    assume "k < 8"
    then have "unat (p + word_of_nat (8 * i + k) - p) < 4096"
      using assms by (simp add: unat_word_of_nat_u64 del: of_nat_add of_nat_mult)
    then show "memset m p 0 4096 (p + word_of_nat (8 * i) + word_of_nat k) = 0"
      by (simp add: memset_apply add.assoc)
  qed
  moreover have "load64 (\<lambda>_. 0) a = 0" for a
    by (simp add: load64_def read_bytes_def map_replicate_const le_decode_zeros)
  ultimately show ?thesis by (simp add: ent_def)
qed

text \<open>Hanging a fresh zeroed page under a missing directory entry.\<close>

lemma new_table:
  assumes ok: "pt_ok (Suc l) r s" and i: "i < 512" and none: "kid (mem s) r i = None"
    and al: "kalloc s = (p, s1)" "p \<noteq> 0"
    and s2: "s2 = set_pte (r + word_of_nat (8 * i)) (PA2PTE p OR PTE_V) (zero_page p s1)"
  shows "pt_ok l p s2" and "avail s2 = avail s - {p}" and "p \<in> avail s" and "kend s2 = kend s"
    and "tables (mem s2) l p = {p}" and "pte_of (mem s2) l p va = 0"
    and "pages_eq (- {r, p}) (mem s) (mem s2)"
    and "\<forall>j<512. j \<noteq> i \<longrightarrow> ent (mem s2) r j = ent (mem s) r j"
    and "kid (mem s2) r i = Some p" and "ent (mem s2) r i AND (PTE_R OR PTE_W OR PTE_X) = 0"
proof -
  note D = pt_okD [OF ok]
  have A: "ram_page s p" "kmem_ok s1" "p \<in> avail s" "avail s1 = avail s - {p}"
    "pages_eq (- {p}) (mem s) (mem s1)"
    by (rule ka.alloc_cases [OF D(1) al(1)]; use al in simp)+
  show "p \<in> avail s" by (rule A(3))
  have pal: "page_aligned p" using A(1) by (simp add: ram_page_def)
  have rt: "r \<in> tables (mem s) (Suc l) r" by (rule root_in_tables)
  then have rp: "r \<noteq> p" "r \<notin> avail s" using A(3) D(3) by auto
  let ?m1 = "memset (mem s1) p 0 4096"
  have m2: "mem s2 = store64 ?m1 (r + word_of_nat (8 * i)) (PA2PTE p OR PTE_V)" using s2 by simp
  have e1: "pages_eq (- {p}) (mem s) ?m1"
    using pages_eq_trans [OF A(5) pages_eq_memset [OF pal]] by simp
  have e2: "pages_eq (- {r}) ?m1 (mem s2)"
    unfolding m2 using pages_eq_store64 [OF D(5), of "8 * i"] i by simp
  show "pages_eq (- {r, p}) (mem s) (mem s2)"
    using pages_eq_trans [OF e1 e2] by (rule pages_eq_mono) auto
  have er: "ent ?m1 r j = ent (mem s) r j" if "j < 512" for j
    by (rule ent_pages_eq [OF e1 D(5) _ that]) (use rp in simp)
  show "\<forall>j<512. j \<noteq> i \<longrightarrow> ent (mem s2) r j = ent (mem s) r j"
    unfolding m2 using ent_store_other [OF i] er by auto
  have ei: "ent (mem s2) r i = PA2PTE p OR PTE_V" unfolding m2 by (rule ent_store_same)
  have fl: "PTE_FLAGS (PA2PTE p OR PTE_V) = PTE_V" by (rule PTE_FLAGS_PA2PTE) simp
  have "(PA2PTE p OR PTE_V) AND PTE_V = PTE_V" "(PA2PTE p OR PTE_V) AND (PTE_R OR PTE_W OR PTE_X) = 0"
    using flags_and [of PTE_V "PA2PTE p OR PTE_V"] flags_and [of "PTE_R OR PTE_W OR PTE_X" "PA2PTE p OR PTE_V"] fl
    by simp_all
  then show "kid (mem s2) r i = Some p" "ent (mem s2) r i AND (PTE_R OR PTE_W OR PTE_X) = 0"
    using ei PTE2PA_PA2PTE [OF pal, of PTE_V] by (simp_all add: kid_def)
  have z: "\<forall>j<512. ent (mem s2) p j = 0"
    using ent_pages_eq [OF e2 pal] rp ent_zero_page [OF pal] by auto
  note Z = zero_table [OF pal z]
  show "tables (mem s2) l p = {p}" "pte_of (mem s2) l p va = 0" by (rule Z)+
  have e3: "pages_eq (- {r, p}) (mem s1) (mem s2)"
    using pages_eq_trans [OF pages_eq_memset [OF pal] e2] by (rule pages_eq_mono) auto
  have "avail s1 \<subseteq> - {r, p}" using A(4) rp by auto
  note K = kmem_ok_mem [OF A(2) e3 this]
  have s2': "s2 = s1\<lparr>mem := mem s2\<rparr>" using s2 by simp
  show av: "avail s2 = avail s - {p}" using K(2) s2' A(4) by metis
  show ke: "kend s2 = kend s" using s2 kalloc_kend [OF al(1)] by simp
  have "kmem_ok s2" using K(1) s2' by metis
  then show "pt_ok l p s2" using Z(1,2) av A(1) ram_page_kend [OF ke] by (simp add: pt_ok_def)
qed

text \<open>Growth of one subtable is growth of the table.\<close>

lemma pt_grow_kid:
  assumes ok: "pt_ok (Suc l) r s" and i: "i < 512" and k: "kid (mem s) r i = Some c"
    and g: "pt_grow l c s s'"
  shows "pt_grow (Suc l) r s s'" and "kid (mem s') r i = Some c"
proof -
  note D = pt_okD [OF ok] and G = pt_growD [OF g]
  let ?A = "avail s - avail s'"
  have sub: "sub (mem s) l r i = tables (mem s) l c" using k by simp
  have wk: "r \<notin> tables (mem s) l c" using pt_wf_kid [OF D(2) i k] by simp
  have rt: "r \<notin> tables (mem s') l c" using wk G(4) D(3) root_in_tables [of r "mem s" "Suc l"] by blast
  have en: "ent (mem s') r j = ent (mem s) r j" if "j < 512" for j
    by (rule ent_pages_eq [OF G(5) D(5) _ that]) (use rt in simp)
  show ki: "kid (mem s') r i = Some c" using k kid_ent [OF en [OF i]] by simp
  have nl: "ent (mem s') r i AND (PTE_R OR PTE_W OR PTE_X) = 0" using D(2) k en [OF i] i by simp
  have tu: "tables (mem s') l c = sub (mem s) l r i \<union> ?A" using G(4) sub by simp
  have "pages_eq (- insert r (sub (mem s) l r i \<union> ?A)) (mem s) (mem s')"
    using tu by (auto intro: pages_eq_mono [OF G(5)])
  moreover have "\<forall>j<512. j \<noteq> i \<longrightarrow> ent (mem s') r j = ent (mem s) r j" using en by simp
  moreover have "?A \<inter> tables (mem s) (Suc l) r = {}" using D(3) by blast
  ultimately have u: "pt_wf (mem s') (Suc l) r" "tables (mem s') (Suc l) r = tables (mem s) (Suc l) r \<union> ?A"
    "\<And>va. unat (PX (Suc l) va) \<noteq> i \<Longrightarrow> pte_of (mem s') (Suc l) r va = pte_of (mem s) (Suc l) r va"
    "\<And>va. unat (PX (Suc l) va) = i \<Longrightarrow> pte_of (mem s') (Suc l) r va = pte_of (mem s') l c va"
    using table_update [OF D(2) i _ ki nl pt_okD(2) [OF G(1)] tu] by simp_all
  have "pte_of (mem s') (Suc l) r va = pte_of (mem s) (Suc l) r va" for va
    using u(3) [of va] u(4) [of va] G(6) [of va] k by (cases "unat (PX (Suc l) va) = i") auto
  moreover have "\<forall>p \<in> tables (mem s') (Suc l) r. ram_page s' p \<and> p \<notin> avail s'"
    using u(2) ok ka.pool_frame [OF D(1)] G(3) ram_page_kend [OF G(2)] unfolding pt_ok_def by auto
  moreover have "pages_eq (- tables (mem s') (Suc l) r) (mem s) (mem s')"
    by (rule pages_eq_mono [OF G(5)]) (use u(2) tu sub_subset [OF i, of "mem s" l r] in auto)
  ultimately show "pt_grow (Suc l) r s s'"
    using u(1,2) G(2,3) pt_okD(1) [OF G(1)] unfolding pt_grow_def pt_ok_def by blast
qed

lemma walk_ro_kid:
  "kid (mem s) r (unat (PX (Suc l) va)) = Some c \<Longrightarrow> walk_loop (Suc l) r va a s = walk_loop l c va a s"
  using kid_PX [of "mem s" r "Suc l" va] by (simp add: Let_def)

lemma pt_grow_new:
  assumes ok: "pt_ok (Suc l) r s" and i: "i < 512" and none: "kid (mem s) r i = None"
    and al: "kalloc s = (p, s1)" "p \<noteq> 0"
    and s2: "s2 = set_pte (r + word_of_nat (8 * i)) (PA2PTE p OR PTE_V) (zero_page p s1)"
    and g: "pt_grow l p s2 s'"
  shows "pt_grow (Suc l) r s s'" and "kid (mem s') r i = Some p"
proof -
  note D = pt_okD [OF ok] and G = pt_growD [OF g] and N = new_table [OF ok i none al s2]
  let ?A = "avail s - avail s'"
  have A: "?A = insert p (avail s2 - avail s')" using G(3) N(2,3) by blast
  have sub: "sub (mem s) l r i = {}" using none by simp
  have rt: "r \<in> tables (mem s) (Suc l) r" by (rule root_in_tables)
  have tu: "tables (mem s') l p = sub (mem s) l r i \<union> ?A" using G(4) N(5) A sub by simp
  have rn: "r \<notin> tables (mem s') l p" using tu sub D(3) rt by auto
  have en: "ent (mem s') r j = ent (mem s2) r j" if "j < 512" for j
    by (rule ent_pages_eq [OF G(5) D(5) _ that]) (use rn in simp)
  show ki: "kid (mem s') r i = Some p" using N(9) kid_ent [OF en [OF i]] by simp
  have nl: "ent (mem s') r i AND (PTE_R OR PTE_W OR PTE_X) = 0" using N(10) en [OF i] by simp
  have fr: "pages_eq (- insert r (sub (mem s) l r i \<union> ?A)) (mem s) (mem s')"
    using pages_eq_trans [OF N(7) G(5)] tu A by (auto intro: pages_eq_mono)
  have oth: "\<forall>j<512. j \<noteq> i \<longrightarrow> ent (mem s') r j = ent (mem s) r j" using en N(8) by simp
  have dj: "?A \<inter> tables (mem s) (Suc l) r = {}" using D(3) by blast
  note u = table_update [OF D(2) i oth ki nl pt_okD(2) [OF G(1)] tu dj fr]
  have "pte_of (mem s') (Suc l) r va = pte_of (mem s) (Suc l) r va" for va
    using u(3) [of va] u(4) [of va] G(6) [of va] N(6) [of va] none by (cases "unat (PX (Suc l) va) = i") auto
  moreover have "\<forall>p \<in> tables (mem s') (Suc l) r. ram_page s' p \<and> p \<notin> avail s'"
    using u(2) ok ka.pool_frame [OF D(1)] G(2,3) N(2,4) ram_page_kend [of s' s] unfolding pt_ok_def by auto
  moreover have "pages_eq (- tables (mem s') (Suc l) r) (mem s) (mem s')"
    by (rule pages_eq_mono [OF fr]) (use u(2) sub rt in auto)
  moreover have "kend s' = kend s" "avail s' \<subseteq> avail s" using G(2,3) N(2,4) by auto
  ultimately show "pt_grow (Suc l) r s s'"
    using u(1,2) pt_okD(1) [OF G(1)] unfolding pt_grow_def pt_ok_def by blast
qed

lemma walk_loop_alloc:
  assumes "pt_ok l r s" and "walk_loop l r va True s = (slot, s')"
  shows "pt_grow l r s s' \<and> (slot = 0 \<longrightarrow> avail s' = {}) \<and>
    (slot \<noteq> 0 \<longrightarrow> walk_loop l r va False s' = (slot, s'))"
  using assms
proof (induction l arbitrary: r s)
  case 0
  then have "slot = r + word_of_nat (8 * unat (PX 0 va))" by simp
  then have "PGROUNDDOWN slot = r"
    using PGROUNDDOWN_offset [OF pt_okD(5) [OF 0(1)], of "8 * unat (PX 0 va)"] PX_less [of 0 va] by simp
  then have "slot \<noteq> 0" using pt_okD(4) [OF 0(1)] by (auto simp: PGROUNDDOWN_def)
  then show ?case using 0 by (auto simp: pt_grow_refl)
next
  case (Suc l)
  let ?i = "unat (PX (Suc l) va)"
  show ?case
  proof (cases "kid (mem s) r ?i")
    case (Some c)
    have wk: "walk_loop l c va True s = (slot, s')"
      using Suc.prems(2) walk_ro_kid [OF Some, of True] by simp
    have "pt_ok l c s"
      using Suc.prems(1) pt_wf_kid [OF pt_okD(2) [OF Suc.prems(1)] PX_less Some]
        sub_subset [OF PX_less, of "mem s" l r "Suc l" va] Some unfolding pt_ok_def by auto
    note IH = Suc.IH [OF this wk]
    note K = pt_grow_kid [OF Suc.prems(1) PX_less Some conjunct1 [OF IH]]
    show ?thesis using IH K(1) walk_ro_kid [OF K(2)] by simp
  next
    case None
    obtain p s1 where al: "kalloc s = (p, s1)" by fastforce
    have w: "walk_loop (Suc l) r va True s = (if p = 0 then (0, s1)
        else walk_loop l p va True (set_pte (r + word_of_nat (8 * ?i)) (PA2PTE p OR PTE_V) (zero_page p s1)))"
      using None kid_PX(1) [of "mem s" r "Suc l" va] al by (simp add: Let_def)
    show ?thesis
    proof (cases "p = 0")
      case True
      have "avail s = {} \<and> s1 = s"
        by (rule ka.alloc_cases [OF pt_okD(1) [OF Suc.prems(1)] al]) (use True in auto)
      then show ?thesis using w True Suc.prems pt_grow_refl by auto
    next
      case False
      define s2 where "s2 = set_pte (r + word_of_nat (8 * ?i)) (PA2PTE p OR PTE_V) (zero_page p s1)"
      have wk: "walk_loop l p va True s2 = (slot, s')"
        using w False Suc.prems(2) by (simp add: s2_def)
      note IH = Suc.IH [OF new_table(1) [OF Suc.prems(1) PX_less None al False s2_def] wk]
      note K = pt_grow_new [OF Suc.prems(1) PX_less None al False s2_def conjunct1 [OF IH]]
      show ?thesis using IH K(1) walk_ro_kid [OF K(2)] by simp
    qed
  qed
qed

section \<open>Indices and pages\<close>

text \<open>
  The three index fields tell addresses below \<^term>\<open>0x8000000000 :: u64\<close> apart; \<^verbatim>\<open>MAXVA\<close> is half of that.
\<close>

abbreviation (input) VATOP :: u64 where "VATOP \<equiv> 0x8000000000"

lemma MAXVA_VATOP [simp]: "va < MAXVA \<Longrightarrow> va < VATOP"
  by (simp add: word_less_nat_alt)

lemma PX_page:
  assumes "PX 0 va = PX 0 va'" and "PX 1 va = PX 1 va'" and "PX 2 va = PX 2 va'"
    and "va < VATOP" and "va' < VATOP"
  shows "PGROUNDDOWN va = PGROUNDDOWN va'"
proof -
  have *: "unat a div 4096 = unat (PX 0 a) + 512 * (unat (PX 1 a) + 512 * unat (PX 2 a))"
    if "a < VATOP" for a
  proof -
    have "unat a div 4096 div 512 div 512 < 512" using that by (simp add: word_less_nat_alt)
    moreover have "unat a div 2 ^ 21 = unat a div 4096 div 512" "unat a div 2 ^ 30 = unat a div 4096 div 512 div 512"
      by (simp_all add: div_mult2_eq [symmetric])
    ultimately show ?thesis by (simp add: unat_PX PXSHIFT_def)
  qed
  have "unat va div 4096 = unat va' div 4096" using * [OF assms(4)] * [OF assms(5)] assms(1-3) by simp
  then show ?thesis by (simp add: word_unat_eq_iff unat_PGROUNDDOWN)
qed

lemma PX_PGROUNDDOWN: "PX l (PGROUNDDOWN va) = PX l va"
proof -
  have "unat va div 4096 * 4096 div 2 ^ (12 + 9 * l) = unat va div 2 ^ (12 + 9 * l)"
    by (simp add: power_add div_mult2_eq)
  then show ?thesis by (simp add: word_unat_eq_iff [of "PX l (PGROUNDDOWN va)"] unat_PX PXSHIFT_def unat_PGROUNDDOWN)
qed

lemma same_index_2:
  assumes "va < VATOP" and "va' < VATOP"
  shows "same_index 2 va va' \<longleftrightarrow> PGROUNDDOWN va = PGROUNDDOWN va'"
proof
  assume "same_index 2 va va'"
  then show "PGROUNDDOWN va = PGROUNDDOWN va'" using assms by (intro PX_page) (auto simp: same_index_def)
next
  assume "PGROUNDDOWN va = PGROUNDDOWN va'"
  then have "PX k va = PX k va'" for k using PX_PGROUNDDOWN by metis
  then show "same_index 2 va va'" by (simp add: same_index_def)
qed

end
