(* ===== verification/Xv6_Uvm.thy ===== *)
theory Xv6_Uvm
  imports Xv6_Vm
begin

text \<open>
  Page tables as address maps: what \<^verbatim>\<open>walk\<close>, \<^verbatim>\<open>mappages\<close>, \<^verbatim>\<open>uvmunmap\<close> and \<^verbatim>\<open>uvmdealloc\<close> of
  \<^verbatim>\<open>kernel/vm.c\<close> do to the translation a table encodes, to the frames a process owns, and to
  the pool of free pages.
\<close>

section \<open>Single entries\<close>

abbreviation pte :: "memory \<Rightarrow> u64 \<Rightarrow> u64 \<Rightarrow> u64" where
  "pte m pt va \<equiv> pte_of m 2 pt va"

abbreviation page_frame :: "memory \<Rightarrow> u64 \<Rightarrow> u64 \<Rightarrow> u64" where
  "page_frame m pt va \<equiv> PTE2PA (pte m pt va)"

definition set_page :: "(u64 \<Rightarrow> u64) \<Rightarrow> u64 \<Rightarrow> u64 \<Rightarrow> u64 \<Rightarrow> u64" where
  "set_page f va e va' = (if PGROUNDDOWN va' = PGROUNDDOWN va then e else f va')"

definition ptes_eq :: "u64 \<Rightarrow> memory \<Rightarrow> (u64 \<Rightarrow> u64) \<Rightarrow> bool" where
  "ptes_eq pt m f \<longleftrightarrow> (\<forall>va. va < VATOP \<longrightarrow> pte m pt va = f va)"

lemma ptes_eqD: "ptes_eq pt m f \<Longrightarrow> va < VATOP \<Longrightarrow> pte m pt va = f va"
  by (simp add: ptes_eq_def)

lemma pte_PGROUNDDOWN: "pte_of m l pt (PGROUNDDOWN va) = pte_of m l pt va"
  by (induction l arbitrary: pt) (simp_all add: PX_PGROUNDDOWN split: option.split)

lemma pages_eq_store_cong: "pages_eq P m m' \<Longrightarrow> pages_eq P (store64 m a v) (store64 m' a v)"
  by (simp add: pages_eq_def store64_apply)

lemma slot_of_frame:
  assumes so: "slot_of m l r va slot" and wf: "pt_wf m l r"
    and eq: "pages_eq P m m'" and sub: "tables m l r \<subseteq> P"
  shows "slot_of m' l r va slot"
proof -
  note F = table_frame [OF wf eq sub]
  obtain q k where q: "q \<in> tables m l r" "k < 512" "slot = q + word_of_nat (8 * k)"
    using so unfolding slot_of_def by blast
  have S: "pt_wf (store64 m slot e) l r" "tables (store64 m slot e) l r = tables m l r"
    "\<And>va'. pte_of (store64 m slot e) l r va' = (if same_index l va va' then e else pte_of m l r va')" for e
    using so unfolding slot_of_def by blast+
  have G: "tables (store64 m' slot e) l r = tables (store64 m slot e) l r \<and> pt_wf (store64 m' slot e) l r \<and>
      (\<forall>va. pte_of (store64 m' slot e) l r va = pte_of (store64 m slot e) l r va)" for e
    by (rule table_frame [OF S(1) pages_eq_store_cong [OF eq]]) (use S(2) sub in simp)
  have "load64 m' slot = load64 m slot"
    using load64_pages_eq [OF eq tables_aligned [OF wf q(1)], of "8 * k"] q sub by auto
  then have "load64 m' slot = pte_of m' l r va"
    using so F unfolding slot_of_def by simp
  then show ?thesis using G S F q unfolding slot_of_def by auto
qed

text \<open>A successful look-up gives the address of the entry.\<close>

lemma walk_lookup:
  assumes "pt_ok 2 pt s" and "va < MAXVA"
  obtains slot where "walk pt va False s = Ok (slot, s)"
    and "slot = 0 \<Longrightarrow> pte (mem s) pt va = 0"
    and "slot \<noteq> 0 \<Longrightarrow> slot_of (mem s) 2 pt va slot"
proof -
  obtain slot where w: "walk_loop 2 pt va False s = (slot, s)"
    using walk_loop_ro [of 2 pt va s] by (metis prod.collapse)
  have "walk pt va False s = Ok (slot, s)" using assms(2) w by (simp add: walk_def not_le)
  then show ?thesis
    using that walk_loop_slot [OF pt_okD(2) [OF assms(1)] pt_okD(4) [OF assms(1)] w] by blast
qed

lemma slot_of_load: "slot_of m l r va slot \<Longrightarrow> load64 m slot = pte_of m l r va"
  by (simp add: slot_of_def)

text \<open>Writing the entry changes the translation of one page.\<close>

lemma set_pte_ok:
  assumes ok: "pt_ok 2 pt s" and so: "slot_of (mem s) 2 pt va slot" and va: "va < MAXVA"
  shows "pt_ok 2 pt (set_pte slot e s)" and "avail (set_pte slot e s) = avail s"
    and "tables (store64 (mem s) slot e) 2 pt = tables (mem s) 2 pt"
    and "pages_eq (- tables (mem s) 2 pt) (mem s) (store64 (mem s) slot e)"
    and "ptes_eq pt (store64 (mem s) slot e) (set_page (pte (mem s) pt) va e)"
proof -
  note D = pt_okD [OF ok]
  obtain p where p: "p \<in> tables (mem s) 2 pt" "pages_eq (- {p}) (mem s) (store64 (mem s) slot e)"
    using slot_of_page [OF so D(2)] by metis
  show e: "pages_eq (- tables (mem s) 2 pt) (mem s) (store64 (mem s) slot e)"
    by (rule pages_eq_mono [OF p(2)]) (use p(1) in auto)
  have "avail s \<subseteq> - tables (mem s) 2 pt" using D(3) by blast
  note K = kmem_ok_mem [OF D(1) e this]
  show "avail (set_pte slot e s) = avail s" by (rule K)
  have S: "pt_wf (store64 (mem s) slot e) 2 pt" "tables (store64 (mem s) slot e) 2 pt = tables (mem s) 2 pt"
    "\<And>va'. pte (store64 (mem s) slot e) pt va' = (if same_index 2 va va' then e else pte (mem s) pt va')"
    using so unfolding slot_of_def by blast+
  show "tables (store64 (mem s) slot e) 2 pt = tables (mem s) 2 pt" by (rule S(2))
  show "pt_ok 2 pt (set_pte slot e s)" using ok K S unfolding pt_ok_def by simp
  show "ptes_eq pt (store64 (mem s) slot e) (set_page (pte (mem s) pt) va e)"
    unfolding ptes_eq_def set_page_def using S(3) same_index_2 [OF MAXVA_VATOP [OF va]] by auto
qed

text \<open>
  A change of a table by allocating walks and entry writes: it grows by pages of the pool,
  touches nothing else and afterwards translates as \<open>f\<close>.
\<close>

definition pt_change :: "u64 \<Rightarrow> kmem \<Rightarrow> kmem \<Rightarrow> (u64 \<Rightarrow> u64) \<Rightarrow> bool" where
  "pt_change pt s s' f \<longleftrightarrow> pt_ok 2 pt s' \<and> kend s' = kend s \<and> avail s' \<subseteq> avail s \<and>
     tables (mem s') 2 pt = tables (mem s) 2 pt \<union> (avail s - avail s') \<and>
     pages_eq (- tables (mem s') 2 pt) (mem s) (mem s') \<and> ptes_eq pt (mem s') f"

lemma pt_change_grow: "pt_grow 2 pt s s' \<Longrightarrow> pt_change pt s s' (pte (mem s) pt)"
  by (auto simp: pt_grow_def pt_change_def ptes_eq_def)

lemma pt_change_trans:
  assumes "pt_change pt s s1 f" and "pt_change pt s1 s2 g"
  shows "pt_change pt s s2 g"
proof -
  have "pages_eq (- tables (mem s2) 2 pt) (mem s) (mem s2)"
    using pages_eq_trans [of "- tables (mem s1) 2 pt" "mem s" "mem s1" "- tables (mem s2) 2 pt" "mem s2"] assms
    by (auto simp: pt_change_def elim!: pages_eq_mono)
  then show ?thesis using assms unfolding pt_change_def by auto
qed

lemma pt_change_cong:
  "pt_change pt s s' f \<Longrightarrow> (\<And>va. va < VATOP \<Longrightarrow> f va = g va) \<Longrightarrow> pt_change pt s s' g"
  unfolding pt_change_def ptes_eq_def by metis

lemma pt_change_set:
  assumes "pt_ok 2 pt s" and "slot_of (mem s) 2 pt va slot" and "va < MAXVA"
  shows "pt_change pt s (set_pte slot e s) (set_page (pte (mem s) pt) va e)"
  using set_pte_ok [OF assms] by (simp add: pt_change_def)

lemma walk_create:
  assumes ok: "pt_ok 2 pt s" and va: "va < MAXVA"
  obtains slot s1 where "walk pt va True s = Ok (slot, s1)"
    and "pt_change pt s s1 (pte (mem s) pt)"
    and "slot = 0 \<Longrightarrow> avail s1 = {}"
    and "slot \<noteq> 0 \<Longrightarrow> load64 (mem s1) slot = pte (mem s) pt va"
    and "\<And>e. slot \<noteq> 0 \<Longrightarrow> pt_change pt s (set_pte slot e s1) (set_page (pte (mem s) pt) va e)"
proof -
  obtain slot s1 where w: "walk_loop 2 pt va True s = (slot, s1)" by fastforce
  note W = walk_loop_alloc [OF ok w]
  have g: "pt_grow 2 pt s s1" using W by blast
  then have c: "pt_change pt s s1 (pte (mem s) pt)" and ok1: "pt_ok 2 pt s1"
    using pt_change_grow pt_growD(1) by blast+
  have so: "slot_of (mem s1) 2 pt va slot" if "slot \<noteq> 0"
    using walk_loop_slot [OF pt_okD(2,4) [OF ok1]] W that by blast
  have "pt_change pt s (set_pte slot e s1) (set_page (pte (mem s) pt) va e)" if "slot \<noteq> 0" for e
  proof -
    have "pt_change pt s (set_pte slot e s1) (set_page (pte (mem s1) pt) va e)"
      using pt_change_trans [OF c pt_change_set [OF ok1 so [OF that] va]] .
    then show ?thesis by (rule pt_change_cong) (simp add: set_page_def pt_growD(6) [OF g])
  qed
  moreover have "load64 (mem s1) slot = pte (mem s) pt va" if "slot \<noteq> 0"
    using slot_of_load [OF so [OF that]] pt_growD(6) [OF g] by simp
  moreover have "walk pt va True s = Ok (slot, s1)" using va w by (simp add: walk_def not_le)
  ultimately show ?thesis using that c W by blast
qed

section \<open>Mapping a range of pages\<close>

definition map_range :: "(u64 \<Rightarrow> u64) \<Rightarrow> u64 \<Rightarrow> nat \<Rightarrow> u64 \<Rightarrow> u64 \<Rightarrow> u64 \<Rightarrow> u64" where
  "map_range f a n pa perm va =
     (if unat a \<le> unat va \<and> unat va < unat a + 4096 * n
      then PA2PTE (pa + (PGROUNDDOWN va - a)) OR perm OR PTE_V else f va)"

lemma page_in_iff:
  assumes "page_aligned a" shows "PGROUNDDOWN va = a \<longleftrightarrow> unat a \<le> unat va \<and> unat va < unat a + 4096"
proof -
  obtain k where "unat a = 4096 * k"
    using assms by (auto simp: page_aligned_unat mod_eq_0_iff_dvd elim: dvdE)
  then show ?thesis by (auto simp: word_unat_eq_iff [of "PGROUNDDOWN va"] unat_PGROUNDDOWN)
qed

lemma page_aligned_add [simp]:
  assumes "page_aligned a" shows "page_aligned (a + word_of_nat (4096 * i))"
proof -
  have d: "4096 dvd (2 ^ 64 :: nat)" by simp
  have "unat (a + word_of_nat (4096 * i)) = (unat a + 4096 * i mod 2 ^ 64) mod 2 ^ 64"
    by (simp add: unat_word_ariths unsigned_of_nat take_bit_eq_mod del: of_nat_mult)
  then have "unat (a + word_of_nat (4096 * i)) mod 4096 = (unat a + 4096 * i) mod 4096"
    by (simp only: mod_mod_cancel [OF d] mod_add_right_eq)
  then show ?thesis using assms by (simp add: page_aligned_unat mod_add_eq [symmetric])
qed

lemma page_aligned_add_PGSIZE [simp]: "page_aligned a \<Longrightarrow> page_aligned (a + PGSIZE)"
  using page_aligned_add [of a 1] by simp

lemma map_range_0: "map_range f a 0 pa perm = f"
  by (auto simp: map_range_def fun_eq_iff)

lemma map_range_Suc:
  assumes "page_aligned a" and "a < MAXVA"
  shows "map_range (set_page f a (PA2PTE pa OR perm OR PTE_V)) (a + PGSIZE) n (pa + PGSIZE) perm va
    = map_range f a (Suc n) pa perm va"
proof -
  have u: "unat (a + PGSIZE) = unat a + 4096" by (rule add_PGSIZE_MAXVA [OF assms(2)])
  have "pa + PGSIZE + (PGROUNDDOWN va - (a + PGSIZE)) = pa + (PGROUNDDOWN va - a)" by simp
  then show ?thesis
    using page_in_iff [OF assms(1), of va] u assms(1)
    by (auto simp: map_range_def set_page_def)
qed

lemma map_range_cong:
  "(va < VATOP \<Longrightarrow> f va = g va) \<Longrightarrow> va < VATOP \<Longrightarrow> map_range f a n pa perm va = map_range g a n pa perm va"
  by (simp add: map_range_def)

text \<open>One iteration of the mapping loop: out of page-table pages, or one more page mapped.\<close>

lemma mappages_step:
  assumes "pt_ok 2 pt s" and "a < MAXVA" and "pte (mem s) pt a AND PTE_V = 0"
  obtains (full) s1 where "\<And>lastva. mappages_loop pt a lastva pa perm s = Ok (-1, s1)"
      and "pt_change pt s s1 (pte (mem s) pt)" and "avail s1 = {}"
  | (mapped) s2 where "\<And>lastva. mappages_loop pt a lastva pa perm s =
        (if a = lastva then Ok (0, s2) else mappages_loop pt (a + PGSIZE) lastva (pa + PGSIZE) perm s2)"
      and "pt_change pt s s2 (set_page (pte (mem s) pt) a (PA2PTE pa OR perm OR PTE_V))"
proof -
  obtain slot s1 where w: "walk pt a True s = Ok (slot, s1)" "pt_change pt s s1 (pte (mem s) pt)"
    "slot = 0 \<Longrightarrow> avail s1 = {}" "slot \<noteq> 0 \<Longrightarrow> load64 (mem s1) slot = pte (mem s) pt a"
    "\<And>e. slot \<noteq> 0 \<Longrightarrow> pt_change pt s (set_pte slot e s1) (set_page (pte (mem s) pt) a e)"
    using walk_create [OF assms(1,2)] by blast
  show ?thesis
  proof (cases "slot = 0")
    case True
    then have "mappages_loop pt a lastva pa perm s = Ok (-1, s1)" for lastva
      using w by (subst mappages_loop.simps) simp
    then show ?thesis using full w True by blast
  next
    case False
    have "mappages_loop pt a lastva pa perm s =
        (if a = lastva then Ok (0, set_pte slot (PA2PTE pa OR perm OR PTE_V) s1)
         else mappages_loop pt (a + PGSIZE) lastva (pa + PGSIZE) perm (set_pte slot (PA2PTE pa OR perm OR PTE_V) s1))"
      for lastva
      using w(1,4) False assms(3) by (subst mappages_loop.simps) (simp add: Let_def)
    then show ?thesis using mapped w(5) False by blast
  qed
qed

lemma mappages_loop_ok:
  assumes "pt_ok 2 pt s" and "page_aligned a" and "unat a + 4096 * n < unat MAXVA"
    and "\<forall>i\<le>n. pte (mem s) pt (a + word_of_nat (4096 * i)) AND PTE_V = 0"
  shows "\<exists>r s' k. mappages_loop pt a (a + word_of_nat (4096 * n)) pa perm s = Ok (r, s') \<and>
    pt_change pt s s' (map_range (pte (mem s) pt) a k pa perm) \<and>
    (r = 0 \<and> k = Suc n \<or> r = -1 \<and> k \<le> n \<and> avail s' = {})"
  using assms
proof (induction n arbitrary: a pa s)
  case 0
  then have lt: "a < MAXVA" and un: "pte (mem s) pt a AND PTE_V = 0" by (simp_all add: word_less_nat_alt)
  show ?case
  proof (rule mappages_step [OF "0.prems"(1) lt un, of pa perm])
    fix s1 assume "\<And>lastva. mappages_loop pt a lastva pa perm s = Ok (-1, s1)"
      "pt_change pt s s1 (pte (mem s) pt)" "avail s1 = {}"
    then show ?case by (auto simp: map_range_0)
  next
    fix s2 assume m: "\<And>lastva. mappages_loop pt a lastva pa perm s =
        (if a = lastva then Ok (0, s2) else mappages_loop pt (a + PGSIZE) lastva (pa + PGSIZE) perm s2)"
      and c: "pt_change pt s s2 (set_page (pte (mem s) pt) a (PA2PTE pa OR perm OR PTE_V))"
    have "pt_change pt s s2 (map_range (pte (mem s) pt) a (Suc 0) pa perm)"
      using c map_range_Suc [OF "0.prems"(2) lt, of _ _ _ 0] by (auto simp: map_range_0 elim: pt_change_cong)
    then show ?case using m [of a] by auto
  qed
next
  case (Suc n)
  then have lt: "a < MAXVA" by (simp add: word_less_nat_alt)
  have un: "pte (mem s) pt a AND PTE_V = 0" using Suc.prems(4) [rule_format, of 0] by simp
  have up: "unat (a + PGSIZE) = unat a + 4096" by (rule add_PGSIZE_MAXVA [OF lt])
  have la: "a + word_of_nat (4096 * Suc n) = (a + PGSIZE) + word_of_nat (4096 * n)" by simp
  show ?case
  proof (rule mappages_step [OF Suc.prems(1) lt un, of pa perm])
    fix s1 assume "\<And>lastva. mappages_loop pt a lastva pa perm s = Ok (-1, s1)"
      "pt_change pt s s1 (pte (mem s) pt)" "avail s1 = {}"
    then show ?case by (auto simp: map_range_0 intro!: exI [of _ 0])
  next
    fix s2 assume m: "\<And>lastva. mappages_loop pt a lastva pa perm s =
        (if a = lastva then Ok (0, s2) else mappages_loop pt (a + PGSIZE) lastva (pa + PGSIZE) perm s2)"
      and c: "pt_change pt s s2 (set_page (pte (mem s) pt) a (PA2PTE pa OR perm OR PTE_V))"
    have ok2: "pt_ok 2 pt s2" using c by (simp add: pt_change_def)
    have eq: "pte (mem s2) pt va = set_page (pte (mem s) pt) a (PA2PTE pa OR perm OR PTE_V) va" if "va < VATOP" for va
      using c that by (simp add: pt_change_def ptes_eq_def)
    have ne: "a \<noteq> a + word_of_nat (4096 * Suc n)"
      using unat_add_of_nat_u64 [of a "4096 * Suc n"] Suc.prems(3) by auto
    have un2: "\<forall>i\<le>n. pte (mem s2) pt (a + PGSIZE + word_of_nat (4096 * i)) AND PTE_V = 0"
    proof (intro allI impI)
      fix i assume i: "i \<le> n"
      let ?v = "a + PGSIZE + word_of_nat (4096 * i)"
      have v: "unat ?v = unat a + 4096 * Suc i"
        using unat_add_of_nat_u64 [of "a + PGSIZE" "4096 * i"] up Suc.prems(3) i by simp
      then have "?v < MAXVA" "PGROUNDDOWN ?v \<noteq> PGROUNDDOWN a"
        using Suc.prems(2,3) i page_in_iff [OF Suc.prems(2), of ?v] by (auto simp: word_less_nat_alt)
      then show "pte (mem s2) pt ?v AND PTE_V = 0"
        using eq Suc.prems(4) [rule_format, of "Suc i"] i by (simp add: set_page_def add.assoc)
    qed
    have b: "unat (a + PGSIZE) + 4096 * n < unat MAXVA" using up Suc.prems(3) by simp
    obtain r s' k where IH: "mappages_loop pt (a + PGSIZE) ((a + PGSIZE) + word_of_nat (4096 * n)) (pa + PGSIZE) perm s2 = Ok (r, s')"
      "pt_change pt s2 s' (map_range (pte (mem s2) pt) (a + PGSIZE) k (pa + PGSIZE) perm)"
      "r = 0 \<and> k = Suc n \<or> r = -1 \<and> k \<le> n \<and> avail s' = {}"
      using Suc.IH [OF ok2 page_aligned_add_PGSIZE [OF Suc.prems(2)] b un2] by blast
    have "map_range (pte (mem s2) pt) (a + PGSIZE) k (pa + PGSIZE) perm va =
        map_range (pte (mem s) pt) a (Suc k) pa perm va" if "va < VATOP" for va
      unfolding map_range_Suc [OF Suc.prems(2) lt, symmetric] using eq [OF that] that by (rule map_range_cong)
    then have "pt_change pt s s' (map_range (pte (mem s) pt) a (Suc k) pa perm)"
      using pt_change_cong [OF pt_change_trans [OF c IH(2)]] by blast
    moreover have "mappages_loop pt a (a + word_of_nat (4096 * Suc n)) pa perm s = Ok (r, s')"
      using m [of "a + word_of_nat (4096 * Suc n)"] ne IH(1) by (simp only: la if_False)
    ultimately show ?case using IH(3) by (metis Suc_le_mono)
  qed
qed

text \<open>\<^verbatim>\<open>mappages\<close> of a range below \<^verbatim>\<open>MAXVA\<close> whose pages are unmapped.\<close>

lemma mappages_ok:
  assumes ok: "pt_ok 2 pt s" and sz: "sz \<noteq> 0" and le: "unat va + unat sz \<le> unat MAXVA"
    and un: "\<forall>v. PGROUNDDOWN va \<le> v \<and> unat v < unat va + unat sz \<longrightarrow> pte (mem s) pt v AND PTE_V = 0"
    and N: "N = (unat va mod 4096 + unat sz + 4095) div 4096"
  shows "\<exists>r s' k. mappages pt va sz pa perm s = Ok (r, s') \<and>
    pt_change pt s s' (map_range (pte (mem s) pt) (PGROUNDDOWN va) k pa perm) \<and>
    (r = 0 \<and> k = N \<or> r = -1 \<and> k < N \<and> avail s' = {})"
proof -
  let ?a = "PGROUNDDOWN va"
  have szp: "unat sz > 0" using sz by (simp add: word_unat_eq_iff)
  then have "N > 0" using N by simp
  then obtain n where n: "N = Suc n" using gr0_implies_Suc by blast
  have ua: "unat ?a = unat va - unat va mod 4096" by (simp add: unat_PGROUNDDOWN minus_mod_eq_div_mult)
  have n': "n = (unat va mod 4096 + unat sz - 1) div 4096"
  proof -
    have "unat va mod 4096 + unat sz + 4095 = (unat va mod 4096 + unat sz - 1) + 4096" using szp by simp
    then show ?thesis using N n by simp
  qed
  have "unat (va + sz) = unat va + unat sz" using unat_add_of_nat_u64 [of va "unat sz"] le by simp
  moreover from this have "va + sz \<noteq> 0" using szp by (auto simp: word_unat_eq_iff)
  ultimately have us: "unat (va + sz - 1) = unat va + (unat sz - 1)"
    using szp by (simp add: unat_minus_one)
  have n4: "4096 * n \<le> unat va mod 4096 + unat sz - 1" unfolding n' by simp
  have vm: "unat va mod 4096 \<le> unat va" by simp
  have b: "unat ?a + 4096 * n < unat MAXVA" using n4 ua le szp vm by linarith
  have lastva: "PGROUNDDOWN (va + sz - 1) = ?a + word_of_nat (4096 * n)"
  proof -
    have u2: "unat (?a + word_of_nat (4096 * n)) = unat ?a + 4096 * n"
      by (rule unat_add_of_nat_u64) (use b in simp)
    have "unat va + (unat sz - 1) = unat va div 4096 * 4096 + (unat va mod 4096 + unat sz - 1)"
      using szp by simp
    then have "(unat va + (unat sz - 1)) div 4096 = unat va div 4096 + n"
      unfolding n' by (metis div_mult_self3 zero_neq_numeral)
    then show ?thesis using u2 us by (simp add: word_unat_eq_iff unat_PGROUNDDOWN algebra_simps)
  qed
  have "\<forall>i\<le>n. pte (mem s) pt (?a + word_of_nat (4096 * i)) AND PTE_V = 0"
  proof (intro allI impI)
    fix i assume i: "i \<le> n"
    then have u: "unat (?a + word_of_nat (4096 * i)) = unat ?a + 4096 * i"
      by (intro unat_add_of_nat_u64) (use b in simp)
    then have "?a \<le> ?a + word_of_nat (4096 * i)" by (simp add: word_le_nat_alt)
    moreover have "unat (?a + word_of_nat (4096 * i)) < unat va + unat sz"
      using u n4 ua szp vm i by linarith
    ultimately show "pte (mem s) pt (?a + word_of_nat (4096 * i)) AND PTE_V = 0" using un by blast
  qed
  from mappages_loop_ok [OF ok page_aligned_PGROUNDDOWN b this, of pa perm]
  show ?thesis using sz lastva n by (auto simp: mappages_def less_Suc_eq_le)
qed

lemma mappages_page:
  assumes ok: "pt_ok 2 pt s" and a: "page_aligned a" "a < MAXVA" and un: "pte (mem s) pt a AND PTE_V = 0"
  shows "\<exists>r s'. mappages pt a PGSIZE pa perm s = Ok (r, s') \<and>
    (r = 0 \<and> pt_change pt s s' (set_page (pte (mem s) pt) a (PA2PTE pa OR perm OR PTE_V)) \<or>
     r = -1 \<and> pt_change pt s s' (pte (mem s) pt) \<and> avail s' = {})"
proof -
  have "a + PGSIZE - 1 = a + word_of_nat 4095" by simp
  then have "PGROUNDDOWN (a + PGSIZE - 1) = a" using PGROUNDDOWN_offset [OF a(1), of 4095] by (simp only:)
  then have m: "mappages pt a PGSIZE pa perm s = mappages_loop pt a a pa perm s"
    using a(1) by (simp add: mappages_def)
  show ?thesis by (rule mappages_step [OF ok a(2) un, of pa perm]) (use m in auto)
qed

section \<open>Owned user pages\<close>

text \<open>
  \<open>owns pt U s\<close>: the pages with addresses \<open>U\<close> are mapped by valid leaf entries to distinct RAM
  pages that are neither free nor pages of the table itself.
\<close>

definition owns :: "u64 \<Rightarrow> u64 set \<Rightarrow> kmem \<Rightarrow> bool" where
  "owns pt U s \<longleftrightarrow>
     (\<forall>va \<in> U. page_aligned va \<and> va < MAXVA \<and> pte (mem s) pt va AND PTE_V \<noteq> 0 \<and>
        PTE_FLAGS (pte (mem s) pt va) \<noteq> PTE_V \<and> ram_page s (page_frame (mem s) pt va) \<and>
        page_frame (mem s) pt va \<notin> avail s \<and> page_frame (mem s) pt va \<notin> tables (mem s) 2 pt) \<and>
     inj_on (page_frame (mem s) pt) U"

abbreviation frames :: "memory \<Rightarrow> u64 \<Rightarrow> u64 set \<Rightarrow> u64 set" where
  "frames m pt U \<equiv> page_frame m pt ` U"

lemma ownsD:
  assumes "owns pt U s" and "va \<in> U"
  shows "page_aligned va" and "va < MAXVA" and "pte (mem s) pt va AND PTE_V \<noteq> 0"
    and "PTE_FLAGS (pte (mem s) pt va) \<noteq> PTE_V" and "ram_page s (page_frame (mem s) pt va)"
    and "page_frame (mem s) pt va \<notin> avail s" and "page_frame (mem s) pt va \<notin> tables (mem s) 2 pt"
  using assms by (auto simp: owns_def)

lemma owns_mono: "owns pt U s \<Longrightarrow> V \<subseteq> U \<Longrightarrow> owns pt V s"
  unfolding owns_def using inj_on_subset by blast

text \<open>Ownership only depends on the owned entries and on what is free and in the table.\<close>

lemma owns_transfer:
  assumes "owns pt U s" and "\<And>va. va \<in> U \<Longrightarrow> pte (mem s') pt va = pte (mem s) pt va"
    and "kend s' = kend s" and "frames (mem s) pt U \<inter> (avail s' \<union> tables (mem s') 2 pt) = {}"
  shows "owns pt U s'"
proof -
  have "inj_on (page_frame (mem s') pt) U \<longleftrightarrow> inj_on (page_frame (mem s) pt) U"
    by (rule inj_on_cong) (simp add: assms(2))
  moreover have "page_frame (mem s) pt va \<notin> avail s' \<union> tables (mem s') 2 pt" if "va \<in> U" for va
    using assms(4) that by blast
  ultimately show ?thesis
    using assms(1,2) ram_page_kend [OF assms(3)] unfolding owns_def by auto
qed

lemma pt_change_owns:
  assumes c: "pt_change pt s s' f" and o: "owns pt U s" and f: "\<And>va. va \<in> U \<Longrightarrow> f va = pte (mem s) pt va"
  shows "owns pt U s'"
proof (rule owns_transfer [OF o])
  show "pte (mem s') pt va = pte (mem s) pt va" if "va \<in> U" for va
    using c f [OF that] ownsD(2) [OF o that] by (simp add: pt_change_def ptes_eq_def)
  show "kend s' = kend s" using c by (simp add: pt_change_def)
  show "frames (mem s) pt U \<inter> (avail s' \<union> tables (mem s') 2 pt) = {}"
    using c ownsD(6,7) [OF o] unfolding pt_change_def by fastforce
qed

section \<open>Unmapping\<close>

definition va_pages :: "u64 \<Rightarrow> nat \<Rightarrow> u64 set" where
  "va_pages a n = (\<lambda>i. a + word_of_nat (4096 * i)) ` {..<n}"

lemma va_pages_0 [simp]: "va_pages a 0 = {}"
  by (simp add: va_pages_def)

lemma va_pages_Suc: "va_pages a (Suc n) = insert a (va_pages (a + PGSIZE) n)"
  by (simp add: va_pages_def lessThan_Suc_eq_insert_0 image_image algebra_simps)

lemma va_pages_add: "va_pages a (Suc n) = insert (a + word_of_nat (4096 * n)) (va_pages a n)"
  by (simp add: va_pages_def lessThan_Suc)

lemma va_pages_iff:
  assumes "page_aligned a" and "unat a + 4096 * n \<le> unat MAXVA"
  shows "PGROUNDDOWN va \<in> va_pages a n \<longleftrightarrow> unat a \<le> unat va \<and> unat va < unat a + 4096 * n"
  using assms
proof (induction n arbitrary: a)
  case 0
  then show ?case by simp
next
  case (Suc n)
  then have lt: "a < MAXVA" by (simp add: word_less_nat_alt)
  have u: "unat (a + PGSIZE) = unat a + 4096" by (rule add_PGSIZE_MAXVA [OF lt])
  have "PGROUNDDOWN va \<in> va_pages (a + PGSIZE) n \<longleftrightarrow>
      unat (a + PGSIZE) \<le> unat va \<and> unat va < unat (a + PGSIZE) + 4096 * n"
    by (rule Suc.IH) (use Suc.prems u in auto)
  then show ?case
    using page_in_iff [OF Suc.prems(1), of va] u by (auto simp: va_pages_Suc)
qed

lemma va_pages_aligned: "page_aligned a \<Longrightarrow> va \<in> va_pages a n \<Longrightarrow> page_aligned va"
  by (auto simp: va_pages_def simp del: of_nat_mult)

lemma va_pages_member:
  assumes "page_aligned a" and "unat a + 4096 * n \<le> unat MAXVA" and "page_aligned va"
  shows "va \<in> va_pages a n \<longleftrightarrow> unat a \<le> unat va \<and> unat va < unat a + 4096 * n"
  using va_pages_iff [OF assms(1,2), of va] assms(3) by simp

text \<open>
  The effect of releasing the owned pages \<open>R\<close>: their frames go back to the pool, their entries are
  cleared, and nothing but the table and those frames is touched.
\<close>

definition unmapped :: "u64 \<Rightarrow> u64 set \<Rightarrow> kmem \<Rightarrow> kmem \<Rightarrow> bool" where
  "unmapped pt R s s' \<longleftrightarrow> pt_ok 2 pt s' \<and> kend s' = kend s \<and>
     tables (mem s') 2 pt = tables (mem s) 2 pt \<and>
     avail s' = avail s \<union> frames (mem s) pt R \<and>
     pages_eq (- (tables (mem s) 2 pt \<union> frames (mem s) pt R)) (mem s) (mem s') \<and>
     ptes_eq pt (mem s') (\<lambda>va. if PGROUNDDOWN va \<in> R then 0 else pte (mem s) pt va)"

lemma unmapped_refl: "pt_ok 2 pt s \<Longrightarrow> unmapped pt {} s s"
  by (simp add: unmapped_def ptes_eq_def)

lemma unmapped_owns:
  assumes u: "unmapped pt R s s'" and o: "owns pt U s" and R: "R \<subseteq> U"
  shows "owns pt (U - R) s'"
proof (rule owns_transfer [OF owns_mono [OF o]])
  show "pte (mem s') pt va = pte (mem s) pt va" if "va \<in> U - R" for va
    using u that ownsD(1,2) [OF o] by (simp add: unmapped_def ptes_eq_def)
  show "kend s' = kend s" using u by (simp add: unmapped_def)
  have "frames (mem s) pt (U - R) \<inter> frames (mem s) pt R = {}"
    using o R unfolding owns_def by (auto dest: inj_onD)
  then show "frames (mem s) pt (U - R) \<inter> (avail s' \<union> tables (mem s') 2 pt) = {}"
    using u ownsD(6,7) [OF o] by (auto simp: unmapped_def)
qed simp

lemma unmapped_trans:
  assumes u: "unmapped pt R s s1" and v: "unmapped pt Q s1 s2" and o: "owns pt (R \<union> Q) s"
    and d: "R \<inter> Q = {}"
  shows "unmapped pt (R \<union> Q) s s2"
proof -
  have q: "pte (mem s1) pt va = pte (mem s) pt va" if "va \<in> Q" for va
    using u that d ownsD(1,2) [OF o, of va] by (auto simp: unmapped_def ptes_eq_def)
  then have f: "frames (mem s1) pt Q = frames (mem s) pt Q" by (auto intro!: image_cong)
  have "pages_eq (- (tables (mem s) 2 pt \<union> frames (mem s) pt (R \<union> Q))) (mem s) (mem s2)"
    using pages_eq_trans [of _ "mem s" "mem s1" _ "mem s2"] u v f unfolding unmapped_def
    by (elim conjE) (drule (1) pages_eq_trans, auto elim!: pages_eq_mono)
  moreover have "ptes_eq pt (mem s2) (\<lambda>va. if PGROUNDDOWN va \<in> R \<union> Q then 0 else pte (mem s) pt va)"
    using u v by (simp add: unmapped_def ptes_eq_def)
  ultimately show ?thesis using u v f by (auto simp: unmapped_def image_Un)
qed

lemma uvmunmap_step:
  assumes ok: "pt_ok 2 pt s" and o: "owns pt {a} s" and stop: "a < stop"
  obtains s' where "uvmunmap_loop pt a stop True s = uvmunmap_loop pt (a + PGSIZE) stop True s'"
    and "unmapped pt {a} s s'"
proof -
  note D = pt_okD [OF ok] and O = ownsD [OF o singletonI]
  let ?f = "page_frame (mem s) pt a"
  obtain slot where w: "walk pt a False s = Ok (slot, s)" "slot = 0 \<Longrightarrow> pte (mem s) pt a = 0"
    "slot \<noteq> 0 \<Longrightarrow> slot_of (mem s) 2 pt a slot"
    using walk_lookup [OF ok O(2)] by blast
  have nz: "slot \<noteq> 0" using w(2) O(3) by auto
  note so = w(3) [OF nz]
  have ld: "load64 (mem s) slot = pte (mem s) pt a" by (rule slot_of_load [OF so])
  obtain s1 where k: "kfree ?f s = Ok s1" "kmem_ok s1" "avail s1 = insert ?f (avail s)"
    "ram_page s1 = ram_page s" "pages_eq (- {?f}) (mem s) (mem s1)"
    using ka.free_some [OF D(1) O(5,6)] by blast
  have ke: "kend s1 = kend s" using k(1) by (auto simp: kfree_def Let_def split: if_splits)
  have sub: "tables (mem s) 2 pt \<subseteq> - {?f}" using O(7) by auto
  note F = table_frame [OF D(2) k(5) sub]
  have ok1: "pt_ok 2 pt s1" using ok F k(2-4) O(7) unfolding pt_ok_def by auto
  have so1: "slot_of (mem s1) 2 pt a slot" by (rule slot_of_frame [OF so D(2) k(5) sub])
  note S = set_pte_ok [OF ok1 so1 O(2), of 0]
  have "uvmunmap_loop pt a stop True s = uvmunmap_loop pt (a + PGSIZE) stop True (set_pte slot 0 s1)"
    using stop w(1) nz ld O(3,4) k(1) by (subst uvmunmap_loop.simps) simp
  moreover have "pages_eq (- (tables (mem s) 2 pt \<union> {?f})) (mem s) (store64 (mem s1) slot 0)"
    using pages_eq_trans [OF k(5) S(4)] F by (auto elim!: pages_eq_mono)
  then have "unmapped pt {a} s (set_pte slot 0 s1)"
    using S F k(3) ke O(1) by (simp add: unmapped_def ptes_eq_def set_page_def)
  ultimately show ?thesis using that by blast
qed

lemma uvmunmap_loop_ok:
  assumes "pt_ok 2 pt s" and "owns pt (va_pages a n) s" and "page_aligned a" and "unat a + 4096 * n \<le> unat MAXVA"
  shows "\<exists>s'. uvmunmap_loop pt a (a + word_of_nat (4096 * n)) True s = Ok s' \<and> unmapped pt (va_pages a n) s s'"
  using assms
proof (induction n arbitrary: a s)
  case 0
  then show ?case by (subst uvmunmap_loop.simps) (simp add: unmapped_refl)
next
  case (Suc n)
  then have lt: "a < MAXVA" by (simp add: word_less_nat_alt)
  let ?stop = "a + word_of_nat (4096 * Suc n)"
  have u: "unat (a + PGSIZE) = unat a + 4096" by (rule add_PGSIZE_MAXVA [OF lt])
  have stop: "a < ?stop"
    using unat_add_of_nat_u64 [of a "4096 * Suc n"] Suc.prems(4) unfolding word_less_nat_alt by simp
  have oa: "owns pt {a} s" by (rule owns_mono [OF Suc.prems(2)]) (simp add: va_pages_Suc)
  obtain s1 where s1: "uvmunmap_loop pt a ?stop True s = uvmunmap_loop pt (a + PGSIZE) ?stop True s1"
    "unmapped pt {a} s s1"
    by (rule uvmunmap_step [OF Suc.prems(1) oa stop])
  have na: "a \<notin> va_pages (a + PGSIZE) n"
    using va_pages_member [of "a + PGSIZE" n a] Suc.prems(3,4) u by simp
  have o1: "owns pt (va_pages (a + PGSIZE) n) s1"
    using unmapped_owns [OF s1(2) Suc.prems(2)] na by (simp add: va_pages_Suc)
  have ok1: "pt_ok 2 pt s1" using s1(2) by (simp add: unmapped_def)
  have st: "?stop = a + PGSIZE + word_of_nat (4096 * n)" by simp
  obtain s2 where s2: "uvmunmap_loop pt (a + PGSIZE) ?stop True s1 = Ok s2"
    "unmapped pt (va_pages (a + PGSIZE) n) s1 s2"
    using Suc.IH [OF ok1 o1] Suc.prems(3,4) u unfolding st by auto
  have "unmapped pt ({a} \<union> va_pages (a + PGSIZE) n) s s2"
    by (rule unmapped_trans [OF s1(2) s2(2)]) (use Suc.prems(2) na in \<open>auto simp: va_pages_Suc\<close>)
  then show ?case using s1(1) s2(1) by (simp add: va_pages_Suc)
qed

lemma uvmunmap_ok:
  assumes "pt_ok 2 pt s" and "owns pt (va_pages a n) s" and "page_aligned a" and "unat a + 4096 * n \<le> unat MAXVA"
  obtains s' where "uvmunmap pt a (word_of_nat n) True s = Ok s'" and "unmapped pt (va_pages a n) s s'"
proof -
  have "word_of_nat n * PGSIZE = word_of_nat (4096 * n)" by simp
  then show ?thesis
    using uvmunmap_loop_ok [OF assms] that assms(3)
    by (auto simp: uvmunmap_def page_aligned_def simp del: of_nat_mult)
qed

section \<open>Growing and shrinking a process\<close>

lemma unat_PGROUNDUP_MAXVA:
  "unat sz \<le> unat MAXVA \<Longrightarrow> unat (PGROUNDUP sz) = (unat sz + 4095) div 4096 * 4096"
  by (rule unat_PGROUNDUP) simp

definition pages_between :: "u64 \<Rightarrow> u64 \<Rightarrow> nat" where
  "pages_between lo hi = (unat (PGROUNDUP hi) - unat (PGROUNDUP lo)) div 4096"

lemma pages_between_bound:
  assumes "unat hi \<le> unat MAXVA" and "lo \<le> hi"
  shows "unat (PGROUNDUP lo) + 4096 * pages_between lo hi = unat (PGROUNDUP hi)"
    and "unat (PGROUNDUP hi) \<le> unat MAXVA" and "pages_between lo hi < 2 ^ 31"
proof -
  have le: "unat lo \<le> unat hi" using assms(2) by (simp add: word_le_nat_alt)
  have hi: "unat (PGROUNDUP hi) = (unat hi + 4095) div 4096 * 4096" by (rule unat_PGROUNDUP_MAXVA [OF assms(1)])
  have lo: "unat (PGROUNDUP lo) = (unat lo + 4095) div 4096 * 4096"
    by (rule unat_PGROUNDUP_MAXVA) (use le assms(1) in simp)
  have d: "(unat lo + 4095) div 4096 \<le> (unat hi + 4095) div 4096" using le by (intro div_le_mono) simp
  have p: "pages_between lo hi = (unat hi + 4095) div 4096 - (unat lo + 4095) div 4096"
    unfolding pages_between_def hi lo by (simp add: diff_mult_distrib [symmetric])
  show "unat (PGROUNDUP lo) + 4096 * pages_between lo hi = unat (PGROUNDUP hi)"
    unfolding p hi lo using d by simp
  have "(unat hi + 4095) div 4096 \<le> 2 ^ 26" using assms(1) by simp
  then show "unat (PGROUNDUP hi) \<le> unat MAXVA" "pages_between lo hi < 2 ^ 31" unfolding hi p by simp_all
qed

lemma uvmdealloc_ok:
  assumes ok: "pt_ok 2 pt s" and sz: "newsz \<le> oldsz" "unat oldsz \<le> unat MAXVA"
    and o: "owns pt (va_pages (PGROUNDUP newsz) (pages_between newsz oldsz)) s"
  obtains s' where "uvmdealloc pt oldsz newsz s = Ok (newsz, s')"
    and "unmapped pt (va_pages (PGROUNDUP newsz) (pages_between newsz oldsz)) s s'"
proof -
  let ?n = "pages_between newsz oldsz"
  note B = pages_between_bound [OF sz(2,1)]
  show ?thesis
  proof (cases "PGROUNDUP newsz < PGROUNDUP oldsz")
    case True
    then have lt: "newsz < oldsz" using sz(1) by (cases "newsz = oldsz") auto
    have "unat ((PGROUNDUP oldsz - PGROUNDUP newsz) div PGSIZE) = ?n"
      using True by (simp add: unat_div unat_sub_if' word_less_nat_alt pages_between_def)
    then have np: "scast (ucast ((PGROUNDUP oldsz - PGROUNDUP newsz) div PGSIZE) :: i32) = (word_of_nat ?n :: u64)"
      using scast_word_of_nat [OF B(3)] by (simp only: ucast_u64_i32)
    obtain s' where "uvmunmap pt (PGROUNDUP newsz) (word_of_nat ?n) True s = Ok s'"
      "unmapped pt (va_pages (PGROUNDUP newsz) ?n) s s'"
      by (rule uvmunmap_ok [OF ok o]) (use B in auto)
    moreover from this have "uvmdealloc pt oldsz newsz s = Ok (newsz, s')"
      using lt [folded not_le] True np by (simp add: uvmdealloc_def Let_def)
    ultimately show ?thesis using that by blast
  next
    case False
    then have "?n = 0" using B(1) by (simp add: word_less_nat_alt not_less)
    moreover have "uvmdealloc pt oldsz newsz s = Ok (newsz, s)"
      using False sz(1) by (cases "newsz = oldsz") (auto simp: uvmdealloc_def)
    ultimately show ?thesis using that unmapped_refl [OF ok] by simp
  qed
qed

section \<open>A small address space\<close>

text \<open>
  A concrete state: a table of three pages maps address 0, read-only for the user, to a fourth
  page, and one page is free.
\<close>

definition example_mem :: memory where
  "example_mem =
     store64 (store64 (store64 (\<lambda>_. 0) 0x87fff000 (PA2PTE 0x87ffe000 OR PTE_V))
       0x87ffe000 (PA2PTE 0x87ffd000 OR PTE_V))
       0x87ffd000 (PA2PTE 0x87ffc000 OR (PTE_V OR PTE_R OR PTE_U))"

definition example_space :: kmem where
  "example_space = \<lparr>mem = example_mem, freelist = 0x87ffb000, kend = 0x80022000\<rparr>"

lemma ent_store_page:
  assumes "page_aligned p" and "page_aligned q" and "p \<noteq> q" and "i < 512"
  shows "ent (store64 m p v) q i = ent m q i"
proof -
  have "pages_eq (- {p}) m (store64 m p v)" using pages_eq_store64 [OF assms(1), of 0] by simp
  then show ?thesis by (rule ent_pages_eq) (use assms in auto)
qed

lemma ent_store_root:
  assumes "page_aligned p" and "i < 512"
  shows "ent (store64 m p v) p i = (if i = 0 then v else ent m p i)"
  using ent_store_same [of m p 0 v] ent_store_other [of 0 i m p v] assms by simp

lemma ent_zero: "ent (\<lambda>_. 0) p i = 0"
  by (simp add: ent_def load64_def read_bytes_def map_replicate_const le_decode_zeros)

lemma example_pages: "page_aligned 0x87fff000" "page_aligned 0x87ffe000" "page_aligned 0x87ffd000"
  "page_aligned 0x87ffc000" "page_aligned 0x87ffb000" "page_aligned 0"
  by (simp_all add: page_aligned_unat)

lemma example_ent:
  assumes "i < 512"
  shows "ent example_mem 0x87fff000 i = (if i = 0 then PA2PTE 0x87ffe000 OR PTE_V else 0)"
    and "ent example_mem 0x87ffe000 i = (if i = 0 then PA2PTE 0x87ffd000 OR PTE_V else 0)"
    and "ent example_mem 0x87ffd000 i = (if i = 0 then PA2PTE 0x87ffc000 OR (PTE_V OR PTE_R OR PTE_U) else 0)"
    and "ent example_mem 0x87ffb000 i = 0"
  unfolding example_mem_def
  by (simp_all add: assms example_pages ent_store_page ent_store_root ent_zero)

lemma example_pte_values:
  "PA2PTE 0x87ffe000 OR PTE_V = 0x21fff801" "PA2PTE 0x87ffd000 OR PTE_V = 0x21fff401"
  "PA2PTE 0x87ffc000 OR (PTE_V OR PTE_R OR PTE_U) = 0x21fff013"
  "PA2PTE 0x87ffc000 OR 19 = 0x21fff013"
  "PTE2PA 0x21fff801 = 0x87ffe000" "PTE2PA 0x21fff401 = 0x87ffd000" "PTE2PA 0x21fff013 = 0x87ffc000"
  by (simp_all add: PA2PTE_def PTE2PA_def)

lemma example_kid:
  assumes "i < 512"
  shows "kid example_mem 0x87fff000 i = (if i = 0 then Some 0x87ffe000 else None)"
    and "kid example_mem 0x87ffe000 i = (if i = 0 then Some 0x87ffd000 else None)"
  using example_ent [OF assms] by (cases "i = 0"; simp add: kid_def example_pte_values)+


lemma example_tables:
  "tables example_mem 2 0x87fff000 = {0x87fff000, 0x87ffe000, 0x87ffd000}"
  "pt_wf example_mem 2 0x87fff000"
proof -
  have "(\<Union>i \<in> {..<512 :: nat}. if i = 0 then A else {}) = A" for A :: "u64 set" by auto
  moreover have s1: "sub example_mem 0 0x87ffe000 i = (if i = 0 then {0x87ffd000} else {})"
    if "i < 512" for i using example_kid [OF that] by simp
  ultimately have t1: "tables example_mem (Suc 0) 0x87ffe000 = {0x87ffe000, 0x87ffd000}" by simp
  have s2: "sub example_mem (Suc 0) 0x87fff000 i = (if i = 0 then {0x87ffe000, 0x87ffd000} else {})"
    if "i < 512" for i using example_kid [OF that] t1 by simp
  show "tables example_mem 2 0x87fff000 = {0x87fff000, 0x87ffe000, 0x87ffd000}"
    unfolding numeral_2_eq_2 tables.simps(2) [of _ "Suc 0"]
    using s2 \<open>\<And>A. (\<Union>i \<in> {..<512 :: nat}. if i = 0 then A else {}) = A\<close> by simp
  have "pt_wf example_mem (Suc 0) 0x87ffe000"
    unfolding pt_wf.simps(2)
    using s1 example_kid example_ent example_pages by (auto simp: example_pte_values split: if_splits)
  then show "pt_wf example_mem 2 0x87fff000"
    unfolding numeral_2_eq_2 pt_wf.simps(2) [of _ "Suc 0"]
    using s2 t1 example_kid example_ent example_pages by (auto simp: example_pte_values split: if_splits)
qed

lemma example_pte:
  "pte example_mem 0x87fff000 va =
    (if PX 0 va = 0 \<and> PX 1 va = 0 \<and> PX 2 va = 0 then 0x21fff013 else 0)"
  unfolding numeral_2_eq_2 One_nat_def pte_of.simps
  by (simp add: example_kid [OF PX_less] example_ent [OF PX_less] example_kid [of 0] example_ent [of 0]
    example_pte_values word_unat_eq_iff [of "PX _ va"])

lemma example_avail: "kmem_inv example_space [0x87ffb000]" "avail example_space = {0x87ffb000}"
proof -
  have "load64 example_mem 0x87ffb000 = 0" using example_ent(4) [of 0] by (simp add: ent_def)
  then show i: "kmem_inv example_space [0x87ffb000]"
    by (simp add: kmem_inv_def example_space_def ram_page_def example_pages)
  show "avail example_space = {0x87ffb000}" using avail_eq [OF i] by simp
qed

lemma example_space_ok: "pt_ok 2 0x87fff000 example_space"
proof -
  have "kmem_ok example_space" using example_avail by blast
  then show ?thesis
    unfolding pt_ok_def using example_avail(2) example_tables
    by (simp add: example_space_def ram_page_def example_pages)
qed

lemma example_owns: "owns 0x87fff000 {0} example_space"
proof -
  have "pte example_mem 0x87fff000 0 = 0x21fff013"
    by (simp add: example_pte PX_def)
  then show ?thesis
    unfolding owns_def using example_avail(2) example_tables
    by (simp add: example_space_def ram_page_def example_pages example_pte_values PTE_FLAGS_def)
qed


section \<open>Properties\<close>

text \<open>
  C17 (walk). On a well-formed table and an address below \<^verbatim>\<open>MAXVA\<close>, an allocating \<^verbatim>\<open>walk\<close> never
  panics; the table grows by exactly the pages taken from the free list, every translation and
  every byte outside the table stay, a later read-only \<^verbatim>\<open>walk\<close> finds the returned entry, and it
  returns 0 only when the free list is exhausted.
\<close>

theorem walk_creates_path:
  assumes "pt_ok 2 pt s" and "va < MAXVA"
  shows "\<exists>slot s'. walk pt va True s = Ok (slot, s') \<and> pt_ok 2 pt s' \<and>
    tables (mem s') 2 pt = tables (mem s) 2 pt \<union> (avail s - avail s') \<and> avail s' \<subseteq> avail s \<and>
    pages_eq (- tables (mem s') 2 pt) (mem s) (mem s') \<and>
    (\<forall>va'. pte (mem s') pt va' = pte (mem s) pt va') \<and>
    (if slot = 0 then avail s' = {}
     else walk pt va False s' = Ok (slot, s') \<and> load64 (mem s') slot = pte (mem s) pt va)"
proof -
  obtain slot s' where w: "walk_loop 2 pt va True s = (slot, s')" by fastforce
  note W = walk_loop_alloc [OF assms(1) w]
  have g: "pt_grow 2 pt s s'" using W by blast
  note G = pt_growD [OF g]
  have "load64 (mem s') slot = pte (mem s) pt va" if "slot \<noteq> 0"
    using walk_loop_slot [OF pt_okD(2,4) [OF G(1)]] W that slot_of_load G(6) by metis
  then show ?thesis
    using W G assms(2) [folded not_le] w by (intro exI [of _ slot] exI [of _ s']) (simp add: walk_def)
qed

theorem walk_creates_path_witness:
  "\<exists>slot s'. walk 0x87fff000 0x40000000 True example_space = Ok (slot, s') \<and> pt_ok 2 0x87fff000 s' \<and>
    pte (mem s') 0x87fff000 0 = 0x21fff013"
proof -
  have "pte (mem example_space) 0x87fff000 0 = 0x21fff013"
    by (simp add: example_space_def example_pte PX_def)
  then show ?thesis
    using walk_creates_path [OF example_space_ok, where va = "0x40000000"] by (auto split: if_splits)
qed

text \<open>
  C18 (mappages). Mapping an unmapped range below \<^verbatim>\<open>MAXVA\<close> never panics: it returns 0 with every page
  of the range mapped, in order, to the pages from \<open>pa\<close> on, or -1 when the free list runs out, with
  some initial part mapped; all other translations and all bytes outside the table stay.
\<close>

theorem mappages_maps_range:
  assumes "pt_ok 2 pt s" and "sz \<noteq> 0" and "unat va + unat sz \<le> unat MAXVA"
    and "\<forall>v. PGROUNDDOWN va \<le> v \<and> unat v < unat va + unat sz \<longrightarrow> pte (mem s) pt v AND PTE_V = 0"
    and "N = (unat va mod 4096 + unat sz + 4095) div 4096"
  shows "\<exists>r s' k. mappages pt va sz pa perm s = Ok (r, s') \<and> pt_ok 2 pt s' \<and>
    tables (mem s') 2 pt = tables (mem s) 2 pt \<union> (avail s - avail s') \<and>
    pages_eq (- tables (mem s') 2 pt) (mem s) (mem s') \<and>
    (\<forall>v. v < MAXVA \<longrightarrow> pte (mem s') pt v =
       (if unat (PGROUNDDOWN va) \<le> unat v \<and> unat v < unat (PGROUNDDOWN va) + 4096 * k
        then PA2PTE (pa + (PGROUNDDOWN v - PGROUNDDOWN va)) OR perm OR PTE_V else pte (mem s) pt v)) \<and>
    (r = 0 \<and> k = N \<or> r = -1 \<and> k < N \<and> avail s' = {})"
proof -
  obtain r s' k where m: "mappages pt va sz pa perm s = Ok (r, s')"
    "pt_change pt s s' (map_range (pte (mem s) pt) (PGROUNDDOWN va) k pa perm)"
    "r = 0 \<and> k = N \<or> r = -1 \<and> k < N \<and> avail s' = {}"
    using mappages_ok [OF assms] by blast
  from m(2) have "pt_ok 2 pt s'" "tables (mem s') 2 pt = tables (mem s) 2 pt \<union> (avail s - avail s')"
    "pages_eq (- tables (mem s') 2 pt) (mem s) (mem s')"
    "\<forall>v. v < MAXVA \<longrightarrow> pte (mem s') pt v = map_range (pte (mem s) pt) (PGROUNDDOWN va) k pa perm v"
    unfolding pt_change_def ptes_eq_def by auto
  then show ?thesis using m(1,3) unfolding map_range_def by blast
qed

theorem mappages_maps_range_witness:
  "\<exists>r s'. mappages 0x87fff000 0x1000 0x1000 0x87ffb000 PTE_W example_space = Ok (r, s') \<and> r \<in> {0, -1} \<and>
    pte (mem s') 0x87fff000 0 = 0x21fff013"
proof -
  have un: "pte (mem example_space) 0x87fff000 v AND PTE_V = 0"
    if "PGROUNDDOWN 0x1000 \<le> v \<and> unat v < unat (0x1000 :: u64) + unat (0x1000 :: u64)" for v
  proof -
    have "PGROUNDDOWN 0x1000 = 0x1000" by (simp add: PGROUNDDOWN_def)
    then have "unat v div 4096 = 1" using that by (simp add: word_le_nat_alt) linarith
    then have "unat (PX 0 v) = 1" by (simp add: unat_PX PXSHIFT_def)
    then show ?thesis by (auto simp: example_space_def example_pte)
  qed
  have "PGROUNDDOWN 0x1000 = 0x1000" by (simp add: PGROUNDDOWN_def)
  moreover have "pte (mem example_space) 0x87fff000 0 = 0x21fff013"
    by (simp add: example_space_def example_pte PX_def)
  ultimately show ?thesis
    using mappages_maps_range [OF example_space_ok, where va = "0x1000" and sz = "0x1000" and pa = "0x87ffb000" and perm = PTE_W and N = 1] un by auto
qed

text \<open>
  C19 (uvmunmap). Releasing owned pages returns exactly their frames to the free list, clears exactly
  their entries, and changes no byte outside the table and those frames.
\<close>

theorem uvmunmap_releases:
  assumes "pt_ok 2 pt s" and "owns pt U s" and "va_pages a n \<subseteq> U" and "page_aligned a"
    and "unat a + 4096 * n \<le> unat MAXVA"
  shows "\<exists>s'. uvmunmap pt a (word_of_nat n) True s = Ok s' \<and> pt_ok 2 pt s' \<and>
    owns pt (U - va_pages a n) s' \<and>
    avail s' = avail s \<union> frames (mem s) pt (va_pages a n) \<and>
    tables (mem s') 2 pt = tables (mem s) 2 pt \<and>
    pages_eq (- (tables (mem s) 2 pt \<union> frames (mem s) pt (va_pages a n))) (mem s) (mem s') \<and>
    (\<forall>va. va < MAXVA \<longrightarrow> pte (mem s') pt va = (if PGROUNDDOWN va \<in> va_pages a n then 0 else pte (mem s) pt va))"
proof -
  obtain s' where s': "uvmunmap pt a (word_of_nat n) True s = Ok s'" "unmapped pt (va_pages a n) s s'"
    using uvmunmap_ok [OF assms(1) owns_mono [OF assms(2,3)] assms(4,5)] by blast
  then show ?thesis
    using unmapped_owns [OF s'(2) assms(2,3)] by (auto simp: unmapped_def ptes_eq_def)
qed

theorem uvmunmap_releases_witness:
  "\<exists>s'. uvmunmap 0x87fff000 0 1 True example_space = Ok s' \<and> avail s' = {0x87ffb000, 0x87ffc000}"
proof -
  have "va_pages 0 1 = {0}" by (auto simp: va_pages_def)
  moreover have "page_frame (mem example_space) 0x87fff000 0 = 0x87ffc000"
    by (simp add: example_space_def example_pte PX_def example_pte_values)
  ultimately show ?thesis
    using uvmunmap_releases [OF example_space_ok example_owns, where a = 0 and n = 1] example_avail(2)
    by (auto simp: example_pages)
qed

end
