(* ===== verification/Xv6_Uvm_Grow.thy ===== *)
theory Xv6_Uvm_Grow
  imports Xv6_Uvm
begin

text \<open>
  \<^verbatim>\<open>uvmalloc\<close> and \<^verbatim>\<open>uvmcopy\<close> of \<^verbatim>\<open>kernel/vm.c\<close>: an address space grows by fresh pages, or is left
  as it was when memory runs out half-way.
\<close>

text \<open>
  A fresh frame \<open>p\<close>, already filled by the caller, is mapped at an unmapped page \<open>a\<close>; either it becomes
  owned, or \<^verbatim>\<open>mappages\<close> fails and nothing the process owns has changed.
\<close>

lemma kalloc_fresh:
  assumes ok: "pt_ok 2 pt s" and o: "owns pt U s" and al: "kalloc s = (p, s1)" "p \<noteq> 0"
    and m: "pages_eq (- {p}) (mem s1) m"
  shows "pt_ok 2 pt (s1\<lparr>mem := m\<rparr>)" and "owns pt U (s1\<lparr>mem := m\<rparr>)" and "kend s1 = kend s"
    and "p \<in> avail s" and "avail (s1\<lparr>mem := m\<rparr>) = avail s - {p}" and "ram_page s p"
    and "tables m 2 pt = tables (mem s) 2 pt" and "\<And>va. pte m pt va = pte (mem s) pt va"
    and "pages_eq (- {p}) (mem s) m" and "p \<notin> frames (mem s) pt U"
proof -
  note D = pt_okD [OF ok]
  have A: "ram_page s p" "kmem_ok s1" "p \<in> avail s" "avail s1 = avail s - {p}"
    "pages_eq (- {p}) (mem s) (mem s1)"
    by (rule ka.alloc_cases [OF D(1) al(1)]; use al in simp)+
  show "p \<in> avail s" "ram_page s p" by (fact A)+
  show ke: "kend s1 = kend s" by (rule kalloc_kend [OF al(1)])
  show e: "pages_eq (- {p}) (mem s) m" using pages_eq_trans [OF A(5) m] by simp
  have "avail s1 \<subseteq> - {p}" using A(4) by auto
  note K = kmem_ok_mem [OF A(2) m this]
  show av: "avail (s1\<lparr>mem := m\<rparr>) = avail s - {p}" using K(2) A(4) by simp
  have sub: "tables (mem s) 2 pt \<subseteq> - {p}" using A(3) D(3) by blast
  note F = table_frame [OF D(2) e sub]
  show T: "tables m 2 pt = tables (mem s) 2 pt" and P: "pte m pt va = pte (mem s) pt va" for va
    using F by auto
  have rp: "ram_page (s1\<lparr>mem := m\<rparr>) = ram_page s" using ram_page_kend [OF ke] by simp
  show "pt_ok 2 pt (s1\<lparr>mem := m\<rparr>)"
    using ok K(1) F unfolding pt_ok_def rp av by auto
  show "p \<notin> frames (mem s) pt U" using ownsD(6) [OF o] A(3) by auto
  show "owns pt U (s1\<lparr>mem := m\<rparr>)"
    by (rule owns_transfer [OF o]) (use P T ke av ownsD(6,7) [OF o] in auto)
qed

lemma mappages_new:
  assumes ok: "pt_ok 2 pt s" and o: "owns pt U s" and a: "page_aligned a" "a < MAXVA"
    and un: "pte (mem s) pt a AND PTE_V = 0"
    and p: "ram_page s p" "p \<notin> avail s" "p \<notin> tables (mem s) 2 pt" "p \<notin> frames (mem s) pt U"
    and fl: "perm AND NOT 0x3FF = 0" "perm OR PTE_V \<noteq> PTE_V"
    and m: "mappages pt a PGSIZE p perm s = Ok (0, s')"
    and c: "pt_change pt s s' (set_page (pte (mem s) pt) a (PA2PTE p OR perm OR PTE_V))"
  shows "owns pt (insert a U) s'" and "page_frame (mem s') pt a = p"
    and "PTE_FLAGS (pte (mem s') pt a) = perm OR PTE_V"
proof -
  have e: "pte (mem s') pt a = PA2PTE p OR (perm OR PTE_V)"
    using c a by (simp add: pt_change_def ptes_eq_def set_page_def or.assoc)
  have fl2: "(perm OR PTE_V) AND NOT 0x3FF = 0"
    using fl(1) by (simp add: bit.conj_disj_distrib2)
  have al: "page_aligned p" using p(1) by (simp add: ram_page_def)
  show fr: "page_frame (mem s') pt a = p" unfolding e by (rule PTE2PA_PA2PTE [OF al fl2])
  show fg: "PTE_FLAGS (pte (mem s') pt a) = perm OR PTE_V" unfolding e by (rule PTE_FLAGS_PA2PTE [OF fl2])
  have na: "a \<notin> U" using ownsD(3) [OF o] un by blast
  have oU: "owns pt U s'"
  proof (rule pt_change_owns [OF c o])
    fix va assume va: "va \<in> U"
    then have "va \<noteq> a" "page_aligned va" using na ownsD(1) [OF o] by auto
    then show "set_page (pte (mem s) pt) a (PA2PTE p OR perm OR PTE_V) va = pte (mem s) pt va"
      using a by (simp add: set_page_def)
  qed
  have pe: "pte (mem s') pt va = pte (mem s) pt va" if "va \<in> U" for va
    using c that na ownsD(1,2) [OF o that] a by (auto simp: pt_change_def ptes_eq_def set_page_def)
  have v: "pte (mem s') pt a AND PTE_V \<noteq> 0"
    using fg flags_and [of PTE_V "pte (mem s') pt a"] by (simp add: bit.conj_disj_distrib2)
  have "ram_page s' p" "p \<notin> avail s'" "p \<notin> tables (mem s') 2 pt"
    using c p ram_page_kend [of s' s] by (auto simp: pt_change_def)
  moreover have "inj_on (page_frame (mem s') pt) (insert a U)"
  proof -
    have "frames (mem s') pt U = frames (mem s) pt U" using pe by (intro image_cong) auto
    then show ?thesis using oU p(4) fr na unfolding owns_def by (subst inj_on_insert) auto
  qed
  ultimately show "owns pt (insert a U) s'"
    using oU fr fg fl(2) v a unfolding owns_def by auto
qed

text \<open>
  The effect of adding the pages \<open>R\<close> to an address space that owns \<open>U\<close>: each new page is mapped with
  flags \<open>fl\<close> to a frame of the former pool holding the bytes \<open>c\<close>, the pool also paid for the new
  page-table pages, and no other byte or translation changed.
\<close>

definition grown ::
  "u64 \<Rightarrow> u64 set \<Rightarrow> u64 set \<Rightarrow> (u64 \<Rightarrow> u64) \<Rightarrow> (u64 \<Rightarrow> u64 \<Rightarrow> u8) \<Rightarrow> kmem \<Rightarrow> kmem \<Rightarrow> bool" where
  "grown pt U R fl c s s' \<longleftrightarrow>
     pt_ok 2 pt s' \<and> kend s' = kend s \<and> owns pt (U \<union> R) s' \<and>
     avail s' \<subseteq> avail s \<and> frames (mem s') pt R \<subseteq> avail s \<and>
     tables (mem s') 2 pt = tables (mem s) 2 pt \<union> (avail s - avail s' - frames (mem s') pt R) \<and>
     pages_eq (- (tables (mem s) 2 pt \<union> avail s)) (mem s) (mem s') \<and>
     (\<forall>va. va < VATOP \<longrightarrow> PGROUNDDOWN va \<notin> R \<longrightarrow> pte (mem s') pt va = pte (mem s) pt va) \<and>
     (\<forall>va \<in> R. PTE_FLAGS (pte (mem s') pt va) = fl va \<and>
        (\<forall>k<4096. mem s' (page_frame (mem s') pt va + word_of_nat k) = c va (word_of_nat k)))"

lemma grownD:
  assumes "grown pt U R fl c s s'"
  shows "pt_ok 2 pt s'" and "kend s' = kend s" and "owns pt (U \<union> R) s'"
    and "avail s' \<subseteq> avail s" and "frames (mem s') pt R \<subseteq> avail s"
    and "tables (mem s') 2 pt = tables (mem s) 2 pt \<union> (avail s - avail s' - frames (mem s') pt R)"
    and "pages_eq (- (tables (mem s) 2 pt \<union> avail s)) (mem s) (mem s')"
    and "va < VATOP \<Longrightarrow> PGROUNDDOWN va \<notin> R \<Longrightarrow> pte (mem s') pt va = pte (mem s) pt va"
    and "va \<in> R \<Longrightarrow> PTE_FLAGS (pte (mem s') pt va) = fl va"
    and "va \<in> R \<Longrightarrow> k < 4096 \<Longrightarrow> mem s' (page_frame (mem s') pt va + word_of_nat k) = c va (word_of_nat k)"
  using assms unfolding grown_def by blast+

lemma grown_refl: "pt_ok 2 pt s \<Longrightarrow> owns pt U s \<Longrightarrow> grown pt U {} fl c s s"
  by (simp add: grown_def)

text \<open>One more page.\<close>

lemma grown_insert:
  assumes g: "grown pt U R fl c s s1" and al: "kalloc s1 = (p, s2)" "p \<noteq> 0"
    and m: "pages_eq (- {p}) (mem s2) m" "\<And>k. k < 4096 \<Longrightarrow> m (p + word_of_nat k) = c a (word_of_nat k)"
    and a: "page_aligned a" "a < MAXVA" "a \<notin> R" and un: "pte (mem s) pt a AND PTE_V = 0"
    and fl: "perm AND NOT 0x3FF = 0" "perm OR PTE_V \<noteq> PTE_V" "fl a = perm OR PTE_V"
    and mp: "mappages pt a PGSIZE p perm (s2\<lparr>mem := m\<rparr>) = Ok (0, s')"
    and ch: "pt_change pt (s2\<lparr>mem := m\<rparr>) s' (set_page (pte m pt) a (PA2PTE p OR perm OR PTE_V))"
  shows "grown pt U (insert a R) fl c s s'"
proof -
  note G = grownD [OF g]
  note K = kalloc_fresh [OF G(1,3) al m(1)]
  have p: "p \<notin> tables m 2 pt" "p \<notin> frames m pt (U \<union> R)" "p \<notin> avail s2 - {p}"
    using K(4,7,8,10) pt_okD(3) [OF G(1)] by auto
  have un1: "pte m pt a AND PTE_V = 0" using un G(8) [OF MAXVA_VATOP [OF a(2)]] a(1,3) K(8) by simp
  note N = mappages_new [OF K(1,2) a(1,2) _ _ _ _ _ fl(1,2) mp]
  have N: "owns pt (insert a (U \<union> R)) s'" "page_frame (mem s') pt a = p"
    "PTE_FLAGS (pte (mem s') pt a) = perm OR PTE_V"
    by (rule N; use un1 K(5,6) p ram_page_kend [OF K(3)] ch in simp)+
  have C: "pt_ok 2 pt s'" "kend s' = kend s2" "avail s' \<subseteq> avail s1 - {p}"
    "tables (mem s') 2 pt = tables (mem s1) 2 pt \<union> (avail s1 - {p} - avail s')"
    "pages_eq (- tables (mem s') 2 pt) m (mem s')"
    using ch K(5,7) by (auto simp: pt_change_def)
  have P: "pte (mem s') pt va = pte (mem s1) pt va" if "va < VATOP" "PGROUNDDOWN va \<noteq> a" for va
    using ch that a(1) K(8) by (simp add: pt_change_def ptes_eq_def set_page_def)
  have PR: "pte (mem s') pt va = pte (mem s1) pt va" if "va \<in> R" for va
    using P [of va] ownsD(1,2) [OF G(3), of va] that a(3) by auto
  then have fR: "frames (mem s') pt R = frames (mem s1) pt R" by (intro image_cong) auto
  have fd: "frames (mem s1) pt R \<inter> (avail s1 \<union> tables (mem s') 2 pt) = {}"
    using ownsD(6,7) [OF G(3)] C(4) by auto
  have T: "tables (mem s') 2 pt = tables (mem s) 2 pt \<union> (avail s - avail s' - frames (mem s') pt (insert a R))"
    using C(3,4) G(4,5,6) K(4) N(2) fR fd by auto
  have "pages_eq (- (tables (mem s) 2 pt \<union> avail s)) (mem s1) (mem s')"
    by (rule pages_eq_mono [OF pages_eq_trans [OF K(9) C(5)]]) (use T K(4) G(4) in auto)
  from pages_eq_trans [OF G(7) this] have E: "pages_eq (- (tables (mem s) 2 pt \<union> avail s)) (mem s) (mem s')"
    by simp
  have cR: "mem s' (page_frame (mem s') pt va + word_of_nat k) = c va (word_of_nat k)"
    if va: "va \<in> insert a R" and k: "k < 4096" for va k
  proof (cases "va = a")
    case True
    have "PGROUNDDOWN (p + word_of_nat k) = p"
      using PGROUNDDOWN_offset k K(6) by (simp add: ram_page_def)
    moreover have "p \<notin> tables (mem s') 2 pt" using C(4) pt_okD(3) [OF G(1)] K(4) by auto
    ultimately show ?thesis using pages_eqD [OF C(5), of "p + word_of_nat k"] m(2) [OF k] True N(2) by simp
  next
    case False
    then have va: "va \<in> R" using va by simp
    let ?f = "page_frame (mem s1) pt va"
    have "PGROUNDDOWN (?f + word_of_nat k) = ?f" by (rule PGROUNDDOWN_offset) (use k in auto)
    moreover have "?f \<notin> tables (mem s') 2 pt" "?f \<noteq> p" using fd va K(4) by auto
    ultimately show ?thesis
      using pages_eqD [OF C(5), of "?f + word_of_nat k"] pages_eqD [OF K(9), of "?f + word_of_nat k"]
        G(10) [OF va k] PR [OF va] by simp
  qed
  have "\<forall>va \<in> insert a R. PTE_FLAGS (pte (mem s') pt va) = fl va"
    using N(3) fl(3) G(9) PR by auto
  moreover have "\<forall>va. va < VATOP \<longrightarrow> PGROUNDDOWN va \<notin> insert a R \<longrightarrow> pte (mem s') pt va = pte (mem s) pt va"
    using P G(8) by auto
  moreover have "frames (mem s') pt (insert a R) \<subseteq> avail s" using fR N(2) K(4) G(4,5) by auto
  moreover have "owns pt (U \<union> insert a R) s'" using N(1) by simp
  moreover have "kend s' = kend s" "avail s' \<subseteq> avail s" using C(2,3) K(3) G(2,4) by auto
  ultimately show ?thesis using C(1) T E cR unfolding grown_def by blast
qed

lemma kfree_kend: "kfree p s = Ok s' \<Longrightarrow> kend s' = kend s"
  by (auto simp: kfree_def Let_def split: if_splits)

text \<open>The mapping failed: the frame goes back, page-table pages allocated meanwhile stay.\<close>

lemma grown_kfree:
  assumes g: "grown pt U R fl c s s1" and al: "kalloc s1 = (p, s2)" "p \<noteq> 0"
    and m: "pages_eq (- {p}) (mem s2) m"
    and ch: "pt_change pt (s2\<lparr>mem := m\<rparr>) s3 (pte m pt)"
  obtains s4 where "kfree p s3 = Ok s4" and "grown pt U R fl c s s4"
proof -
  note G = grownD [OF g]
  note K = kalloc_fresh [OF G(1,3) al m(1)]
  have C: "pt_ok 2 pt s3" "kend s3 = kend s2" "avail s3 \<subseteq> avail s1 - {p}"
    "tables (mem s3) 2 pt = tables (mem s1) 2 pt \<union> (avail s1 - {p} - avail s3)"
    "pages_eq (- tables (mem s3) 2 pt) m (mem s3)"
    using ch K(5,7) by (auto simp: pt_change_def)
  have P: "pte (mem s3) pt va = pte (mem s1) pt va" if "va < VATOP" for va
    using ch that K(8) by (simp add: pt_change_def ptes_eq_def)
  have rp: "ram_page s3 p" using K(3,6) C(2) ram_page_kend [of s3 s1] by simp
  have np: "p \<notin> avail s3" "p \<notin> tables (mem s3) 2 pt" using C(3,4) pt_okD(3) [OF G(1)] K(4) by auto
  obtain s4 where f: "kfree p s3 = Ok s4" "kmem_ok s4" "avail s4 = insert p (avail s3)"
    "ram_page s4 = ram_page s3" "pages_eq (- {p}) (mem s3) (mem s4)"
    using ka.free_some [OF pt_okD(1) [OF C(1)] rp np(1)] by blast
  have sub: "tables (mem s3) 2 pt \<subseteq> - {p}" using np by auto
  note F = table_frame [OF pt_okD(2) [OF C(1)] f(5) sub]
  have ke: "kend s4 = kend s1" using kfree_kend [OF f(1)] C(2) K(3) by simp
  have P4: "pte (mem s4) pt va = pte (mem s1) pt va" if "va < VATOP" for va using P [OF that] F by simp
  have UR: "pte (mem s4) pt va = pte (mem s1) pt va" if "va \<in> U \<union> R" for va
    by (rule P4 [OF MAXVA_VATOP [OF ownsD(2) [OF G(3) that]]])
  have fd: "frames (mem s1) pt (U \<union> R) \<inter> (avail s1 \<union> tables (mem s4) 2 pt) = {}"
    using ownsD(6,7) [OF G(3)] C(4) F by auto
  have o: "owns pt (U \<union> R) s4"
    by (rule owns_transfer [OF G(3) UR ke]) (use fd f(3) C(3) K(4) in auto)
  have fR: "frames (mem s4) pt R = frames (mem s1) pt R" using UR by (intro image_cong) auto
  have "pt_ok 2 pt s4" using C(1) F f(2-4) np(2) unfolding pt_ok_def by auto
  moreover have "tables (mem s4) 2 pt = tables (mem s) 2 pt \<union> (avail s - avail s4 - frames (mem s4) pt R)"
    using F C(3,4) f(3) G(4,5,6) K(4) fR fd by auto
  moreover have e: "pages_eq (- (tables (mem s3) 2 pt \<union> {p})) (mem s1) (mem s4)"
    using pages_eq_trans [OF pages_eq_trans [OF K(9) C(5)] f(5)] by (rule pages_eq_mono) auto
  then have "pages_eq (- (tables (mem s) 2 pt \<union> avail s)) (mem s1) (mem s4)"
    by (rule pages_eq_mono) (use C(4) G(4,6) K(4) in auto)
  from pages_eq_trans [OF G(7) this] have "pages_eq (- (tables (mem s) 2 pt \<union> avail s)) (mem s) (mem s4)"
    by simp
  moreover have "mem s4 (page_frame (mem s4) pt va + word_of_nat k) = c va (word_of_nat k)"
    if va: "va \<in> R" and k: "k < 4096" for va k
  proof -
    let ?f = "page_frame (mem s1) pt va"
    have "PGROUNDDOWN (?f + word_of_nat k) = ?f" by (rule PGROUNDDOWN_offset) (use k in auto)
    moreover have "?f \<notin> tables (mem s3) 2 pt" "?f \<noteq> p" using fd va K(4) F by auto
    ultimately show ?thesis
      using pages_eqD [OF e, of "?f + word_of_nat k"] G(10) [OF va k] UR [of va] va by simp
  qed
  moreover have "\<forall>va \<in> R. PTE_FLAGS (pte (mem s4) pt va) = fl va" using UR G(9) by auto
  moreover have "\<forall>va. va < VATOP \<longrightarrow> PGROUNDDOWN va \<notin> R \<longrightarrow> pte (mem s4) pt va = pte (mem s) pt va"
    using P4 G(8) by auto
  moreover have "avail s4 \<subseteq> avail s" "frames (mem s4) pt R \<subseteq> avail s" "kend s4 = kend s"
    using f(3) C(3) K(4) G(2,4,5) fR ke by auto
  ultimately have "grown pt U R fl c s s4" using o unfolding grown_def by blast
  then show ?thesis using that f(1) by blast
qed

text \<open>Taking the new pages away again restores the address space.\<close>

lemma grown_unmap:
  assumes g: "grown pt U R fl c s s1" and u: "unmapped pt R s1 s2" and d: "U \<inter> R = {}"
    and z: "\<forall>va \<in> R. pte (mem s) pt va = 0"
  shows "grown pt U {} fl c s s2"
proof -
  note G = grownD [OF g]
  have V: "pt_ok 2 pt s2" "kend s2 = kend s1" "tables (mem s2) 2 pt = tables (mem s1) 2 pt"
    "avail s2 = avail s1 \<union> frames (mem s1) pt R"
    "pages_eq (- (tables (mem s1) 2 pt \<union> frames (mem s1) pt R)) (mem s1) (mem s2)"
    "\<And>va. va < VATOP \<Longrightarrow> pte (mem s2) pt va = (if PGROUNDDOWN va \<in> R then 0 else pte (mem s1) pt va)"
    using u by (auto simp: unmapped_def ptes_eq_def)
  have "U \<union> R - R = U" using d by auto
  then have "owns pt U s2" using unmapped_owns [OF u G(3)] by simp
  moreover have "pages_eq (- (tables (mem s) 2 pt \<union> avail s)) (mem s1) (mem s2)"
    by (rule pages_eq_mono [OF V(5)]) (use G(5,6) in auto)
  from pages_eq_trans [OF G(7) this] have "pages_eq (- (tables (mem s) 2 pt \<union> avail s)) (mem s) (mem s2)"
    by simp
  moreover have "pte (mem s2) pt va = pte (mem s) pt va" if "va < VATOP" for va
    using V(6) [OF that] G(8) [OF that] z pte_PGROUNDDOWN [of "mem s" 2 pt va] by fastforce
  ultimately show ?thesis using V(1-4) G(2,4,5,6) unfolding grown_def by auto
qed

lemma aligned_less_PGROUNDUP:
  assumes "page_aligned a" and "unat sz \<le> unat MAXVA"
  shows "a < sz \<longleftrightarrow> unat a < unat (PGROUNDUP sz)"
proof -
  obtain k where "unat a = 4096 * k"
    using assms(1) by (auto simp: page_aligned_unat mod_eq_0_iff_dvd elim: dvdE)
  then show ?thesis by (simp add: word_less_nat_alt unat_PGROUNDUP_MAXVA [OF assms(2)]) linarith
qed

lemma PGROUNDUP_aligned:
  assumes "page_aligned a" and "unat a \<le> unat MAXVA" shows "PGROUNDUP a = a"
proof -
  obtain k where "unat a = 4096 * k"
    using assms(1) by (auto simp: page_aligned_unat mod_eq_0_iff_dvd elim: dvdE)
  then show ?thesis by (simp add: word_unat_eq_iff unat_PGROUNDUP_MAXVA [OF assms(2)])
qed

lemma user_perm:
  assumes "xperm AND NOT 0x3FF = 0"
  shows "(PTE_R OR PTE_U OR xperm) AND NOT 0x3FF = 0" and "(PTE_R OR PTE_U OR xperm) OR PTE_V \<noteq> PTE_V"
proof -
  show "(PTE_R OR PTE_U OR xperm) AND NOT 0x3FF = 0" using assms by (simp add: bit.conj_disj_distrib2)
  have "bit ((PTE_R OR PTE_U OR xperm) OR PTE_V) 1" "\<not> bit PTE_V 1" by (simp_all add: bit_simps)
  then show "(PTE_R OR PTE_U OR xperm) OR PTE_V \<noteq> PTE_V" by metis
qed

abbreviation zero_bytes :: "u64 \<Rightarrow> u64 \<Rightarrow> u8" where
  "zero_bytes va k \<equiv> 0"

lemma unat_nth_page:
  fixes base :: u64
  shows "unat base + 4096 * n \<le> unat MAXVA \<Longrightarrow> k \<le> n \<Longrightarrow> unat (base + word_of_nat (4096 * k)) = unat base + 4096 * k"
  by (intro unat_add_of_nat_u64) simp

lemma uvmdealloc_new:
  assumes g: "grown pt U (va_pages base k) fl c s s1" and b: "page_aligned base" "unat base + 4096 * n \<le> unat MAXVA" "k \<le> n"
    and d: "U \<inter> va_pages base n = {}"
    and z: "\<forall>va \<in> va_pages base n. pte (mem s) pt va = 0"
  obtains s2 where "uvmdealloc pt (base + word_of_nat (4096 * k)) base s1 = Ok (base, s2)"
    and "grown pt U {} fl c s s2"
proof -
  let ?a = "base + word_of_nat (4096 * k)"
  have ua: "unat ?a = unat base + 4096 * k" by (rule unat_nth_page [OF b(2,3)])
  have up: "PGROUNDUP base = base" "PGROUNDUP ?a = ?a"
    using ua b by (auto intro!: PGROUNDUP_aligned page_aligned_add simp del: of_nat_mult)
  have pb: "pages_between base ?a = k" unfolding pages_between_def up ua by simp
  have sub: "va_pages base k \<subseteq> va_pages base n" using b(3) by (auto simp: va_pages_def)
  have "owns pt (va_pages (PGROUNDUP base) (pages_between base ?a)) s1"
    unfolding up pb using owns_mono [OF grownD(3) [OF g]] by blast
  moreover have "base \<le> ?a" "unat ?a \<le> unat MAXVA" using ua b unfolding word_le_nat_alt by simp_all
  ultimately obtain s2 where s2: "uvmdealloc pt ?a base s1 = Ok (base, s2)"
    "unmapped pt (va_pages (PGROUNDUP base) (pages_between base ?a)) s1 s2"
    using uvmdealloc_ok [OF grownD(1) [OF g]] by metis
  have "grown pt U {} fl c s s2"
    by (rule grown_unmap [OF g]) (use s2(2) d z sub up pb in auto)
  then show ?thesis using that s2(1) by blast
qed

lemma uvmalloc_loop_ok:
  assumes g: "grown pt U (va_pages base k) (\<lambda>_. (PTE_R OR PTE_U OR xperm) OR PTE_V) zero_bytes s s1"
    and b: "page_aligned base" "unat base + 4096 * n \<le> unat MAXVA" "k \<le> n"
    and N: "unat base + 4096 * n = unat (PGROUNDUP newsz)" "unat newsz \<le> unat MAXVA"
    and d: "U \<inter> va_pages base n = {}"
    and z: "\<forall>va \<in> va_pages base n. pte (mem s) pt va = 0"
    and x: "xperm AND NOT 0x3FF = 0"
  shows "\<exists>r s'. uvmalloc_loop pt (base + word_of_nat (4096 * k)) base newsz xperm s1 = Ok (r, s') \<and>
    (r = newsz \<and> grown pt U (va_pages base n) (\<lambda>_. (PTE_R OR PTE_U OR xperm) OR PTE_V) zero_bytes s s' \<or>
     r = 0 \<and> grown pt U {} (\<lambda>_. (PTE_R OR PTE_U OR xperm) OR PTE_V) zero_bytes s s')"
  using g b(3)
proof (induction "n - k" arbitrary: k s1)
  case 0
  let ?a = "base + word_of_nat (4096 * k)"
  have "k = n" using 0 by simp
  then have "\<not> ?a < newsz"
    using unat_nth_page [OF b(2) 0(3)] N(1) aligned_less_PGROUNDUP [OF page_aligned_add [OF b(1), of k] N(2)] by simp
  then show ?case using 0 \<open>k = n\<close> by (subst uvmalloc_loop.simps) simp
next
  case (Suc j)
  let ?a = "base + word_of_nat (4096 * k)"
  let ?perm = "PTE_R OR PTE_U OR xperm"
  note G = grownD [OF Suc.prems(1)]
  have kn: "k < n" using Suc.hyps(2) by simp
  have ua: "unat ?a = unat base + 4096 * k" by (rule unat_nth_page [OF b(2) Suc.prems(2)])
  have al: "page_aligned ?a" by (rule page_aligned_add [OF b(1)])
  have lt: "?a < newsz" "?a < MAXVA"
    using ua N kn b(2) aligned_less_PGROUNDUP [OF al N(2)] unfolding word_less_nat_alt by simp_all
  have nk: "?a \<notin> va_pages base k"
    using va_pages_member [of base k ?a] b ua kn al by simp
  have in_n: "PGROUNDDOWN ?a \<in> va_pages base n"
    using va_pages_member [OF b(1,2) al] ua kn al by simp
  have un: "pte (mem s) pt ?a = 0" using z in_n al by simp
  obtain p s2 where ka: "kalloc s1 = (p, s2)" by fastforce
  show ?case
  proof (cases "p = 0")
    case True
    then have s2: "s2 = s1" using ka.alloc_cases [OF pt_okD(1) [OF G(1)] ka] by blast
    obtain s3 where "uvmdealloc pt ?a base s1 = Ok (base, s3)"
      "grown pt U {} (\<lambda>_. ?perm OR PTE_V) zero_bytes s s3"
      using uvmdealloc_new [OF Suc.prems(1) b(1,2) Suc.prems(2) d z] by blast
    then show ?thesis using ka True lt(1) s2
      by (subst uvmalloc_loop.simps) (simp del: of_nat_mult)
  next
    case False
    let ?m = "memset (mem s2) p 0 4096"
    have m: "pages_eq (- {p}) (mem s2) ?m"
      using kalloc_fresh(6) [OF G(1,3) ka False pages_eq_refl] by (intro pages_eq_memset) (simp add: ram_page_def)
    note K = kalloc_fresh [OF G(1,3) ka False m]
    have un1: "pte ?m pt ?a AND PTE_V = 0" using un G(8) [OF MAXVA_VATOP [OF lt(2)]] nk al K(8) by simp
    obtain r s3 where mp: "mappages pt ?a PGSIZE p ?perm (s2\<lparr>mem := ?m\<rparr>) = Ok (r, s3)"
      and r: "r = 0 \<and> pt_change pt (s2\<lparr>mem := ?m\<rparr>) s3 (set_page (pte ?m pt) ?a (PA2PTE p OR ?perm OR PTE_V)) \<or>
        r = -1 \<and> pt_change pt (s2\<lparr>mem := ?m\<rparr>) s3 (pte ?m pt) \<and> avail s3 = {}"
      using mappages_page [OF K(1) al lt(2)] un1 by fastforce
    show ?thesis
    proof (cases "r = 0")
      case True
      have "grown pt U (insert ?a (va_pages base k)) (\<lambda>_. ?perm OR PTE_V) zero_bytes s s3"
      proof (rule grown_insert [OF Suc.prems(1) ka False m _ al lt(2) nk _ user_perm [OF x]])
        show "mappages pt ?a PGSIZE p ?perm (s2\<lparr>mem := ?m\<rparr>) = Ok (0, s3)" using mp True by simp
        show "pt_change pt (s2\<lparr>mem := ?m\<rparr>) s3 (set_page (pte ?m pt) ?a (PA2PTE p OR ?perm OR PTE_V))"
          using r True by simp
      qed (use un in \<open>simp_all add: memset_apply unat_word_of_nat_u64\<close>)
      then have g': "grown pt U (va_pages base (Suc k)) (\<lambda>_. ?perm OR PTE_V) zero_bytes s s3"
        by (simp only: va_pages_add)
      have "j = n - Suc k" "Suc k \<le> n" using Suc.hyps(2) kn by simp_all
      note IH = Suc.hyps(1) [OF this(1) g' this(2)]
      have st: "base + word_of_nat (4096 * Suc k) = ?a + PGSIZE" by simp
      have "uvmalloc_loop pt ?a base newsz xperm s1 = uvmalloc_loop pt (?a + PGSIZE) base newsz xperm s3"
        using ka False mp True lt(1) by (subst uvmalloc_loop.simps) (simp del: of_nat_mult)
      then show ?thesis using IH unfolding st by simp
    next
      case F: False
      then have c: "pt_change pt (s2\<lparr>mem := ?m\<rparr>) s3 (pte ?m pt)" using r by simp
      obtain s4 where s4: "kfree p s3 = Ok s4"
        "grown pt U (va_pages base k) (\<lambda>_. (PTE_R OR PTE_U OR xperm) OR PTE_V) zero_bytes s s4"
        using grown_kfree [OF Suc.prems(1) ka False m c] by blast
      obtain s5 where "uvmdealloc pt ?a base s4 = Ok (base, s5)"
        "grown pt U {} (\<lambda>_. (PTE_R OR PTE_U OR xperm) OR PTE_V) zero_bytes s s5"
        using uvmdealloc_new [OF s4(2) b(1,2) Suc.prems(2) d z] by blast
      then show ?thesis using ka False mp F s4(1) lt(1)
        by (subst uvmalloc_loop.simps) (simp del: of_nat_mult)
    qed
  qed
qed

section \<open>Copying an address space\<close>

lemma memmove_page:
  assumes "page_aligned p" and "page_aligned q" and "q < PHYSTOP"
  shows "pages_eq (- {p}) m (memmove m p q 4096)"
    and "k < 4096 \<Longrightarrow> memmove m p q 4096 (p + word_of_nat k) = m (q + word_of_nat k)"
proof -
  have "memmove m p q 4096 x = (if unat (x - p) < unat (4096 :: u32) then m (q + (x - p)) else m x)" for x
    by (rule memmove_apply) (use page_aligned_le [OF assms(1)] assms(3) in \<open>simp_all add: word_less_nat_alt\<close>)
  then have *: "memmove m p q 4096 x = (if PGROUNDDOWN x = p then m (q + (x - p)) else m x)" for x
    using in_page_iff [OF assms(1), of x] by simp
  show "pages_eq (- {p}) m (memmove m p q 4096)" by (simp add: pages_eq_def *)
  show "memmove m p q 4096 (p + word_of_nat k) = m (q + word_of_nat k)" if "k < 4096"
    using PGROUNDDOWN_offset [OF assms(1) that] by (simp add: *)
qed

text \<open>The bytes of the page mapped at \<open>va\<close>.\<close>

definition page_bytes :: "memory \<Rightarrow> u64 \<Rightarrow> u64 \<Rightarrow> u64 \<Rightarrow> u8" where
  "page_bytes m pt va k = m (page_frame m pt va + k)"

text \<open>Two page tables with separate pages; the frames the first one owns are not pages of the second.\<close>

definition separate :: "u64 \<Rightarrow> u64 set \<Rightarrow> u64 \<Rightarrow> kmem \<Rightarrow> bool" where
  "separate old V new s \<longleftrightarrow> pt_ok 2 old s \<and> owns old V s \<and>
     tables (mem s) 2 old \<inter> tables (mem s) 2 new = {} \<and> frames (mem s) old V \<inter> tables (mem s) 2 new = {}"

lemma grown_separate:
  assumes g: "grown new U R fl c s s1" and sp: "separate old V new s"
  shows "pt_ok 2 old s1" and "\<And>va. pte (mem s1) old va = pte (mem s) old va"
    and "\<And>va k. va \<in> V \<Longrightarrow> k < 4096 \<Longrightarrow>
      mem s1 (page_frame (mem s) old va + word_of_nat k) = page_bytes (mem s) old va (word_of_nat k)"
    and "\<And>va. va \<in> V \<Longrightarrow> page_frame (mem s) old va \<notin> avail s1"
proof -
  note G = grownD [OF g]
  have S: "pt_ok 2 old s" "owns old V s" "tables (mem s) 2 old \<inter> tables (mem s) 2 new = {}"
    "frames (mem s) old V \<inter> tables (mem s) 2 new = {}"
    using sp by (auto simp: separate_def)
  have sub: "tables (mem s) 2 old \<subseteq> - (tables (mem s) 2 new \<union> avail s)"
    using S(3) pt_okD(3) [OF S(1)] by auto
  note F = table_frame [OF pt_okD(2) [OF S(1)] G(7) sub]
  show "pte (mem s1) old va = pte (mem s) old va" for va using F by simp
  have "\<forall>p \<in> tables (mem s) 2 old. p \<notin> avail s1" using G(4) pt_okD(3) [OF S(1)] by auto
  then show "pt_ok 2 old s1"
    using S(1) F pt_okD(1) [OF G(1)] ram_page_kend [OF G(2)] unfolding pt_ok_def by auto
  show "page_frame (mem s) old va \<notin> avail s1" if "va \<in> V" for va
    using ownsD(6) [OF S(2) that] G(4) by auto
  show "mem s1 (page_frame (mem s) old va + word_of_nat k) = page_bytes (mem s) old va (word_of_nat k)"
    if "va \<in> V" "k < 4096" for va k
  proof -
    let ?x = "page_frame (mem s) old va + word_of_nat k"
    have "PGROUNDDOWN ?x = page_frame (mem s) old va" by (rule PGROUNDDOWN_offset [OF _ that(2)]) simp
    moreover have "page_frame (mem s) old va \<notin> tables (mem s) 2 new \<union> avail s"
      using S(4) ownsD(6) [OF S(2) that(1)] that(1) by auto
    ultimately show ?thesis using pages_eqD [OF G(7), of ?x] by (simp add: page_bytes_def)
  qed
qed

lemma flags_low: "PTE_FLAGS e AND NOT 0x3FF = 0"
  by (simp add: PTE_FLAGS_def and.assoc)

lemma flags_or_V: "e AND PTE_V \<noteq> 0 \<Longrightarrow> PTE_FLAGS e OR PTE_V = PTE_FLAGS e"
proof (rule bit_word_eqI)
  fix n
  assume "e AND PTE_V \<noteq> 0" and n: "n < LENGTH(64)"
  then have "bit e 0" by (auto simp: and_one_eq bit_0 odd_iff_mod_2_eq_one)
  then show "bit (PTE_FLAGS e OR PTE_V) n = bit (PTE_FLAGS e) n"
    by (cases n) (auto simp: PTE_FLAGS_def mask_numerals bit_simps)
qed

lemma uvmunmap_new:
  assumes g: "grown pt U (va_pages 0 k) fl c s s1" and b: "4096 * n \<le> unat MAXVA" "k \<le> n"
    and d: "U \<inter> va_pages 0 n = {}"
    and z: "\<forall>va \<in> va_pages 0 n. pte (mem s) pt va = 0"
  obtains s2 where "uvmunmap pt 0 (word_of_nat k) True s1 = Ok s2" and "grown pt U {} fl c s s2"
proof -
  have sub: "va_pages 0 k \<subseteq> va_pages 0 n" using b(2) by (auto simp: va_pages_def)
  have "owns pt (va_pages 0 k) s1" using owns_mono [OF grownD(3) [OF g]] by blast
  moreover have "page_aligned 0" by (simp add: page_aligned_def)
  ultimately obtain s2 where s2: "uvmunmap pt 0 (word_of_nat k) True s1 = Ok s2"
    "unmapped pt (va_pages 0 k) s1 s2"
    using uvmunmap_ok [OF grownD(1) [OF g], of 0 k] b by auto
  have "grown pt U {} fl c s s2" by (rule grown_unmap [OF g s2(2)]) (use d z sub in auto)
  then show ?thesis using that s2(1) by blast
qed

lemma uvmcopy_loop_ok:
  assumes g: "grown new U (va_pages 0 k) (\<lambda>va. PTE_FLAGS (pte (mem s) old va)) (page_bytes (mem s) old) s s1"
    and sp: "separate old (va_pages 0 n) new s" and b: "4096 * n \<le> unat MAXVA" "k \<le> n"
    and N: "4096 * n = unat (PGROUNDUP sz)" "unat sz \<le> unat MAXVA"
    and d: "U \<inter> va_pages 0 n = {}"
    and z: "\<forall>va \<in> va_pages 0 n. pte (mem s) new va = 0"
  shows "\<exists>r s'. uvmcopy_loop old new sz (word_of_nat (4096 * k)) s1 = Ok (r, s') \<and>
    (r = 0 \<and> grown new U (va_pages 0 n) (\<lambda>va. PTE_FLAGS (pte (mem s) old va)) (page_bytes (mem s) old) s s' \<or>
     r = -1 \<and> grown new U {} (\<lambda>va. PTE_FLAGS (pte (mem s) old va)) (page_bytes (mem s) old) s s')"
  using g b(2)
proof (induction "n - k" arbitrary: k s1)
  case 0
  let ?i = "word_of_nat (4096 * k) :: u64"
  have al: "page_aligned ?i" using page_aligned_add [of 0 k] by (simp add: page_aligned_def)
  have "k = n" using 0 by simp
  then have "\<not> ?i < sz"
    using unat_nth_page [of 0 n k] b(1) N(1) aligned_less_PGROUNDUP [OF al N(2)] by simp
  then show ?case using 0 \<open>k = n\<close> by (subst uvmcopy_loop.simps) simp
next
  case (Suc j)
  let ?i = "word_of_nat (4096 * k) :: u64"
  let ?fl = "\<lambda>va. PTE_FLAGS (pte (mem s) old va)"
  let ?f = "page_frame (mem s) old ?i"
  note G = grownD [OF Suc.prems(1)] and S = grown_separate [OF Suc.prems(1) sp]
  have kn: "k < n" using Suc.hyps(2) by simp
  have ui: "unat ?i = 4096 * k" using unat_nth_page [of 0 n k] b(1) kn by simp
  have al: "page_aligned ?i" using page_aligned_add [of 0 k] by (simp add: page_aligned_def)
  have lt: "?i < sz" "?i < MAXVA"
    using ui N kn b(1) aligned_less_PGROUNDUP [OF al N(2)] unfolding word_less_nat_alt by simp_all
  have idiv: "?i div PGSIZE = word_of_nat k"
    using ui kn b(1) by (simp add: word_unat_eq_iff unat_div unat_word_of_nat_u64 del: of_nat_mult)
  have z0: "page_aligned (0 :: u64)" by (simp add: page_aligned_def)
  have in_n: "?i \<in> va_pages 0 n" and nk: "?i \<notin> va_pages 0 k"
    using va_pages_member [OF z0 _ al, of n] va_pages_member [OF z0 _ al, of k] ui kn b(1) by simp_all
  have un: "pte (mem s) new ?i = 0" using z in_n by blast
  have own: "owns old (va_pages 0 n) s" using sp by (simp add: separate_def)
  note W = ownsD [OF own in_n]
  obtain slot where w: "walk old ?i False s1 = Ok (slot, s1)" "slot = 0 \<Longrightarrow> pte (mem s1) old ?i = 0"
    "slot \<noteq> 0 \<Longrightarrow> slot_of (mem s1) 2 old ?i slot"
    using walk_lookup [OF S(1) lt(2)] by blast
  have nz: "slot \<noteq> 0" using w(2) W(3) S(2) by auto
  have ld: "load64 (mem s1) slot = pte (mem s) old ?i" using slot_of_load [OF w(3) [OF nz]] S(2) by simp
  obtain p s2 where ka: "kalloc s1 = (p, s2)" by fastforce
  let ?m = "memmove (mem s2) p ?f 4096"
  have unf: "uvmcopy_loop old new sz ?i s1 =
      (if p = 0 then obind (uvmunmap new 0 (word_of_nat k) True s2) (\<lambda>s3. Ok (-1, s3))
       else obind (mappages new ?i PGSIZE p (?fl ?i) (s2\<lparr>mem := ?m\<rparr>)) (\<lambda>(r, s3).
         if r \<noteq> 0 then obind (kfree p s3) (\<lambda>s4. obind (uvmunmap new 0 (word_of_nat k) True s4) (\<lambda>s5. Ok (-1, s5)))
         else uvmcopy_loop old new sz (?i + PGSIZE) s3))"
    using lt(1) w(1) nz ld ka W(3) idiv by (subst uvmcopy_loop.simps) (simp add: Let_def idiv cong: if_cong del: of_nat_mult)
  show ?case
  proof (cases "p = 0")
    case True
    then have s2: "s2 = s1" using ka.alloc_cases [OF pt_okD(1) [OF G(1)] ka] by blast
    obtain s3 where "uvmunmap new 0 (word_of_nat k) True s1 = Ok s3" "grown new U {} ?fl (page_bytes (mem s) old) s s3"
      using uvmunmap_new [OF Suc.prems(1) b(1) Suc.prems(2) d z] by blast
    then show ?thesis using True s2 unfolding unf by simp
  next
    case False
    have pal: "page_aligned p" and pf: "p \<noteq> ?f"
      using kalloc_fresh(4,6) [OF G(1,3) ka False pages_eq_refl] S(4) [OF in_n] by (auto simp: ram_page_def)
    have fm: "page_aligned ?f" "?f < PHYSTOP" using W(5) by (auto simp: ram_page_def)
    note m = memmove_page [OF pal fm, where m = "mem s2"]
    note K = kalloc_fresh [OF G(1,3) ka False m(1)]
    have mc: "?m (p + word_of_nat q) = page_bytes (mem s) old ?i (word_of_nat q)" if "q < 4096" for q
    proof -
      have "mem s2 (?f + word_of_nat q) = mem s1 (?f + word_of_nat q)"
        using kalloc_fresh(9) [OF G(1,3) ka False pages_eq_refl] PGROUNDDOWN_offset [OF fm(1) that] pf
        by (auto dest!: pages_eqD [of _ _ _ "?f + word_of_nat q"])
      then show ?thesis using m(2) [OF that] S(3) [OF in_n that] by simp
    qed
    have un1: "pte ?m new ?i AND PTE_V = 0" using un G(8) [OF MAXVA_VATOP [OF lt(2)]] nk al K(8) by simp
    obtain r s3 where mp: "mappages new ?i PGSIZE p (?fl ?i) (s2\<lparr>mem := ?m\<rparr>) = Ok (r, s3)"
      and r: "r = 0 \<and> pt_change new (s2\<lparr>mem := ?m\<rparr>) s3 (set_page (pte ?m new) ?i (PA2PTE p OR ?fl ?i OR PTE_V)) \<or>
        r = -1 \<and> pt_change new (s2\<lparr>mem := ?m\<rparr>) s3 (pte ?m new) \<and> avail s3 = {}"
      using mappages_page [OF K(1) al lt(2)] un1 by fastforce
    show ?thesis
    proof (cases "r = 0")
      case True
      have fv: "?fl ?i OR PTE_V = ?fl ?i" and f0: "?fl ?i AND NOT 0x3FF = 0" 
        by (rule flags_or_V [OF W(3)], rule flags_low)
      have "grown new U (insert ?i (va_pages 0 k)) ?fl (page_bytes (mem s) old) s s3"
      proof (rule grown_insert [OF Suc.prems(1) ka False m(1) _ al lt(2) nk _ f0])
        show "mappages new ?i PGSIZE p (?fl ?i) (s2\<lparr>mem := ?m\<rparr>) = Ok (0, s3)" using mp True by simp
        show "pt_change new (s2\<lparr>mem := ?m\<rparr>) s3 (set_page (pte ?m new) ?i (PA2PTE p OR ?fl ?i OR PTE_V))"
          using r True by simp
        show "?fl ?i OR PTE_V \<noteq> PTE_V" unfolding fv by (rule W(4))
      qed (use un mc fv in simp_all)
      then have g': "grown new U (va_pages 0 (Suc k)) ?fl (page_bytes (mem s) old) s s3"
        by (simp only: va_pages_add add_0)
      have "j = n - Suc k" "Suc k \<le> n" using Suc.hyps(2) kn by simp_all
      note IH = Suc.hyps(1) [OF this(1) g' this(2)]
      have st: "word_of_nat (4096 * Suc k) = ?i + PGSIZE" by simp
      show ?thesis using IH False mp True unfolding st unf by simp
    next
      case F: False
      then have c: "pt_change new (s2\<lparr>mem := ?m\<rparr>) s3 (pte ?m new)" using r by simp
      obtain s4 where s4: "kfree p s3 = Ok s4" "grown new U (va_pages 0 k) ?fl (page_bytes (mem s) old) s s4"
        using grown_kfree [OF Suc.prems(1) ka False m(1) c] by blast
      obtain s5 where "uvmunmap new 0 (word_of_nat k) True s4 = Ok s5" "grown new U {} ?fl (page_bytes (mem s) old) s s5"
        using uvmunmap_new [OF s4(2) b(1) Suc.prems(2) d z] by blast
      then show ?thesis using False mp F s4(1) unfolding unf by simp
    qed
  qed
qed

section \<open>Properties\<close>

text \<open>
  C20 (uvmalloc). Growing a process from \<open>oldsz\<close> to \<open>newsz\<close> never panics. Either it returns \<open>newsz\<close>, and
  every new page is mapped readable for the user (plus \<open>xperm\<close>) to a distinct, zero-filled frame
  taken from the free list; or it returns 0 and no translation has changed, only page-table pages may
  have been added. All bytes outside the table and the formerly free pages stay.
\<close>

theorem uvmalloc_grows_or_restores:
  assumes "pt_ok 2 pt s" and "owns pt U s" and "oldsz \<le> newsz" and "unat newsz \<le> unat MAXVA"
    and "R = va_pages (PGROUNDUP oldsz) (pages_between oldsz newsz)" and "U \<inter> R = {}"
    and "\<forall>va \<in> R. pte (mem s) pt va = 0" and "xperm AND NOT 0x3FF = 0"
  shows "\<exists>r s'. uvmalloc pt oldsz newsz xperm s = Ok (r, s') \<and>
    (r = newsz \<and> grown pt U R (\<lambda>_. (PTE_R OR PTE_U OR xperm) OR PTE_V) zero_bytes s s' \<or>
     r = 0 \<and> grown pt U {} (\<lambda>_. (PTE_R OR PTE_U OR xperm) OR PTE_V) zero_bytes s s')"
proof -
  let ?b = "PGROUNDUP oldsz" and ?n = "pages_between oldsz newsz"
  note B = pages_between_bound [OF assms(4,3)]
  have z: "?b + word_of_nat (4096 * 0) = ?b" by simp
  have b: "page_aligned ?b" "unat ?b + 4096 * ?n \<le> unat MAXVA" using B by simp_all
  have g: "grown pt U (va_pages ?b 0) (\<lambda>_. (PTE_R OR PTE_U OR xperm) OR PTE_V) zero_bytes s s"
    using grown_refl [OF assms(1,2)] by simp
  have "\<not> newsz < oldsz" using assms(3) by (simp add: not_less)
  then show ?thesis
    using uvmalloc_loop_ok [OF g b le0 B(1) assms(4) _ _ assms(8)] assms(5-7) z
    by (simp add: uvmalloc_def)
qed

theorem uvmalloc_grows_or_restores_witness:
  "\<exists>r s'. uvmalloc 0x87fff000 0x1000 0x1800 PTE_W example_space = Ok (r, s') \<and>
    (r = 0x1800 \<and> owns 0x87fff000 {0, 0x1000} s' \<or> r = 0 \<and> owns 0x87fff000 {0} s')"
proof -
  have u: "PGROUNDUP 0x1000 = 0x1000" "PGROUNDUP 0x1800 = 0x2000" by (simp_all add: PGROUNDUP_def)
  have R: "va_pages (PGROUNDUP 0x1000) (pages_between 0x1000 0x1800) = {0x1000}"
    unfolding u pages_between_def by (auto simp: va_pages_def)
  have "pte (mem example_space) 0x87fff000 0x1000 = 0"
    by (simp add: example_space_def example_pte PX_def PXSHIFT_def)
  then have "\<exists>r s'. uvmalloc 0x87fff000 0x1000 0x1800 PTE_W example_space = Ok (r, s') \<and>
    (r = 0x1800 \<and> grown 0x87fff000 {0} {0x1000} (\<lambda>_. (PTE_R OR PTE_U OR PTE_W) OR PTE_V) zero_bytes example_space s' \<or>
     r = 0 \<and> grown 0x87fff000 {0} {} (\<lambda>_. (PTE_R OR PTE_U OR PTE_W) OR PTE_V) zero_bytes example_space s')"
    using uvmalloc_grows_or_restores [OF example_space_ok example_owns, where oldsz = "0x1000" and newsz = "0x1800"
      and xperm = PTE_W and R = "{0x1000}"] R by simp
  then show ?thesis by (auto dest: grownD(3) simp: insert_commute)
qed

text \<open>
  C12 (uvmcopy). Copying the first \<open>sz\<close> bytes of one address space into another with separate
  tables never panics. Either it returns 0 and each page of the copy has the same flags and the same
  4096 bytes as the original, in a fresh frame; or it returns -1 and the new table translates as
  before. In both cases the old table and its pages are untouched.
\<close>

theorem uvmcopy_copies_or_restores:
  assumes "pt_ok 2 new s" and "owns new U s" and "separate old (va_pages 0 n) new s"
    and "unat sz \<le> unat MAXVA" and "4096 * n = unat (PGROUNDUP sz)" and "U \<inter> va_pages 0 n = {}"
    and "\<forall>va \<in> va_pages 0 n. pte (mem s) new va = 0"
  shows "\<exists>r s'. uvmcopy old new sz s = Ok (r, s') \<and>
    (r = 0 \<and> grown new U (va_pages 0 n) (\<lambda>va. PTE_FLAGS (pte (mem s) old va)) (page_bytes (mem s) old) s s' \<or>
     r = -1 \<and> grown new U {} (\<lambda>va. PTE_FLAGS (pte (mem s) old va)) (page_bytes (mem s) old) s s') \<and>
    pt_ok 2 old s' \<and> (\<forall>va. pte (mem s') old va = pte (mem s) old va) \<and>
    (\<forall>va \<in> va_pages 0 n. \<forall>k<4096. page_bytes (mem s') old va (word_of_nat k) = page_bytes (mem s) old va (word_of_nat k))"
proof -
  have b: "4096 * n \<le> unat MAXVA" using assms(5) pages_between_bound(2) [OF assms(4), of 0] by simp
  have g: "grown new U (va_pages 0 0) (\<lambda>va. PTE_FLAGS (pte (mem s) old va)) (page_bytes (mem s) old) s s"
    using grown_refl [OF assms(1,2)] by simp
  obtain r s' R where r: "uvmcopy old new sz s = Ok (r, s')"
    "r = 0 \<and> grown new U (va_pages 0 n) (\<lambda>va. PTE_FLAGS (pte (mem s) old va)) (page_bytes (mem s) old) s s' \<or>
     r = -1 \<and> grown new U {} (\<lambda>va. PTE_FLAGS (pte (mem s) old va)) (page_bytes (mem s) old) s s'"
    "grown new U R (\<lambda>va. PTE_FLAGS (pte (mem s) old va)) (page_bytes (mem s) old) s s'"
    using uvmcopy_loop_ok [OF g assms(3) b le0 assms(5,4,6,7)] by (auto simp: uvmcopy_def)
  note S = grown_separate [OF r(3) assms(3)]
  have "page_bytes (mem s') old va (word_of_nat k) = page_bytes (mem s) old va (word_of_nat k)"
    if "va \<in> va_pages 0 n" "k < 4096" for va k
    using S(2,3) that by (simp add: page_bytes_def)
  then show ?thesis using r(1,2) S(1,2) by blast
qed

text \<open>A second, empty table beside the example.\<close>

lemma example_second:
  defines "s \<equiv> example_space\<lparr>kend := 0x80021000\<rparr>"
  shows "pt_ok 2 0x80021000 s" and "owns 0x80021000 {} s" and "separate 0x87fff000 {0} 0x80021000 s"
    and "pte (mem s) 0x80021000 va = 0"
proof -
  have al: "page_aligned 0x80021000" by (simp add: page_aligned_unat)
  have z: "\<forall>i<512. ent example_mem 0x80021000 i = 0"
    unfolding example_mem_def by (simp add: example_pages al ent_store_page ent_zero)
  note Z = zero_table [OF al z]
  have inv: "kmem_inv s [0x87ffb000]"
    using example_avail(1) by (simp add: s_def kmem_inv_def example_space_def ram_page_def)
  then have k: "kmem_ok s" "avail s = {0x87ffb000}" using avail_eq by auto
  show "pt_ok 2 0x80021000 s"
    using k Z by (simp add: pt_ok_def s_def example_space_def ram_page_def al)
  show "owns 0x80021000 {} s" by (simp add: owns_def)
  show "pte (mem s) 0x80021000 va = 0" using Z(3) by (simp add: s_def example_space_def)
  have "pt_ok 2 0x87fff000 s" "owns 0x87fff000 {0} s"
    using k example_tables example_owns example_avail(2)
    by (simp_all add: pt_ok_def owns_def s_def example_space_def ram_page_def example_pages
      example_pte PX_def example_pte_values)
  then show "separate 0x87fff000 {0} 0x80021000 s"
    using Z(2) example_tables
    by (simp add: separate_def s_def example_space_def example_pte PX_def example_pte_values)
qed

theorem uvmcopy_copies_or_restores_witness:
  "\<exists>r s'. uvmcopy 0x87fff000 0x80021000 0x10 (example_space\<lparr>kend := 0x80021000\<rparr>) = Ok (r, s') \<and>
    pte (mem s') 0x87fff000 0 = 0x21fff013"
proof -
  have R: "va_pages 0 1 = {0}" "4096 * 1 = unat (PGROUNDUP 0x10)" by (auto simp: va_pages_def PGROUNDUP_def)
  have "pte (mem (example_space\<lparr>kend := 0x80021000\<rparr>)) 0x87fff000 0 = 0x21fff013"
    by (simp add: example_space_def example_pte PX_def)
  then show ?thesis
    using uvmcopy_copies_or_restores [OF example_second(1,2), where old = "0x87fff000" and n = 1 and sz = "0x10"]
      example_second(3,4) R by auto
qed

end
