(* ===== verification/Xv6_Uvm_Free.thy ===== *)
theory Xv6_Uvm_Free
  imports Xv6_Uvm_Grow
begin

text \<open>
  \<^verbatim>\<open>freewalk\<close> and \<^verbatim>\<open>uvmfree\<close> of \<^verbatim>\<open>kernel/vm.c\<close>: tearing an address space down ends and returns
  every page-table page and every frame to the allocator.
\<close>

section \<open>Freeing a page table\<close>

primrec leafless :: "memory \<Rightarrow> nat \<Rightarrow> u64 \<Rightarrow> bool" where
  "leafless m 0 r \<longleftrightarrow> (\<forall>i<512. kid m r i = None)"
| "leafless m (Suc l) r \<longleftrightarrow> (\<forall>i<512. \<forall>c. kid m r i = Some c \<longrightarrow> leafless m l c)"

lemma leafless_frame:
  assumes "pt_wf m l r" and "pages_eq P m m'" and "tables m l r \<subseteq> P" and "leafless m l r"
  shows "leafless m' l r"
  using assms
proof (induction l arbitrary: r)
  case 0
  then show ?case using kid_ent ent_pages_eq by (metis leafless.simps(1) pt_wf_aligned root_in_tables subsetD)
next
  case (Suc l)
  have k: "kid m' r i = kid m r i" if "i < 512" for i
    using that Suc.prems kid_ent ent_pages_eq [OF Suc.prems(2)] pt_wf_aligned root_in_tables by blast
  have "leafless m' l c" if "i < 512" "kid m r i = Some c" for i c
  proof -
    have "sub m l r i \<subseteq> P" by (rule subset_trans [OF sub_subset [OF that(1)] Suc.prems(3)])
    then show ?thesis using Suc.IH [OF _ Suc.prems(2)] pt_wf_kid [OF Suc.prems(1) that] that Suc.prems(4) by simp
  qed
  then show ?case using k by simp
qed

text \<open>The pages of the subtables below index \<open>i\<close>.\<close>

definition below :: "memory \<Rightarrow> nat \<Rightarrow> u64 \<Rightarrow> nat \<Rightarrow> u64 set" where
  "below m l r i = (case l of 0 \<Rightarrow> {} | Suc k \<Rightarrow> \<Union>j<i. sub m k r j)"

text \<open>The state of \<^verbatim>\<open>freewalk\<close> of the table \<open>r\<close> when its loop is at index \<open>i\<close>.\<close>

definition freeing :: "nat \<Rightarrow> u64 \<Rightarrow> nat \<Rightarrow> kmem \<Rightarrow> kmem \<Rightarrow> bool" where
  "freeing l r i s s' \<longleftrightarrow> kmem_ok s' \<and> kend s' = kend s \<and> avail s' = avail s \<union> below (mem s) l r i \<and>
     pages_eq (- insert r (below (mem s) l r i)) (mem s) (mem s') \<and>
     (\<forall>j<512. i \<le> j \<longrightarrow> ent (mem s') r j = ent (mem s) r j)"

definition freed :: "nat \<Rightarrow> u64 \<Rightarrow> kmem \<Rightarrow> kmem \<Rightarrow> bool" where
  "freed l r s s' \<longleftrightarrow> kmem_ok s' \<and> kend s' = kend s \<and> avail s' = avail s \<union> tables (mem s) l r \<and>
     pages_eq (- tables (mem s) l r) (mem s) (mem s')"

lemma freeing_finish:
  assumes ok: "pt_ok l r s" and fr: "freeing l r 512 s s1"
  obtains s' where "kfree r s1 = Ok s'" and "freed l r s s'"
proof -
  note D = pt_okD [OF ok]
  have t: "tables (mem s) l r = insert r (below (mem s) l r 512)"
    by (cases l) (auto simp: below_def)
  have nb: "r \<notin> below (mem s) l r 512"
  proof (cases l)
    case (Suc k)
    then show ?thesis using pt_wf_kid [OF D(2) [unfolded Suc]] by (auto simp: below_def split: option.splits)
  qed (simp add: below_def)
  have F: "kmem_ok s1" "kend s1 = kend s" "avail s1 = avail s \<union> below (mem s) l r 512"
    "pages_eq (- insert r (below (mem s) l r 512)) (mem s) (mem s1)"
    using fr by (auto simp: freeing_def)
  have "r \<notin> avail s1" "ram_page s1 r"
    using F(3) nb D(3,6) t ram_page_kend [OF F(2)] by auto
  then obtain s' where s': "kfree r s1 = Ok s'" "kmem_ok s'" "avail s' = insert r (avail s1)"
    "pages_eq (- {r}) (mem s1) (mem s')"
    using ka.free_some [OF F(1)] by blast
  have "pages_eq (- tables (mem s) l r) (mem s) (mem s')"
    using pages_eq_trans [OF F(4) s'(4)] t by (auto elim!: pages_eq_mono)
  then have "freed l r s s'" using s' F(2,3) t kfree_kend [OF s'(1)] by (simp add: freed_def)
  then show ?thesis using that s'(1) by blast
qed

lemma freeing_none:
  assumes "freeing l r i s s1" and "i < 512" and "kid (mem s) r i = None"
  shows "freeing l r (Suc i) s s1"
proof -
  have "below (mem s) l r (Suc i) = below (mem s) l r i"
    using assms(3) by (auto simp: below_def less_Suc_eq split: nat.split)
  then show ?thesis using assms(1) by (simp add: freeing_def)
qed

lemma freeing_kid:
  assumes ok: "pt_ok (Suc l) r s" and fr: "freeing (Suc l) r i s s1" and i: "i < 512" and k: "kid (mem s) r i = Some c"
  shows "pt_ok l c s1" and "tables (mem s1) l c = tables (mem s) l c"
    and "leafless (mem s) (Suc l) r \<Longrightarrow> leafless (mem s1) l c"
    and "freed l c s1 s2 \<Longrightarrow> freeing (Suc l) r (Suc i) s (set_pte (r + word_of_nat (8 * i)) 0 s2)"
proof -
  note D = pt_okD [OF ok]
  let ?B = "below (mem s) (Suc l) r i"
  have F: "kmem_ok s1" "kend s1 = kend s" "avail s1 = avail s \<union> ?B"
    "pages_eq (- insert r ?B) (mem s) (mem s1)"
    "\<And>j. j < 512 \<Longrightarrow> i \<le> j \<Longrightarrow> ent (mem s1) r j = ent (mem s) r j"
    using fr by (auto simp: freeing_def)
  have sub: "sub (mem s) l r i = tables (mem s) l c" using k by simp
  have wk: "pt_wf (mem s) l c" "r \<notin> tables (mem s) l c" using pt_wf_kid [OF D(2) i k] by auto
  have dB: "?B \<inter> tables (mem s) l c = {}"
  proof -
    have "sub (mem s) l r j \<inter> sub (mem s) l r i = {}" if "j < i" for j
      by (rule pt_wf_disjoint [OF D(2)]) (use that i in auto)
    then show ?thesis unfolding below_def using sub by auto
  qed
  have sb: "tables (mem s) l c \<subseteq> - insert r ?B" using dB wk(2) by auto
  note T = table_frame [OF wk(1) F(4) sb]
  show tt: "tables (mem s1) l c = tables (mem s) l c" using T by simp
  have tc: "tables (mem s) l c \<subseteq> tables (mem s) (Suc l) r" using sub_subset [OF i, of "mem s" l r] sub by simp
  show okc: "pt_ok l c s1"
  proof -
    have "ram_page s p \<and> p \<notin> avail s \<and> p \<notin> ?B" if "p \<in> tables (mem s) l c" for p
      using that tc dB D(3,6) by blast
    then show ?thesis using T F(1,3) ram_page_kend [OF F(2)] unfolding pt_ok_def by simp
  qed
  show "leafless (mem s1) l c" if "leafless (mem s) (Suc l) r"
    using leafless_frame [OF wk(1) F(4) sb] that i k by simp
  show "freeing (Suc l) r (Suc i) s (set_pte (r + word_of_nat (8 * i)) 0 s2)" if f: "freed l c s1 s2"
  proof -
    have G: "kmem_ok s2" "kend s2 = kend s1" "avail s2 = avail s1 \<union> tables (mem s) l c"
      "pages_eq (- tables (mem s) l c) (mem s1) (mem s2)"
      using f tt by (auto simp: freed_def)
    have B': "below (mem s) (Suc l) r (Suc i) = ?B \<union> tables (mem s) l c"
      using sub by (auto simp: below_def less_Suc_eq)
    have rB: "r \<notin> ?B"
    proof
      assume "r \<in> ?B"
      then obtain j d where "j < i" "kid (mem s) r j = Some d" "r \<in> tables (mem s) l d"
        by (auto simp: below_def split: option.splits)
      then show False using pt_wf_kid [OF D(2), of j d] i by simp
    qed
    have ra: "r \<notin> avail s2" using G(3) F(3) rB wk(2) D(3) root_in_tables [of r "mem s" "Suc l"] by auto
    have e: "pages_eq (- {r}) (mem s2) (store64 (mem s2) (r + word_of_nat (8 * i)) 0)"
      using pages_eq_store64 [OF D(5), of "8 * i"] i by simp
    have "avail s2 \<subseteq> - {r}" using ra by auto
    note K = kmem_ok_mem [OF G(1) e this]
    have "pages_eq (- insert r (?B \<union> tables (mem s) l c)) (mem s) (store64 (mem s2) (r + word_of_nat (8 * i)) 0)"
      using pages_eq_trans [OF pages_eq_trans [OF F(4) G(4)] e] by (rule pages_eq_mono) auto
    moreover have "ent (store64 (mem s2) (r + word_of_nat (8 * i)) 0) r j = ent (mem s) r j" if "j < 512" "Suc i \<le> j" for j
      using ent_store_other [OF i that(1), of "mem s2" r 0] that F(5) [of j] ent_pages_eq [OF G(4) D(5) _ that(1)] wk(2) by simp
    ultimately show ?thesis using K G(2,3) F(2,3) B' by (auto simp: freeing_def)
  qed
qed

lemma freewalk_from_ok:
  assumes "pt_ok l r s" and "leafless (mem s) l r" and "freeing l r i s s1" and "i \<le> 512"
  shows "\<exists>s'. freewalk_from r i s1 = Some (Ok s') \<and> freed l r s s'"
  using assms
proof (induction l arbitrary: r s i s1)
  case 0
  from 0(3,4) show ?case
  proof (induction "512 - i" arbitrary: i)
    case 0
    obtain s' where "kfree r s1 = Ok s'" "freed 0 r s s'"
      using freeing_finish [OF \<open>pt_ok 0 r s\<close>] 0 by (metis diff_is_0_eq le_antisym)
    then show ?case using 0 by (subst freewalk_from.simps) simp
  next
    case (Suc n)
    then have i: "i < 512" by simp
    then have k: "kid (mem s) r i = None" using \<open>leafless (mem s) 0 r\<close> by simp
    have "ent (mem s1) r i AND PTE_V = 0"
      using Suc.prems(1) i k by (auto simp: freeing_def kid_def split: if_splits)
    then have "freewalk_from r i s1 = freewalk_from r (i + 1) s1"
      using i by (subst freewalk_from.simps) (simp add: Let_def ent_def)
    then show ?case using Suc.hyps(1) [of "Suc i"] Suc.hyps(2) freeing_none [OF Suc.prems(1) i k] i by simp
  qed
next
  case (Suc l)
  note outer = Suc.IH
  from Suc(4,5) show ?case
  proof (induction "512 - i" arbitrary: i s1)
    case 0
    obtain s' where "kfree r s1 = Ok s'" "freed (Suc l) r s s'"
      using freeing_finish [OF \<open>pt_ok (Suc l) r s\<close>] 0 by (metis diff_is_0_eq le_antisym)
    then show ?case using 0 by (subst freewalk_from.simps) simp
  next
    case (Suc n)
    then have i: "i < 512" by simp
    have e: "ent (mem s1) r i = ent (mem s) r i" using Suc.prems(1) i by (simp add: freeing_def)
    show ?case
    proof (cases "kid (mem s) r i")
      case None
      then have "ent (mem s1) r i AND PTE_V = 0" using e by (auto simp: kid_def split: if_splits)
      then have "freewalk_from r i s1 = freewalk_from r (i + 1) s1"
        using i by (subst freewalk_from.simps) (simp add: Let_def ent_def)
      then show ?thesis using Suc.hyps(1) [of "Suc i"] Suc.hyps(2) freeing_none [OF Suc.prems(1) i None] i by simp
    next
      case (Some c)
      note K = freeing_kid [OF \<open>pt_ok (Suc l) r s\<close> Suc.prems(1) i Some]
      have fc: "freeing l c 0 s1 s1"
        using pt_okD(1) [OF K(1)] by (simp add: freeing_def below_def split: nat.split)
      obtain s2 where s2: "freewalk_from c 0 s1 = Some (Ok s2)" "freed l c s1 s2"
        using outer [OF K(1) K(3) fc] \<open>leafless (mem s) (Suc l) r\<close> by auto
      have "ent (mem s) r i AND PTE_V \<noteq> 0" "PTE2PA (ent (mem s) r i) = c"
        using Some by (auto simp: kid_def split: if_splits)
      moreover have "ent (mem s) r i AND (PTE_R OR PTE_W OR PTE_X) = 0"
        using pt_okD(2) [OF \<open>pt_ok (Suc l) r s\<close>] i Some by simp
      ultimately have "freewalk_from r i s1 = freewalk_from r (i + 1) (set_pte (r + word_of_nat (8 * i)) 0 s2)"
        using i e s2(1) by (subst freewalk_from.simps) (simp add: Let_def ent_def)
      then show ?thesis using Suc.hyps(1) [of "Suc i"] Suc.hyps(2) K(4) [OF s2(2)] i by simp
    qed
  qed
qed

lemma freewalk_ok:
  assumes "pt_ok l r s" and "leafless (mem s) l r"
  obtains s' where "freewalk r s = Some (Ok s')" and "freed l r s s'"
proof -
  have "freeing l r 0 s s"
    using pt_okD(1) [OF assms(1)] by (simp add: freeing_def below_def split: nat.split)
  then show ?thesis using freewalk_from_ok [OF assms, of 0 s] that by (auto simp: freewalk_def)
qed

definition va_of :: "nat \<Rightarrow> nat \<Rightarrow> nat \<Rightarrow> u64" where
  "va_of i2 i1 i0 = word_of_nat (4096 * (i0 + 512 * (i1 + 512 * i2)))"

lemma va_of_index:
  assumes "i0 < 512" and "i1 < 512" and "i2 < 512"
  shows "unat (PX 0 (va_of i2 i1 i0)) = i0" and "unat (PX (Suc 0) (va_of i2 i1 i0)) = i1"
    and "unat (PX (Suc (Suc 0)) (va_of i2 i1 i0)) = i2" and "va_of i2 i1 i0 < VATOP"
proof -
  have b: "i0 + 512 * (i1 + 512 * i2) < 512 * 512 * 512" using assms by simp
  then have u: "unat (va_of i2 i1 i0) = 4096 * (i0 + 512 * (i1 + 512 * i2))"
    unfolding va_of_def by (intro unat_word_of_nat_u64) simp
  have d: "unat (va_of i2 i1 i0) div 4096 = i0 + 512 * (i1 + 512 * i2)" using u by simp
  have e: "(i + 512 * y) mod 512 = i" "(i + 512 * y) div 512 = y" if "i < 512" for i y :: nat
    using that by simp_all
  have "unat (va_of i2 i1 i0) div 2 ^ 21 = unat (va_of i2 i1 i0) div 4096 div 512"
    "unat (va_of i2 i1 i0) div 2 ^ 30 = unat (va_of i2 i1 i0) div 4096 div 512 div 512"
    by (simp_all add: div_mult2_eq [symmetric])
  then show "unat (PX 0 (va_of i2 i1 i0)) = i0" "unat (PX (Suc 0) (va_of i2 i1 i0)) = i1"
    "unat (PX (Suc (Suc 0)) (va_of i2 i1 i0)) = i2"
    unfolding unat_PX PXSHIFT_def by (simp_all add: d e assms del: distrib_left_numeral)
  show "va_of i2 i1 i0 < VATOP" using u b by (simp add: word_less_nat_alt)
qed

lemma leafless_ptes:
  assumes "\<forall>va. va < VATOP \<longrightarrow> pte m pt va AND PTE_V = 0"
  shows "leafless m 2 pt"
proof -
  have "kid m d i0 = None"
    if "i2 < 512" "kid m pt i2 = Some c" "i1 < 512" "kid m c i1 = Some d" "i0 < 512" for i2 c i1 d i0
  proof -
    note V = va_of_index [OF that(5,3,1)]
    have "pte m pt (va_of i2 i1 i0) = ent m d i0"
      unfolding numeral_2_eq_2 pte_of.simps V(1-3) that(2) option.case that(4) ..
    moreover have "pte m pt (va_of i2 i1 i0) AND PTE_V = 0" using assms V(4) by blast
    ultimately have "ent m d i0 AND PTE_V = 0" by simp
    then show ?thesis by (simp add: kid_def)
  qed
  then show ?thesis unfolding numeral_2_eq_2 leafless.simps by blast
qed

lemma uvmfree_ok:
  assumes ok: "pt_ok 2 pt s" and sz: "unat sz \<le> unat MAXVA" and n: "4096 * n = unat (PGROUNDUP sz)"
    and o: "owns pt (va_pages 0 n) s"
    and z: "\<forall>va. va < VATOP \<longrightarrow> PGROUNDDOWN va \<notin> va_pages 0 n \<longrightarrow> pte (mem s) pt va AND PTE_V = 0"
  shows "\<exists>s'. uvmfree pt sz s = Some (Ok s') \<and> kmem_ok s' \<and>
    avail s' = avail s \<union> tables (mem s) 2 pt \<union> frames (mem s) pt (va_pages 0 n) \<and>
    pages_eq (- (tables (mem s) 2 pt \<union> frames (mem s) pt (va_pages 0 n))) (mem s) (mem s')"
proof -
  have al: "page_aligned (0 :: u64)" by (simp add: page_aligned_def)
  have b: "unat (0 :: u64) + 4096 * n \<le> unat MAXVA"
    using n pages_between_bound(2) [OF sz, of 0] by simp
  have np: "PGROUNDUP sz div PGSIZE = word_of_nat n"
  proof -
    have "unat (PGROUNDUP sz div PGSIZE) = n" by (simp add: unat_div n [symmetric])
    moreover have "n < 2 ^ 64" using b by simp
    ultimately show ?thesis by (simp add: word_unat_eq_iff unat_word_of_nat_u64)
  qed
  obtain s1 where s1: "(if sz > 0 then uvmunmap pt 0 (PGROUNDUP sz div PGSIZE) True s else Ok s) = Ok s1"
    "unmapped pt (va_pages 0 n) s s1"
  proof (cases "sz > 0")
    case True
    then show ?thesis using that uvmunmap_ok [OF ok o al b] np by auto
  next
    case False
    then have "n = 0" using n unat_PGROUNDUP_MAXVA [OF sz] word_gt_0 [of sz] by simp
    then show ?thesis using that [of s] unmapped_refl [OF ok] False by simp
  qed
  have U: "pt_ok 2 pt s1" "tables (mem s1) 2 pt = tables (mem s) 2 pt"
    "avail s1 = avail s \<union> frames (mem s) pt (va_pages 0 n)"
    "pages_eq (- (tables (mem s) 2 pt \<union> frames (mem s) pt (va_pages 0 n))) (mem s) (mem s1)"
    "\<And>va. va < VATOP \<Longrightarrow> pte (mem s1) pt va = (if PGROUNDDOWN va \<in> va_pages 0 n then 0 else pte (mem s) pt va)"
    using s1(2) by (auto simp: unmapped_def ptes_eq_def)
  have "leafless (mem s1) 2 pt" by (rule leafless_ptes) (use U(5) z in auto)
  then obtain s' where s': "freewalk pt s1 = Some (Ok s')" "freed 2 pt s1 s'"
    using freewalk_ok [OF U(1)] by blast
  have F: "kmem_ok s'" "avail s' = avail s1 \<union> tables (mem s) 2 pt"
    "pages_eq (- tables (mem s) 2 pt) (mem s1) (mem s')"
    using s'(2) U(2) by (auto simp: freed_def)
  have "uvmfree pt sz s = Some (Ok s')" using s1(1) s'(1) by (simp add: uvmfree_def)
  moreover have "pages_eq (- (tables (mem s) 2 pt \<union> frames (mem s) pt (va_pages 0 n))) (mem s) (mem s')"
    using pages_eq_trans [OF U(4) F(3)] by (rule pages_eq_mono) auto
  ultimately show ?thesis using F(1,2) U(3) by auto
qed

section \<open>Properties\<close>

text \<open>
  C21 (uvmfree). Tearing down an address space whose only valid leaf entries are the owned pages
  below \<open>sz\<close> ends without a panic, and returns every frame and every page-table page, and nothing
  else, to the free list.
\<close>

theorem uvmfree_returns_everything:
  assumes "pt_ok 2 pt s" and "unat sz \<le> unat MAXVA" and "4096 * n = unat (PGROUNDUP sz)"
    and "owns pt (va_pages 0 n) s"
    and "\<forall>va. va < VATOP \<longrightarrow> PGROUNDDOWN va \<notin> va_pages 0 n \<longrightarrow> pte (mem s) pt va AND PTE_V = 0"
  shows "\<exists>s'. uvmfree pt sz s = Some (Ok s') \<and> kmem_ok s' \<and>
    avail s' = avail s \<union> tables (mem s) 2 pt \<union> frames (mem s) pt (va_pages 0 n) \<and>
    pages_eq (- (tables (mem s) 2 pt \<union> frames (mem s) pt (va_pages 0 n))) (mem s) (mem s')"
  by (rule uvmfree_ok [OF assms])

theorem uvmfree_returns_everything_witness:
  "\<exists>s'. uvmfree 0x87fff000 0x1000 example_space = Some (Ok s') \<and>
    avail s' = {0x87ffb000, 0x87ffc000, 0x87ffd000, 0x87ffe000, 0x87fff000}"
proof -
  have R: "va_pages 0 1 = {0}" "4096 * 1 = unat (PGROUNDUP 0x1000)" by (auto simp: va_pages_def PGROUNDUP_def)
  have f: "page_frame (mem example_space) 0x87fff000 0 = 0x87ffc000"
    by (simp add: example_space_def example_pte PX_def example_pte_values)
  have "pte (mem example_space) 0x87fff000 va AND PTE_V = 0" if "va < VATOP" "PGROUNDDOWN va \<noteq> 0" for va
  proof -
    have "\<not> (PX 0 va = 0 \<and> PX 1 va = 0 \<and> PX 2 va = 0)"
    proof
      assume "PX 0 va = 0 \<and> PX 1 va = 0 \<and> PX 2 va = 0"
      then have "PGROUNDDOWN va = PGROUNDDOWN 0" using that(1) by (intro PX_page) (simp_all add: PX_def)
      then show False using that(2) by (simp add: PGROUNDDOWN_def)
    qed
    then show ?thesis by (auto simp: example_space_def example_pte)
  qed
  then have "\<exists>s'. uvmfree 0x87fff000 0x1000 example_space = Some (Ok s') \<and>
      avail s' = avail example_space \<union> tables (mem example_space) 2 0x87fff000 \<union> frames (mem example_space) 0x87fff000 {0}"
    using uvmfree_returns_everything [OF example_space_ok, where sz = "0x1000" and n = 1] R example_owns by auto
  moreover have "tables (mem example_space) 2 0x87fff000 = {0x87fff000, 0x87ffe000, 0x87ffd000}"
    using example_tables(1) by (simp add: example_space_def)
  ultimately show ?thesis using f example_avail(2) by (simp add: insert_commute)
qed

end
