(* ===== verification/Xv6_Copy.thy ===== *)
theory Xv6_Copy
  imports Xv6_Uvm
begin

text \<open>
  \<^verbatim>\<open>copyout\<close>, \<^verbatim>\<open>copyin\<close> and \<^verbatim>\<open>copyinstr\<close> of \<^verbatim>\<open>kernel/vm.c\<close>: moving bytes between a kernel buffer
  and the user pages a table maps.
\<close>

section \<open>User addresses\<close>

definition uaccess :: "memory \<Rightarrow> u64 \<Rightarrow> u64 \<Rightarrow> bool" where
  "uaccess m pt va \<longleftrightarrow> va < MAXVA \<and> pte m pt va AND PTE_V \<noteq> 0 \<and> pte m pt va AND PTE_U \<noteq> 0"

definition uaddr :: "memory \<Rightarrow> u64 \<Rightarrow> u64 \<Rightarrow> u64" where
  "uaddr m pt va = page_frame m pt va + (va - PGROUNDDOWN va)"

lemma walkaddr_ok:
  assumes "pt_ok 2 pt s"
  shows "walkaddr pt va s = Ok (if uaccess (mem s) pt va then page_frame (mem s) pt va else 0)"
proof (cases "va < MAXVA")
  case True
  obtain slot where w: "walk pt va False s = Ok (slot, s)" "slot = 0 \<Longrightarrow> pte (mem s) pt va = 0"
    "slot \<noteq> 0 \<Longrightarrow> slot_of (mem s) 2 pt va slot"
    using walk_lookup [OF assms True] by blast
  show ?thesis
  proof (cases "slot = 0")
    case True
    then show ?thesis using w \<open>va < MAXVA\<close> [folded not_le] by (simp add: walkaddr_def uaccess_def)
  next
    case False
    then show ?thesis using w(1) slot_of_load [OF w(3) [OF False]] True True [folded not_le]
      by (simp add: walkaddr_def uaccess_def)
  qed
next
  case False
  then show ?thesis by (auto simp: walkaddr_def uaccess_def)
qed

lemma PGROUNDDOWN_less_MAXVA: "PGROUNDDOWN va < MAXVA \<longleftrightarrow> va < MAXVA"
  by (simp add: word_less_nat_alt unat_PGROUNDDOWN) linarith

lemma uaccess_page [simp]: "uaccess m pt (PGROUNDDOWN va) = uaccess m pt va"
  by (simp add: uaccess_def pte_PGROUNDDOWN PGROUNDDOWN_less_MAXVA)

text \<open>
  The user part of an address space: all user-accessible pages are owned. The kernel buffer at
  \<open>b\<close> of \<open>n\<close> bytes lies in none of its frames and in no page of its table.
\<close>

definition user_space :: "u64 \<Rightarrow> u64 set \<Rightarrow> kmem \<Rightarrow> bool" where
  "user_space pt U s \<longleftrightarrow> pt_ok 2 pt s \<and> owns pt U s \<and> (\<forall>va. uaccess (mem s) pt va \<longrightarrow> PGROUNDDOWN va \<in> U)"

definition kernel_buffer :: "u64 \<Rightarrow> u64 set \<Rightarrow> kmem \<Rightarrow> u64 \<Rightarrow> nat \<Rightarrow> bool" where
  "kernel_buffer pt U s b n \<longleftrightarrow> unat b + n < 2 ^ 64 \<and>
     (\<forall>i<n. PGROUNDDOWN (b + word_of_nat i) \<notin> frames (mem s) pt U \<union> tables (mem s) 2 pt \<union> avail s)"

lemma user_spaceD:
  assumes "user_space pt U s"
  shows "pt_ok 2 pt s" and "owns pt U s" and "uaccess (mem s) pt va \<Longrightarrow> PGROUNDDOWN va \<in> U"
  using assms by (auto simp: user_space_def)

lemma page_offset_split: "va = PGROUNDDOWN va + word_of_nat (unat va mod 4096)"
proof -
  have "va - PGROUNDDOWN va = word_of_nat (unat va mod 4096)"
    by (rule word_unat_eq_iff [THEN iffD2])
      (simp add: unat_page_offset unat_word_of_nat_u64 [OF less_trans [OF mod_less_divisor]])
  then show ?thesis by (metis add_diff_cancel_left' diff_add_cancel)
qed

lemma same_page_add:
  assumes "unat va mod 4096 + i < 4096"
  shows "PGROUNDDOWN (va + word_of_nat i) = PGROUNDDOWN va"
proof -
  have "va + word_of_nat i = PGROUNDDOWN va + word_of_nat (unat va mod 4096 + i)"
    by (subst page_offset_split) (simp add: add.assoc)
  also have "PGROUNDDOWN \<dots> = PGROUNDDOWN va"
    by (rule PGROUNDDOWN_offset [OF page_aligned_PGROUNDDOWN assms])
  finally show ?thesis .
qed

lemma uaddr_add:
  assumes "unat va mod 4096 + i < 4096"
  shows "uaddr m pt (va + word_of_nat i) = uaddr m pt va + word_of_nat i"
  using same_page_add [OF assms] pte_PGROUNDDOWN [of m 2 pt va] pte_PGROUNDDOWN [of m 2 pt "va + word_of_nat i"]
  by (simp add: uaddr_def)

lemma uaddr_page: "PGROUNDDOWN (uaddr m pt va) = page_frame m pt va"
proof -
  have "va - PGROUNDDOWN va = word_of_nat (unat va mod 4096)"
    using page_offset_split [of va] by (metis add_diff_cancel_left')
  then show ?thesis unfolding uaddr_def by (simp add: PGROUNDDOWN_offset)
qed

lemma uaddr_inj:
  assumes "owns pt U s" and "PGROUNDDOWN va \<in> U" and "PGROUNDDOWN va' \<in> U"
    and "uaddr (mem s) pt va = uaddr (mem s) pt va'"
  shows "va = va'"
proof -
  have "page_frame (mem s) pt va = page_frame (mem s) pt va'" using uaddr_page assms(4) by metis
  then have "page_frame (mem s) pt (PGROUNDDOWN va) = page_frame (mem s) pt (PGROUNDDOWN va')"
    by (simp add: pte_PGROUNDDOWN)
  then have "PGROUNDDOWN va = PGROUNDDOWN va'"
    using assms(1-3) inj_onD unfolding owns_def by fastforce
  then show ?thesis using assms(4) \<open>page_frame (mem s) pt va = _\<close> by (simp add: uaddr_def)
qed

text \<open>Writing bytes of owned frames keeps the address space.\<close>

lemma user_space_write:
  assumes us: "user_space pt U s" and e: "pages_eq (- frames (mem s) pt U) (mem s) m"
  shows "user_space pt U (s\<lparr>mem := m\<rparr>)" and "pte m pt va = pte (mem s) pt va"
    and "tables m 2 pt = tables (mem s) 2 pt" and "avail (s\<lparr>mem := m\<rparr>) = avail s"
proof -
  note D = user_spaceD [OF us] and P = pt_okD [OF user_spaceD(1) [OF us]]
  have sub: "tables (mem s) 2 pt \<subseteq> - frames (mem s) pt U" "avail s \<subseteq> - frames (mem s) pt U"
    using ownsD(6,7) [OF D(2)] by auto
  note F = table_frame [OF P(2) e sub(1)]
  show pe: "pte m pt va = pte (mem s) pt va" for va using F by simp
  show T: "tables m 2 pt = tables (mem s) 2 pt" using F by simp
  note K = kmem_ok_mem [OF P(1) e sub(2)]
  show A: "avail (s\<lparr>mem := m\<rparr>) = avail s" by (rule K(2))
  have "pt_ok 2 pt (s\<lparr>mem := m\<rparr>)" using D(1) F K unfolding pt_ok_def by simp
  moreover have "owns pt U (s\<lparr>mem := m\<rparr>)"
    by (rule owns_transfer [OF D(2)]) (use pe T A sub in auto)
  moreover have "uaccess m pt va = uaccess (mem s) pt va" for va using pe by (simp add: uaccess_def)
  ultimately show "user_space pt U (s\<lparr>mem := m\<rparr>)" using D(3) by (simp add: user_space_def)
qed

section \<open>Copying between kernel and user memory\<close>

lemma page_room_bounds:
  assumes "0 < len"
  shows "0 < unat (page_room va len)" and "unat (page_room va len) \<le> unat len"
    and "unat va mod 4096 + unat (page_room va len) \<le> 4096"
    and "unat (len - page_room va len) = unat len - unat (page_room va len)"
    and "unat (page_room va len) < unat len \<Longrightarrow> PGROUNDDOWN va + PGSIZE = va + page_room va len"
proof -
  have m: "unat va mod 4096 < 4096" by simp
  have r: "unat (page_room va len) = min (unat len) (4096 - unat va mod 4096)" by (rule unat_page_room)
  show "0 < unat (page_room va len)" using assms m by (simp add: r word_less_nat_alt)
  show le: "unat (page_room va len) \<le> unat len" by (simp add: r)
  show "unat va mod 4096 + unat (page_room va len) \<le> 4096" using m by (simp add: r)
  show "unat (len - page_room va len) = unat len - unat (page_room va len)"
    using le by (simp add: unat_sub_if')
  show "PGROUNDDOWN va + PGSIZE = va + page_room va len" if "unat (page_room va len) < unat len"
    using that by (auto simp: page_room_def Let_def split: if_splits)
qed

lemma ucast_page_room: "unat (ucast (page_room va len) :: u32) = unat (page_room va len)"
proof -
  have "unat (page_room va len) < 2 ^ 32" by (simp add: unat_page_room min_less_iff_disj less_imp_diff_less)
  then show ?thesis by (simp add: unsigned_ucast_eq take_bit_nat_eq_self)
qed

lemma page_copy_apply:
  assumes "page_aligned p" and "p < PHYSTOP" and "o' + unat (n :: u32) \<le> 4096"
    and "unat b + unat n < 2 ^ 64"
  shows "memmove m (p + word_of_nat o') b n x = (if unat (x - (p + word_of_nat o')) < unat n then m (b + (x - (p + word_of_nat o'))) else m x)"
    and "memmove m b (p + word_of_nat o') n x = (if unat (x - b) < unat n then m (p + word_of_nat o' + (x - b)) else m x)"
proof -
  have "unat (p + word_of_nat o') = unat p + o'"
    using assms(2,3) by (intro unat_add_of_nat_u64) (simp add: word_less_nat_alt)
  then have u: "unat (p + word_of_nat o') + unat n < 2 ^ 64"
    using assms(2,3) by (simp add: word_less_nat_alt)
  show "memmove m (p + word_of_nat o') b n x = (if unat (x - (p + word_of_nat o')) < unat n then m (b + (x - (p + word_of_nat o'))) else m x)"
    by (rule memmove_apply) (use assms(4) u in auto)
  show "memmove m b (p + word_of_nat o') n x = (if unat (x - b) < unat n then m (p + word_of_nat o' + (x - b)) else m x)"
    by (rule memmove_apply) (use assms(4) u in auto)
qed

lemma uaddr_offset: "uaddr m pt va = page_frame m pt va + word_of_nat (unat va mod 4096)"
  unfolding uaddr_def using page_offset_split [of va] by (metis add_diff_cancel_left')

text \<open>\<open>k\<close> bytes of the kernel buffer were stored at the user addresses from \<open>va\<close> on.\<close>

definition stored :: "u64 \<Rightarrow> u64 \<Rightarrow> u64 \<Rightarrow> nat \<Rightarrow> kmem \<Rightarrow> memory \<Rightarrow> bool" where
  "stored pt va b k s m \<longleftrightarrow> (\<forall>i<k. uaccess (mem s) pt (va + word_of_nat i) \<and>
        m (uaddr (mem s) pt (va + word_of_nat i)) = mem s (b + word_of_nat i)) \<and>
     (\<forall>x. (\<forall>i<k. x \<noteq> uaddr (mem s) pt (va + word_of_nat i)) \<longrightarrow> m x = mem s x)"

lemma stored_0: "stored pt va b 0 s (mem s)"
  by (simp add: stored_def)

lemma copyout_step:
  assumes us: "user_space pt U s" and len: "0 < len" and acc: "uaccess (mem s) pt va"
    and kb: "kernel_buffer pt U s b (unat len)"
  obtains m where "copyout pt va b len s =
      copyout pt (PGROUNDDOWN va + PGSIZE) (b + page_room va len) (len - page_room va len) (s\<lparr>mem := m\<rparr>)"
    and "stored pt va b (unat (page_room va len)) s m"
    and "pages_eq (- frames (mem s) pt U) (mem s) m"
proof -
  let ?n = "page_room va len" and ?p = "page_frame (mem s) pt va" and ?o = "unat va mod 4096"
  let ?a = "uaddr (mem s) pt va"
  note D = user_spaceD [OF us] and R = page_room_bounds [OF len, of va]
  have vU: "PGROUNDDOWN va \<in> U" by (rule D(3) [OF acc])
  have fr: "page_frame (mem s) pt (PGROUNDDOWN va) = ?p" by (simp add: pte_PGROUNDDOWN)
  have p: "page_aligned ?p" "?p < PHYSTOP" "?p \<noteq> 0"
    using ownsD(5) [OF D(2) vU] ka.frame_nonzero [OF pt_okD(1) [OF D(1)]] unfolding fr by (auto simp: ram_page_def)
  define m where "m = memmove (mem s) (?p + (va - PGROUNDDOWN va)) b (ucast ?n)"
  have w: "walkaddr pt (PGROUNDDOWN va) s = Ok ?p" using walkaddr_ok [OF D(1)] acc fr by simp
  have eq: "copyout pt va b len s =
      copyout pt (PGROUNDDOWN va + PGSIZE) (b + ?n) (len - ?n) (s\<lparr>mem := m\<rparr>)"
    using len w p(3) by (subst copyout.simps) (simp add: Let_def m_def)
  have ap: "m x = (if unat (x - ?a) < unat ?n then mem s (b + (x - ?a)) else mem s x)" for x
  proof -
    have "m = memmove (mem s) (?p + word_of_nat ?o) b (ucast ?n)"
      unfolding m_def using uaddr_offset [of "mem s" pt va] by (simp only: uaddr_def)
    then show ?thesis
      using page_copy_apply(1) [OF p(1,2), of ?o "ucast ?n" b "mem s" x] R(2,3) kb uaddr_offset [of "mem s" pt va]
      by (simp add: ucast_page_room kernel_buffer_def)
  qed
  have ad: "uaddr (mem s) pt (va + word_of_nat i) = ?a + word_of_nat i" if "i < unat ?n" for i
    by (rule uaddr_add) (use that R(3) in simp)
  have ac: "uaccess (mem s) pt (va + word_of_nat i)" if "i < unat ?n" for i
    using acc same_page_add [of va i] that R(3) uaccess_page [of "mem s" pt va] uaccess_page [of "mem s" pt "va + word_of_nat i"] by simp
  have un: "unat (word_of_nat i :: u64) = i" if "i < unat ?n" for i
    using that R(3) by (intro unat_word_of_nat_u64) simp
  have "stored pt va b (unat ?n) s m"
    unfolding stored_def
  proof (intro conjI allI impI)
    fix i assume i: "i < unat ?n"
    show "uaccess (mem s) pt (va + word_of_nat i)" by (rule ac [OF i])
    show "m (uaddr (mem s) pt (va + word_of_nat i)) = mem s (b + word_of_nat i)"
      using i un [OF i] by (simp add: ad [OF i] ap)
  next
    fix x assume x: "\<forall>i<unat ?n. x \<noteq> uaddr (mem s) pt (va + word_of_nat i)"
    have "\<not> unat (x - ?a) < unat ?n"
    proof
      assume l: "unat (x - ?a) < unat ?n"
      then have "x = uaddr (mem s) pt (va + word_of_nat (unat (x - ?a)))" by (subst ad [OF l]) simp
      then show False using x l by blast
    qed
    then show "m x = mem s x" by (simp add: ap)
  qed
  moreover have "pages_eq (- frames (mem s) pt U) (mem s) m"
  proof -
    have "PGROUNDDOWN x = ?p" if "unat (x - ?a) < unat ?n" for x
    proof -
      have "x = ?a + word_of_nat (unat (x - ?a))" by simp
      then have "x = uaddr (mem s) pt (va + word_of_nat (unat (x - ?a)))" by (simp only: ad [OF that])
      then show ?thesis using uaddr_page same_page_add [of va "unat (x - ?a)"] that R(3)
        by (metis (no_types, lifting) pte_PGROUNDDOWN nat_add_left_cancel_less less_le_trans)
    qed
    moreover have "?p \<in> frames (mem s) pt U" using vU fr by (metis imageI)
    ultimately show ?thesis by (auto simp: pages_eq_def ap)
  qed
  ultimately show ?thesis using that eq by blast
qed

lemma mem_upd: "mem (s\<lparr>mem := m\<rparr>) = m"
  by simp

lemma stored_append:
  assumes us: "user_space pt U s" and a: "stored pt va b k s m" and e: "pages_eq (- frames (mem s) pt U) (mem s) m"
    and c: "stored pt (va + word_of_nat k) (b + word_of_nat k) j (s\<lparr>mem := m\<rparr>) m'"
    and kb: "kernel_buffer pt U s b (k + j)" and va: "unat va + k + j \<le> 2 ^ 64"
  shows "stored pt va b (k + j) s m'"
proof -
  note W = user_space_write [OF us e] and D = user_spaceD [OF us]
  have ua: "uaddr m pt x = uaddr (mem s) pt x" "uaccess m pt x = uaccess (mem s) pt x" for x
    using W(2) by (simp_all add: uaddr_def uaccess_def)
  have bm: "m (b + word_of_nat i) = mem s (b + word_of_nat i)" if "i < k + j" for i
    using pages_eqD [OF e, of "b + word_of_nat i"] kb that by (simp add: kernel_buffer_def)
  have A: "uaccess (mem s) pt (va + word_of_nat i)" "m (uaddr (mem s) pt (va + word_of_nat i)) = mem s (b + word_of_nat i)"
    if "i < k" for i using a that by (auto simp: stored_def)
  have B: "uaccess (mem s) pt (va + word_of_nat (k + i))"
    "m' (uaddr (mem s) pt (va + word_of_nat (k + i))) = mem s (b + word_of_nat (k + i))" if "i < j" for i
    using c that bm [of "k + i"] ua by (auto simp: stored_def add.assoc)
  have C: "m' x = m x" if "\<And>i. i < j \<Longrightarrow> x \<noteq> uaddr (mem s) pt (va + word_of_nat (k + i))" for x
    using c that ua by (simp add: stored_def add.assoc)
  have keep: "m' (uaddr (mem s) pt (va + word_of_nat i)) = m (uaddr (mem s) pt (va + word_of_nat i))" if i: "i < k" for i
  proof (rule C)
    fix q assume q: "q < j"
    have "va + word_of_nat i \<noteq> va + word_of_nat (k + q)"
    proof
      assume "va + word_of_nat i = va + word_of_nat (k + q)"
      then have "word_of_nat i = (word_of_nat (k + q) :: u64)" by simp
      moreover have "i < 2 ^ 64" "k + q < 2 ^ 64" using i q va by simp_all
      ultimately show False using i unat_word_of_nat_u64 by (metis not_add_less1)
    qed
    then show "uaddr (mem s) pt (va + word_of_nat i) \<noteq> uaddr (mem s) pt (va + word_of_nat (k + q))"
      using uaddr_inj [OF D(2)] D(3) A(1) [OF i] B(1) [OF q] by blast
  qed
  show ?thesis unfolding stored_def
  proof (intro conjI allI impI)
    fix i assume i: "i < k + j"
    show "uaccess (mem s) pt (va + word_of_nat i)" using A(1) [of i] B(1) [of "i - k"] i by (cases "i < k") auto
    show "m' (uaddr (mem s) pt (va + word_of_nat i)) = mem s (b + word_of_nat i)"
      using A(2) [of i] keep [of i] B(2) [of "i - k"] i by (cases "i < k") auto
  next
    fix x assume x: "\<forall>i<k + j. x \<noteq> uaddr (mem s) pt (va + word_of_nat i)"
    then have "m' x = m x" by (intro C) (simp del: of_nat_add)
    moreover have "m x = mem s x" using a x by (simp add: stored_def)
    ultimately show "m' x = mem s x" by simp
  qed
qed

lemma kernel_buffer_mono: "kernel_buffer pt U s b n \<Longrightarrow> k \<le> n \<Longrightarrow> kernel_buffer pt U s b k"
  by (auto simp: kernel_buffer_def)

lemma kernel_buffer_rest:
  assumes "kernel_buffer pt U s b (k + j)" and us: "user_space pt U s" and e: "pages_eq (- frames (mem s) pt U) (mem s) m"
  shows "kernel_buffer pt U (s\<lparr>mem := m\<rparr>) (b + word_of_nat k) j"
proof -
  note W = user_space_write [OF us e]
  have "unat (b + word_of_nat k) = unat b + k"
    using assms(1) by (intro unat_add_of_nat_u64) (simp add: kernel_buffer_def)
  moreover have "frames m pt U = frames (mem s) pt U" using W(2) by (intro image_cong) auto
  moreover have "b + word_of_nat k + word_of_nat i = b + word_of_nat (k + i)" for i by simp
  ultimately show ?thesis using assms(1) W(3,4) unfolding kernel_buffer_def
    by (simp add: add.assoc del: of_nat_add)
qed

lemma copyout_ok:
  assumes "user_space pt U s" and "kernel_buffer pt U s b (unat len)" and "unat va + unat len \<le> 2 ^ 64"
  shows "\<exists>r m k. copyout pt va b len s = Ok (r, s\<lparr>mem := m\<rparr>) \<and> stored pt va b k s m \<and>
    pages_eq (- frames (mem s) pt U) (mem s) m \<and>
    (r = 0 \<and> k = unat len \<or> r = -1 \<and> k < unat len \<and> \<not> uaccess (mem s) pt (va + word_of_nat k))"
  using assms
proof (induction "unat len" arbitrary: va b len s rule: less_induct)
  case less
  show ?case
  proof (cases "0 < len")
    case False
    then have "len = 0" using word_gt_0 by blast
    then have "copyout pt va b len s = Ok (0, s\<lparr>mem := mem s\<rparr>)" by (subst copyout.simps) simp
    then show ?thesis using stored_0 [of pt va b s] \<open>len = 0\<close>
      by (intro exI [of _ 0] exI [of _ "mem s"]) simp
  next
    case True
    show ?thesis
    proof (cases "uaccess (mem s) pt va")
      case False
      then have "walkaddr pt (PGROUNDDOWN va) s = Ok 0" using walkaddr_ok [OF user_spaceD(1) [OF less.prems(1)]] by simp
      then have "copyout pt va b len s = Ok (-1, s\<lparr>mem := mem s\<rparr>)"
        using True by (subst copyout.simps) (simp add: Let_def)
      then show ?thesis
        using stored_0 [of pt va b s] False True pages_eq_refl
        by (intro exI [of _ "-1"] exI [of _ "mem s"] exI [of _ 0]) (simp add: word_less_nat_alt)
    next
      case acc: True
      let ?n = "page_room va len"
      note R = page_room_bounds [OF True, of va]
      obtain m where m: "copyout pt va b len s = copyout pt (PGROUNDDOWN va + PGSIZE) (b + ?n) (len - ?n) (s\<lparr>mem := m\<rparr>)"
        "stored pt va b (unat ?n) s m" "pages_eq (- frames (mem s) pt U) (mem s) m"
        using copyout_step [OF less.prems(1) True acc less.prems(2)] by blast
      show ?thesis
      proof (cases "unat ?n = unat len")
        case True
        then have "len - ?n = 0" using R(4) by (simp add: word_unat_eq_iff)
        then have "copyout pt va b len s = Ok (0, s\<lparr>mem := m\<rparr>)" unfolding m(1) by (subst copyout.simps) simp
        then show ?thesis using m(2,3) True
          by (intro exI [of _ 0] exI [of _ m] exI [of _ "unat len"]) simp
      next
        case False
        then have lt: "unat ?n < unat len" using R(2) by simp
        have l: "unat ?n + unat (len - ?n) = unat len" using R(2,4) by simp
        have va: "PGROUNDDOWN va + PGSIZE = va + word_of_nat (unat ?n)" using R(5) [OF lt] by simp
        have uv: "unat (va + word_of_nat (unat ?n)) = unat va + unat ?n"
          using less.prems(3) lt by (intro unat_add_of_nat_u64) simp
        have kb: "kernel_buffer pt U s b (unat ?n + unat (len - ?n))" using less.prems(2) l by simp
        have less_l: "unat (len - ?n) < unat len" using l R(1) by simp
        have uv': "unat (va + word_of_nat (unat ?n)) + unat (len - ?n) \<le> 2 ^ 64" using uv l less.prems(3) by simp
        obtain r m' k where IH: "copyout pt (va + word_of_nat (unat ?n)) (b + word_of_nat (unat ?n)) (len - ?n) (s\<lparr>mem := m\<rparr>) = Ok (r, s\<lparr>mem := m\<rparr>\<lparr>mem := m'\<rparr>)"
          "stored pt (va + word_of_nat (unat ?n)) (b + word_of_nat (unat ?n)) k (s\<lparr>mem := m\<rparr>) m'"
          "pages_eq (- frames m pt U) m m'"
          "r = 0 \<and> k = unat (len - ?n) \<or> r = -1 \<and> k < unat (len - ?n) \<and> \<not> uaccess m pt (va + word_of_nat (unat ?n) + word_of_nat k)"
          using less.hyps [OF less_l user_space_write(1) [OF less.prems(1) m(3)] kernel_buffer_rest [OF kb less.prems(1) m(3)] uv']
          unfolding mem_upd by blast
        have k: "k \<le> unat (len - ?n)" using IH(4) by auto
        have ff: "frames m pt U = frames (mem s) pt U"
          using user_space_write(2) [OF less.prems(1) m(3)] by (intro image_cong) auto
        have st: "stored pt va b (unat ?n + k) s m'"
        proof (rule stored_append [OF less.prems(1) m(2,3) IH(2)])
          show "kernel_buffer pt U s b (unat ?n + k)" using kb by (rule kernel_buffer_mono) (simp add: k)
        qed (use less.prems(3) k l in simp)
        have pe: "pages_eq (- frames (mem s) pt U) (mem s) m'"
          using pages_eq_trans [OF m(3) IH(3)] ff by simp
        have "uaccess m pt x = uaccess (mem s) pt x" for x
          using user_space_write(2) [OF less.prems(1) m(3)] by (simp add: uaccess_def)
        then have res: "r = 0 \<and> unat ?n + k = unat len \<or>
            r = -1 \<and> unat ?n + k < unat len \<and> \<not> uaccess (mem s) pt (va + word_of_nat (unat ?n + k))"
          using IH(4) l by (elim disjE) (simp_all add: add.assoc)
        have "copyout pt va b len s = Ok (r, s\<lparr>mem := m'\<rparr>)" using m(1) IH(1) va by simp
        then show ?thesis using st pe res
          by (intro exI [of _ r] exI [of _ m'] exI [of _ "unat ?n + k"]) simp
      qed
    qed
  qed
qed

abbreviation space_pages :: "u64 \<Rightarrow> u64 set \<Rightarrow> kmem \<Rightarrow> u64 set" where
  "space_pages pt U s \<equiv> frames (mem s) pt U \<union> tables (mem s) 2 pt \<union> avail s"

text \<open>Writing a kernel buffer keeps the address space and every user byte.\<close>

lemma user_space_kernel:
  assumes us: "user_space pt U s" and e: "pages_eq (space_pages pt U s) (mem s) m"
  shows "user_space pt U (s\<lparr>mem := m\<rparr>)" and "pte m pt va = pte (mem s) pt va"
    and "space_pages pt U (s\<lparr>mem := m\<rparr>) = space_pages pt U s"
    and "uaccess (mem s) pt va \<Longrightarrow> m (uaddr (mem s) pt va) = mem s (uaddr (mem s) pt va)"
proof -
  note D = user_spaceD [OF us] and P = pt_okD [OF user_spaceD(1) [OF us]]
  note F = table_frame [OF P(2) e]
  have F: "tables m 2 pt = tables (mem s) 2 pt" "pt_wf m 2 pt" "\<And>va. pte m pt va = pte (mem s) pt va"
    using table_frame [OF P(2) e] by auto
  show "pte m pt va = pte (mem s) pt va" by (rule F(3))
  have K: "kmem_ok (s\<lparr>mem := m\<rparr>)" "avail (s\<lparr>mem := m\<rparr>) = avail s"
    using kmem_ok_mem [OF P(1) e] by auto
  have fr: "frames m pt U = frames (mem s) pt U" using F(3) by (intro image_cong) auto
  show "space_pages pt U (s\<lparr>mem := m\<rparr>) = space_pages pt U s" using F(1) K(2) fr by simp
  have "pt_ok 2 pt (s\<lparr>mem := m\<rparr>)" using D(1) F K unfolding pt_ok_def by simp
  moreover have "owns pt U (s\<lparr>mem := m\<rparr>)"
    by (rule owns_transfer [OF D(2)]) (use F K ownsD(6,7) [OF D(2)] in auto)
  moreover have "uaccess m pt va = uaccess (mem s) pt va" for va using F(3) by (simp add: uaccess_def)
  ultimately show "user_space pt U (s\<lparr>mem := m\<rparr>)" using D(3) by (simp add: user_space_def)
  show "m (uaddr (mem s) pt va) = mem s (uaddr (mem s) pt va)" if "uaccess (mem s) pt va"
  proof -
    have "page_frame (mem s) pt (PGROUNDDOWN va) \<in> frames (mem s) pt U" using D(3) [OF that] by blast
    then show ?thesis
      using pages_eqD [OF e, of "uaddr (mem s) pt va"] by (simp add: uaddr_page pte_PGROUNDDOWN)
  qed
qed

lemma kernel_buffer_pages:
  "kernel_buffer pt U s b n \<longleftrightarrow> unat b + n < 2 ^ 64 \<and> (\<forall>i<n. PGROUNDDOWN (b + word_of_nat i) \<notin> space_pages pt U s)"
  by (simp add: kernel_buffer_def)

definition loaded :: "u64 \<Rightarrow> u64 \<Rightarrow> u64 \<Rightarrow> nat \<Rightarrow> kmem \<Rightarrow> memory \<Rightarrow> bool" where
  "loaded pt b va k s m \<longleftrightarrow> (\<forall>i<k. uaccess (mem s) pt (va + word_of_nat i) \<and>
        m (b + word_of_nat i) = mem s (uaddr (mem s) pt (va + word_of_nat i))) \<and>
     (\<forall>x. (\<forall>i<k. x \<noteq> b + word_of_nat i) \<longrightarrow> m x = mem s x)"

lemma loaded_0: "loaded pt b va 0 s (mem s)"
  by (simp add: loaded_def)

lemma loaded_pages:
  assumes "loaded pt b va k s m" and "kernel_buffer pt U s b k"
  shows "pages_eq (space_pages pt U s) (mem s) m"
  using assms unfolding pages_eq_def loaded_def kernel_buffer_pages by metis

lemma copyin_step:
  assumes us: "user_space pt U s" and len: "0 < len" and acc: "uaccess (mem s) pt va"
    and kb: "kernel_buffer pt U s b (unat len)"
  obtains m where "copyin pt b va len s =
      copyin pt (b + page_room va len) (PGROUNDDOWN va + PGSIZE) (len - page_room va len) (s\<lparr>mem := m\<rparr>)"
    and "loaded pt b va (unat (page_room va len)) s m"
proof -
  let ?n = "page_room va len" and ?p = "page_frame (mem s) pt va" and ?o = "unat va mod 4096"
  let ?a = "uaddr (mem s) pt va"
  note D = user_spaceD [OF us] and R = page_room_bounds [OF len, of va]
  have vU: "PGROUNDDOWN va \<in> U" by (rule D(3) [OF acc])
  have fr: "page_frame (mem s) pt (PGROUNDDOWN va) = ?p" by (simp add: pte_PGROUNDDOWN)
  have p: "page_aligned ?p" "?p < PHYSTOP" "?p \<noteq> 0"
    using ownsD(5) [OF D(2) vU] ka.frame_nonzero [OF pt_okD(1) [OF D(1)]] unfolding fr by (auto simp: ram_page_def)
  define m where "m = memmove (mem s) b (?p + (va - PGROUNDDOWN va)) (ucast ?n)"
  have w: "walkaddr pt (PGROUNDDOWN va) s = Ok ?p" using walkaddr_ok [OF D(1)] acc fr by simp
  have eq: "copyin pt b va len s = copyin pt (b + ?n) (PGROUNDDOWN va + PGSIZE) (len - ?n) (s\<lparr>mem := m\<rparr>)"
    using len w p(3) by (subst copyin.simps) (simp add: Let_def m_def)
  have ap: "m x = (if unat (x - b) < unat ?n then mem s (?a + (x - b)) else mem s x)" for x
  proof -
    have "m = memmove (mem s) b (?p + word_of_nat ?o) (ucast ?n)"
      unfolding m_def using uaddr_offset [of "mem s" pt va] by (simp only: uaddr_def)
    then show ?thesis
      using page_copy_apply(2) [OF p(1,2), of ?o "ucast ?n" b "mem s" x] R(2,3) kb uaddr_offset [of "mem s" pt va]
      by (simp add: ucast_page_room kernel_buffer_def)
  qed
  have ad: "uaddr (mem s) pt (va + word_of_nat i) = ?a + word_of_nat i" if "i < unat ?n" for i
    by (rule uaddr_add) (use that R(3) in simp)
  have ac: "uaccess (mem s) pt (va + word_of_nat i)" if "i < unat ?n" for i
    using acc same_page_add [of va i] that R(3) uaccess_page [of "mem s" pt va] uaccess_page [of "mem s" pt "va + word_of_nat i"] by simp
  have un: "unat (word_of_nat i :: u64) = i" if "i < unat ?n" for i
    using that R(3) by (intro unat_word_of_nat_u64) simp
  have "loaded pt b va (unat ?n) s m"
    unfolding loaded_def
  proof (intro conjI allI impI)
    fix i assume i: "i < unat ?n"
    show "uaccess (mem s) pt (va + word_of_nat i)" by (rule ac [OF i])
    show "m (b + word_of_nat i) = mem s (uaddr (mem s) pt (va + word_of_nat i))"
      using i un [OF i] by (simp add: ad [OF i] ap)
  next
    fix x assume x: "\<forall>i<unat ?n. x \<noteq> b + word_of_nat i"
    have "\<not> unat (x - b) < unat ?n"
    proof
      assume l: "unat (x - b) < unat ?n"
      have "x = b + word_of_nat (unat (x - b))" by simp
      then show False using x l by blast
    qed
    then show "m x = mem s x" by (simp add: ap)
  qed
  then show ?thesis using that eq by blast
qed

lemma loaded_append:
  assumes us: "user_space pt U s" and a: "loaded pt b va k s m"
    and c: "loaded pt (b + word_of_nat k) (va + word_of_nat k) j (s\<lparr>mem := m\<rparr>) m'"
    and kb: "kernel_buffer pt U s b (k + j)"
  shows "loaded pt b va (k + j) s m'"
proof -
  have kb': "kernel_buffer pt U s b k" by (rule kernel_buffer_mono [OF kb]) simp
  note W = user_space_kernel [OF us loaded_pages [OF a kb']]
  have ua: "uaddr m pt x = uaddr (mem s) pt x" "uaccess m pt x = uaccess (mem s) pt x" for x
    using W(2) by (simp_all add: uaddr_def uaccess_def)
  have A: "uaccess (mem s) pt (va + word_of_nat i)" "m (b + word_of_nat i) = mem s (uaddr (mem s) pt (va + word_of_nat i))"
    if "i < k" for i using a that by (auto simp: loaded_def)
  have B: "uaccess (mem s) pt (va + word_of_nat (k + i))"
    "m' (b + word_of_nat (k + i)) = mem s (uaddr (mem s) pt (va + word_of_nat (k + i)))" if "i < j" for i
    using c that W(4) [of "va + word_of_nat (k + i)"] ua by (auto simp: loaded_def add.assoc)
  have C: "m' x = m x" if "\<And>i. i < j \<Longrightarrow> x \<noteq> b + word_of_nat (k + i)" for x
    using c that by (simp add: loaded_def add.assoc)
  have keep: "m' (b + word_of_nat i) = m (b + word_of_nat i)" if i: "i < k" for i
  proof (rule C)
    fix q assume q: "q < j"
    have "unat (b + word_of_nat i) = unat b + i" "unat (b + word_of_nat (k + q)) = unat b + (k + q)"
      using kb i q by (auto simp: kernel_buffer_def simp del: of_nat_add intro!: unat_add_of_nat_u64)
    then show "b + word_of_nat i \<noteq> b + word_of_nat (k + q)" using i by (metis add_left_cancel not_add_less1)
  qed
  show ?thesis unfolding loaded_def
  proof (intro conjI allI impI)
    fix i assume i: "i < k + j"
    show "uaccess (mem s) pt (va + word_of_nat i)" using A(1) [of i] B(1) [of "i - k"] i by (cases "i < k") auto
    show "m' (b + word_of_nat i) = mem s (uaddr (mem s) pt (va + word_of_nat i))"
      using A(2) [of i] keep [of i] B(2) [of "i - k"] i by (cases "i < k") auto
  next
    fix x assume x: "\<forall>i<k + j. x \<noteq> b + word_of_nat i"
    then have "m' x = m x" by (intro C) (simp del: of_nat_add)
    moreover have "m x = mem s x" using a x by (simp add: loaded_def)
    ultimately show "m' x = mem s x" by simp
  qed
qed

lemma kernel_buffer_next:
  assumes "kernel_buffer pt U s b (k + j)" and us: "user_space pt U s" and l: "loaded pt b va k s m"
  shows "user_space pt U (s\<lparr>mem := m\<rparr>)" and "kernel_buffer pt U (s\<lparr>mem := m\<rparr>) (b + word_of_nat k) j"
    and "uaccess m pt x = uaccess (mem s) pt x" and "uaddr m pt x = uaddr (mem s) pt x"
    and "uaccess (mem s) pt x \<Longrightarrow> m (uaddr (mem s) pt x) = mem s (uaddr (mem s) pt x)"
proof -
  have kb': "kernel_buffer pt U s b k" by (rule kernel_buffer_mono [OF assms(1)]) simp
  note W = user_space_kernel [OF us loaded_pages [OF l kb']]
  show "user_space pt U (s\<lparr>mem := m\<rparr>)" by (rule W(1))
  show "uaccess m pt x = uaccess (mem s) pt x" "uaddr m pt x = uaddr (mem s) pt x"
    using W(2) by (simp_all add: uaccess_def uaddr_def)
  show "m (uaddr (mem s) pt x) = mem s (uaddr (mem s) pt x)" if "uaccess (mem s) pt x" by (rule W(4) [OF that])
  have "unat (b + word_of_nat k) = unat b + k"
    using assms(1) by (intro unat_add_of_nat_u64) (simp add: kernel_buffer_def)
  moreover have "b + word_of_nat k + word_of_nat i = b + word_of_nat (k + i)" for i by simp
  ultimately show "kernel_buffer pt U (s\<lparr>mem := m\<rparr>) (b + word_of_nat k) j"
    using assms(1) unfolding kernel_buffer_pages W(3) by (simp add: add.assoc del: of_nat_add)
qed

lemma copyin_ok:
  assumes "user_space pt U s" and "kernel_buffer pt U s b (unat len)" and "unat va + unat len \<le> 2 ^ 64"
  shows "\<exists>r m k. copyin pt b va len s = Ok (r, s\<lparr>mem := m\<rparr>) \<and> loaded pt b va k s m \<and>
    (r = 0 \<and> k = unat len \<or> r = -1 \<and> k < unat len \<and> \<not> uaccess (mem s) pt (va + word_of_nat k))"
  using assms
proof (induction "unat len" arbitrary: va b len s rule: less_induct)
  case less
  show ?case
  proof (cases "0 < len")
    case False
    then have "len = 0" using word_gt_0 by blast
    then have "copyin pt b va len s = Ok (0, s\<lparr>mem := mem s\<rparr>)" by (subst copyin.simps) simp
    then show ?thesis using loaded_0 [of pt b va s] \<open>len = 0\<close>
      by (intro exI [of _ 0] exI [of _ "mem s"]) simp
  next
    case True
    show ?thesis
    proof (cases "uaccess (mem s) pt va")
      case False
      then have "walkaddr pt (PGROUNDDOWN va) s = Ok 0" using walkaddr_ok [OF user_spaceD(1) [OF less.prems(1)]] by simp
      then have "copyin pt b va len s = Ok (-1, s\<lparr>mem := mem s\<rparr>)"
        using True by (subst copyin.simps) (simp add: Let_def)
      then show ?thesis
        using loaded_0 [of pt b va s] False True
        by (intro exI [of _ "-1"] exI [of _ "mem s"] exI [of _ 0]) (simp add: word_less_nat_alt)
    next
      case acc: True
      let ?n = "page_room va len"
      note R = page_room_bounds [OF True, of va]
      obtain m where m: "copyin pt b va len s = copyin pt (b + ?n) (PGROUNDDOWN va + PGSIZE) (len - ?n) (s\<lparr>mem := m\<rparr>)"
        "loaded pt b va (unat ?n) s m"
        using copyin_step [OF less.prems(1) True acc less.prems(2)] by blast
      show ?thesis
      proof (cases "unat ?n = unat len")
        case True
        then have "len - ?n = 0" using R(4) by (simp add: word_unat_eq_iff)
        then have "copyin pt b va len s = Ok (0, s\<lparr>mem := m\<rparr>)" unfolding m(1) by (subst copyin.simps) simp
        then show ?thesis using m(2) True
          by (intro exI [of _ 0] exI [of _ m] exI [of _ "unat len"]) simp
      next
        case False
        then have lt: "unat ?n < unat len" using R(2) by simp
        have l: "unat ?n + unat (len - ?n) = unat len" using R(2,4) by simp
        have va: "PGROUNDDOWN va + PGSIZE = va + word_of_nat (unat ?n)" using R(5) [OF lt] by simp
        have uv: "unat (va + word_of_nat (unat ?n)) = unat va + unat ?n"
          using less.prems(3) lt by (intro unat_add_of_nat_u64) simp
        have kb: "kernel_buffer pt U s b (unat ?n + unat (len - ?n))" using less.prems(2) l by simp
        note N = kernel_buffer_next [OF kb less.prems(1) m(2)]
        have less_l: "unat (len - ?n) < unat len" using l R(1) by simp
        have uv': "unat (va + word_of_nat (unat ?n)) + unat (len - ?n) \<le> 2 ^ 64" using uv l less.prems(3) by simp
        obtain r m' k where IH: "copyin pt (b + word_of_nat (unat ?n)) (va + word_of_nat (unat ?n)) (len - ?n) (s\<lparr>mem := m\<rparr>) = Ok (r, s\<lparr>mem := m\<rparr>\<lparr>mem := m'\<rparr>)"
          "loaded pt (b + word_of_nat (unat ?n)) (va + word_of_nat (unat ?n)) k (s\<lparr>mem := m\<rparr>) m'"
          "r = 0 \<and> k = unat (len - ?n) \<or> r = -1 \<and> k < unat (len - ?n) \<and> \<not> uaccess m pt (va + word_of_nat (unat ?n) + word_of_nat k)"
          using less.hyps [OF less_l N(1,2) uv'] unfolding mem_upd by blast
        have k: "k \<le> unat (len - ?n)" using IH(3) by auto
        have st: "loaded pt b va (unat ?n + k) s m'"
          by (rule loaded_append [OF less.prems(1) m(2) IH(2)], rule kernel_buffer_mono [OF kb]) (simp add: k)
        have res: "r = 0 \<and> unat ?n + k = unat len \<or>
            r = -1 \<and> unat ?n + k < unat len \<and> \<not> uaccess (mem s) pt (va + word_of_nat (unat ?n + k))"
          using IH(3) l unfolding N(3) by (elim disjE) (simp_all add: add.assoc)
        have "copyin pt b va len s = Ok (r, s\<lparr>mem := m'\<rparr>)" using m(1) IH(1) va by simp
        then show ?thesis using st res
          by (intro exI [of _ r] exI [of _ m'] exI [of _ "unat ?n + k"]) simp
      qed
    qed
  qed
qed

section \<open>Copying strings from user memory\<close>

lemma copyinstr_page_ok:
  assumes "\<forall>i<n. \<forall>j<n. dst + word_of_nat j \<noteq> p + word_of_nat i" and "n < 2 ^ 64"
  shows "\<exists>j\<le>n. (\<forall>i<j. m (p + word_of_nat i) \<noteq> 0) \<and> (j < n \<longrightarrow> m (p + word_of_nat j) = 0) \<and>
    (\<exists>m'. copyinstr_page n p dst mx m = (j < n, m', dst + word_of_nat j, mx - word_of_nat j) \<and>
      (\<forall>x. m' x = (if unat (x - dst) < (if j < n then j + 1 else n) then m (p + (x - dst)) else m x)))"
  using assms
proof (induction n arbitrary: p dst mx m)
  case 0
  then show ?case by simp
next
  case (Suc n)
  show ?case
  proof (cases "m p = 0")
    case True
    have "(m(dst := 0)) x = (if unat (x - dst) < 1 then m (p + (x - dst)) else m x)" for x
      using True by (auto simp: unat_eq_0)
    then show ?thesis using True by (intro exI [of _ 0]) auto
  next
    case False
    have sh: "p + 1 + word_of_nat i = p + word_of_nat (Suc i)" "dst + 1 + word_of_nat i = dst + word_of_nat (Suc i)" for i
      by simp_all
    have dj: "\<forall>i<n. \<forall>j<n. dst + 1 + word_of_nat j \<noteq> p + 1 + word_of_nat i"
      using Suc.prems(1) unfolding sh by (simp del: of_nat_Suc)
    let ?m1 = "m(dst := m p)"
    obtain j m' where J: "j \<le> n" "\<forall>i<j. ?m1 (p + 1 + word_of_nat i) \<noteq> 0" "j < n \<longrightarrow> ?m1 (p + 1 + word_of_nat j) = 0"
      "copyinstr_page n (p + 1) (dst + 1) (mx - 1) ?m1 = (j < n, m', dst + 1 + word_of_nat j, mx - 1 - word_of_nat j)"
      "\<And>x. m' x = (if unat (x - (dst + 1)) < (if j < n then j + 1 else n) then ?m1 (p + 1 + (x - (dst + 1))) else ?m1 x)"
      using Suc.IH [OF dj Suc_lessD [OF Suc.prems(2)], of ?m1 "mx - 1"] by blast
    have pd: "dst \<noteq> p + word_of_nat i" if "i < Suc n" for i
      using Suc.prems(1) [rule_format, of i 0] that by simp
    have m1: "?m1 (p + word_of_nat i) = m (p + word_of_nat i)" if "i < Suc n" for i
      using pd [OF that] by auto
    have nz: "\<forall>i<Suc j. m (p + word_of_nat i) \<noteq> 0"
    proof (intro allI impI)
      fix i assume "i < Suc j"
      then show "m (p + word_of_nat i) \<noteq> 0"
        using J(1,2) False m1 [of i] unfolding sh by (cases i) (auto simp del: of_nat_Suc)
    qed
    have z: "Suc j < Suc n \<longrightarrow> m (p + word_of_nat (Suc j)) = 0"
      using J(3) m1 [of "Suc j"] unfolding sh by (simp del: of_nat_Suc)
    let ?K = "if j < n then j + 1 else n"
    have eq: "m' x = (if unat (x - dst) < (if Suc j < Suc n then Suc j + 1 else Suc n) then m (p + (x - dst)) else m x)" for x
    proof (cases "x = dst")
      case True
      have "unat (x - (dst + 1)) = 2 ^ 64 - 1" using True by (simp add: unsigned_minus_1_eq_mask mask_eq_exp_minus_1)
      then have "m' x = m p" using J(1) J(5) [of x] Suc.prems(2) True by auto
      then show ?thesis using True by simp
    next
      case ne: False
      then have nz: "x - dst \<noteq> 0" by simp
      moreover have "unat (x - dst - 1) = unat (x - dst) - 1" by (rule unat_minus_one [OF nz])
      moreover have "0 < unat (x - dst)" using nz unat_gt_0 by blast
      moreover have "x - (dst + 1) = x - dst - 1" by simp
      ultimately have u: "unat (x - dst) = Suc (unat (x - (dst + 1)))" by (simp only: Suc_diff_1)
      have "p + 1 + (x - (dst + 1)) = p + (x - dst)" by simp
      moreover have "?m1 x = m x" using ne by simp
      ultimately have J5: "m' x = (if unat (x - (dst + 1)) < ?K then ?m1 (p + (x - dst)) else m x)"
        using J(5) [of x] by (simp only:)
      have "?m1 (p + (x - dst)) = m (p + (x - dst))" if "unat (x - dst) < Suc n"
        using m1 [OF that] by (simp only: of_nat_unat ucast_id)
      then show ?thesis unfolding J5 using u J(1) by (simp del: fun_upd_apply)
    qed
    have "copyinstr_page (Suc n) p dst mx m = (Suc j < Suc n, m', dst + word_of_nat (Suc j), mx - word_of_nat (Suc j))"
      using False J(4) by (simp add: algebra_simps)
    then have "\<exists>m'. copyinstr_page (Suc n) p dst mx m = (Suc j < Suc n, m', dst + word_of_nat (Suc j), mx - word_of_nat (Suc j)) \<and>
        (\<forall>x. m' x = (if unat (x - dst) < (if Suc j < Suc n then Suc j + 1 else Suc n) then m (p + (x - dst)) else m x))"
      using eq by blast
    moreover have "Suc j \<le> Suc n" using J(1) by simp
    ultimately show ?thesis using nz z by blast
  qed
qed

abbreviation ubyte :: "memory \<Rightarrow> u64 \<Rightarrow> u64 \<Rightarrow> u8" where
  "ubyte m pt va \<equiv> m (uaddr m pt va)"

text \<open>One page of \<^verbatim>\<open>copyinstr\<close>: it loads the user bytes up to a NUL or to the end of the page.\<close>

lemma copyinstr_step:
  assumes us: "user_space pt U s" and mx: "0 < mx" and acc: "uaccess (mem s) pt va"
    and kb: "kernel_buffer pt U s b (unat mx)"
  obtains (found) j m where "copyinstr pt b va mx s = Ok (0, s\<lparr>mem := m\<rparr>)" and "Suc j \<le> unat mx"
      and "loaded pt b va (Suc j) s m" and "\<forall>i<j. ubyte (mem s) pt (va + word_of_nat i) \<noteq> 0"
      and "ubyte (mem s) pt (va + word_of_nat j) = 0"
  | (more) m where "copyinstr pt b va mx s =
        copyinstr pt (b + page_room va mx) (PGROUNDDOWN va + PGSIZE) (mx - page_room va mx) (s\<lparr>mem := m\<rparr>)"
      and "loaded pt b va (unat (page_room va mx)) s m"
      and "\<forall>i<unat (page_room va mx). ubyte (mem s) pt (va + word_of_nat i) \<noteq> 0"
proof -
  let ?n = "page_room va mx" and ?p = "page_frame (mem s) pt va"
  let ?a = "uaddr (mem s) pt va"
  note D = user_spaceD [OF us] and R = page_room_bounds [OF mx, of va]
  have vU: "PGROUNDDOWN va \<in> U" by (rule D(3) [OF acc])
  have fr: "page_frame (mem s) pt (PGROUNDDOWN va) = ?p" by (simp add: pte_PGROUNDDOWN)
  have p: "?p \<noteq> 0"
    using ownsD(5) [OF D(2) vU] ka.frame_nonzero [OF pt_okD(1) [OF D(1)]] unfolding fr by blast
  have w: "walkaddr pt (PGROUNDDOWN va) s = Ok ?p" using walkaddr_ok [OF D(1)] acc fr by simp
  have ad: "uaddr (mem s) pt (va + word_of_nat i) = ?a + word_of_nat i" if "i < unat ?n" for i
    by (rule uaddr_add) (use that R(3) in simp)
  have ac: "uaccess (mem s) pt (va + word_of_nat i)" if "i < unat ?n" for i
    using acc same_page_add [of va i] that R(3) uaccess_page [of "mem s" pt va] uaccess_page [of "mem s" pt "va + word_of_nat i"] by simp
  have dj: "\<forall>i<unat ?n. \<forall>j<unat ?n. b + word_of_nat j \<noteq> ?a + word_of_nat i"
  proof (intro allI impI notI)
    fix i j assume i: "i < unat ?n" and j: "j < unat ?n" and eq: "b + word_of_nat j = ?a + word_of_nat i"
    have "PGROUNDDOWN (b + word_of_nat j) \<in> frames (mem s) pt U"
      unfolding eq ad [OF i, symmetric] uaddr_page
      using D(3) [OF ac [OF i]] pte_PGROUNDDOWN [of "mem s" 2 pt "va + word_of_nat i"] by (metis imageI)
    then show False using kb j R(2) by (simp add: kernel_buffer_def)
  qed
  obtain j m where J: "j \<le> unat ?n" "\<forall>i<j. mem s (?a + word_of_nat i) \<noteq> 0" "j < unat ?n \<longrightarrow> mem s (?a + word_of_nat j) = 0"
    "copyinstr_page (unat ?n) ?a b mx (mem s) = (j < unat ?n, m, b + word_of_nat j, mx - word_of_nat j)"
    "\<And>x. m x = (if unat (x - b) < (if j < unat ?n then j + 1 else unat ?n) then mem s (?a + (x - b)) else mem s x)"
    using copyinstr_page_ok [OF dj unat_u64_less] by blast
  have unf: "copyinstr pt b va mx s = (if j < unat ?n then Ok (0, s\<lparr>mem := m\<rparr>)
      else copyinstr pt (b + word_of_nat j) (PGROUNDDOWN va + PGSIZE) (mx - word_of_nat j) (s\<lparr>mem := m\<rparr>))"
    using mx w p J(4) by (subst copyinstr.simps) (simp add: Let_def uaddr_def)
  have ld: "loaded pt b va K s m" if K: "K = (if j < unat ?n then Suc j else unat ?n)" for K
    unfolding loaded_def
  proof (intro conjI allI impI)
    have Kn: "K \<le> unat ?n" using K J(1) by auto
    fix i assume i: "i < K"
    then have "i < unat ?n" "unat (word_of_nat i :: u64) = i" using Kn R(3) by (auto intro!: unat_word_of_nat_u64)
    then show "uaccess (mem s) pt (va + word_of_nat i)"
      "m (b + word_of_nat i) = ubyte (mem s) pt (va + word_of_nat i)"
      using i K ac ad J(5) [of "b + word_of_nat i"] by auto
  next
    fix x assume x: "\<forall>i<K. x \<noteq> b + word_of_nat i"
    have "x = b + word_of_nat (unat (x - b))" by simp
    then have "\<not> unat (x - b) < K" using x by metis
    then show "m x = mem s x" using J(5) [of x] K by auto
  qed
  show ?thesis
  proof (cases "j < unat ?n")
    case True
    show ?thesis
    proof (rule found)
      show "copyinstr pt b va mx s = Ok (0, s\<lparr>mem := m\<rparr>)" using unf True by simp
      show "Suc j \<le> unat mx" using True R(2) by simp
      show "loaded pt b va (Suc j) s m" using ld True by simp
      show "\<forall>i<j. ubyte (mem s) pt (va + word_of_nat i) \<noteq> 0" using J(2) ad True by simp
      show "ubyte (mem s) pt (va + word_of_nat j) = 0" using J(3) ad True by simp
    qed
  next
    case False
    then have j: "j = unat ?n" using J(1) by simp
    show ?thesis
    proof (rule more)
      show "copyinstr pt b va mx s = copyinstr pt (b + ?n) (PGROUNDDOWN va + PGSIZE) (mx - ?n) (s\<lparr>mem := m\<rparr>)"
        using unf j by simp
      show "loaded pt b va (unat ?n) s m" using ld False by simp
      show "\<forall>i<unat ?n. ubyte (mem s) pt (va + word_of_nat i) \<noteq> 0" using J(2) ad j by simp
    qed
  qed
qed

text \<open>
  \<^verbatim>\<open>copyinstr\<close> returns 0 with the whole string, terminating NUL included, or -1 when no NUL was found in
  \<open>mx\<close> bytes or an inaccessible page was reached first.
\<close>

lemma copyinstr_ok:
  assumes "user_space pt U s" and "kernel_buffer pt U s b (unat mx)" and "unat va + unat mx \<le> 2 ^ 64"
  shows "\<exists>r m k. copyinstr pt b va mx s = Ok (r, s\<lparr>mem := m\<rparr>) \<and> k \<le> unat mx \<and> loaded pt b va k s m \<and>
    (r = 0 \<and> (\<exists>j. k = Suc j \<and> (\<forall>i<j. ubyte (mem s) pt (va + word_of_nat i) \<noteq> 0) \<and> ubyte (mem s) pt (va + word_of_nat j) = 0) \<or>
     r = -1 \<and> (\<forall>i<k. ubyte (mem s) pt (va + word_of_nat i) \<noteq> 0) \<and>
       (k < unat mx \<longrightarrow> \<not> uaccess (mem s) pt (va + word_of_nat k)))"
  using assms
proof (induction "unat mx" arbitrary: va b mx s rule: less_induct)
  case less
  show ?case
  proof (cases "0 < mx")
    case False
    then have "mx = 0" using word_gt_0 by blast
    then have "copyinstr pt b va mx s = Ok (-1, s\<lparr>mem := mem s\<rparr>)" by (subst copyinstr.simps) simp
    then show ?thesis using loaded_0 [of pt b va s] \<open>mx = 0\<close>
      by (intro exI [of _ "-1"] exI [of _ "mem s"] exI [of _ 0]) simp
  next
    case True
    show ?thesis
    proof (cases "uaccess (mem s) pt va")
      case False
      then have "walkaddr pt (PGROUNDDOWN va) s = Ok 0" using walkaddr_ok [OF user_spaceD(1) [OF less.prems(1)]] by simp
      then have "copyinstr pt b va mx s = Ok (-1, s\<lparr>mem := mem s\<rparr>)"
        using True by (subst copyinstr.simps) (simp add: Let_def)
      then show ?thesis
        using loaded_0 [of pt b va s] False
        by (intro exI [of _ "-1"] exI [of _ "mem s"] exI [of _ 0]) simp
    next
      case acc: True
      let ?n = "page_room va mx"
      note R = page_room_bounds [OF True, of va]
      show ?thesis
      proof (rule copyinstr_step [OF less.prems(1) True acc less.prems(2)])
        fix j m
        assume "copyinstr pt b va mx s = Ok (0, s\<lparr>mem := m\<rparr>)" "Suc j \<le> unat mx"
          "loaded pt b va (Suc j) s m" "\<forall>i<j. ubyte (mem s) pt (va + word_of_nat i) \<noteq> 0"
          "ubyte (mem s) pt (va + word_of_nat j) = 0"
        then show ?thesis by (intro exI [of _ 0] exI [of _ m] exI [of _ "Suc j"]) simp
      next
        fix m
        assume m: "copyinstr pt b va mx s = copyinstr pt (b + ?n) (PGROUNDDOWN va + PGSIZE) (mx - ?n) (s\<lparr>mem := m\<rparr>)"
          "loaded pt b va (unat ?n) s m" "\<forall>i<unat ?n. ubyte (mem s) pt (va + word_of_nat i) \<noteq> 0"
        show ?thesis
        proof (cases "unat ?n = unat mx")
          case True
          then have "mx - ?n = 0" using R(4) by (simp add: word_unat_eq_iff)
          then have "copyinstr pt b va mx s = Ok (-1, s\<lparr>mem := m\<rparr>)" unfolding m(1) by (subst copyinstr.simps) simp
          then show ?thesis using m(2,3) True
            by (intro exI [of _ "-1"] exI [of _ m] exI [of _ "unat mx"]) simp
        next
          case False
          then have lt: "unat ?n < unat mx" using R(2) by simp
          have l: "unat ?n + unat (mx - ?n) = unat mx" using R(2,4) by simp
          have va: "PGROUNDDOWN va + PGSIZE = va + word_of_nat (unat ?n)" using R(5) [OF lt] by simp
          have uv: "unat (va + word_of_nat (unat ?n)) = unat va + unat ?n"
            using less.prems(3) lt by (intro unat_add_of_nat_u64) simp
          have kb: "kernel_buffer pt U s b (unat ?n + unat (mx - ?n))" using less.prems(2) l by simp
          note N = kernel_buffer_next [OF kb less.prems(1) m(2)]
          have less_l: "unat (mx - ?n) < unat mx" using l R(1) by simp
          have uv': "unat (va + word_of_nat (unat ?n)) + unat (mx - ?n) \<le> 2 ^ 64" using uv l less.prems(3) by simp
          obtain r m' k where IH: "copyinstr pt (b + word_of_nat (unat ?n)) (va + word_of_nat (unat ?n)) (mx - ?n) (s\<lparr>mem := m\<rparr>) = Ok (r, s\<lparr>mem := m\<rparr>\<lparr>mem := m'\<rparr>)"
            "k \<le> unat (mx - ?n)"
            "loaded pt (b + word_of_nat (unat ?n)) (va + word_of_nat (unat ?n)) k (s\<lparr>mem := m\<rparr>) m'"
            "r = 0 \<and> (\<exists>j. k = Suc j \<and> (\<forall>i<j. ubyte m pt (va + word_of_nat (unat ?n) + word_of_nat i) \<noteq> 0) \<and> ubyte m pt (va + word_of_nat (unat ?n) + word_of_nat j) = 0) \<or>
             r = -1 \<and> (\<forall>i<k. ubyte m pt (va + word_of_nat (unat ?n) + word_of_nat i) \<noteq> 0) \<and>
               (k < unat (mx - ?n) \<longrightarrow> \<not> uaccess m pt (va + word_of_nat (unat ?n) + word_of_nat k))"
            using less.hyps [OF less_l N(1,2) uv'] unfolding mem_upd by blast
          have st: "loaded pt b va (unat ?n + k) s m'"
            by (rule loaded_append [OF less.prems(1) m(2) IH(3)], rule kernel_buffer_mono [OF kb]) (simp add: IH(2))
          have ub: "ubyte m pt (va + word_of_nat (unat ?n) + word_of_nat i) = ubyte (mem s) pt (va + word_of_nat (unat ?n + i))"
            if "i < k" for i
          proof -
            have "uaccess (mem s) pt (va + word_of_nat (unat ?n + i))" using st that by (simp add: loaded_def del: of_nat_add)
            from N(5) [OF this] show ?thesis using N(4) by (simp add: add.assoc)
          qed
          have nz: "\<forall>i<unat ?n + j. ubyte (mem s) pt (va + word_of_nat i) \<noteq> 0"
            if j: "j \<le> k" "\<forall>i<j. ubyte m pt (va + word_of_nat (unat ?n) + word_of_nat i) \<noteq> 0" for j
          proof (intro allI impI)
            fix i assume i: "i < unat ?n + j"
            show "ubyte (mem s) pt (va + word_of_nat i) \<noteq> 0"
            proof (cases "i < unat ?n")
              case False
              then obtain q where q: "i = unat ?n + q" using le_Suc_ex not_less by blast
              then have "q < j" "q < k" using i j(1) by auto
              then show ?thesis using ub [of q] j(2) q by metis
            qed (use m(3) in simp)
          qed
          have "copyinstr pt b va mx s = Ok (r, s\<lparr>mem := m'\<rparr>)" using m(1) IH(1) va by simp
          moreover have "unat ?n + k \<le> unat mx" using IH(2) l by simp
          moreover have "r = 0 \<and> (\<exists>j. unat ?n + k = Suc j \<and> (\<forall>i<j. ubyte (mem s) pt (va + word_of_nat i) \<noteq> 0) \<and> ubyte (mem s) pt (va + word_of_nat j) = 0) \<or>
             r = -1 \<and> (\<forall>i<unat ?n + k. ubyte (mem s) pt (va + word_of_nat i) \<noteq> 0) \<and>
               (unat ?n + k < unat mx \<longrightarrow> \<not> uaccess (mem s) pt (va + word_of_nat (unat ?n + k)))"
            using IH(4)
          proof (elim disjE conjE exE)
            fix j assume "r = 0" "k = Suc j" "\<forall>i<j. ubyte m pt (va + word_of_nat (unat ?n) + word_of_nat i) \<noteq> 0"
              "ubyte m pt (va + word_of_nat (unat ?n) + word_of_nat j) = 0"
            then show ?thesis using ub [of j] nz [of j] by (intro disjI1 conjI exI [of _ "unat ?n + j"]) (simp_all del: of_nat_add)
          next
            assume "r = -1" "\<forall>i<k. ubyte m pt (va + word_of_nat (unat ?n) + word_of_nat i) \<noteq> 0"
              "k < unat (mx - ?n) \<longrightarrow> \<not> uaccess m pt (va + word_of_nat (unat ?n) + word_of_nat k)"
            then show ?thesis using nz [of k] l N(3) by (simp add: add.assoc)
          qed
          ultimately show ?thesis using st
            by (intro exI [of _ r] exI [of _ m'] exI [of _ "unat ?n + k"]) simp
        qed
      qed
    qed
  qed
qed

section \<open>Properties\<close>

text \<open>
  C22 (copyout). With a kernel buffer apart from the address space, \<^verbatim>\<open>copyout\<close> never panics. It returns 0
  exactly when all \<open>len\<close> destination bytes are in valid user pages (the write permission of a page is
  not consulted), and then the user sees the buffer there; otherwise it returns -1 after storing the
  bytes before the first inaccessible address. No other byte changes.
\<close>

theorem copyout_stores:
  assumes "user_space pt U s" and "kernel_buffer pt U s b (unat len)" and "unat va + unat len \<le> 2 ^ 64"
  shows "\<exists>r m k. copyout pt va b len s = Ok (r, s\<lparr>mem := m\<rparr>) \<and>
    (\<forall>i<k. uaccess (mem s) pt (va + word_of_nat i) \<and>
       m (uaddr (mem s) pt (va + word_of_nat i)) = mem s (b + word_of_nat i)) \<and>
    (\<forall>x. (\<forall>i<k. x \<noteq> uaddr (mem s) pt (va + word_of_nat i)) \<longrightarrow> m x = mem s x) \<and>
    (r = 0 \<and> k = unat len \<or> r = -1 \<and> k < unat len \<and> \<not> uaccess (mem s) pt (va + word_of_nat k))"
  using copyout_ok [OF assms] unfolding stored_def by blast

lemma example_user_space: "user_space 0x87fff000 {0} example_space"
proof -
  have "PGROUNDDOWN va = 0" if "uaccess (mem example_space) 0x87fff000 va" for va
  proof -
    have lt: "va < MAXVA" and "PX 0 va = 0 \<and> PX 1 va = 0 \<and> PX 2 va = 0"
      using that by (auto simp: uaccess_def example_space_def example_pte split: if_splits)
    then have "PGROUNDDOWN va = PGROUNDDOWN 0" by (intro PX_page) (simp_all add: PX_def)
    then show ?thesis by (simp add: PGROUNDDOWN_def)
  qed
  then show ?thesis using example_space_ok example_owns by (simp add: user_space_def)
qed

lemma example_buffer:
  assumes "n < 4096" shows "kernel_buffer 0x87fff000 {0} example_space 0x80001000 n"
proof -
  have al: "page_aligned 0x80001000" by (simp add: page_aligned_unat)
  have "page_frame (mem example_space) 0x87fff000 0 = 0x87ffc000"
    by (simp add: example_space_def example_pte PX_def example_pte_values)
  moreover have "tables (mem example_space) 2 0x87fff000 = {0x87fff000, 0x87ffe000, 0x87ffd000}"
    using example_tables(1) by (simp add: example_space_def)
  ultimately show ?thesis
    using PGROUNDDOWN_offset [OF al] example_avail(2) assms by (simp add: kernel_buffer_def)
qed

lemma example_uaccess:
  assumes "va < 4096"
  shows "uaccess (mem example_space) 0x87fff000 va"
proof -
  have "unat va < 4096" using assms by (simp add: word_less_nat_alt)
  then have "PX 0 va = 0" "PX 1 va = 0" "PX 2 va = 0"
    by (simp_all add: word_unat_eq_iff [of "PX _ va"] unat_PX PXSHIFT_def)
  then show ?thesis using assms by (simp add: uaccess_def example_space_def example_pte word_less_nat_alt)
qed

text \<open>The page at 0 is read-only for the user, and \<^verbatim>\<open>copyout\<close> writes it all the same.\<close>

theorem copyout_stores_witness:
  "\<exists>m. copyout 0x87fff000 0x10 0x80001000 5 example_space = Ok (0, example_space\<lparr>mem := m\<rparr>) \<and>
    pte (mem example_space) 0x87fff000 0x10 AND PTE_W = 0"
proof -
  have acc: "uaccess (mem example_space) 0x87fff000 (0x10 + word_of_nat k)" if "k < 5" for k
  proof (rule example_uaccess)
    have "unat (0x10 + word_of_nat k :: u64) = 16 + k" using unat_add_of_nat_u64 [of 16 k] that by simp
    then show "0x10 + word_of_nat k < (4096 :: u64)" using that by (simp add: word_less_nat_alt)
  qed
  have "pte (mem example_space) 0x87fff000 0x10 AND PTE_W = 0"
    by (simp add: example_space_def example_pte)
  then show ?thesis
    using copyout_stores [OF example_user_space example_buffer, where len = 5 and va = "0x10"] acc
    by (auto simp: Ball_def)
qed

text \<open>
  C23 (copyin). \<^verbatim>\<open>copyin\<close> returns 0 exactly when all \<open>len\<close> source bytes are in valid user pages, with the
  user's bytes in the kernel buffer; otherwise it returns -1 with the bytes before the first
  inaccessible address. No byte outside the buffer changes.
\<close>

theorem copyin_loads:
  assumes "user_space pt U s" and "kernel_buffer pt U s b (unat len)" and "unat va + unat len \<le> 2 ^ 64"
  shows "\<exists>r m k. copyin pt b va len s = Ok (r, s\<lparr>mem := m\<rparr>) \<and>
    (\<forall>i<k. uaccess (mem s) pt (va + word_of_nat i) \<and>
       m (b + word_of_nat i) = mem s (uaddr (mem s) pt (va + word_of_nat i))) \<and>
    (\<forall>x. (\<forall>i<k. x \<noteq> b + word_of_nat i) \<longrightarrow> m x = mem s x) \<and>
    (r = 0 \<and> k = unat len \<or> r = -1 \<and> k < unat len \<and> \<not> uaccess (mem s) pt (va + word_of_nat k))"
  using copyin_ok [OF assms] unfolding loaded_def by blast

theorem copyin_loads_witness:
  "\<exists>m. copyin 0x87fff000 0x80001000 0x2000 3 example_space = Ok (-1, example_space\<lparr>mem := m\<rparr>)"
proof -
  have "unat (PX 0 0x2000) = 2" by (simp add: unat_PX PXSHIFT_def)
  then have "\<not> uaccess (mem example_space) 0x87fff000 0x2000"
    by (auto simp: uaccess_def example_space_def example_pte)
  then show ?thesis
    using copyin_loads [OF example_user_space example_buffer, where len = 3 and va = "0x2000"]
    by (fastforce dest: spec [of _ 0])
qed

text \<open>
  C24 (copyinstr). \<^verbatim>\<open>copyinstr\<close> returns 0 exactly when a NUL occurs among the first \<open>mx\<close> user bytes before
  an inaccessible one, and then the buffer holds the string with its NUL; otherwise -1. It
  never writes more than \<open>mx\<close> bytes.
\<close>

theorem copyinstr_string:
  assumes "user_space pt U s" and "kernel_buffer pt U s b (unat mx)" and "unat va + unat mx \<le> 2 ^ 64"
  shows "\<exists>r m k. copyinstr pt b va mx s = Ok (r, s\<lparr>mem := m\<rparr>) \<and> k \<le> unat mx \<and>
    (\<forall>i<k. uaccess (mem s) pt (va + word_of_nat i) \<and>
       m (b + word_of_nat i) = ubyte (mem s) pt (va + word_of_nat i)) \<and>
    (\<forall>x. (\<forall>i<k. x \<noteq> b + word_of_nat i) \<longrightarrow> m x = mem s x) \<and>
    (r = 0 \<and> (\<exists>j. k = Suc j \<and> (\<forall>i<j. ubyte (mem s) pt (va + word_of_nat i) \<noteq> 0) \<and> ubyte (mem s) pt (va + word_of_nat j) = 0) \<or>
     r = -1 \<and> (\<forall>i<k. ubyte (mem s) pt (va + word_of_nat i) \<noteq> 0) \<and>
       (k < unat mx \<longrightarrow> \<not> uaccess (mem s) pt (va + word_of_nat k)))"
  using copyinstr_ok [OF assms] unfolding loaded_def by blast

theorem copyinstr_string_witness:
  "\<exists>r m. copyinstr 0x87fff000 0x80001000 0x10 8 example_space = Ok (r, example_space\<lparr>mem := m\<rparr>)"
  using copyinstr_string [OF example_user_space example_buffer, where mx = 8 and va = "0x10"] by auto

end
