(* ===== verification/Xv6_Umem.thy ===== *)
theory Xv6_Umem
  imports Xv6_Copy
begin

text \<open>
  User memory as the rest of the kernel sees it: a partial map from user addresses to bytes, undefined
  where the process may not go. \<^verbatim>\<open>copyout\<close>, \<^verbatim>\<open>copyin\<close> and \<^verbatim>\<open>copyinstr\<close> of \<^verbatim>\<open>kernel/vm.c\<close> refine the three
  operations on this map; the models of pipes, files, the console and system calls use the map.
\<close>

section \<open>Operations\<close>

type_synonym umem = "u64 \<Rightarrow> u8 option"

primrec ucopyout :: "u64 \<Rightarrow> u8 list \<Rightarrow> umem \<Rightarrow> bool \<times> umem" where
  "ucopyout va [] um = (True, um)"
| "ucopyout va (b # bs) um = (case um va of None \<Rightarrow> (False, um) | Some _ \<Rightarrow> ucopyout (va + 1) bs (um(va \<mapsto> b)))"

primrec ucopyin :: "u64 \<Rightarrow> nat \<Rightarrow> umem \<Rightarrow> u8 list option" where
  "ucopyin va 0 um = Some []"
| "ucopyin va (Suc n) um = (case um va of None \<Rightarrow> None | Some b \<Rightarrow> map_option ((#) b) (ucopyin (va + 1) n um))"

primrec ucopyinstr :: "u64 \<Rightarrow> nat \<Rightarrow> umem \<Rightarrow> u8 list option" where
  "ucopyinstr va 0 um = None"
| "ucopyinstr va (Suc n) um = (case um va of
     None \<Rightarrow> None
   | Some b \<Rightarrow> if b = 0 then Some [] else map_option ((#) b) (ucopyinstr (va + 1) n um))"

section \<open>Lemmas\<close>

lemma ucopyin_length: "ucopyin va n um = Some bs \<Longrightarrow> length bs = n"
  by (induction n arbitrary: va bs) (auto split: option.splits)

lemma ucopyin_nth: "ucopyin va n um = Some bs \<Longrightarrow> i < n \<Longrightarrow> um (va + word_of_nat i) = Some (bs ! i)"
proof (induction n arbitrary: va bs i)
  case (Suc n)
  from Suc.prems(1) obtain b cs where b: "um va = Some b" "ucopyin (va + 1) n um = Some cs" "bs = b # cs"
    by (auto split: option.splits)
  show ?case
  proof (cases i)
    case 0
    then show ?thesis using b by simp
  next
    case (Suc j)
    then show ?thesis using Suc.IH [OF b(2), of j] Suc.prems(2) b(3) by (simp add: add.assoc)
  qed
qed simp

lemma ucopyin_Some:
  "(\<And>i. i < n \<Longrightarrow> um (va + word_of_nat i) = Some (f i)) \<Longrightarrow> ucopyin va n um = Some (map f [0..<n])"
proof (induction n arbitrary: va f)
  case (Suc n)
  have "um (va + 1 + word_of_nat i) = Some (f (Suc i))" if "i < n" for i
    using Suc.prems [of "Suc i"] that by (simp add: add.assoc)
  from Suc.IH [OF this] have "ucopyin (va + 1) n um = Some (map (\<lambda>i. f (Suc i)) [0..<n])" by simp
  moreover have "um va = Some (f 0)" using Suc.prems [of 0] by simp
  ultimately show ?case by (simp add: map_upt_Suc del: upt_Suc)
qed simp

lemma ucopyin_None: "i < n \<Longrightarrow> um (va + word_of_nat i) = None \<Longrightarrow> ucopyin va n um = None"
proof (rule ccontr)
  assume i: "i < n" "um (va + word_of_nat i) = None" and "ucopyin va n um \<noteq> None"
  then obtain bs where "ucopyin va n um = Some bs" by blast
  from ucopyin_nth [OF this i(1)] show False using i(2) by simp
qed

lemma ucopyinstr_Some:
  "j < n \<Longrightarrow> (\<And>i. i < j \<Longrightarrow> um (va + word_of_nat i) = Some (f i) \<and> f i \<noteq> 0) \<Longrightarrow> um (va + word_of_nat j) = Some 0 \<Longrightarrow>
     ucopyinstr va n um = Some (map f [0..<j])"
proof (induction n arbitrary: va f j)
  case (Suc n)
  show ?case
  proof (cases j)
    case 0
    then show ?thesis using Suc.prems(3) by simp
  next
    case (Suc i)
    have a: "um (va + 1 + word_of_nat l) = Some (f (Suc l)) \<and> f (Suc l) \<noteq> 0" if "l < i" for l
      using Suc.prems(2) [of "Suc l"] that Suc by (simp add: add.assoc)
    have "ucopyinstr (va + 1) n um = Some (map (\<lambda>i. f (Suc i)) [0..<i])"
      using Suc.prems(1,3) Suc a by (intro Suc.IH) (auto simp: add.assoc)
    then show ?thesis using Suc.prems(2) [of 0] Suc by (simp add: map_upt_Suc del: upt_Suc)
  qed
qed simp

lemma ucopyinstr_None:
  "k \<le> n \<Longrightarrow> (\<And>i. i < k \<Longrightarrow> um (va + word_of_nat i) = Some (f i) \<and> f i \<noteq> 0) \<Longrightarrow>
     (k < n \<Longrightarrow> um (va + word_of_nat k) = None) \<Longrightarrow> ucopyinstr va n um = None"
proof (induction n arbitrary: va f k)
  case (Suc n)
  show ?case
  proof (cases k)
    case 0
    then show ?thesis using Suc.prems(3) by simp
  next
    case (Suc i)
    have a: "um (va + 1 + word_of_nat l) = Some (f (Suc l)) \<and> f (Suc l) \<noteq> 0" if "l < i" for l
      using Suc.prems(2) [of "Suc l"] that Suc by (simp add: add.assoc)
    have "ucopyinstr (va + 1) n um = None"
      using Suc.prems(1,3) Suc a by (intro Suc.IH [of i _ "\<lambda>i. f (Suc i)"]) (auto simp: add.assoc)
    then show ?thesis using Suc.prems(2) [of 0] Suc by simp
  qed
qed simp

lemma unat_diff_Suc: "x \<noteq> va \<Longrightarrow> unat (x - va) = Suc (unat (x - (va + 1)))" for x va :: u64
proof -
  assume "x \<noteq> va"
  then have "x - va \<noteq> 0" by simp
  then have "unat (x - va - 1) = unat (x - va) - 1" "0 < unat (x - va)" by (simp_all add: unat_minus_one unat_gt_0)
  then show ?thesis by (simp add: diff_diff_eq)
qed

lemma ucopyout_prefix:
  assumes "k \<le> length bs" and "\<And>i. i < k \<Longrightarrow> um (va + word_of_nat i) \<noteq> None"
    and "k < length bs \<Longrightarrow> um (va + word_of_nat k) = None" and "length bs < 2 ^ 64"
  shows "ucopyout va bs um = (k = length bs, \<lambda>x. if unat (x - va) < k then Some (bs ! unat (x - va)) else um x)"
  using assms
proof (induction bs arbitrary: va um k)
  case (Cons b bs)
  show ?case
  proof (cases k)
    case 0
    then show ?thesis using Cons.prems(3) by simp
  next
    case (Suc j)
    have "um va \<noteq> None" using Cons.prems(2) [of 0] Suc by simp
    then obtain c where c: "um va = Some c" by blast
    have j: "j < 2 ^ 64 - 1" using Suc Cons.prems(1,4) by simp
    have ne: "va + 1 + word_of_nat i \<noteq> va" if "i \<le> j" for i
    proof
      assume "va + 1 + word_of_nat i = va"
      then have "word_of_nat (Suc i) = (0 :: u64)" by (simp add: add.assoc)
      then have "unat (word_of_nat (Suc i) :: u64) = 0" by simp
      moreover have "Suc i < 2 ^ 64" using that j by simp
      ultimately show False by (simp add: unat_of_nat take_bit_nat_eq_self del: of_nat_Suc)
    qed
    have a: "um (va + 1 + word_of_nat i) \<noteq> None" if "i < j" for i
      using Cons.prems(2) [of "Suc i"] that Suc by (simp add: add.assoc)
    have "ucopyout (va + 1) bs (um(va \<mapsto> b)) =
      (j = length bs, \<lambda>x. if unat (x - (va + 1)) < j then Some (bs ! unat (x - (va + 1))) else (um(va \<mapsto> b)) x)"
      using Cons.prems(1,3,4) Suc ne a by (intro Cons.IH) (auto simp: add.assoc)
    moreover have "\<not> unat (va - (va + 1)) < j" using j
      by (simp add: unsigned_minus_1_eq_mask mask_eq_exp_minus_1)
    ultimately show ?thesis using c Suc by (auto simp: fun_eq_iff unat_diff_Suc)
  qed
qed simp


section \<open>Refinement\<close>

definition uview :: "u64 \<Rightarrow> kmem \<Rightarrow> umem" where
  "uview pt s va = (if uaccess (mem s) pt va then Some (mem s (uaddr (mem s) pt va)) else None)"

definition kbytes :: "memory \<Rightarrow> u64 \<Rightarrow> nat \<Rightarrow> u8 list" where
  "kbytes m b n = map (\<lambda>i. m (b + word_of_nat i)) [0..<n]"

lemma word_offset: "unat (x - va) = i \<Longrightarrow> x = va + word_of_nat i" for x va :: u64
  by (auto simp: word_unat_eq_iff)

lemma offset_word: "i < 2 ^ 64 \<Longrightarrow> unat (va + word_of_nat i - va) = i" for va :: u64
  by (simp add: unat_of_nat take_bit_nat_eq_self)

lemma uview_stored:
  assumes us: "user_space pt U s" and st: "stored pt va b k s m" and e: "pages_eq (- frames (mem s) pt U) (mem s) m" and k: "k \<le> n" "n < 2 ^ 64"
  shows "uview pt (s\<lparr>mem := m\<rparr>) = (\<lambda>x. if unat (x - va) < k then Some (kbytes (mem s) b n ! unat (x - va)) else uview pt s x)"
proof
  fix x
  note W = user_space_write(2) [OF us e]
  have acc: "uaccess m pt x = uaccess (mem s) pt x" and ua: "uaddr m pt x = uaddr (mem s) pt x"
    using W by (simp_all add: uaccess_def uaddr_def)
  show "uview pt (s\<lparr>mem := m\<rparr>) x = (if unat (x - va) < k then Some (kbytes (mem s) b n ! unat (x - va)) else uview pt s x)"
  proof (cases "unat (x - va) < k")
    case True
    have x: "x = va + word_of_nat (unat (x - va))" by (rule word_offset) simp
    have "uaccess (mem s) pt x" "m (uaddr (mem s) pt x) = mem s (b + word_of_nat (unat (x - va)))"
      using st True x unfolding stored_def by metis+
    then show ?thesis using True k acc ua by (simp add: uview_def kbytes_def)
  next
    case False
    have "m (uaddr (mem s) pt x) = mem s (uaddr (mem s) pt x)" if "uaccess (mem s) pt x"
    proof -
      have "uaddr (mem s) pt x \<noteq> uaddr (mem s) pt (va + word_of_nat i)" if "i < k" for i
      proof
        assume eq: "uaddr (mem s) pt x = uaddr (mem s) pt (va + word_of_nat i)"
        have "uaccess (mem s) pt (va + word_of_nat i)" using st that by (simp add: stored_def)
        then have "x = va + word_of_nat i"
          using uaddr_inj [OF user_spaceD(2) [OF us] _ _ eq] user_spaceD(3) [OF us] \<open>uaccess (mem s) pt x\<close> by blast
        then have "unat (x - va) = i" using offset_word [of i va] that k by simp
        then show False using False that by simp
      qed
      then show ?thesis using st by (simp add: stored_def)
    qed
    then show ?thesis using False acc ua by (simp add: uview_def)
  qed
qed

lemma copyout_uview:
  assumes us: "user_space pt U s" and kb: "kernel_buffer pt U s b (unat n)" and va: "unat va + unat n \<le> 2 ^ 64"
  shows "\<exists>s'. copyout pt va b n s = Ok (if fst (ucopyout va (kbytes (mem s) b (unat n)) (uview pt s)) then 0 else -1, s') \<and>
    user_space pt U s' \<and> uview pt s' = snd (ucopyout va (kbytes (mem s) b (unat n)) (uview pt s))"
proof -
  obtain r m k where c: "copyout pt va b n s = Ok (r, s\<lparr>mem := m\<rparr>)" "stored pt va b k s m" "pages_eq (- frames (mem s) pt U) (mem s) m"
    "r = 0 \<and> k = unat n \<or> r = -1 \<and> k < unat n \<and> \<not> uaccess (mem s) pt (va + word_of_nat k)"
    using copyout_ok [OF assms] by blast
  have n: "unat n < 2 ^ 64" using unsigned_less [of n, where 'a = nat] by simp
  have kn: "k \<le> unat n" using c(4) by auto
  have "ucopyout va (kbytes (mem s) b (unat n)) (uview pt s) = (k = length (kbytes (mem s) b (unat n)),
      \<lambda>x. if unat (x - va) < k then Some (kbytes (mem s) b (unat n) ! unat (x - va)) else uview pt s x)"
    using c(2,4) n kn by (intro ucopyout_prefix) (auto simp: kbytes_def uview_def stored_def)
  then show ?thesis
    using c(1,4) user_space_write(1) [OF us c(3)] uview_stored [OF us c(2,3) kn n] by (auto simp: kbytes_def)
qed

lemma uview_loaded:
  assumes us: "user_space pt U s" and ld: "loaded pt b va k s m" and kb: "kernel_buffer pt U s b k"
  shows "user_space pt U (s\<lparr>mem := m\<rparr>)" and "uview pt (s\<lparr>mem := m\<rparr>) = uview pt s"
proof -
  note K = user_space_kernel [OF us loaded_pages [OF ld kb]]
  show "user_space pt U (s\<lparr>mem := m\<rparr>)" by (rule K(1))
  show "uview pt (s\<lparr>mem := m\<rparr>) = uview pt s"
    using K(2,4) by (auto simp: uview_def fun_eq_iff uaccess_def uaddr_def)
qed

lemma copyin_uview:
  assumes us: "user_space pt U s" and kb: "kernel_buffer pt U s b (unat n)" and va: "unat va + unat n \<le> 2 ^ 64"
  shows "\<exists>r s'. copyin pt b va n s = Ok (r, s') \<and> user_space pt U s' \<and> uview pt s' = uview pt s \<and>
    (case ucopyin va (unat n) (uview pt s) of None \<Rightarrow> r = -1 | Some bs \<Rightarrow> r = 0 \<and> kbytes (mem s') b (unat n) = bs)"
proof -
  obtain r m k where c: "copyin pt b va n s = Ok (r, s\<lparr>mem := m\<rparr>)" "loaded pt b va k s m"
    "r = 0 \<and> k = unat n \<or> r = -1 \<and> k < unat n \<and> \<not> uaccess (mem s) pt (va + word_of_nat k)"
    using copyin_ok [OF assms] by blast
  have kn: "k \<le> unat n" using c(3) by auto
  note V = uview_loaded [OF us c(2) kernel_buffer_mono [OF kb kn]]
  have "case ucopyin va (unat n) (uview pt s) of None \<Rightarrow> r = -1 | Some bs \<Rightarrow> r = 0 \<and> kbytes m b (unat n) = bs"
  proof (cases "r = 0")
    case True
    then have "uview pt s (va + word_of_nat i) = Some (m (b + word_of_nat i))" if "i < unat n" for i
      using c(2,3) that by (auto simp: uview_def loaded_def)
    from ucopyin_Some [where f = "\<lambda>i. m (b + word_of_nat i)", OF this] show ?thesis using True by (simp add: kbytes_def)
  next
    case False
    then have "ucopyin va (unat n) (uview pt s) = None" using c(3) by (intro ucopyin_None [of k]) (auto simp: uview_def)
    then show ?thesis using False c(3) by simp
  qed
  then show ?thesis using c(1) V by (intro exI [of _ r] exI [of _ "s\<lparr>mem := m\<rparr>"]) (simp cong: option.case_cong)
qed

lemma copyinstr_uview:
  assumes us: "user_space pt U s" and kb: "kernel_buffer pt U s b (unat n)" and va: "unat va + unat n \<le> 2 ^ 64"
  shows "\<exists>r s'. copyinstr pt b va n s = Ok (r, s') \<and> user_space pt U s' \<and> uview pt s' = uview pt s \<and>
    (case ucopyinstr va (unat n) (uview pt s) of
       None \<Rightarrow> r = -1
     | Some bs \<Rightarrow> r = 0 \<and> kbytes (mem s') b (length bs + 1) = bs @ [0])"
proof -
  obtain r m k where c: "copyinstr pt b va n s = Ok (r, s\<lparr>mem := m\<rparr>)" "k \<le> unat n" "loaded pt b va k s m"
    and res: "r = 0 \<and> (\<exists>j. k = Suc j \<and> (\<forall>i<j. ubyte (mem s) pt (va + word_of_nat i) \<noteq> 0) \<and> ubyte (mem s) pt (va + word_of_nat j) = 0) \<or>
     r = -1 \<and> (\<forall>i<k. ubyte (mem s) pt (va + word_of_nat i) \<noteq> 0) \<and> (k < unat n \<longrightarrow> \<not> uaccess (mem s) pt (va + word_of_nat k))"
    using copyinstr_ok [OF assms] by blast
  let ?f = "\<lambda>i. ubyte (mem s) pt (va + word_of_nat i)"
  have f: "uview pt s (va + word_of_nat i) = Some (?f i)" "m (b + word_of_nat i) = ?f i" if "i < k" for i
    using c(3) that by (auto simp: uview_def loaded_def)
  note V = uview_loaded [OF us c(3) kernel_buffer_mono [OF kb c(2)]]
  from res have "case ucopyinstr va (unat n) (uview pt s) of None \<Rightarrow> r = -1
    | Some bs \<Rightarrow> r = 0 \<and> kbytes m b (length bs + 1) = bs @ [0]"
  proof (elim disjE conjE exE)
    fix j assume j: "r = 0" "k = Suc j" "\<forall>i<j. ?f i \<noteq> 0" "?f j = 0"
    have "ucopyinstr va (unat n) (uview pt s) = Some (map ?f [0..<j])"
      using j f(1) c(2) by (intro ucopyinstr_Some) auto
    moreover have "kbytes m b (j + 1) = map ?f [0..<j] @ [0]" using j f(2) by (simp add: kbytes_def)
    ultimately show ?thesis using j(1) by simp
  next
    assume "r = -1" "\<forall>i<k. ?f i \<noteq> 0" "k < unat n \<longrightarrow> \<not> uaccess (mem s) pt (va + word_of_nat k)"
    then have "ucopyinstr va (unat n) (uview pt s) = None"
      using f(1) c(2) by (intro ucopyinstr_None [of k _ _ _ ?f]) (auto simp: uview_def)
    then show ?thesis using \<open>r = -1\<close> by simp
  qed
  then show ?thesis using c(1) V by (intro exI [of _ r] exI [of _ "s\<lparr>mem := m\<rparr>"]) (simp cong: option.case_cong)
qed

section \<open>Properties\<close>

text \<open>
  C6 (user memory). On a well-formed address space with the kernel buffer outside it, \<^verbatim>\<open>copyout\<close>,
  \<^verbatim>\<open>copyin\<close> and \<^verbatim>\<open>copyinstr\<close> refine the operations on the map of user-accessible bytes: same return value,
  same bytes, and the address space stays well-formed.
\<close>

theorem copies_refine_user_memory:
  assumes "user_space pt U s" and "kernel_buffer pt U s b (unat n)" and "unat va + unat n \<le> 2 ^ 64"
  shows "(\<exists>s'. copyout pt va b n s = Ok (if fst (ucopyout va (kbytes (mem s) b (unat n)) (uview pt s)) then 0 else -1, s') \<and>
      user_space pt U s' \<and> uview pt s' = snd (ucopyout va (kbytes (mem s) b (unat n)) (uview pt s))) \<and>
    (\<exists>r s'. copyin pt b va n s = Ok (r, s') \<and> user_space pt U s' \<and> uview pt s' = uview pt s \<and>
      (case ucopyin va (unat n) (uview pt s) of None \<Rightarrow> r = -1 | Some bs \<Rightarrow> r = 0 \<and> kbytes (mem s') b (unat n) = bs)) \<and>
    (\<exists>r s'. copyinstr pt b va n s = Ok (r, s') \<and> user_space pt U s' \<and> uview pt s' = uview pt s \<and>
      (case ucopyinstr va (unat n) (uview pt s) of
         None \<Rightarrow> r = -1
       | Some bs \<Rightarrow> r = 0 \<and> kbytes (mem s') b (length bs + 1) = bs @ [0]))"
  using copyout_uview [OF assms] copyin_uview [OF assms] copyinstr_uview [OF assms] by blast

theorem copies_refine_user_memory_witness:
  "\<exists>r s'. copyin 0x87fff000 0x80001000 0x10 5 example_space = Ok (r, s') \<and>
     uview 0x87fff000 s' = uview 0x87fff000 example_space"
  using copies_refine_user_memory [OF example_user_space example_buffer, of 5 "0x10"] by auto

end
