(* ===== verification/Xv6_Pipe.thy ===== *)
theory Xv6_Pipe
  imports Xv6_Umem
begin

text \<open>
  Pipes (\<^verbatim>\<open>kernel/pipe.c\<close>): the ring buffer with its free-running 32-bit counters, the write and read loops
  up to the point where they sleep or return, and closing. A pipe refines a bounded queue of bytes,
  also when the counters wrap around, and the reader receives the bytes in the order of writing
  under every interleaving.
\<close>

section \<open>Model\<close>

abbreviation (input) PIPESIZE :: nat where "PIPESIZE \<equiv> 512"

record pipe =
  pdata :: "u8 list"
  nread :: u32
  nwrite :: u32
  readopen :: bool
  writeopen :: bool
  rsleep :: "nat set"
  wsleep :: "nat set"

text \<open>
  \<open>rsleep\<close> and \<open>wsleep\<close> are the part of the process table the pipe works on: the processes asleep on
  the channels \<^verbatim>\<open>&pi->nread\<close> and \<^verbatim>\<open>&pi->nwrite\<close>. \<^verbatim>\<open>sleep\<close> adds the caller, \<^verbatim>\<open>wakeup\<close> empties the set.
\<close>

text \<open>The state \<^verbatim>\<open>pipealloc\<close> gives a new pipe; the data array keeps what the page held.\<close>

definition pipe_init :: "u8 list \<Rightarrow> pipe" where
  "pipe_init d = \<lparr>pdata = d, nread = 0, nwrite = 0, readopen = True, writeopen = True, rsleep = {}, wsleep = {}\<rparr>"

text \<open>
  A call that holds the lock runs until it returns a value or has to sleep; a sleeping writer resumes
  its loop with the count of bytes it has written. \<open>killed i\<close> is the answer of \<^verbatim>\<open>killed(pr)\<close> in the
  iteration for byte \<open>i\<close>: another process may set the flag at any time.
\<close>

datatype 'a segment = Waits 'a | Returns int

definition pipe_put :: "u8 \<Rightarrow> pipe \<Rightarrow> pipe" where
  "pipe_put ch pi = pi\<lparr>pdata := (pdata pi)[unat (nwrite pi) mod PIPESIZE := ch], nwrite := nwrite pi + 1\<rparr>"

function pipewrite :: "nat \<Rightarrow> (int \<Rightarrow> bool) \<Rightarrow> umem \<Rightarrow> u64 \<Rightarrow> int \<Rightarrow> int \<Rightarrow> pipe \<Rightarrow> int segment \<times> pipe" where
  "pipewrite me killed um addr n i pi =
    (if i < n then
       if \<not> readopen pi \<or> killed i then (Returns (-1), pi)
       else if nwrite pi = nread pi + word_of_nat PIPESIZE then
         (Waits i, pi\<lparr>rsleep := {}, wsleep := insert me (wsleep pi)\<rparr>)
       else case ucopyin (addr + word_of_int i) 1 um of
         None \<Rightarrow> (Returns i, pi\<lparr>rsleep := {}\<rparr>)
       | Some ch \<Rightarrow> pipewrite me killed um addr n (i + 1) (pipe_put (hd ch) pi)
     else (Returns i, pi\<lparr>rsleep := {}\<rparr>))"
  by pat_completeness auto
termination by (relation "measure (\<lambda>(me, killed, um, addr, n, i, pi). nat (n - i))") auto

declare pipewrite.simps [simp del]

function piperead_loop :: "u64 \<Rightarrow> int \<Rightarrow> int \<Rightarrow> umem \<Rightarrow> pipe \<Rightarrow> int \<times> umem \<times> pipe" where
  "piperead_loop addr n i um pi =
    (if i < n \<and> nread pi \<noteq> nwrite pi then
       let ch = pdata pi ! (unat (nread pi) mod PIPESIZE);
           pi = pi\<lparr>nread := nread pi + 1\<rparr>;
           r = ucopyout (addr + word_of_int i) [ch] um
       in if \<not> fst r then (i, snd r, pi) else piperead_loop addr n (i + 1) (snd r) pi
     else (i, um, pi))"
  by pat_completeness auto
termination by (relation "measure (\<lambda>(addr, n, i, um, pi). nat (n - i))") auto

declare piperead_loop.simps [simp del]

definition piperead :: "nat \<Rightarrow> bool \<Rightarrow> u64 \<Rightarrow> int \<Rightarrow> umem \<Rightarrow> pipe \<Rightarrow> unit segment \<times> umem \<times> pipe" where
  "piperead me killed addr n um pi =
    (if nread pi = nwrite pi \<and> writeopen pi then
       if killed then (Returns (-1), um, pi) else (Waits (), um, pi\<lparr>rsleep := insert me (rsleep pi)\<rparr>)
     else let (i, um, pi) = piperead_loop addr n 0 um pi in (Returns i, um, pi\<lparr>wsleep := {}\<rparr>))"

text \<open>Closing one end; the flag says that both ends are closed and the page is freed.\<close>

definition pipeclose :: "bool \<Rightarrow> pipe \<Rightarrow> pipe \<times> bool" where
  "pipeclose writable pi =
    (let pi = (if writable then pi\<lparr>writeopen := False, rsleep := {}\<rparr> else pi\<lparr>readopen := False, wsleep := {}\<rparr>)
     in (pi, \<not> readopen pi \<and> \<not> writeopen pi))"

section \<open>The queue of bytes\<close>

definition pipe_count :: "pipe \<Rightarrow> nat" where
  "pipe_count pi = unat (nwrite pi - nread pi)"

definition contents :: "pipe \<Rightarrow> u8 list" where
  "contents pi = map (\<lambda>i. pdata pi ! ((unat (nread pi) + i) mod PIPESIZE)) [0..<pipe_count pi]"

definition pipe_ok :: "pipe \<Rightarrow> bool" where
  "pipe_ok pi \<longleftrightarrow> length (pdata pi) = PIPESIZE \<and> pipe_count pi \<le> PIPESIZE"

lemma pipe_full: "pipe_ok pi \<Longrightarrow> nwrite pi = nread pi + word_of_nat PIPESIZE \<longleftrightarrow> length (contents pi) = PIPESIZE"
proof -
  assume "pipe_ok pi"
  have "nwrite pi = nread pi + 512 \<longleftrightarrow> nwrite pi - nread pi = 512" by (auto simp: algebra_simps)
  also have "\<dots> \<longleftrightarrow> unat (nwrite pi - nread pi) = 512" by (simp add: word_unat_eq_iff)
  finally show ?thesis by (simp add: contents_def pipe_count_def)
qed

lemma pipe_empty: "nread pi = nwrite pi \<longleftrightarrow> contents pi = []"
  by (auto simp: contents_def pipe_count_def unat_eq_zero)

text \<open>The size of the buffer divides the range of the counters, so positions survive the wrap-around.\<close>

lemma counter_mod: "unat (x + y :: u32) mod 512 = (unat x + unat y) mod 512"
  by (simp add: unat_word_ariths mod_mod_cancel)

lemma nwrite_mod: "unat (nwrite pi) mod 512 = (unat (nread pi) + pipe_count pi) mod 512"
  using counter_mod [of "nread pi" "nwrite pi - nread pi"] by (simp add: pipe_count_def)

lemma mod_512_distinct: "(a + i) mod 512 \<noteq> (a + j) mod 512" if "i < j" "j - i < 512" for a i j :: nat
proof
  assume "(a + i) mod 512 = (a + j) mod 512"
  then have "512 dvd (a + j) - (a + i)" using that(1) mod_eq_dvd_iff_nat [of "a + i" "a + j" 512] by simp
  then have "512 dvd j - i" by simp
  then show False using that by (auto dest: dvd_imp_le)
qed

lemma pipe_put:
  assumes "pipe_ok pi" and "nwrite pi \<noteq> nread pi + word_of_nat PIPESIZE"
  shows "pipe_ok (pipe_put ch pi)" and "contents (pipe_put ch pi) = contents pi @ [ch]"
proof -
  have len: "length (pdata pi) = 512" and c: "pipe_count pi < 512"
    using assms pipe_full [OF assms(1)] by (auto simp: pipe_ok_def contents_def)
  have "unat (nwrite pi - nread pi + 1) = pipe_count pi + 1"
    using c by (simp add: pipe_count_def unat_word_ariths)
  then have cnt: "pipe_count (pipe_put ch pi) = Suc (pipe_count pi)"
    by (simp add: pipe_count_def pipe_put_def algebra_simps)
  show "pipe_ok (pipe_put ch pi)" using len c cnt by (simp add: pipe_ok_def) (simp add: pipe_put_def)
  have ne: "(unat (nread pi) + pipe_count pi) mod 512 \<noteq> (unat (nread pi) + i) mod 512" if "i < pipe_count pi" for i
    using mod_512_distinct [OF that, of "unat (nread pi)", symmetric] c by simp
  show "contents (pipe_put ch pi) = contents pi @ [ch]"
    unfolding contents_def cnt using len by (auto simp: pipe_put_def nwrite_mod nth_list_update ne)
qed

lemma pipe_take:
  assumes "pipe_ok pi" and "nread pi \<noteq> nwrite pi"
  shows "pipe_ok (pi\<lparr>nread := nread pi + 1\<rparr>)"
    and "contents pi = pdata pi ! (unat (nread pi) mod PIPESIZE) # contents (pi\<lparr>nread := nread pi + 1\<rparr>)"
proof -
  have "nwrite pi - nread pi \<noteq> 0" using assms(2) by auto
  then have "unat (nwrite pi - nread pi - 1) = pipe_count pi - 1" "0 < pipe_count pi"
    by (simp_all add: unat_minus_one pipe_count_def unat_gt_0)
  then have cnt: "pipe_count pi = Suc (pipe_count (pi\<lparr>nread := nread pi + 1\<rparr>))"
    by (simp add: pipe_count_def diff_diff_eq)
  show "pipe_ok (pi\<lparr>nread := nread pi + 1\<rparr>)" using assms(1) cnt by (simp add: pipe_ok_def)
  have "(unat (nread pi + 1) + i) mod 512 = (unat (nread pi) + Suc i) mod 512" for i
    using mod_add_cong [of "unat (nread pi + 1)" 512 "unat (nread pi) + 1" i i] counter_mod [of "nread pi" 1] by simp
  then show "contents pi = pdata pi ! (unat (nread pi) mod PIPESIZE) # contents (pi\<lparr>nread := nread pi + 1\<rparr>)"
    unfolding contents_def cnt by (simp add: map_upt_Suc del: upt_Suc)
qed


lemma contents_sleep [simp]:
  "contents (pi\<lparr>rsleep := A\<rparr>) = contents pi" "contents (pi\<lparr>wsleep := A\<rparr>) = contents pi"
  "contents (pi\<lparr>readopen := b\<rparr>) = contents pi" "contents (pi\<lparr>writeopen := b\<rparr>) = contents pi"
  "pipe_ok (pi\<lparr>rsleep := A\<rparr>) = pipe_ok pi" "pipe_ok (pi\<lparr>wsleep := A\<rparr>) = pipe_ok pi"
  "pipe_ok (pi\<lparr>readopen := b\<rparr>) = pipe_ok pi" "pipe_ok (pi\<lparr>writeopen := b\<rparr>) = pipe_ok pi"
  by (simp_all add: contents_def pipe_ok_def pipe_count_def)

section \<open>The loops\<close>

text \<open>What a writer at \<open>addr + i\<close> puts into the pipe: \<open>k\<close> bytes of its memory.\<close>

definition wrote_bytes :: "nat \<Rightarrow> (int \<Rightarrow> bool) \<Rightarrow> umem \<Rightarrow> u64 \<Rightarrow> int \<Rightarrow> int \<Rightarrow> pipe \<Rightarrow> nat \<Rightarrow> int segment \<Rightarrow> pipe \<Rightarrow> bool" where
  "wrote_bytes me killed um addr n i pi k r pi' \<longleftrightarrow>
     nwrite pi' = nwrite pi + word_of_nat k \<and> readopen pi' = readopen pi \<and> writeopen pi' = writeopen pi \<and>
     (r = Waits (i + int k) \<and> i + int k < n \<and> readopen pi \<and> length (contents pi') = PIPESIZE \<and>
        rsleep pi' = {} \<and> wsleep pi' = insert me (wsleep pi) \<or>
      r = Returns (-1) \<and> (\<not> readopen pi \<and> k = 0 \<or> killed (i + int k)) \<and> rsleep pi' = rsleep pi \<and> wsleep pi' = wsleep pi \<or>
      r = Returns (i + int k) \<and> (n \<le> i + int k \<or> um (addr + word_of_int (i + int k)) = None) \<and>
        rsleep pi' = {} \<and> wsleep pi' = wsleep pi)"

lemma pipe_put_sel [simp]:
  "readopen (pipe_put ch pi) = readopen pi" "writeopen (pipe_put ch pi) = writeopen pi"
  "rsleep (pipe_put ch pi) = rsleep pi" "wsleep (pipe_put ch pi) = wsleep pi" "nwrite (pipe_put ch pi) = nwrite pi + 1"
  by (simp_all add: pipe_put_def)

lemma pipewrite_spec:
  assumes "pipe_ok pi"
  shows "\<exists>k bs r pi'. ucopyin (addr + word_of_int i) k um = Some bs \<and> pipewrite me killed um addr n i pi = (r, pi') \<and>
       pipe_ok pi' \<and> contents pi' = contents pi @ bs \<and> wrote_bytes me killed um addr n i pi k r pi'"
  using assms
proof (induction me killed um addr n i pi rule: pipewrite.induct)
  case (1 me killed um addr n i pi)
  show ?case
  proof (cases "i < n \<and> readopen pi \<and> \<not> killed i \<and> nwrite pi \<noteq> nread pi + word_of_nat PIPESIZE \<and> um (addr + word_of_int i) \<noteq> None")
    case False
    obtain r pi' where e: "pipewrite me killed um addr n i pi = (r, pi')" by fastforce
    have "pipe_ok pi' \<and> contents pi' = contents pi \<and> wrote_bytes me killed um addr n i pi 0 r pi'"
      using False 1(2) pipe_full [OF 1(2)] e
      by (auto simp: pipewrite.simps [of me killed um addr n i pi] wrote_bytes_def split: option.splits if_splits)
    then show ?thesis using e by (intro exI [of _ 0] exI [of _ "[]"]) simp
  next
    case True
    then obtain ch where ch: "um (addr + word_of_int i) = Some ch" by blast
    have u: "ucopyin (addr + word_of_int i) 1 um = Some [ch]" using ch by simp
    have step: "pipewrite me killed um addr n i pi = pipewrite me killed um addr n (i + 1) (pipe_put ch pi)"
      using True u by (subst pipewrite.simps) simp
    note P = pipe_put [OF 1(2), of ch]
    obtain k bs r pi' where k: "ucopyin (addr + word_of_int (i + 1)) k um = Some bs"
        "pipewrite me killed um addr n (i + 1) (pipe_put ch pi) = (r, pi')" "pipe_ok pi'"
        "contents pi' = contents (pipe_put ch pi) @ bs" "wrote_bytes me killed um addr n (i + 1) (pipe_put ch pi) k r pi'"
      using 1(1) [of "[ch]"] True u P by fastforce
    have "ucopyin (addr + word_of_int i) (Suc k) um = Some (ch # bs)" using ch k(1) by (simp add: add.assoc)
    moreover have "wrote_bytes me killed um addr n i pi (Suc k) r pi'"
      using k(5) True by (auto simp: wrote_bytes_def add.assoc)
    ultimately show ?thesis using k(2-4) P(2) True step
      by (intro exI [of _ "Suc k"] exI [of _ "ch # bs"]) auto
  qed
qed

text \<open>What a reader takes out: a prefix of the contents, stored at its address.\<close>

lemma piperead_loop_spec:
  assumes "pipe_ok pi"
  shows "\<exists>bs rest. contents pi = bs @ rest \<and>
    (let (r, um', pi') = piperead_loop addr n i um pi in
       pipe_ok pi' \<and> readopen pi' = readopen pi \<and> writeopen pi' = writeopen pi \<and>
       nwrite pi' = nwrite pi \<and> rsleep pi' = rsleep pi \<and> wsleep pi' = wsleep pi \<and> r = i + int (length bs) \<and>
       um' = snd (ucopyout (addr + word_of_int i) bs um) \<and> fst (ucopyout (addr + word_of_int i) bs um) \<and>
       (contents pi' = rest \<and> (n \<le> r \<or> rest = []) \<or>
        r < n \<and> rest \<noteq> [] \<and> contents pi' = tl rest \<and> um (addr + word_of_int r) = None))"
  using assms
proof (induction addr n i um pi rule: piperead_loop.induct)
  case (1 addr n i um pi)
  show ?case
  proof (cases "i < n \<and> nread pi \<noteq> nwrite pi")
    case False
    then show ?thesis using 1(2) pipe_empty [of pi]
      by (intro exI [of _ "[]"] exI [of _ "contents pi"]) (auto simp: piperead_loop.simps [of addr n i um pi])
  next
    case True
    let ?ch = "pdata pi ! (unat (nread pi) mod PIPESIZE)" and ?p = "pi\<lparr>nread := nread pi + 1\<rparr>"
    note T = pipe_take [OF 1(2)]
    have c: "contents pi = ?ch # contents ?p" "pipe_ok ?p" using T True by simp_all
    show ?thesis
    proof (cases "um (addr + word_of_int i)")
      case None
      then have "piperead_loop addr n i um pi = (i, um, ?p)" using True by (subst piperead_loop.simps) (simp add: Let_def)
      then show ?thesis using c None True by (intro exI [of _ "[]"] exI [of _ "contents pi"]) auto
    next
      case (Some old)
      let ?um = "um(addr + word_of_int i \<mapsto> ?ch)"
      have step: "piperead_loop addr n i um pi = piperead_loop addr n (i + 1) ?um ?p"
        using True Some by (subst piperead_loop.simps) (simp add: Let_def)
      have co: "ucopyout (addr + word_of_int i) [?ch] um = (True, ?um)" using Some by simp
      obtain r um' pi' where e: "piperead_loop addr n (i + 1) ?um ?p = (r, um', pi')" by (rule prod_cases3)
      have "\<not> \<not> fst (True, ?um)" by simp
      from 1(1) [OF True refl refl co [symmetric] this c(2)]
      obtain bs rest where k: "contents ?p = bs @ rest" "pipe_ok pi'" "readopen pi' = readopen ?p" "writeopen pi' = writeopen ?p"
          "nwrite pi' = nwrite ?p" "rsleep pi' = rsleep ?p" "wsleep pi' = wsleep ?p"
          "r = i + 1 + int (length bs)"
        and u: "um' = snd (ucopyout (addr + word_of_int (i + 1)) bs ?um)" "fst (ucopyout (addr + word_of_int (i + 1)) bs ?um)"
        and d: "contents pi' = rest \<and> (n \<le> r \<or> rest = []) \<or> r < n \<and> rest \<noteq> [] \<and> contents pi' = tl rest \<and> ?um (addr + word_of_int r) = None"
        unfolding snd_conv e Let_def prod.case by blast
      have none: "um x = None" if "?um x = None" for x using that by (cases "x = addr + word_of_int i") simp_all
      have "ucopyout (addr + word_of_int i) (?ch # bs) um = ucopyout (addr + word_of_int (i + 1)) bs ?um"
        using Some by (simp add: add.assoc)
      moreover have "contents pi' = rest \<and> (n \<le> r \<or> rest = []) \<or> r < n \<and> rest \<noteq> [] \<and> contents pi' = tl rest \<and> um (addr + word_of_int r) = None"
        using d none by blast
      ultimately show ?thesis unfolding step e Let_def prod.case using k u c(1)
        by (intro exI [of _ "?ch # bs"] exI [of _ rest]) simp
    qed
  qed
qed


section \<open>Interleaved readers and writers\<close>

text \<open>
  The states of a pipe together with all bytes its writers have put in and all bytes its readers have
  taken out; any number of processes write, resume writing, read and close, and a sleeping process may
  be killed. With \<open>calm\<close>, no writer is killed between two bytes of one run of its loop. The bytes a
  reader has taken are read back from its memory; when its buffer is not writable (\<open>faults\<close>), they are
  the bytes removed from the pipe.
\<close>

inductive pipe_reach :: "bool \<Rightarrow> pipe \<Rightarrow> u8 list \<Rightarrow> u8 list \<Rightarrow> bool" for calm :: bool where
  opened: "length d = PIPESIZE \<Longrightarrow> pipe_reach calm (pipe_init d) [] []"
| writes: "pipe_reach calm pi W R \<Longrightarrow> pipewrite me killed um addr n i pi = (r, pi') \<Longrightarrow>
    (calm \<Longrightarrow> (\<forall>j. killed j = killed i)) \<Longrightarrow>
    pipe_reach calm pi' (W @ the (ucopyin (addr + word_of_int i) (unat (nwrite pi' - nwrite pi)) um)) R"
| waits: "pipe_reach calm pi W R \<Longrightarrow> piperead me killed addr n um pi = (Waits (), um', pi') \<Longrightarrow> pipe_reach calm pi' W R"
| reads: "pipe_reach calm pi W R \<Longrightarrow> (\<forall>j<nat n. um (addr + word_of_nat j) \<noteq> None) \<Longrightarrow>
    piperead me killed addr n um pi = (Returns r, um', pi') \<Longrightarrow> pipe_reach calm pi' W (R @ the (ucopyin addr (nat r) um'))"
| faults: "pipe_reach calm pi W R \<Longrightarrow> piperead me killed addr n um pi = (Returns r, um', pi') \<Longrightarrow>
    pipe_reach calm pi' W (R @ take (unat (nread pi' - nread pi)) (contents pi))"
| closes: "pipe_reach calm pi W R \<Longrightarrow> pipeclose w pi = (pi', freed) \<Longrightarrow> pipe_reach calm pi' W R"
| kills: "pipe_reach calm pi W R \<Longrightarrow> pipe_reach calm (pi\<lparr>rsleep := rsleep pi - {q}, wsleep := wsleep pi - {q}\<rparr>) W R"

lemma ucopyin_ucopyout:
  assumes "fst (ucopyout va bs um)" and "length bs < 2 ^ 64"
  shows "ucopyin va (length bs) (snd (ucopyout va bs um)) = Some bs"
proof -
  have acc: "um (va + word_of_nat i) \<noteq> None" if "i < length bs" for i
  proof (rule ccontr)
    assume a: "\<not> um (va + word_of_nat i) \<noteq> None"
    define k where "k = (LEAST k. um (va + word_of_nat k) = None)"
    have "um (va + word_of_nat k) = None" "k \<le> i" unfolding k_def using a by (auto intro: LeastI Least_le)
    moreover have "um (va + word_of_nat j) \<noteq> None" if "j < k" for j using not_less_Least that unfolding k_def by blast
    ultimately have "ucopyout va bs um = (k = length bs, \<lambda>x. if unat (x - va) < k then Some (bs ! unat (x - va)) else um x)"
      using that assms(2) by (intro ucopyout_prefix) auto
    then show False using assms(1) \<open>k \<le> i\<close> that by simp
  qed
  have "ucopyout va bs um = (True, \<lambda>x. if unat (x - va) < length bs then Some (bs ! unat (x - va)) else um x)"
    using ucopyout_prefix [of "length bs" bs um va] acc assms(2) by simp
  then have "snd (ucopyout va bs um) (va + word_of_nat i) = Some (bs ! i)" if "i < length bs" for i
    using that offset_word [of i va] assms(2) by simp
  from ucopyin_Some [where f = "(!) bs", OF this] show ?thesis by (simp add: map_nth)
qed


definition wakeful :: "pipe \<Rightarrow> bool" where
  "wakeful pi \<longleftrightarrow> (wsleep pi \<noteq> {} \<longrightarrow> readopen pi \<and> length (contents pi) = PIPESIZE) \<and>
     (rsleep pi \<noteq> {} \<longrightarrow> writeopen pi \<and> contents pi = [])"

lemma contents_length: "length (contents pi) = pipe_count pi"
  by (simp add: contents_def)

lemma pipewrite_fifo:
  assumes "pipe_ok pi" and "pipewrite me killed um addr n i pi = (r, pi')"
  shows "pipe_ok pi' \<and> contents pi' = contents pi @ the (ucopyin (addr + word_of_int i) (unat (nwrite pi' - nwrite pi)) um) \<and>
    wrote_bytes me killed um addr n i pi (unat (nwrite pi' - nwrite pi)) r pi'"
proof -
  obtain k bs where k: "ucopyin (addr + word_of_int i) k um = Some bs" "pipe_ok pi'" "contents pi' = contents pi @ bs"
      "wrote_bytes me killed um addr n i pi k r pi'"
    using pipewrite_spec [OF assms(1), of addr i um me killed n] assms(2) by auto
  have "length bs = k" using k(1) by (rule ucopyin_length)
  then have "k \<le> 512" using k(2,3) contents_length [of pi'] by (simp add: pipe_ok_def)
  then have "unat (nwrite pi' - nwrite pi) = k"
    using k(4) by (simp add: wrote_bytes_def unat_of_nat take_bit_nat_eq_self)
  then show ?thesis using k by simp
qed

lemma pipewrite_wakeful:
  assumes "pipe_ok pi" and "pipewrite me killed um addr n i pi = (r, pi')" and "wakeful pi" and "\<forall>j. killed j = killed i"
  shows "wakeful pi'"
proof -
  have w: "pipe_ok pi'" "wrote_bytes me killed um addr n i pi (unat (nwrite pi' - nwrite pi)) r pi'"
    and c: "contents pi' = contents pi @ the (ucopyin (addr + word_of_int i) (unat (nwrite pi' - nwrite pi)) um)"
    using pipewrite_fifo [OF assms(1,2)] by simp_all
  have full: "contents pi' = contents pi" if "length (contents pi) = PIPESIZE"
  proof -
    have "length (contents pi') \<le> 512" using w(1) contents_length [of pi'] by (simp add: pipe_ok_def)
    then have "length (the (ucopyin (addr + word_of_int i) (unat (nwrite pi' - nwrite pi)) um)) = 0"
      unfolding c using that by simp
    then show ?thesis using c by simp
  qed
  show ?thesis
  proof (cases "killed i")
    case True
    then show ?thesis using assms(2,3) pipewrite.simps [of me killed um addr n i pi]
      by (auto simp: wakeful_def split: if_splits)
  next
    case False
    then have "rsleep pi' = {} \<or> pi' = pi"
      using w(2) assms(2,4) pipewrite.simps [of me killed um addr n i pi] by (auto simp: wrote_bytes_def split: if_splits)
    then show ?thesis using w(2) full assms(3) by (auto simp: wakeful_def wrote_bytes_def)
  qed
qed

lemma removed_bytes:
  assumes "contents pi = bs @ contents pi'" and "nwrite pi' = nwrite pi"
  shows "take (unat (nread pi' - nread pi)) (contents pi) = bs"
proof -
  have l: "pipe_count pi = length bs + pipe_count pi'"
    using arg_cong [OF assms(1), of length] by (simp add: contents_length)
  then have "nwrite pi - nread pi' \<le> nwrite pi - nread pi"
    unfolding pipe_count_def assms(2) by (simp add: word_le_nat_alt)
  from unat_sub [OF this] have "unat (nread pi' - nread pi) = length bs"
    using l unfolding pipe_count_def assms(2) by simp
  then show ?thesis using assms(1) by simp
qed

lemma piperead_fifo:
  assumes "pipe_ok pi" and "piperead me killed addr n um pi = (Returns r, um', pi')"
  shows "pipe_ok pi' \<and> contents pi = take (unat (nread pi' - nread pi)) (contents pi) @ contents pi' \<and>
    ((\<forall>j<nat n. um (addr + word_of_nat j) \<noteq> None) \<longrightarrow>
       the (ucopyin addr (nat r) um') = take (unat (nread pi' - nread pi)) (contents pi))"
proof (cases "nread pi = nwrite pi \<and> writeopen pi")
  case True
  then show ?thesis using assms by (auto simp: piperead_def split: if_splits)
next
  case False
  then obtain p where p: "piperead_loop addr n 0 um pi = (r, um', p)" "pi' = p\<lparr>wsleep := {}\<rparr>"
    using assms(2) by (auto simp: piperead_def split: prod.splits)
  obtain bs rest where b: "contents pi = bs @ rest" "pipe_ok p" "nwrite p = nwrite pi" "r = int (length bs)"
      "um' = snd (ucopyout addr bs um)" "fst (ucopyout addr bs um)"
      "contents p = rest \<and> (n \<le> r \<or> rest = []) \<or> r < n \<and> rest \<noteq> [] \<and> contents p = tl rest \<and> um (addr + word_of_int r) = None"
    using piperead_loop_spec [OF assms(1), of addr n 0 um] unfolding p(1) Let_def prod.case by auto
  have rt: "the (ucopyin addr (nat r) um') = bs"
    using ucopyin_ucopyout [OF b(6)] b(1,4,5) assms(1) contents_length [of pi] by (simp add: pipe_ok_def)
  from b(7) show ?thesis
  proof
    assume "contents p = rest \<and> (n \<le> r \<or> rest = [])"
    then have "contents pi = bs @ contents pi'" using b(1) p(2) by simp
    from removed_bytes [OF this] show ?thesis using b(2,3) p(2) rt \<open>contents pi = bs @ contents pi'\<close> by simp
  next
    assume a: "r < n \<and> rest \<noteq> [] \<and> contents p = tl rest \<and> um (addr + word_of_int r) = None"
    then have "contents pi = (bs @ [hd rest]) @ contents pi'" using b(1) p(2) by simp
    note rm = removed_bytes [OF this]
    have "\<exists>j<nat n. um (addr + word_of_nat j) = None"
      using a b(4) by (intro exI [of _ "length bs"]) auto
    then show ?thesis using b(2,3) p(2) rm \<open>contents pi = (bs @ [hd rest]) @ contents pi'\<close> by auto
  qed
qed

lemma pipe_reach_fifo: "pipe_reach calm pi W R \<Longrightarrow> pipe_ok pi \<and> W = R @ contents pi"
proof (induction rule: pipe_reach.induct)
  case (opened d)
  then show ?case by (simp add: pipe_ok_def pipe_init_def pipe_count_def contents_def)
next
  case (writes pi W R me killed um addr n i r pi')
  then show ?case using pipewrite_fifo [of pi me killed um addr n i r pi'] by simp
next
  case (waits pi W R me killed addr n um um' pi')
  then show ?case by (auto simp: piperead_def split: if_splits prod.splits)
next
  case (reads pi W R n um addr me killed r um' pi')
  then show ?case using piperead_fifo [of pi me killed addr n um r um' pi'] by simp
next
  case (faults pi W R me killed addr n um r um' pi')
  then show ?case using piperead_fifo [of pi me killed addr n um r um' pi'] by simp
next
  case (closes pi W R w pi' freed)
  then show ?case by (auto simp: pipeclose_def Let_def split: if_splits)
next
  case (kills pi W R q)
  then show ?case by simp
qed

lemma piperead_wakeful:
  assumes "piperead me killed addr n um pi = (r, um', pi')" and "wakeful pi" and "pipe_ok pi"
  shows "wakeful pi'"
proof (cases "nread pi = nwrite pi \<and> writeopen pi")
  case True
  then show ?thesis using assms(1,2) pipe_empty [of pi] by (auto simp: piperead_def wakeful_def split: if_splits)
next
  case False
  then have rs: "rsleep pi = {}" using assms(2) pipe_empty [of pi] by (auto simp: wakeful_def)
  obtain k p where p: "piperead_loop addr n 0 um pi = (k, um', p)" "pi' = p\<lparr>wsleep := {}\<rparr>"
    using assms(1) False by (auto simp: piperead_def split: prod.splits)
  have "rsleep p = rsleep pi"
    using piperead_loop_spec [OF assms(3), of addr n 0 um] unfolding p(1) Let_def prod.case by auto
  then show ?thesis using rs p(2) by (simp add: wakeful_def)
qed

lemma pipe_reach_wakeful: "pipe_reach calm pi W R \<Longrightarrow> calm \<Longrightarrow> wakeful pi"
proof (induction rule: pipe_reach.induct)
  case (opened d)
  then show ?case by (simp add: wakeful_def pipe_init_def)
next
  case (writes pi W R me killed um addr n i r pi')
  then show ?case using pipewrite_wakeful [of pi me killed um addr n i r pi'] pipe_reach_fifo by simp
next
  case (waits pi W R me killed addr n um um' pi')
  then show ?case using piperead_wakeful pipe_reach_fifo by blast
next
  case (reads pi W R n um addr me killed r um' pi')
  then show ?case using piperead_wakeful pipe_reach_fifo by blast
next
  case (faults pi W R me killed addr n um r um' pi')
  then show ?case using piperead_wakeful pipe_reach_fifo by blast
next
  case (closes pi W R w pi' freed)
  then show ?case by (auto simp: pipeclose_def Let_def wakeful_def split: if_splits)
next
  case (kills pi W R q)
  then show ?case by (auto simp: wakeful_def)
qed


section \<open>Properties\<close>

text \<open>
  C8 (pipes are bounded queues). Whatever the processes at the two ends do, in any interleaving of
  runs of \<^verbatim>\<open>pipewrite\<close>, \<^verbatim>\<open>piperead\<close> and \<^verbatim>\<open>pipeclose\<close>, and also after the 32-bit counters have wrapped
  around, the bytes the readers have taken out followed by the contents of the pipe are the bytes the
  writers have put in, in order, and the pipe holds at most 512 of them.
\<close>

theorem pipe_fifo:
  "pipe_reach calm pi W R \<Longrightarrow> W = R @ contents pi \<and> length (contents pi) \<le> PIPESIZE"
  using pipe_reach_fifo [of calm pi W R] contents_length [of pi] by (simp add: pipe_ok_def)

text \<open>A page of user memory with a text, for the examples.\<close>

definition example_um :: umem where
  "example_um = (\<lambda>a. if a < 4096 then Some (ucast a) else None)"

lemma example_copyin: "ucopyin 7 2 example_um = Some [7, 8]"
proof -
  have "ucopyin 7 (Suc (Suc 0)) example_um = Some [7, 8]" by (simp add: example_um_def)
  then show ?thesis unfolding numeral_2_eq_2 .
qed

lemma example_write:
  "pipewrite 1 (\<lambda>_. False) example_um 7 2 0 (pipe_init (replicate 512 0)) =
     (Returns 2, (pipe_put 8 (pipe_put 7 (pipe_init (replicate 512 0))))\<lparr>rsleep := {}\<rparr>)"
  by (simp add: pipewrite.simps example_um_def pipe_init_def pipe_put_def)

theorem pipe_fifo_witness:
  "\<exists>pi. pipe_reach True pi [7, 8] [7] \<and> contents pi = [8] \<and> [7, 8 :: u8] = [7] @ contents pi"
proof -
  let ?w = "(pipe_put 8 (pipe_put 7 (pipe_init (replicate 512 0))))\<lparr>rsleep := {}\<rparr>"
  have "pipe_reach True (pipe_init (replicate 512 0)) [] []" by (rule opened) simp
  from writes [OF this example_write] have w: "pipe_reach True ?w [7, 8] []"
    by (simp add: pipe_init_def pipe_put_def example_copyin)
  have "piperead 2 False 100 1 example_um ?w = (Returns 1, example_um(100 \<mapsto> 7), ?w\<lparr>nread := 1, wsleep := {}\<rparr>)"
    by (simp add: piperead_def piperead_loop.simps pipe_init_def pipe_put_def example_um_def)
  from reads [OF w _ this] have "pipe_reach True (?w\<lparr>nread := 1, wsleep := {}\<rparr>) [7, 8] [7]"
    by (simp add: example_um_def)
  with pipe_fifo [OF this] show ?thesis by auto
qed

text \<open>
  C30 (no lost wakeups on a pipe). As long as no writer is killed in the middle of a run of its loop, a
  process asleep in \<^verbatim>\<open>pipewrite\<close> means that the pipe is full and has a reader's end, and a process asleep in
  \<^verbatim>\<open>piperead\<close> means that it is empty and has a writer's end. In particular readers and writers never
  sleep at the same time.
\<close>

theorem pipe_no_lost_wakeup:
  "pipe_reach True pi W R \<Longrightarrow>
     (wsleep pi \<noteq> {} \<longrightarrow> readopen pi \<and> length (contents pi) = PIPESIZE) \<and>
     (rsleep pi \<noteq> {} \<longrightarrow> writeopen pi \<and> contents pi = []) \<and> (wsleep pi = {} \<or> rsleep pi = {})"
  using pipe_reach_wakeful [of True pi W R] by (auto simp: wakeful_def)

theorem pipe_no_lost_wakeup_witness:
  "\<exists>pi. pipe_reach True pi [] [] \<and> rsleep pi = {2} \<and> writeopen pi \<and> contents pi = [] \<and> wsleep pi = {}"
proof -
  let ?i = "pipe_init (replicate 512 0)"
  have "pipe_reach True ?i [] []" by (rule opened) simp
  from waits [OF this, of 2 False 100 1 example_um example_um "?i\<lparr>rsleep := {2}\<rparr>"]
  have i: "pipe_reach True (?i\<lparr>rsleep := {2}\<rparr>) [] []" by (simp add: piperead_def pipe_init_def)
  have "rsleep (?i\<lparr>rsleep := {2}\<rparr>) = {2}" by simp
  with i pipe_no_lost_wakeup [OF i] show ?thesis by (intro exI [of _ "?i\<lparr>rsleep := {2}\<rparr>"] conjI) (assumption | force)+
qed

text \<open>
  C31 (a writer killed in mid-run loses a wakeup). \<^verbatim>\<open>pipewrite\<close> tests \<^verbatim>\<open>killed\<close> before every byte and returns at
  once when the flag is set, without the \<^verbatim>\<open>wakeup\<close> at its end: a reader then sleeps although the pipe holds
  a byte and its write end is still open.
\<close>

theorem pipe_killed_writer:
  "\<exists>pi W. pipe_reach False pi W [] \<and> rsleep pi \<noteq> {} \<and> writeopen pi \<and> contents pi \<noteq> []"
proof -
  let ?i = "(pipe_init (replicate 512 0))\<lparr>rsleep := {2}\<rparr>"
  have "pipe_reach False (pipe_init (replicate 512 0)) [] []" by (rule opened) simp
  from waits [OF this, of 2 False 100 1 example_um example_um ?i]
  have i: "pipe_reach False ?i [] []" by (simp add: piperead_def pipe_init_def)
  have "pipewrite 1 (\<lambda>j. 0 < j) example_um 7 2 0 ?i = (Returns (-1), pipe_put 7 ?i)"
    by (simp add: pipewrite.simps example_um_def pipe_init_def pipe_put_def)
  from writes [OF i this] have r: "pipe_reach False (pipe_put 7 ?i) [7] []"
    by (simp add: pipe_init_def pipe_put_def example_um_def)
  have c: "contents (pipe_put 7 ?i) = [7]" by (simp add: contents_def pipe_count_def pipe_init_def pipe_put_def)
  have "rsleep (pipe_put 7 ?i) \<noteq> {} \<and> writeopen (pipe_put 7 ?i) \<and> contents (pipe_put 7 ?i) \<noteq> []"
    unfolding c by (simp add: pipe_init_def)
  with r show ?thesis by blast
qed

end
