(* ===== verification/Xv6_Locks.thy ===== *)
theory Xv6_Locks
  imports Xv6_Prelude
begin

text \<open>
  Spin locks (\<^verbatim>\<open>kernel/spinlock.c\<close>) and sleep locks (\<^verbatim>\<open>kernel/sleeplock.c\<close>). The spin lock is
  modelled at the grain of its atomic memory accesses and run by any number of CPUs in an
  interleaving step relation. Sleep locks are used by processes; waiting is the outcome
  \<^term>\<open>Sleeps\<close>. Names of locks are debugging aids of the source and are left out.
\<close>

section \<open>Interrupt nesting\<close>

record cpu =
  sie :: bool
  noff :: int
  intena :: bool

definition intr_get :: "cpu \<Rightarrow> bool" where
  "intr_get c = sie c"

definition intr_off :: "cpu \<Rightarrow> cpu" where
  "intr_off c = c\<lparr>sie := False\<rparr>"

definition intr_on :: "cpu \<Rightarrow> cpu" where
  "intr_on c = c\<lparr>sie := True\<rparr>"

definition push_off :: "cpu \<Rightarrow> cpu" where
  "push_off c =
     (let old = intr_get c;
          c1 = intr_off c;
          c2 = (if noff c1 = 0 then c1\<lparr>intena := old\<rparr> else c1)
      in c2\<lparr>noff := noff c2 + 1\<rparr>)"

definition pop_off :: "cpu \<Rightarrow> cpu outcome" where
  "pop_off c =
     (if intr_get c then Panic ''pop_off - interruptible''
      else if noff c < 1 then Panic ''pop_off''
      else let c1 = c\<lparr>noff := noff c - 1\<rparr> in
        Ok (if noff c1 = 0 \<and> intena c1 then intr_on c1 else c1))"

section \<open>Spin locks\<close>

text \<open>The \<^verbatim>\<open>cpu\<close> pointer of a lock is a CPU number, or nothing for the null pointer.\<close>

record spinlock =
  slocked :: bool
  scpu :: "nat option"

definition initlock :: spinlock where
  "initlock = \<lparr>slocked = False, scpu = None\<rparr>"

definition holding :: "nat \<Rightarrow> spinlock \<Rightarrow> bool" where
  "holding me lk \<longleftrightarrow> slocked lk \<and> scpu lk = Some me"

text \<open>
  \<^verbatim>\<open>acquire\<close> is its entry (interrupts off, no double acquire), the atomic swap, and the note of the
  holder; \<^verbatim>\<open>release\<close> is the check with the clearing of the holder, and the atomic store followed by
  \<^verbatim>\<open>pop_off\<close>.
\<close>

definition acquire_enter :: "nat \<Rightarrow> spinlock \<Rightarrow> cpu \<Rightarrow> cpu outcome" where
  "acquire_enter me lk c =
     (let c1 = push_off c in if holding me lk then Panic ''acquire'' else Ok c1)"

definition test_and_set :: "spinlock \<Rightarrow> bool \<times> spinlock" where
  "test_and_set lk = (slocked lk, lk\<lparr>slocked := True\<rparr>)"

definition acquire_note :: "nat \<Rightarrow> spinlock \<Rightarrow> spinlock" where
  "acquire_note me lk = lk\<lparr>scpu := Some me\<rparr>"

definition release_enter :: "nat \<Rightarrow> spinlock \<Rightarrow> spinlock outcome" where
  "release_enter me lk =
     (if \<not> holding me lk then Panic ''release'' else Ok (lk\<lparr>scpu := None\<rparr>))"

definition lock_release :: "spinlock \<Rightarrow> spinlock" where
  "lock_release lk = lk\<lparr>slocked := False\<rparr>"

text \<open>Uninterrupted \<^verbatim>\<open>acquire\<close> and \<^verbatim>\<open>release\<close>; a taken lock makes \<^verbatim>\<open>acquire\<close> spin, here \<open>Sleeps\<close>.\<close>

definition acquire :: "nat \<Rightarrow> spinlock \<Rightarrow> cpu \<Rightarrow> (spinlock \<times> cpu) outcome" where
  "acquire me lk c =
     obind (acquire_enter me lk c) (\<lambda>c1.
       case test_and_set lk of (old, lk1) \<Rightarrow>
         if old then Sleeps else Ok (acquire_note me lk1, c1))"

definition release :: "nat \<Rightarrow> spinlock \<Rightarrow> cpu \<Rightarrow> (spinlock \<times> cpu) outcome" where
  "release me lk c =
     obind (release_enter me lk) (\<lambda>lk1.
     obind (pop_off c) (\<lambda>c1. Ok (lock_release lk1, c1)))"

section \<open>CPUs contending for one lock\<close>

text \<open>
  Each CPU is outside, spinning at the swap, past the swap, in its critical section, or past the
  clearing of the holder. Outside, a CPU may also nest \<^verbatim>\<open>push_off\<close> and \<^verbatim>\<open>pop_off\<close> for other locks or switch its
  interrupts.
\<close>

datatype position = Outside | Spinning | Taken | Critical | Leaving

record lock_sys =
  lk :: spinlock
  cpus :: "nat \<Rightarrow> cpu"
  position :: "nat \<Rightarrow> position"
  panicked :: bool

abbreviation (input) set_cpu :: "nat \<Rightarrow> cpu \<Rightarrow> position \<Rightarrow> lock_sys \<Rightarrow> lock_sys" where
  "set_cpu i c p s \<equiv> s\<lparr>cpus := (cpus s)(i := c), position := (position s)(i := p)\<rparr>"

inductive lock_step :: "lock_sys \<Rightarrow> lock_sys \<Rightarrow> bool" where
  enter: "position s i = Outside \<Longrightarrow> acquire_enter i (lk s) (cpus s i) = Ok c \<Longrightarrow>
    lock_step s (set_cpu i c Spinning s)"
| enter_panic: "position s i = Outside \<Longrightarrow> acquire_enter i (lk s) (cpus s i) = Panic e \<Longrightarrow>
    lock_step s (s\<lparr>panicked := True\<rparr>)"
| spin: "position s i = Spinning \<Longrightarrow> test_and_set (lk s) = (True, l) \<Longrightarrow>
    lock_step s (s\<lparr>lk := l\<rparr>)"
| take: "position s i = Spinning \<Longrightarrow> test_and_set (lk s) = (False, l) \<Longrightarrow>
    lock_step s (set_cpu i (cpus s i) Taken (s\<lparr>lk := l\<rparr>))"
| note_holder: "position s i = Taken \<Longrightarrow>
    lock_step s (set_cpu i (cpus s i) Critical (s\<lparr>lk := acquire_note i (lk s)\<rparr>))"
| leave: "position s i = Critical \<Longrightarrow> release_enter i (lk s) = Ok l \<Longrightarrow>
    lock_step s (set_cpu i (cpus s i) Leaving (s\<lparr>lk := l\<rparr>))"
| leave_panic: "position s i = Critical \<Longrightarrow> release_enter i (lk s) = Panic e \<Longrightarrow>
    lock_step s (s\<lparr>panicked := True\<rparr>)"
| drop: "position s i = Leaving \<Longrightarrow> pop_off (cpus s i) = Ok c \<Longrightarrow>
    lock_step s (set_cpu i c Outside (s\<lparr>lk := lock_release (lk s)\<rparr>))"
| drop_panic: "position s i = Leaving \<Longrightarrow> pop_off (cpus s i) = Panic e \<Longrightarrow>
    lock_step s (s\<lparr>panicked := True\<rparr>)"
| nest: "position s i \<in> {Outside, Critical} \<Longrightarrow>
    lock_step s (set_cpu i (push_off (cpus s i)) (position s i) s)"
| unnest: "position s i = Outside \<Longrightarrow> 0 < noff (cpus s i) \<Longrightarrow> pop_off (cpus s i) = Ok c \<Longrightarrow>
    lock_step s (set_cpu i c Outside s)"
| unnest_critical: "position s i = Critical \<Longrightarrow> 1 < noff (cpus s i) \<Longrightarrow> pop_off (cpus s i) = Ok c \<Longrightarrow>
    lock_step s (set_cpu i c Critical s)"
| interrupts: "position s i = Outside \<Longrightarrow> noff (cpus s i) = 0 \<Longrightarrow>
    lock_step s (set_cpu i ((cpus s i)\<lparr>sie := b\<rparr>) Outside s)"

inductive lock_reach :: "lock_sys \<Rightarrow> bool" where
  boot: "lk s = initlock \<Longrightarrow> (\<And>i. position s i = Outside) \<Longrightarrow> (\<And>i. noff (cpus s i) = 0) \<Longrightarrow>
    \<not> panicked s \<Longrightarrow> lock_reach s"
| step: "lock_reach s \<Longrightarrow> lock_step s t \<Longrightarrow> lock_reach t"

inductive_cases lock_stepE: "lock_step s t"

section \<open>Sleep locks\<close>

record sleeplock =
  locked :: bool
  pid :: i32

definition initsleeplock :: sleeplock where
  "initsleeplock = \<lparr>locked = False, pid = 0\<rparr>"

definition acquiresleep :: "i32 \<Rightarrow> sleeplock \<Rightarrow> sleeplock outcome" where
  "acquiresleep me l = (if locked l then Sleeps else Ok (l\<lparr>locked := True, pid := me\<rparr>))"

definition releasesleep :: "sleeplock \<Rightarrow> sleeplock" where
  "releasesleep l = l\<lparr>locked := False, pid := 0\<rparr>"

definition holdingsleep :: "i32 \<Rightarrow> sleeplock \<Rightarrow> bool" where
  "holdingsleep me l \<longleftrightarrow> locked l \<and> pid l = me"

section \<open>Lemmas\<close>

lemma push_off_simps [simp]:
  "sie (push_off c) = False" "noff (push_off c) = noff c + 1"
  "intena (push_off c) = (if noff c = 0 then sie c else intena c)"
  by (simp_all add: push_off_def intr_off_def intr_get_def Let_def)

lemma pop_off_Ok:
  "pop_off c = Ok c' \<Longrightarrow> \<not> sie c \<and> 1 \<le> noff c \<and> noff c' = noff c - 1 \<and> intena c' = intena c \<and>
     sie c' = (noff c = 1 \<and> intena c)"
  by (auto simp: pop_off_def intr_get_def intr_on_def Let_def split: if_splits)

lemma pop_off_returns: "\<not> sie c \<Longrightarrow> 1 \<le> noff c \<Longrightarrow> \<exists>c'. pop_off c = Ok c'"
  by (simp add: pop_off_def intr_get_def Let_def)

text \<open>Interrupts are off whenever the nesting depth is positive; inside, the depth is positive.\<close>

definition cpu_ok :: "position \<Rightarrow> cpu \<Rightarrow> bool" where
  "cpu_ok p c \<longleftrightarrow> 0 \<le> noff c \<and> (0 < noff c \<longrightarrow> \<not> sie c) \<and> (p \<noteq> Outside \<longrightarrow> 0 < noff c)"

definition inside :: "lock_sys \<Rightarrow> nat \<Rightarrow> bool" where
  "inside s i \<longleftrightarrow> position s i \<in> {Taken, Critical, Leaving}"

definition lock_inv :: "lock_sys \<Rightarrow> bool" where
  "lock_inv s \<longleftrightarrow> \<not> panicked s \<and> (\<forall>i. cpu_ok (position s i) (cpus s i)) \<and>
     (\<forall>i j. inside s i \<longrightarrow> inside s j \<longrightarrow> i = j) \<and>
     (slocked (lk s) \<longleftrightarrow> (\<exists>i. inside s i)) \<and>
     (\<forall>i. scpu (lk s) = Some i \<longleftrightarrow> position s i = Critical)"

lemma lock_invD:
  assumes "lock_inv s"
  shows "\<not> panicked s" and "cpu_ok (position s i) (cpus s i)"
    and "inside s i \<Longrightarrow> inside s j \<Longrightarrow> i = j" and "slocked (lk s) \<longleftrightarrow> (\<exists>i. inside s i)"
    and "scpu (lk s) = Some i \<longleftrightarrow> position s i = Critical"
  using assms unfolding lock_inv_def by blast+

lemma lock_invI:
  assumes "\<not> panicked s" and "\<And>i. cpu_ok (position s i) (cpus s i)"
    and "\<And>i j. inside s i \<Longrightarrow> inside s j \<Longrightarrow> i = j" and "slocked (lk s) \<longleftrightarrow> (\<exists>i. inside s i)"
    and "\<And>i. scpu (lk s) = Some i \<longleftrightarrow> position s i = Critical"
  shows "lock_inv s"
  using assms unfolding lock_inv_def by blast

lemmas lock_op_defs = acquire_enter_def test_and_set_def acquire_note_def release_enter_def
  lock_release_def holding_def

lemma acquire_enter_ok:
  assumes "lock_inv s" and "position s i = Outside"
  shows "acquire_enter i (lk s) (cpus s i) = Ok (push_off (cpus s i))"
  using lock_invD(5) [OF assms(1), of i] assms(2) by (simp add: lock_op_defs Let_def)

lemma release_enter_ok:
  assumes "lock_inv s" and "position s i = Critical"
  shows "release_enter i (lk s) = Ok ((lk s)\<lparr>scpu := None\<rparr>)"
proof -
  have "inside s i" using assms(2) by (simp add: inside_def)
  then show ?thesis using lock_invD(4,5) [OF assms(1)] assms(2) by (auto simp: lock_op_defs)
qed

lemma leaving_pop_ok:
  assumes "lock_inv s" and "position s i = Leaving"
  shows "\<exists>c. pop_off (cpus s i) = Ok c"
  using lock_invD(2) [OF assms(1), of i] assms(2) by (intro pop_off_returns) (auto simp: cpu_ok_def)

lemma inside_set_cpu: "inside (set_cpu i c p s) j \<longleftrightarrow> (if j = i then p \<in> {Taken, Critical, Leaving} else inside s j)"
  by (auto simp: inside_def)

lemma inside_lk [simp]: "inside (s\<lparr>lk := l\<rparr>) j = inside s j"
  by (simp add: inside_def)

text \<open>A CPU outside or in its critical section changes only its own interrupt state.\<close>

lemma lock_inv_set_cpu:
  assumes "lock_inv s" and "cpu_ok p c" and "p = position s i \<or> position s i = Outside \<and> p = Spinning"
  shows "lock_inv (set_cpu i c p s)"
proof (rule lock_invI)
  note D = lock_invD [OF assms(1)]
  have ins: "inside (set_cpu i c p s) j = inside s j" for j
    using assms(3) by (auto simp: inside_def)
  show "\<not> panicked (set_cpu i c p s)" using D(1) by simp
  show "cpu_ok (position (set_cpu i c p s) j) (cpus (set_cpu i c p s) j)" for j
    using D(2) [of j] assms(2) by simp
  show "j = k" if "inside (set_cpu i c p s) j" "inside (set_cpu i c p s) k" for j k
    using D(3) that unfolding ins by blast
  show "slocked (lk (set_cpu i c p s)) = (\<exists>j. inside (set_cpu i c p s) j)" unfolding ins using D(4) by simp
  show "(scpu (lk (set_cpu i c p s)) = Some j) = (position (set_cpu i c p s) j = Critical)" for j
    using D(5) [of j] assms(3) by auto
qed

text \<open>Moving between the inside positions, with the lock word and holder updated accordingly.\<close>

lemma lock_inv_move:
  assumes "lock_inv s" and "cpu_ok p c" and "inside s i \<or> (\<forall>j. \<not> inside s j)"
    and "slocked l \<longleftrightarrow> p \<in> {Taken, Critical, Leaving}"
    and "scpu l = (if p = Critical then Some i else None)"
  shows "lock_inv (set_cpu i c p (s\<lparr>lk := l\<rparr>))"
proof (rule lock_invI)
  note D = lock_invD [OF assms(1)]
  have ins: "inside (set_cpu i c p (s\<lparr>lk := l\<rparr>)) j \<longleftrightarrow> j = i \<and> p \<in> {Taken, Critical, Leaving}" for j
    using assms(3) D(3) [of i j] unfolding inside_set_cpu by auto
  show "\<not> panicked (set_cpu i c p (s\<lparr>lk := l\<rparr>))" using D(1) by simp
  show "cpu_ok (position (set_cpu i c p (s\<lparr>lk := l\<rparr>)) j) (cpus (set_cpu i c p (s\<lparr>lk := l\<rparr>)) j)" for j
    using D(2) [of j] assms(2) by simp
  show "j = k" if "inside (set_cpu i c p (s\<lparr>lk := l\<rparr>)) j" "inside (set_cpu i c p (s\<lparr>lk := l\<rparr>)) k" for j k
    using that unfolding ins by simp
  show "slocked (lk (set_cpu i c p (s\<lparr>lk := l\<rparr>))) = (\<exists>j. inside (set_cpu i c p (s\<lparr>lk := l\<rparr>)) j)"
    unfolding ins using assms(4) by simp
  have "position s j \<noteq> Critical" if "j \<noteq> i" for j
    using that assms(3) D(3) [of i j] by (auto simp: inside_def)
  then show "(scpu (lk (set_cpu i c p (s\<lparr>lk := l\<rparr>))) = Some j) = (position (set_cpu i c p (s\<lparr>lk := l\<rparr>)) j = Critical)" for j
    using assms(5) by auto
qed

lemma lock_step_inv:
  assumes "lock_step s t" and "lock_inv s"
  shows "lock_inv t"
  using assms(1)
proof cases
  case (enter i c)
  then show ?thesis using acquire_enter_ok [OF assms(2)] lock_invD(2) [OF assms(2), of i]
    by (auto intro!: lock_inv_set_cpu [OF assms(2)] simp: cpu_ok_def)
next
  case (enter_panic i e)
  then show ?thesis using acquire_enter_ok [OF assms(2)] by simp
next
  case (spin i l)
  then have "l = lk s" by (cases "lk s") (auto simp: test_and_set_def)
  then show ?thesis using spin assms(2) by simp
next
  case (take i l)
  have free: "\<forall>j. \<not> inside s j" using lock_invD(4) [OF assms(2)] take by (auto simp: test_and_set_def)
  then have "scpu (lk s) = None"
    using lock_invD(5) [OF assms(2)] by (metis inside_def insertI1 insertI2 not_None_eq)
  then show ?thesis unfolding take(1) using take(2,3) free lock_invD(2) [OF assms(2), of i]
    by (intro lock_inv_move [OF assms(2)]) (auto simp: test_and_set_def cpu_ok_def)
next
  case (note_holder i)
  have ins: "inside s i" using note_holder by (simp add: inside_def)
  then have "slocked (lk s)" using lock_invD(4) [OF assms(2)] by blast
  then show ?thesis unfolding note_holder(1) using note_holder(2) ins lock_invD(2) [OF assms(2), of i]
    by (intro lock_inv_move [OF assms(2)]) (auto simp: acquire_note_def cpu_ok_def)
next
  case (leave i l)
  have ins: "inside s i" using leave by (simp add: inside_def)
  then have "slocked (lk s)" using lock_invD(4) [OF assms(2)] by blast
  moreover have "l = (lk s)\<lparr>scpu := None\<rparr>" using leave release_enter_ok [OF assms(2)] by simp
  ultimately show ?thesis unfolding leave(1) using leave(2) ins lock_invD(2) [OF assms(2), of i]
    by (intro lock_inv_move [OF assms(2)]) (auto simp: cpu_ok_def)
next
  case (leave_panic i e)
  then show ?thesis using release_enter_ok [OF assms(2)] by simp
next
  case (drop i c)
  have ins: "inside s i" using drop by (simp add: inside_def)
  have "scpu (lk s) = None"
    using lock_invD(3,5) [OF assms(2)] ins drop(2)
    by (metis inside_def insertI1 insertI2 not_None_eq position.distinct(19))
  then show ?thesis unfolding drop(1) using drop(2,3) ins lock_invD(2) [OF assms(2), of i] pop_off_Ok [OF drop(3)]
    by (intro lock_inv_move [OF assms(2)]) (auto simp: lock_release_def cpu_ok_def)
next
  case (drop_panic i e)
  then show ?thesis using leaving_pop_ok [OF assms(2)] by force
next
  case (nest i)
  then show ?thesis unfolding nest(1) using lock_invD(2) [OF assms(2), of i]
    by (intro lock_inv_set_cpu [OF assms(2)]) (auto simp: cpu_ok_def)
next
  case (unnest i c)
  then show ?thesis using lock_invD(2) [OF assms(2), of i] pop_off_Ok [OF unnest(4)]
    by (auto intro!: lock_inv_set_cpu [OF assms(2)] simp: cpu_ok_def)
next
  case (unnest_critical i c)
  then show ?thesis using lock_invD(2) [OF assms(2), of i] pop_off_Ok [OF unnest_critical(4)]
    by (auto intro!: lock_inv_set_cpu [OF assms(2)] simp: cpu_ok_def)
next
  case (interrupts i b)
  then show ?thesis using lock_invD(2) [OF assms(2), of i]
    by (auto intro!: lock_inv_set_cpu [OF assms(2)] simp: cpu_ok_def)
qed

lemma lock_reach_inv: "lock_reach s \<Longrightarrow> lock_inv s"
proof (induction rule: lock_reach.induct)
  case (boot s)
  then show ?case by (auto simp: lock_inv_def cpu_ok_def inside_def initlock_def)
next
  case (step s t)
  then show ?case using lock_step_inv by blast
qed


section \<open>Properties\<close>

text \<open>
  C5 (spin lock). However \<^verbatim>\<open>acquire\<close> and \<^verbatim>\<open>release\<close> of one lock interleave on any number of CPUs, no
  CPU panics, at most one CPU is past the atomic swap, \<^verbatim>\<open>holding\<close> is true exactly on the CPU in its
  critical section, and a CPU spinning for or holding the lock has interrupts off.
\<close>

theorem spinlock_mutual_exclusion:
  assumes "lock_reach s"
  shows "\<not> panicked s \<and> (\<forall>i j. inside s i \<longrightarrow> inside s j \<longrightarrow> i = j) \<and>
    (\<forall>i. holding i (lk s) \<longleftrightarrow> position s i = Critical) \<and>
    (\<forall>i. position s i \<noteq> Outside \<longrightarrow> \<not> sie (cpus s i))"
proof -
  note D = lock_invD [OF lock_reach_inv [OF assms]]
  have "holding i (lk s) \<longleftrightarrow> position s i = Critical" for i
    using D(4) D(5) [of i] by (auto simp: holding_def inside_def)
  moreover have "position s i \<noteq> Outside \<longrightarrow> \<not> sie (cpus s i)" for i using D(2) [of i] by (auto simp: cpu_ok_def)
  ultimately show ?thesis using D(1,3) by blast
qed

definition example_boot :: lock_sys where
  "example_boot = \<lparr>lk = initlock, cpus = (\<lambda>_. \<lparr>sie = True, noff = 0, intena = False\<rparr>),
     position = (\<lambda>_. Outside), panicked = False\<rparr>"

text \<open>CPU 0 enters its critical section while CPU 1 spins.\<close>

theorem spinlock_mutual_exclusion_witness:
  "\<exists>s. lock_reach s \<and> position s 0 = Critical \<and> position s 1 = Spinning \<and> holding 0 (lk s) \<and>
     \<not> holding 1 (lk s) \<and> \<not> sie (cpus s 1)"
proof -
  let ?c = "push_off \<lparr>sie = True, noff = 0, intena = False\<rparr>"
  let ?s1 = "set_cpu 0 ?c Spinning example_boot"
  let ?s2 = "set_cpu 1 ?c Spinning ?s1"
  let ?s3 = "set_cpu 0 ?c Taken (?s2\<lparr>lk := initlock\<lparr>slocked := True\<rparr>\<rparr>)"
  let ?s4 = "set_cpu 0 ?c Critical (?s3\<lparr>lk := acquire_note 0 (lk ?s3)\<rparr>)"
  have "lock_reach example_boot" by (rule lock_reach.boot) (simp_all add: example_boot_def)
  moreover have "lock_step example_boot ?s1"
    by (rule lock_step.enter) (simp_all add: example_boot_def lock_op_defs initlock_def Let_def)
  moreover have "lock_step ?s1 ?s2"
    by (rule lock_step.enter) (simp_all add: example_boot_def lock_op_defs initlock_def Let_def)
  moreover have "lock_step ?s2 ?s3"
    using lock_step.take [of ?s2 0 "initlock\<lparr>slocked := True\<rparr>"]
    by (simp add: example_boot_def lock_op_defs initlock_def)
  moreover have "lock_step ?s3 ?s4"
    using lock_step.note_holder [of ?s3 0] by simp
  ultimately have r: "lock_reach ?s4" by (meson lock_reach.step)
  moreover have "position ?s4 0 = Critical" "position ?s4 1 = Spinning" by simp_all
  ultimately show ?thesis
    using spinlock_mutual_exclusion [OF r] by (intro exI [of _ ?s4]) simp
qed

primrec pop_off_times :: "nat \<Rightarrow> cpu \<Rightarrow> cpu outcome" where
  "pop_off_times 0 c = Ok c"
| "pop_off_times (Suc n) c = obind (pop_off c) (pop_off_times n)"

lemma push_off_times:
  "0 \<le> noff c \<Longrightarrow> noff ((push_off ^^ n) c) = noff c + int n \<and> (0 < n \<longrightarrow> \<not> sie ((push_off ^^ n) c)) \<and>
     (0 < n \<longrightarrow> intena ((push_off ^^ n) c) = (if noff c = 0 then sie c else intena c))"
  by (induction n) auto

lemma pop_off_times_ok:
  assumes "\<not> sie c" and "noff c = k + int n" and "0 \<le> k" and "0 < n"
  shows "\<exists>c'. pop_off_times n c = Ok c' \<and> noff c' = k \<and> (sie c' \<longleftrightarrow> k = 0 \<and> intena c)"
  using assms
proof (induction n arbitrary: c)
  case (Suc n)
  then obtain c1 where c1: "pop_off c = Ok c1" using pop_off_returns [of c] by auto
  note P = pop_off_Ok [OF c1]
  show ?case
  proof (cases "n = 0")
    case True
    then show ?thesis using P c1 Suc.prems by auto
  next
    case False
    then have "\<exists>c'. pop_off_times n c1 = Ok c' \<and> noff c' = k \<and> (sie c' \<longleftrightarrow> k = 0 \<and> intena c1)"
      using P Suc.prems by (intro Suc.IH) auto
    then show ?thesis using c1 P by auto
  qed
qed simp



end
