(* ===== verification/Xv6_Bio.thy ===== *)
theory Xv6_Bio
  imports Xv6_Locks
begin

text \<open>
  The buffer cache (\<^verbatim>\<open>kernel/bio.c\<close>): the ring of \<^verbatim>\<open>NBUF\<close> buffers through \<^verbatim>\<open>prev\<close>/\<^verbatim>\<open>next\<close>, the operations
  on it over an arbitrary block device, the contract the cache expects of the device driver, and the
  refinement of the cache to an abstract map from block numbers to contents and reference counts.
\<close>

section \<open>Model\<close>

abbreviation (input) NBUF :: nat where "NBUF \<equiv> 30"
abbreviation (input) BSIZE :: nat where "BSIZE \<equiv> 1024"

record buf =
  valid :: bool
  bdev :: u32
  blockno :: u32
  block :: sleeplock
  refcnt :: u32
  prev :: nat
  nxt :: nat
  data :: "u8 list"

text \<open>
  A buffer pointer is an index: \<open>0..<NBUF\<close> for \<^verbatim>\<open>bcache.buf\<close>, \<open>NBUF\<close> for \<^verbatim>\<open>bcache.head\<close>. The device state is
  of any type; the driver is a function \<open>rw\<close> with the arguments write flag, block number, data and
  device state. \<^verbatim>\<open>bcache.lock\<close> makes the list manipulations atomic.
\<close>

record 'd bcache =
  bufs :: "nat \<Rightarrow> buf"
  dsk :: 'd

type_synonym 'd driver = "bool \<Rightarrow> u32 \<Rightarrow> u8 list \<Rightarrow> 'd \<Rightarrow> (u8 list \<times> 'd) outcome"

definition upd :: "nat \<Rightarrow> (buf \<Rightarrow> buf) \<Rightarrow> 'd bcache \<Rightarrow> 'd bcache" where
  "upd i f st = st\<lparr>bufs := (bufs st)(i := f (bufs st i))\<rparr>"

definition link_front :: "nat \<Rightarrow> 'd bcache \<Rightarrow> 'd bcache" where
  "link_front b st = (let
     st = upd b (nxt_update (\<lambda>_. nxt (bufs st NBUF))) st;
     st = upd b (prev_update (\<lambda>_. NBUF)) st;
     st = upd (nxt (bufs st NBUF)) (prev_update (\<lambda>_. b)) st
   in upd NBUF (nxt_update (\<lambda>_. b)) st)"

definition binit :: "'d bcache \<Rightarrow> 'd bcache" where
  "binit st = (let
     st = upd NBUF (prev_update (\<lambda>_. NBUF)) st;
     st = upd NBUF (nxt_update (\<lambda>_. NBUF)) st
   in fold (\<lambda>b st. upd b (block_update (\<lambda>_. initsleeplock)) (link_front b st)) [0..<NBUF] st)"

partial_function (option) find_cached :: "(nat \<Rightarrow> buf) \<Rightarrow> u32 \<Rightarrow> u32 \<Rightarrow> nat \<Rightarrow> nat option option" where
  "find_cached bs dev bn b = (if b = NBUF then Some None
     else if bdev (bs b) = dev \<and> blockno (bs b) = bn then Some (Some b)
     else find_cached bs dev bn (nxt (bs b)))"

partial_function (option) find_unused :: "(nat \<Rightarrow> buf) \<Rightarrow> nat \<Rightarrow> nat option option" where
  "find_unused bs b = (if b = NBUF then Some None
     else if refcnt (bs b) = 0 then Some (Some b)
     else find_unused bs (prev (bs b)))"

definition bget :: "i32 \<Rightarrow> u32 \<Rightarrow> u32 \<Rightarrow> 'd bcache \<Rightarrow> (nat \<times> 'd bcache) outcome" where
  "bget me dev bn st = obind (of_loop (find_cached (bufs st) dev bn (nxt (bufs st NBUF)))) (\<lambda>c.
     case c of
       Some b \<Rightarrow>
         let st = upd b (\<lambda>x. x\<lparr>refcnt := refcnt x + 1\<rparr>) st in
         obind (acquiresleep me (block (bufs st b))) (\<lambda>l. Ok (b, upd b (block_update (\<lambda>_. l)) st))
     | None \<Rightarrow> obind (of_loop (find_unused (bufs st) (prev (bufs st NBUF)))) (\<lambda>c.
         case c of
           Some b \<Rightarrow>
             let st = upd b (\<lambda>x. x\<lparr>bdev := dev, blockno := bn, valid := False, refcnt := 1\<rparr>) st in
             obind (acquiresleep me (block (bufs st b))) (\<lambda>l. Ok (b, upd b (block_update (\<lambda>_. l)) st))
         | None \<Rightarrow> Panic ''bget: no buffers''))"

definition disk_rw :: "'d driver \<Rightarrow> nat \<Rightarrow> bool \<Rightarrow> 'd bcache \<Rightarrow> 'd bcache outcome" where
  "disk_rw rw b write st = obind (rw write (blockno (bufs st b)) (data (bufs st b)) (dsk st))
     (\<lambda>(d, k). Ok (upd b (data_update (\<lambda>_. d)) (st\<lparr>dsk := k\<rparr>)))"

definition bread :: "'d driver \<Rightarrow> i32 \<Rightarrow> u32 \<Rightarrow> u32 \<Rightarrow> 'd bcache \<Rightarrow> (nat \<times> 'd bcache) outcome" where
  "bread rw me dev bn st = obind (bget me dev bn st) (\<lambda>(b, st).
     if \<not> valid (bufs st b)
     then obind (disk_rw rw b False st) (\<lambda>st. Ok (b, upd b (valid_update (\<lambda>_. True)) st))
     else Ok (b, st))"

definition bwrite :: "'d driver \<Rightarrow> i32 \<Rightarrow> nat \<Rightarrow> 'd bcache \<Rightarrow> 'd bcache outcome" where
  "bwrite rw me b st = (if \<not> holdingsleep me (block (bufs st b)) then Panic ''bwrite''
     else disk_rw rw b True st)"

definition unlink :: "nat \<Rightarrow> 'd bcache \<Rightarrow> 'd bcache" where
  "unlink b st = (let
     st = upd (nxt (bufs st b)) (prev_update (\<lambda>_. prev (bufs st b))) st
   in upd (prev (bufs st b)) (nxt_update (\<lambda>_. nxt (bufs st b))) st)"

definition brelse :: "i32 \<Rightarrow> nat \<Rightarrow> 'd bcache \<Rightarrow> 'd bcache outcome" where
  "brelse me b st = (if \<not> holdingsleep me (block (bufs st b)) then Panic ''brelse''
     else let
       st = upd b (block_update releasesleep) st;
       st = upd b (\<lambda>x. x\<lparr>refcnt := refcnt x - 1\<rparr>) st
     in if refcnt (bufs st b) = 0 then Ok (link_front b (unlink b st)) else Ok st)"

definition bpin :: "nat \<Rightarrow> 'd bcache \<Rightarrow> 'd bcache" where
  "bpin b st = upd b (\<lambda>x. x\<lparr>refcnt := refcnt x + 1\<rparr>) st"

definition bunpin :: "nat \<Rightarrow> 'd bcache \<Rightarrow> 'd bcache" where
  "bunpin b st = upd b (\<lambda>x. x\<lparr>refcnt := refcnt x - 1\<rparr>) st"

text \<open>Writing into the data of a buffer the caller holds (\<^verbatim>\<open>memmove\<close> and stores through \<^verbatim>\<open>b->data\<close>).\<close>

definition set_data :: "nat \<Rightarrow> u8 list \<Rightarrow> 'd bcache \<Rightarrow> 'd bcache" where
  "set_data b d st = upd b (data_update (\<lambda>_. d)) st"

section \<open>The ring of buffers\<close>

text \<open>\<open>seg bs x L z\<close>: following \<^verbatim>\<open>next\<close> from \<open>x\<close> visits \<open>L\<close> and then \<open>z\<close>, and \<^verbatim>\<open>prev\<close> goes back the same way.\<close>

primrec seg :: "(nat \<Rightarrow> buf) \<Rightarrow> nat \<Rightarrow> nat list \<Rightarrow> nat \<Rightarrow> bool" where
  "seg bs x [] z \<longleftrightarrow> nxt (bs x) = z \<and> prev (bs z) = x"
| "seg bs x (y # ys) z \<longleftrightarrow> nxt (bs x) = y \<and> prev (bs y) = x \<and> seg bs y ys z"

definition ring :: "(nat \<Rightarrow> buf) \<Rightarrow> nat list \<Rightarrow> bool" where
  "ring bs L \<longleftrightarrow> seg bs NBUF L NBUF \<and> distinct L \<and> set L = {..<NBUF}"

lemma seg_append: "seg bs x (ys @ y # zs) z \<longleftrightarrow> seg bs x ys y \<and> seg bs y zs z"
  by (induction ys arbitrary: x) auto

lemma seg_first: "seg bs x L z \<Longrightarrow> nxt (bs x) = hd (L @ [z])"
  by (cases L) auto

lemma seg_final: "seg bs x L z \<Longrightarrow> prev (bs z) = last (x # L)"
  by (induction L arbitrary: x) auto

lemma seg_cong:
  assumes "\<And>y. y \<in> insert x (set L) \<Longrightarrow> nxt (bs' y) = nxt (bs y)"
    and "\<And>y. y \<in> insert z (set L) \<Longrightarrow> prev (bs' y) = prev (bs y)"
  shows "seg bs' x L z \<longleftrightarrow> seg bs x L z"
  using assms by (induction L arbitrary: x) auto

lemma upd_simps [simp]:
  "bufs (upd i f st) = (bufs st)(i := f (bufs st i))" "dsk (upd i f st) = dsk st"
  by (simp_all add: upd_def)


lemma link_front_fields [simp]:
  "valid (bufs (link_front b st) i) = valid (bufs st i)" "bdev (bufs (link_front b st) i) = bdev (bufs st i)"
  "blockno (bufs (link_front b st) i) = blockno (bufs st i)" "block (bufs (link_front b st) i) = block (bufs st i)"
  "refcnt (bufs (link_front b st) i) = refcnt (bufs st i)" "data (bufs (link_front b st) i) = data (bufs st i)"
  "dsk (link_front b st) = dsk st"
  by (simp_all add: link_front_def Let_def)

lemma unlink_fields [simp]:
  "valid (bufs (unlink b st) i) = valid (bufs st i)" "bdev (bufs (unlink b st) i) = bdev (bufs st i)"
  "blockno (bufs (unlink b st) i) = blockno (bufs st i)" "block (bufs (unlink b st) i) = block (bufs st i)"
  "refcnt (bufs (unlink b st) i) = refcnt (bufs st i)" "data (bufs (unlink b st) i) = data (bufs st i)"
  "dsk (unlink b st) = dsk st"
  by (simp_all add: unlink_def Let_def)

lemma link_front_links:
  assumes "b \<noteq> NBUF" and "nxt (bufs st NBUF) \<noteq> b"
  shows "nxt (bufs (link_front b st) i) =
      (if i = NBUF then b else if i = b then nxt (bufs st NBUF) else nxt (bufs st i))"
    and "prev (bufs (link_front b st) i) =
      (if i = nxt (bufs st NBUF) then b else if i = b then NBUF else prev (bufs st i))"
  using assms by (auto simp: link_front_def Let_def)

lemma unlink_links:
  assumes "prev (bufs st b) \<noteq> b" and "nxt (bufs st b) \<noteq> b"
  shows "nxt (bufs (unlink b st) i) = (if i = prev (bufs st b) then nxt (bufs st b) else nxt (bufs st i))"
    and "prev (bufs (unlink b st) i) = (if i = nxt (bufs st b) then prev (bufs st b) else prev (bufs st i))"
  using assms by (auto simp: unlink_def Let_def)

lemma seg_link:
  assumes "seg (bufs st) NBUF L NBUF" and "b \<notin> set L" and "b \<noteq> NBUF" and "NBUF \<notin> set L" and "distinct L"
  shows "seg (bufs (link_front b st)) NBUF (b # L) NBUF"
proof (cases L)
  case Nil
  then show ?thesis using assms by (simp add: link_front_links)
next
  case (Cons y ys)
  then have y: "nxt (bufs st NBUF) = y" "y \<noteq> b" using assms by auto
  then have "seg (bufs (link_front b st)) y ys NBUF \<longleftrightarrow> seg (bufs st) y ys NBUF"
    using assms Cons by (intro seg_cong) (auto simp: link_front_links)
  then show ?thesis using assms Cons y by (simp add: link_front_links)
qed

lemma seg_unlink:
  assumes "seg (bufs st) NBUF (A @ b # B) NBUF" and "NBUF \<notin> set (A @ b # B)" and "distinct (A @ b # B)"
  shows "seg (bufs (unlink b st)) NBUF (A @ B) NBUF"
proof -
  let ?t = "bufs (unlink b st)"
  have s: "seg (bufs st) NBUF A b" "seg (bufs st) b B NBUF" using assms(1) by (simp_all add: seg_append)
  have p: "prev (bufs st b) = last (NBUF # A)" by (rule seg_final [OF s(1)])
  have n: "nxt (bufs st b) = hd (B @ [NBUF])" by (rule seg_first [OF s(2)])
  have "prev (bufs st b) \<noteq> b" "nxt (bufs st b) \<noteq> b"
    using assms(2,3) p n by (auto simp: hd_append dest: last_in_set hd_in_set split: if_splits)
  note U = unlink_links [OF this] and pn = p n
  show ?thesis
  proof (cases A rule: rev_cases; cases B)
    assume "A = []" "B = []"
    then show ?thesis using U pn by simp
  next
    fix y ys assume c: "A = []" "B = y # ys"
    have "seg ?t y ys NBUF \<longleftrightarrow> seg (bufs st) y ys NBUF"
      using c assms(2,3) pn by (intro seg_cong) (auto simp: U)
    then show ?thesis using U pn c s by simp
  next
    fix A' q assume c: "A = A' @ [q]" "B = []"
    have "seg ?t NBUF A' q \<longleftrightarrow> seg (bufs st) NBUF A' q"
      using c assms(2,3) pn by (intro seg_cong) (auto simp: U)
    then show ?thesis using U pn c s by (simp add: seg_append)
  next
    fix A' q y ys assume c: "A = A' @ [q]" "B = y # ys"
    have "seg ?t NBUF A' q \<longleftrightarrow> seg (bufs st) NBUF A' q"
      using c assms(2,3) pn by (intro seg_cong) (auto simp: U)
    moreover have "seg ?t y ys NBUF \<longleftrightarrow> seg (bufs st) y ys NBUF"
      using c assms(2,3) pn by (intro seg_cong) (auto simp: U)
    ultimately show ?thesis using U pn c s by (simp add: seg_append)
  qed
qed

lemma ring_move_front:
  assumes "ring (bufs st) L" and "b < NBUF"
  shows "\<exists>L'. ring (bufs (link_front b (unlink b st))) L'"
proof -
  have "b \<in> set L" using assms by (simp add: ring_def)
  then obtain A B where L: "L = A @ b # B" by (auto dest: split_list)
  have seg: "seg (bufs st) NBUF L NBUF" and d: "distinct L" and sl: "set L = {..<NBUF}"
    using assms(1) by (simp_all add: ring_def)
  then have nin: "NBUF \<notin> set L" by simp
  have "seg (bufs (unlink b st)) NBUF (A @ B) NBUF" using seg_unlink [of st A b B] seg d nin L by simp
  then have "seg (bufs (link_front b (unlink b st))) NBUF (b # A @ B) NBUF"
    using d nin L assms(2) by (intro seg_link) auto
  moreover have "distinct (b # A @ B)" "set (b # A @ B) = {..<NBUF}" using d sl L by auto
  ultimately show ?thesis unfolding ring_def by blast
qed

lemma ring_cong:
  "(\<And>i. nxt (bs' i) = nxt (bs i) \<and> prev (bs' i) = prev (bs i)) \<Longrightarrow> ring bs' L \<longleftrightarrow> ring bs L"
  unfolding ring_def by (subst seg_cong [of _ _ bs' bs]) auto

lemma find_cached_seg:
  "seg bs x L NBUF \<Longrightarrow> NBUF \<notin> set L \<Longrightarrow>
     find_cached bs dev bn (nxt (bs x)) = Some (List.find (\<lambda>b. bdev (bs b) = dev \<and> blockno (bs b) = bn) L)"
  by (induction L arbitrary: x) (auto simp: find_cached.simps)

lemma find_unused_seg:
  "seg bs NBUF L z \<Longrightarrow> NBUF \<notin> set L \<Longrightarrow>
     find_unused bs (prev (bs z)) = Some (List.find (\<lambda>b. refcnt (bs b) = 0) (rev L))"
  by (induction L arbitrary: z rule: rev_induct) (auto simp: seg_append find_unused.simps)


lemma binit_ring: "ring (bufs (binit st)) (rev [0..<NBUF])"
proof -
  let ?step = "\<lambda>b st. upd b (block_update (\<lambda>_. initsleeplock)) (link_front b st)"
  have "seg (bufs (fold ?step [0..<n] st)) NBUF (rev [0..<n]) NBUF"
    if "seg (bufs st) NBUF [] NBUF" "n \<le> NBUF" for st :: "'a bcache" and n
    using that(2)
  proof (induction n)
    case (Suc n)
    have s: "seg (bufs (fold ?step [0..<n] st)) NBUF (rev [0..<n]) NBUF" (is "seg (bufs ?t) _ _ _")
      using Suc by simp
    have "seg (bufs (link_front n ?t)) NBUF (n # rev [0..<n]) NBUF"
      using Suc.prems by (intro seg_link [OF s]) auto
    then have "seg (bufs (?step n ?t)) NBUF (n # rev [0..<n]) NBUF"
      by (subst seg_cong [where bs = "bufs (link_front n ?t)"]) auto
    moreover have "fold ?step [0..<Suc n] st = ?step n ?t" "rev [0..<Suc n] = n # rev [0..<n]" by simp_all
    ultimately show ?case by (simp only:)
  qed (use that in simp)
  then have "seg (bufs (binit st)) NBUF (rev [0..<NBUF]) NBUF" by (simp add: binit_def Let_def del: upt_rec_numeral)
  then show ?thesis by (auto simp add: ring_def simp del: upt_rec_numeral)
qed

section \<open>Abstraction\<close>

definition lookup_buf :: "u32 \<Rightarrow> (nat \<Rightarrow> buf) \<Rightarrow> u32 \<Rightarrow> nat option" where
  "lookup_buf D bs bn = List.find (\<lambda>b. bdev (bs b) = D \<and> blockno (bs b) = bn) [0..<NBUF]"

record cache_view =
  aview :: "u32 \<Rightarrow> u8 list"
  adisk :: "u32 \<Rightarrow> u8 list"
  arefs :: "u32 \<Rightarrow> nat"
  aheld :: "u32 \<Rightarrow> i32 option"
  atrace :: "(u32 \<times> u8 list) list"

definition cache_abs ::
  "('d \<Rightarrow> u32 \<Rightarrow> u8 list) \<Rightarrow> ('d \<Rightarrow> (u32 \<times> u8 list) list) \<Rightarrow> u32 \<Rightarrow> 'd bcache \<Rightarrow> cache_view" where
  "cache_abs content trace D st = \<lparr>
     aview = (\<lambda>bn. case lookup_buf D (bufs st) bn of
       Some b \<Rightarrow> if valid (bufs st b) then data (bufs st b) else content (dsk st) bn
     | None \<Rightarrow> content (dsk st) bn),
     adisk = content (dsk st),
     arefs = (\<lambda>bn. case lookup_buf D (bufs st) bn of Some b \<Rightarrow> unat (refcnt (bufs st b)) | None \<Rightarrow> 0),
     aheld = (\<lambda>bn. case lookup_buf D (bufs st) bn of
       Some b \<Rightarrow> if locked (block (bufs st b)) then Some (pid (block (bufs st b))) else None
     | None \<Rightarrow> None),
     atrace = trace (dsk st)\<rparr>"

lemma atrace_abs [simp]: "atrace (cache_abs content trace D st) = trace (dsk st)"
  by (simp add: cache_abs_def)

definition bcache_ok :: "u32 \<Rightarrow> 'd bcache \<Rightarrow> bool" where
  "bcache_ok D st \<longleftrightarrow> (\<exists>L. ring (bufs st) L) \<and>
     (\<forall>i<NBUF. \<forall>j<NBUF. bdev (bufs st i) = D \<and> bdev (bufs st j) = D \<and> blockno (bufs st i) = blockno (bufs st j) \<longrightarrow> i = j) \<and>
     (\<forall>i<NBUF. bdev (bufs st i) \<noteq> D \<longrightarrow> refcnt (bufs st i) = 0) \<and>
     (\<forall>i<NBUF. refcnt (bufs st i) = 0 \<longrightarrow> \<not> locked (block (bufs st i))) \<and>
     (\<forall>i<NBUF. length (data (bufs st i)) = BSIZE)"

text \<open>\<open>handle D st b bn\<close>: the caller may use buffer \<open>b\<close> for block \<open>bn\<close>.\<close>

definition handle :: "u32 \<Rightarrow> 'd bcache \<Rightarrow> nat \<Rightarrow> u32 \<Rightarrow> bool" where
  "handle D st b bn \<longleftrightarrow> b < NBUF \<and> bdev (bufs st b) = D \<and> blockno (bufs st b) = bn \<and>
     valid (bufs st b) \<and> refcnt (bufs st b) \<noteq> 0"

definition cache_clean :: "cache_view \<Rightarrow> bool" where
  "cache_clean v \<longleftrightarrow> (\<forall>bn. arefs v bn = 0 \<longrightarrow> aview v bn = adisk v bn)"

lemma bcache_okD:
  assumes "bcache_ok D st"
  shows "\<exists>L. ring (bufs st) L"
    and "i < NBUF \<Longrightarrow> j < NBUF \<Longrightarrow> bdev (bufs st i) = D \<Longrightarrow> bdev (bufs st j) = D \<Longrightarrow> blockno (bufs st i) = blockno (bufs st j) \<Longrightarrow> i = j"
    and "i < NBUF \<Longrightarrow> bdev (bufs st i) \<noteq> D \<Longrightarrow> refcnt (bufs st i) = 0"
    and "i < NBUF \<Longrightarrow> refcnt (bufs st i) = 0 \<Longrightarrow> \<not> locked (block (bufs st i))"
    and "i < NBUF \<Longrightarrow> length (data (bufs st i)) = BSIZE"
  using assms unfolding bcache_ok_def by blast+

lemma find_SomeD: "List.find P L = Some b \<Longrightarrow> b \<in> set L \<and> P b"
  by (induction L) (auto split: if_splits)

lemma find_upt_SomeD: "List.find P [0..<n] = Some i \<Longrightarrow> i < n \<and> P i"
  by (auto simp: find_Some_iff)

lemma lookup_Some:
  assumes "bcache_ok D st"
  shows "lookup_buf D (bufs st) bn = Some i \<longleftrightarrow> i < NBUF \<and> bdev (bufs st i) = D \<and> blockno (bufs st i) = bn"
    (is "?l \<longleftrightarrow> ?r")
proof
  assume ?r
  then have "lookup_buf D (bufs st) bn \<noteq> None"
    unfolding lookup_buf_def find_None_iff set_upt by auto
  then obtain j where j: "lookup_buf D (bufs st) bn = Some j" by blast
  then have "j < NBUF \<and> bdev (bufs st j) = D \<and> blockno (bufs st j) = bn"
    unfolding lookup_buf_def by (rule find_upt_SomeD)
  then show ?l using bcache_okD(2) [OF assms, of i j] \<open>?r\<close> j by auto
next
  assume ?l
  then show ?r unfolding lookup_buf_def by (rule find_upt_SomeD)
qed

lemma lookup_None:
  "lookup_buf D bs bn = None \<longleftrightarrow> (\<forall>i<NBUF. \<not> (bdev (bs i) = D \<and> blockno (bs i) = bn))"
  unfolding lookup_buf_def find_None_iff set_upt by auto

lemma find_cached_lookup:
  assumes "bcache_ok D st"
  shows "find_cached (bufs st) D bn (nxt (bufs st NBUF)) = Some (lookup_buf D (bufs st) bn)"
proof -
  obtain L where L: "ring (bufs st) L" using bcache_okD(1) [OF assms] by blast
  let ?P = "\<lambda>b. bdev (bufs st b) = D \<and> blockno (bufs st b) = bn"
  have "find_cached (bufs st) D bn (nxt (bufs st NBUF)) = Some (List.find ?P L)"
    using L by (intro find_cached_seg) (auto simp: ring_def)
  moreover have "List.find ?P L = lookup_buf D (bufs st) bn"
  proof (cases "List.find ?P L")
    case None
    then have "lookup_buf D (bufs st) bn = None"
      using L unfolding find_None_iff lookup_None by (auto simp: ring_def)
    then show ?thesis using None by simp
  next
    case (Some i)
    then have "i \<in> set L \<and> ?P i" by (auto simp: find_Some_iff)
    then have "lookup_buf D (bufs st) bn = Some i" using L by (simp add: lookup_Some [OF assms] ring_def)
    then show ?thesis using Some by simp
  qed
  ultimately show ?thesis by simp
qed

lemma find_unused_lru:
  assumes "bcache_ok D st" and "i < NBUF" and "refcnt (bufs st i) = 0"
  shows "\<exists>b<NBUF. refcnt (bufs st b) = 0 \<and> find_unused (bufs st) (prev (bufs st NBUF)) = Some (Some b)"
proof -
  obtain L where L: "ring (bufs st) L" using bcache_okD(1) [OF assms(1)] by blast
  then have f: "find_unused (bufs st) (prev (bufs st NBUF)) = Some (List.find (\<lambda>b. refcnt (bufs st b) = 0) (rev L))"
    by (intro find_unused_seg) (auto simp: ring_def)
  have "List.find (\<lambda>b. refcnt (bufs st b) = 0) (rev L) \<noteq> None"
    using L assms(2,3) by (auto simp: find_None_iff ring_def)
  then obtain b where b: "List.find (\<lambda>b. refcnt (bufs st b) = 0) (rev L) = Some b" by blast
  then have "b \<in> set L \<and> refcnt (bufs st b) = 0" by (auto dest: find_SomeD)
  then show ?thesis using f b L by (auto simp: ring_def)
qed

lemma bcache_ok_no_unused:
  assumes "bcache_ok D st" and "\<And>i. i < NBUF \<Longrightarrow> refcnt (bufs st i) \<noteq> 0"
  shows "find_unused (bufs st) (prev (bufs st NBUF)) = Some None"
proof -
  obtain L where L: "ring (bufs st) L" using bcache_okD(1) [OF assms(1)] by blast
  then have f: "find_unused (bufs st) (prev (bufs st NBUF)) = Some (List.find (\<lambda>b. refcnt (bufs st b) = 0) (rev L))"
    by (intro find_unused_seg) (auto simp: ring_def)
  have "List.find (\<lambda>b. refcnt (bufs st b) = 0) (rev L) = None"
    using L assms(2) by (auto simp: find_None_iff ring_def)
  then show ?thesis using f by simp
qed

lemma handleD:
  assumes "handle D st b bn"
  shows "b < NBUF" "bdev (bufs st b) = D" "blockno (bufs st b) = bn" "valid (bufs st b)" "refcnt (bufs st b) \<noteq> 0"
  using assms by (simp_all add: handle_def)

lemma handle_lookup: "bcache_ok D st \<Longrightarrow> handle D st b bn \<Longrightarrow> lookup_buf D (bufs st) bn = Some b"
  by (simp add: lookup_Some handle_def)

lemma handle_abs:
  assumes "bcache_ok D st" and "handle D st b bn"
  shows "aview (cache_abs content trace D st) bn = data (bufs st b)"
    and "arefs (cache_abs content trace D st) bn = unat (refcnt (bufs st b))"
    and "aheld (cache_abs content trace D st) bn =
      (if locked (block (bufs st b)) then Some (pid (block (bufs st b))) else None)"
  using handle_lookup [OF assms] handleD(4) [OF assms(2)] by (simp_all add: cache_abs_def)

text \<open>The effect of changing one buffer that keeps its identity.\<close>

definition same_but :: "nat \<Rightarrow> (nat \<Rightarrow> buf) \<Rightarrow> (nat \<Rightarrow> buf) \<Rightarrow> bool" where
  "same_but b bs bs' \<longleftrightarrow> bdev (bs' b) = bdev (bs b) \<and> blockno (bs' b) = blockno (bs b) \<and>
     (\<forall>i. i \<noteq> b \<longrightarrow> bdev (bs' i) = bdev (bs i) \<and> blockno (bs' i) = blockno (bs i) \<and> valid (bs' i) = valid (bs i) \<and>
        data (bs' i) = data (bs i) \<and> refcnt (bs' i) = refcnt (bs i) \<and> block (bs' i) = block (bs i))"

lemma same_but_id:
  assumes "same_but b bs bs'"
  shows "bdev (bs' i) = bdev (bs i)" "blockno (bs' i) = blockno (bs i)"
  using assms by (cases "i = b"; simp add: same_but_def)+

lemma same_but_other:
  assumes "same_but b bs bs'" and "i \<noteq> b"
  shows "valid (bs' i) = valid (bs i)" "data (bs' i) = data (bs i)" "refcnt (bs' i) = refcnt (bs i)" "block (bs' i) = block (bs i)"
  using assms by (simp_all add: same_but_def)

lemma same_but_lookup: "same_but b bs bs' \<Longrightarrow> lookup_buf D bs' bn = lookup_buf D bs bn"
  unfolding lookup_buf_def by (simp add: same_but_id del: upt_rec_numeral)

lemma same_but_ok:
  assumes ok: "bcache_ok D st" and sb: "same_but b (bufs st) (bufs st')" and "ring (bufs st') L"
    and "bdev (bufs st b) \<noteq> D \<Longrightarrow> refcnt (bufs st' b) = 0"
    and "refcnt (bufs st' b) = 0 \<Longrightarrow> \<not> locked (block (bufs st' b))" and "length (data (bufs st' b)) = BSIZE"
  shows "bcache_ok D st'"
proof -
  note O = bcache_okD [OF ok]
  have "bdev (bufs st' i) \<noteq> D \<longrightarrow> refcnt (bufs st' i) = 0" if "i < NBUF" for i
    using that assms(4) O(3) [of i] same_but_id [OF sb] same_but_other [OF sb, of i] by (cases "i = b") auto
  moreover have "refcnt (bufs st' i) = 0 \<longrightarrow> \<not> locked (block (bufs st' i))" if "i < NBUF" for i
    using that assms(5) O(4) [of i] same_but_other [OF sb, of i] by (cases "i = b") auto
  moreover have "length (data (bufs st' i)) = BSIZE" if "i < NBUF" for i
    using that assms(6) O(5) [of i] same_but_other [OF sb, of i] by (cases "i = b") auto
  ultimately show ?thesis
    unfolding bcache_ok_def same_but_id [OF sb] using O(2) assms(3) by blast
qed

lemma same_but_handle:
  assumes "same_but b (bufs st) (bufs st')" and "handle D st i n" and "i \<noteq> b"
  shows "handle D st' i n"
  using assms(2) by (simp add: handle_def same_but_id [OF assms(1)] same_but_other [OF assms(1,3)])

lemma same_but_abs:
  assumes ok: "bcache_ok D st" and sb: "same_but b (bufs st) (bufs st')"
    and b: "b < NBUF" "bdev (bufs st b) = D" "blockno (bufs st b) = bn"
    and k: "\<And>n. n \<noteq> bn \<Longrightarrow> content (dsk st') n = content (dsk st) n"
  shows "cache_abs content trace D st' = (let v = cache_abs content trace D st; x = bufs st' b in \<lparr>
    aview = (aview v)(bn := if valid x then data x else content (dsk st') bn),
    adisk = (adisk v)(bn := content (dsk st') bn),
    arefs = (arefs v)(bn := unat (refcnt x)),
    aheld = (aheld v)(bn := if locked (block x) then Some (pid (block x)) else None),
    atrace = trace (dsk st')\<rparr>)"
proof -
  have lb: "lookup_buf D (bufs st) bn = Some b" using b by (simp add: lookup_Some [OF ok])
  have other: "i \<noteq> b" if "lookup_buf D (bufs st) n = Some i" "n \<noteq> bn" for n i
    using that b by (auto simp: lookup_Some [OF ok])
  have "aview (cache_abs content trace D st') = (aview (cache_abs content trace D st))(bn := if valid (bufs st' b) then data (bufs st' b) else content (dsk st') bn)"
    using lb other k by (auto simp: cache_abs_def same_but_lookup [OF sb] fun_eq_iff same_but_other [OF sb] split: option.split)
  moreover have "adisk (cache_abs content trace D st') = (adisk (cache_abs content trace D st))(bn := content (dsk st') bn)"
    using k by (auto simp: cache_abs_def)
  moreover have "arefs (cache_abs content trace D st') = (arefs (cache_abs content trace D st))(bn := unat (refcnt (bufs st' b)))"
    using lb other by (auto simp: cache_abs_def same_but_lookup [OF sb] fun_eq_iff same_but_other [OF sb] split: option.split)
  moreover have "aheld (cache_abs content trace D st') = (aheld (cache_abs content trace D st))(bn := if locked (block (bufs st' b)) then Some (pid (block (bufs st' b))) else None)"
    using lb other by (auto simp: cache_abs_def same_but_lookup [OF sb] fun_eq_iff same_but_other [OF sb] split: option.split)
  moreover have "atrace (cache_abs content trace D st') = trace (dsk st')" by (simp add: cache_abs_def)
  ultimately show ?thesis by (simp add: Let_def)
qed

lemma same_but_upd:
  "(\<And>x. bdev (f x) = bdev x \<and> blockno (f x) = blockno x) \<Longrightarrow> same_but b (bufs st) (bufs (upd b f st))"
  by (simp add: same_but_def)

lemma ring_upd:
  assumes "\<And>x. nxt (f x) = nxt x \<and> prev (f x) = prev x"
  shows "ring (bufs (upd b f st)) L \<longleftrightarrow> ring (bufs st) L"
  using assms by (intro ring_cong) simp

text \<open>The effect of giving an unused buffer to a new block.\<close>

lemma recycle_ok:
  assumes ok: "bcache_ok D st" and b: "b < NBUF" "refcnt (bufs st b) = 0" and new: "lookup_buf D (bufs st) bn = None"
  shows "bcache_ok D (upd b (\<lambda>x. x\<lparr>bdev := D, blockno := bn, valid := False, refcnt := 1\<rparr>) st)" (is "bcache_ok D ?t")
proof -
  note O = bcache_okD [OF ok]
  obtain L where "ring (bufs st) L" using O(1) by blast
  then have "ring (bufs ?t) L" by (simp add: ring_upd del: upd_simps)
  then show ?thesis using O(2-5) new unfolding bcache_ok_def lookup_None by (auto intro!: exI [of _ L])
qed

lemma recycle_abs:
  assumes ok: "bcache_ok D st" and b: "b < NBUF" "refcnt (bufs st b) = 0" and new: "lookup_buf D (bufs st) bn = None"
    and clean: "cache_clean (cache_abs content trace D st)"
  shows "cache_abs content trace D (upd b (\<lambda>x. x\<lparr>bdev := D, blockno := bn, valid := False, refcnt := 1\<rparr>) st) =
    (cache_abs content trace D st)\<lparr>arefs := (arefs (cache_abs content trace D st))(bn := 1)\<rparr>" (is "cache_abs content trace D ?t = _")
proof -
  note okt = recycle_ok [OF ok b new]
  have lb: "lookup_buf D (bufs ?t) bn = Some b" unfolding lookup_Some [OF okt] using b by simp
  have l: "lookup_buf D (bufs ?t) n = (if lookup_buf D (bufs st) n = Some b then None else lookup_buf D (bufs st) n)"
    if "n \<noteq> bn" for n
  proof (cases "lookup_buf D (bufs st) n")
    case None
    then have "lookup_buf D (bufs ?t) n = None" using that unfolding lookup_None by auto
    then show ?thesis using None by simp
  next
    case (Some i)
    note i = Some [unfolded lookup_Some [OF ok]]
    show ?thesis
    proof (cases "i = b")
      case True
      then have "lookup_buf D (bufs ?t) n = None"
        unfolding lookup_None using that i bcache_okD(2) [OF ok, of _ b] by auto
      then show ?thesis using Some True by simp
    next
      case False
      then have "lookup_buf D (bufs ?t) n = Some i" unfolding lookup_Some [OF okt] using i by simp
      then show ?thesis using Some False by simp
    qed
  qed
  have nb: "\<not> locked (block (bufs st b))" using bcache_okD(4) [OF ok b] .
  have evict: "(if valid (bufs st b) then data (bufs st b) else content (dsk st) n) = content (dsk st) n"
    if "lookup_buf D (bufs st) n = Some b" for n
    using clean that b unfolding cache_clean_def by (auto simp: cache_abs_def dest: spec [of _ n])
  have "aview (cache_abs content trace D ?t) n = aview (cache_abs content trace D st) n" for n
    using lb new l [of n] evict [of n] by (cases "n = bn") (auto simp: cache_abs_def split: option.split)
  moreover have "arefs (cache_abs content trace D ?t) n = (if n = bn then 1 else arefs (cache_abs content trace D st) n)" for n
    using lb new l [of n] b by (cases "n = bn") (auto simp: cache_abs_def split: option.split)
  moreover have "aheld (cache_abs content trace D ?t) n = aheld (cache_abs content trace D st) n" for n
    using lb new l [of n] b nb by (cases "n = bn") (auto simp: cache_abs_def split: option.split)
  moreover have "adisk (cache_abs content trace D ?t) = adisk (cache_abs content trace D st)"
    "atrace (cache_abs content trace D ?t) = atrace (cache_abs content trace D st)" by (simp_all add: cache_abs_def)
  ultimately show ?thesis by (simp add: fun_eq_iff)
qed


section \<open>The device contract and the cache over it\<close>

lemma binit_fields [simp]:
  "valid (bufs (binit st) i) = valid (bufs st i)" "bdev (bufs (binit st) i) = bdev (bufs st i)"
  "blockno (bufs (binit st) i) = blockno (bufs st i)" "refcnt (bufs (binit st) i) = refcnt (bufs st i)"
  "data (bufs (binit st) i) = data (bufs st i)" "dsk (binit st) = dsk st"
  "i < NBUF \<Longrightarrow> block (bufs (binit st) i) = initsleeplock"
proof -
  let ?step = "\<lambda>b st. upd b (block_update (\<lambda>_. initsleeplock)) (link_front b st)"
  have "valid (bufs (fold ?step xs st) i) = valid (bufs st i) \<and> bdev (bufs (fold ?step xs st) i) = bdev (bufs st i) \<and>
    blockno (bufs (fold ?step xs st) i) = blockno (bufs st i) \<and> refcnt (bufs (fold ?step xs st) i) = refcnt (bufs st i) \<and>
    data (bufs (fold ?step xs st) i) = data (bufs st i) \<and> dsk (fold ?step xs st) = dsk st \<and>
    block (bufs (fold ?step xs st) i) = (if i \<in> set xs then initsleeplock else block (bufs st i))"
    for xs and st :: "'a bcache"
    by (induction xs arbitrary: st) auto
  then show "valid (bufs (binit st) i) = valid (bufs st i)" "bdev (bufs (binit st) i) = bdev (bufs st i)"
    "blockno (bufs (binit st) i) = blockno (bufs st i)" "refcnt (bufs (binit st) i) = refcnt (bufs st i)"
    "data (bufs (binit st) i) = data (bufs st i)" "dsk (binit st) = dsk st"
    "i < NBUF \<Longrightarrow> block (bufs (binit st) i) = initsleeplock"
    by (simp_all add: binit_def Let_def del: upt_rec_numeral)
qed

text \<open>Before \<^verbatim>\<open>binit\<close> the buffers are zero, as static data of the kernel is.\<close>

definition zero_bufs :: "'d bcache \<Rightarrow> bool" where
  "zero_bufs st \<longleftrightarrow> (\<forall>i<NBUF. bdev (bufs st i) = 0 \<and> refcnt (bufs st i) = 0 \<and> length (data (bufs st i)) = BSIZE)"

lemma binit_ok: "zero_bufs st \<Longrightarrow> D \<noteq> 0 \<Longrightarrow> bcache_ok D (binit st)"
  using binit_ring [of st] unfolding bcache_ok_def zero_bufs_def
  by (auto simp: initsleeplock_def simp del: upt_rec_numeral)

lemma binit_abs:
  assumes "zero_bufs st" and "D \<noteq> 0"
  shows "cache_abs content trace D (binit st) =
    \<lparr>aview = content (dsk st), adisk = content (dsk st), arefs = (\<lambda>_. 0), aheld = (\<lambda>_. None), atrace = trace (dsk st)\<rparr>"
proof -
  have "lookup_buf D (bufs (binit st)) bn = None" for bn
    using assms unfolding lookup_None zero_bufs_def by auto
  then show ?thesis by (simp add: cache_abs_def)
qed

text \<open>The invariant of the cache over a device: its own, a consistent device, and no unreferenced dirty block.\<close>

definition cache_inv ::
  "('d \<Rightarrow> u32 \<Rightarrow> u8 list) \<Rightarrow> ('d \<Rightarrow> (u32 \<times> u8 list) list) \<Rightarrow> ('d \<Rightarrow> bool) \<Rightarrow> u32 \<Rightarrow> 'd bcache \<Rightarrow> bool" where
  "cache_inv content trace dok D st \<longleftrightarrow>
     bcache_ok D st \<and> dok (dsk st) \<and> cache_clean (cache_abs content trace D st)"

text \<open>
  A block device reads back what was written: \<open>content\<close> gives the blocks of a device state, \<open>dok\<close> its
  consistency, and \<open>trace\<close> the writes performed so far in their order; the laws hold for blocks below
  \<open>nblk\<close>.
\<close>

definition took :: "i32 \<Rightarrow> u32 \<Rightarrow> cache_view \<Rightarrow> cache_view" where
  "took me bn v = v\<lparr>arefs := (arefs v)(bn := arefs v bn + 1), aheld := (aheld v)(bn := Some me)\<rparr>"

definition gave :: "u32 \<Rightarrow> cache_view \<Rightarrow> cache_view" where
  "gave bn v = v\<lparr>arefs := (arefs v)(bn := arefs v bn - 1), aheld := (aheld v)(bn := None)\<rparr>"

definition cache_room :: "u32 \<Rightarrow> cache_view \<Rightarrow> bool" where
  "cache_room bn v \<longleftrightarrow> (0 < arefs v bn \<or> card {n. 0 < arefs v n} < NBUF) \<and> arefs v bn + 1 < 2 ^ 32 \<and> aheld v bn = None"

lemma referenced_blocks:
  assumes "bcache_ok D st"
  shows "{n. 0 < arefs (cache_abs content trace D st) n} = (\<lambda>i. blockno (bufs st i)) ` {i. i < NBUF \<and> refcnt (bufs st i) \<noteq> 0}"
    and "inj_on (\<lambda>i. blockno (bufs st i)) {i. i < NBUF \<and> refcnt (bufs st i) \<noteq> 0}"
proof -
  note O = bcache_okD [OF assms]
  show "{n. 0 < arefs (cache_abs content trace D st) n} = (\<lambda>i. blockno (bufs st i)) ` {i. i < NBUF \<and> refcnt (bufs st i) \<noteq> 0}"
  proof (intro set_eqI iffI)
    fix n assume "n \<in> {n. 0 < arefs (cache_abs content trace D st) n}"
    then obtain i where "lookup_buf D (bufs st) n = Some i" "refcnt (bufs st i) \<noteq> 0"
      by (auto simp: cache_abs_def unat_gt_0 split: option.splits)
    then show "n \<in> (\<lambda>i. blockno (bufs st i)) ` {i. i < NBUF \<and> refcnt (bufs st i) \<noteq> 0}"
      by (auto simp: lookup_Some [OF assms])
  next
    fix n assume "n \<in> (\<lambda>i. blockno (bufs st i)) ` {i. i < NBUF \<and> refcnt (bufs st i) \<noteq> 0}"
    then obtain i where i: "n = blockno (bufs st i)" "i < NBUF" "refcnt (bufs st i) \<noteq> 0" by blast
    then have "lookup_buf D (bufs st) n = Some i" using O(3) by (auto simp: lookup_Some [OF assms])
    then show "n \<in> {n. 0 < arefs (cache_abs content trace D st) n}" using i by (simp add: cache_abs_def unat_gt_0)
  qed
  show "inj_on (\<lambda>i. blockno (bufs st i)) {i. i < NBUF \<and> refcnt (bufs st i) \<noteq> 0}"
    using O(2,3) by (auto intro!: inj_onI)
qed

lemma unused_buffer:
  assumes "bcache_ok D st"
  shows "card {n. 0 < arefs (cache_abs content trace D st) n} < NBUF \<longleftrightarrow> (\<exists>i<NBUF. refcnt (bufs st i) = 0)"
proof -
  let ?S = "{i. i < NBUF \<and> refcnt (bufs st i) \<noteq> 0}"
  have "card {n. 0 < arefs (cache_abs content trace D st) n} = card ?S"
    unfolding referenced_blocks(1) [OF assms] by (rule card_image [OF referenced_blocks(2) [OF assms]])
  moreover have "card ?S < NBUF \<longleftrightarrow> ?S \<noteq> {..<NBUF}"
  proof -
    have "?S \<subseteq> {..<NBUF}" by auto
    then have "card ?S < card {..<NBUF}" if "?S \<noteq> {..<NBUF}" using that by (intro psubset_card_mono) auto
    then show ?thesis by force
  qed
  ultimately show ?thesis by auto
qed

lemma finite_referenced: "bcache_ok D st \<Longrightarrow> finite {n. 0 < arefs (cache_abs content trace D st) n}"
  by (simp add: referenced_blocks(1))

lemma bget_ok:
  assumes ok: "bcache_ok D st" and clean: "cache_clean (cache_abs content trace D st)"
    and room: "cache_room bn (cache_abs content trace D st)"
  shows "\<exists>b st'. bget me D bn st = Ok (b, st') \<and> bcache_ok D st' \<and> dsk st' = dsk st \<and> b < NBUF \<and>
    bdev (bufs st' b) = D \<and> blockno (bufs st' b) = bn \<and> refcnt (bufs st' b) \<noteq> 0 \<and>
    cache_abs content trace D st' = took me bn (cache_abs content trace D st) \<and>
    (\<forall>i n. handle D st i n \<longrightarrow> handle D st' i n)"
proof (cases "lookup_buf D (bufs st) bn")
  case (Some b)
  let ?v = "cache_abs content trace D st"
  note b = Some [unfolded lookup_Some [OF ok]]
  have nl: "\<not> locked (block (bufs st b))" and r: "unat (refcnt (bufs st b)) + 1 < 2 ^ 32"
    using room Some by (auto simp: cache_room_def cache_abs_def split: if_splits)
  from r have r1: "unat (refcnt (bufs st b) + 1) = unat (refcnt (bufs st b)) + 1"
    by (simp add: unat_word_ariths)
  then have r0: "refcnt (bufs st b) + 1 \<noteq> 0" by (metis Suc_eq_plus1 nat.distinct(1) unsigned_0)
  let ?f = "\<lambda>x. x\<lparr>refcnt := refcnt x + 1, block := block x\<lparr>locked := True, pid := me\<rparr>\<rparr>"
  let ?t = "upd b ?f st"
  have "bget me D bn st = Ok (b, ?t)"
    using nl by (simp add: bget_def find_cached_lookup [OF ok] Some acquiresleep_def Let_def)
  moreover have sb: "same_but b (bufs st) (bufs ?t)" by (rule same_but_upd) simp
  moreover obtain L where "ring (bufs st) L" using bcache_okD(1) [OF ok] by blast
  then have L: "ring (bufs ?t) L" by (simp add: ring_upd del: upd_simps)
  have okt: "bcache_ok D ?t"
    using b r0 bcache_okD(5) [OF ok] by (intro same_but_ok [OF ok sb L]) auto
  moreover have "cache_abs content trace D ?t = took me bn ?v"
    using b Some by (subst same_but_abs [OF ok sb, where bn = bn])
      (auto simp: Let_def took_def r1 cache_abs_def fun_eq_iff)
  moreover have "handle D ?t i n" if "handle D st i n" for i n
    using that r0 by (cases "i = b") (auto intro: same_but_handle [OF sb] simp: handle_def)
  ultimately show ?thesis using b r0 by (intro exI [of _ b] exI [of _ ?t]) simp
next
  case None
  let ?v = "cache_abs content trace D st"
  have z: "arefs ?v bn = 0" and va: "aview ?v bn = content (dsk st) bn" "adisk ?v bn = content (dsk st) bn"
    using None by (simp_all add: cache_abs_def)
  then have "\<exists>i<NBUF. refcnt (bufs st i) = 0" using room unused_buffer [OF ok] by (simp add: cache_room_def)
  then obtain b where b: "b < NBUF" "refcnt (bufs st b) = 0"
    and fu: "find_unused (bufs st) (prev (bufs st NBUF)) = Some (Some b)" using find_unused_lru [OF ok] by blast
  have nl: "\<not> locked (block (bufs st b))" using bcache_okD(4) [OF ok b] .
  let ?u = "upd b (\<lambda>x. x\<lparr>bdev := D, blockno := bn, valid := False, refcnt := 1\<rparr>) st"
  let ?f = "block_update (\<lambda>_. (block (bufs st b))\<lparr>locked := True, pid := me\<rparr>)"
  let ?t = "upd b ?f ?u"
  note oku = recycle_ok [OF ok b None] and absu = recycle_abs [OF ok b None clean]
  have "bget me D bn st = Ok (b, ?t)"
    using nl by (simp add: bget_def find_cached_lookup [OF ok] None fu acquiresleep_def Let_def)
  moreover have sb: "same_but b (bufs ?u) (bufs ?t)" by (rule same_but_upd) simp
  moreover obtain L where "ring (bufs ?u) L" using bcache_okD(1) [OF oku] by blast
  then have L: "ring (bufs ?t) L" by (simp add: ring_upd del: upd_simps)
  have okt: "bcache_ok D ?t"
    using b bcache_okD(5) [OF ok] by (intro same_but_ok [OF oku sb L]) auto
  moreover have "cache_abs content trace D ?t = took me bn ?v"
    using b z va by (subst same_but_abs [OF oku sb, where bn = bn])
      (auto simp: Let_def took_def absu fun_eq_iff intro!: cache_view.equality)
  moreover have "handle D ?t i n" if "handle D st i n" for i n
    using that b by (cases "i = b") (auto simp: handle_def)
  ultimately show ?thesis using b by (intro exI [of _ b] exI [of _ ?t]) simp
qed

locale block_device =
  fixes rw :: "'d driver" and content :: "'d \<Rightarrow> u32 \<Rightarrow> u8 list" and trace :: "'d \<Rightarrow> (u32 \<times> u8 list) list"
    and dok :: "'d \<Rightarrow> bool" and nblk :: u32
  assumes rw_read: "dok k \<Longrightarrow> bn < nblk \<Longrightarrow> length d = BSIZE \<Longrightarrow>
      \<exists>k'. rw False bn d k = Ok (content k bn, k') \<and> dok k' \<and> content k' = content k \<and> trace k' = trace k"
    and rw_write: "dok k \<Longrightarrow> bn < nblk \<Longrightarrow> length d = BSIZE \<Longrightarrow>
      \<exists>k'. rw True bn d k = Ok (d, k') \<and> dok k' \<and> content k' = (content k)(bn := d) \<and>
        trace k' = trace k @ [(bn, d)]"
    and content_length: "dok k \<Longrightarrow> bn < nblk \<Longrightarrow> length (content k bn) = BSIZE"
begin


abbreviation cinv :: "u32 \<Rightarrow> 'd bcache \<Rightarrow> bool" where
  "cinv \<equiv> cache_inv content trace dok"

abbreviation absv :: "u32 \<Rightarrow> 'd bcache \<Rightarrow> cache_view" where
  "absv \<equiv> cache_abs content trace"

lemma bread_ok:
  assumes inv: "cinv D st" and "bn < nblk" and room: "cache_room bn (absv D st)"
  shows "\<exists>b st'. bread rw me D bn st = Ok (b, st') \<and> cinv D st' \<and> handle D st' b bn \<and>
    absv D st' = took me bn (absv D st) \<and> (\<forall>i n. handle D st i n \<longrightarrow> handle D st' i n)"
proof -
  have ok: "bcache_ok D st" and dok: "dok (dsk st)" and clean: "cache_clean (absv D st)"
    using inv by (simp_all add: cache_inv_def)
  obtain b t where t: "bget me D bn st = Ok (b, t)" "bcache_ok D t" "dsk t = dsk st" "b < NBUF" "bdev (bufs t b) = D"
    "blockno (bufs t b) = bn" "refcnt (bufs t b) \<noteq> 0" "absv D t = took me bn (absv D st)"
    and hs: "\<forall>i n. handle D st i n \<longrightarrow> handle D t i n"
    using bget_ok [OF ok clean room] by blast
  have cl: "cache_clean (absv D t)" using clean t(8) by (auto simp: cache_clean_def took_def)
  show ?thesis
  proof (cases "valid (bufs t b)")
    case True
    then show ?thesis using t hs dok cl by (auto simp: bread_def cache_inv_def handle_def)
  next
    case False
    have len: "length (data (bufs t b)) = BSIZE" using bcache_okD(5) [OF t(2,4)] .
    obtain k where k: "rw False bn (data (bufs t b)) (dsk t) = Ok (content (dsk t) bn, k)" "dok k" "content k = content (dsk t)"
      "trace k = trace (dsk t)"
      using rw_read [of "dsk t" bn "data (bufs t b)"] dok t(3) assms(2) len by auto
    let ?u = "upd b (\<lambda>x. x\<lparr>data := content (dsk t) bn, valid := True\<rparr>) (t\<lparr>dsk := k\<rparr>)"
    have r: "bread rw me D bn st = Ok (b, ?u)"
      using False t k by (simp add: bread_def disk_rw_def upd_def)
    have sb: "same_but b (bufs t) (bufs ?u)" by (simp add: same_but_def)
    obtain L where L: "ring (bufs t) L" using bcache_okD(1) [OF t(2)] by blast
    have "ring (bufs ?u) L" using L by (subst ring_upd) simp_all
    then have oku: "bcache_ok D ?u"
      using t(4-7) content_length [of "dsk t" bn] dok t(3) assms(2) by (intro same_but_ok [OF t(2) sb]) auto
    have lk: "lookup_buf D (bufs t) bn = Some b" using t by (simp add: lookup_Some)
    then have "absv D ?u = absv D t"
      using t(4-7) False k(3,4) by (subst same_but_abs [OF t(2) sb, where bn = bn])
        (auto simp: Let_def cache_abs_def fun_eq_iff intro!: cache_view.equality)
    then show ?thesis using r oku k t cl False hs
      by (intro exI [of _ b] exI [of _ ?u]) (auto simp: cache_inv_def handle_def)
  qed
qed

lemma brelse_ok:
  assumes inv: "cinv D st" and h: "handle D st b bn" and own: "aheld (absv D st) bn = Some me"
    and keep: "1 < arefs (absv D st) bn \<or> aview (absv D st) bn = adisk (absv D st) bn"
  shows "\<exists>st'. brelse me b st = Ok st' \<and> cinv D st' \<and> absv D st' = gave bn (absv D st) \<and>
    (\<forall>i n. handle D st i n \<longrightarrow> n \<noteq> bn \<or> 1 < arefs (absv D st) bn \<longrightarrow> handle D st' i n)"
proof -
  have ok: "bcache_ok D st" and dok: "dok (dsk st)" and clean: "cache_clean (absv D st)"
    using inv by (simp_all add: cache_inv_def)
  note H = handleD [OF h] and A = handle_abs [OF ok h, of content trace]
  have lk: "locked (block (bufs st b))" "pid (block (bufs st b)) = me" using own A(3) by (auto split: if_splits)
  have un: "unat (refcnt (bufs st b) - 1) = arefs (absv D st) bn - 1"
    using H(5) A(2) by (simp add: unat_minus_one)
  let ?u = "upd b (\<lambda>x. (block_update releasesleep x)\<lparr>refcnt := refcnt x - 1\<rparr>) st"
  let ?t = "if refcnt (bufs ?u b) = 0 then link_front b (unlink b ?u) else ?u"
  have r: "brelse me b st = Ok ?t" using lk by (simp add: brelse_def holdingsleep_def Let_def upd_def)
  have sb: "same_but b (bufs st) (bufs ?t)" by (simp add: same_but_def)
  have fb: "refcnt (bufs ?t b) = refcnt (bufs st b) - 1" "block (bufs ?t b) = releasesleep (block (bufs st b))"
    "valid (bufs ?t b) = valid (bufs st b)" "data (bufs ?t b) = data (bufs st b)" "dsk ?t = dsk st" by simp_all
  obtain L where "ring (bufs st) L" using bcache_okD(1) [OF ok] by blast
  then have Lu: "ring (bufs ?u) L" by (subst ring_upd) simp_all
  obtain L' where L': "ring (bufs ?t) L'" using Lu ring_move_front [OF Lu H(1)] by (cases "refcnt (bufs ?u b) = 0") auto
  have okt: "bcache_ok D ?t"
    using H bcache_okD(5) [OF ok] by (intro same_but_ok [OF ok sb L']) (auto simp: fb releasesleep_def)
  have at: "absv D ?t = gave bn (absv D st)"
    using H A un fb by (subst same_but_abs [OF ok sb, where bn = bn])
      (auto simp: Let_def gave_def releasesleep_def fun_eq_iff cache_abs_def intro!: cache_view.equality)
  have "cache_clean (absv D ?t)" unfolding at using clean keep by (auto simp: cache_clean_def gave_def)
  moreover have "handle D ?t i n" if "handle D st i n" "n \<noteq> bn \<or> 1 < arefs (absv D st) bn" for i n
  proof (cases "i = b")
    case True
    then have "1 < arefs (absv D st) bn" using that H by (auto simp: handle_def)
    then have "refcnt (bufs st b) - 1 \<noteq> 0" using un by (metis less_numeral_extra(3) unsigned_0 zero_less_diff)
    then show ?thesis using True that(1) H by (simp add: handle_def)
  next
    case False
    then show ?thesis using same_but_handle [OF sb that(1)] by simp
  qed
  ultimately show ?thesis using r okt dok at fb by (intro exI [of _ ?t]) (auto simp: cache_inv_def)
qed

lemma bwrite_ok:
  assumes inv: "cinv D st" and h: "handle D st b bn" and own: "aheld (absv D st) bn = Some me" and "bn < nblk"
  shows "\<exists>st'. bwrite rw me b st = Ok st' \<and> cinv D st' \<and>
    absv D st' = (absv D st)\<lparr>adisk := (adisk (absv D st))(bn := aview (absv D st) bn),
      atrace := atrace (absv D st) @ [(bn, aview (absv D st) bn)]\<rparr> \<and>
    (\<forall>i n. handle D st i n \<longrightarrow> handle D st' i n)"
proof -
  have ok: "bcache_ok D st" and dok: "dok (dsk st)" and clean: "cache_clean (absv D st)"
    using inv by (simp_all add: cache_inv_def)
  note H = handleD [OF h] and A = handle_abs [OF ok h, of content trace]
  have lk: "locked (block (bufs st b))" "pid (block (bufs st b)) = me" using own A(3) by (auto split: if_splits)
  obtain k where k: "rw True bn (data (bufs st b)) (dsk st) = Ok (data (bufs st b), k)" "dok k"
    "content k = (content (dsk st))(bn := data (bufs st b))" "trace k = trace (dsk st) @ [(bn, data (bufs st b))]"
    using rw_write [OF dok assms(4) bcache_okD(5) [OF ok H(1)]] by blast
  let ?t = "upd b (\<lambda>x. x\<lparr>data := data x\<rparr>) (st\<lparr>dsk := k\<rparr>)"
  have r: "bwrite rw me b st = Ok ?t" using lk k H by (simp add: bwrite_def holdingsleep_def disk_rw_def upd_def)
  have sb: "same_but b (bufs st) (bufs ?t)" by (simp add: same_but_def)
  obtain L where "ring (bufs st) L" using bcache_okD(1) [OF ok] by blast
  then have L: "ring (bufs ?t) L" by (subst ring_upd) simp_all
  have okt: "bcache_ok D ?t"
    using H bcache_okD(5) [OF ok] by (intro same_but_ok [OF ok sb L]) auto
  have at: "absv D ?t = (absv D st)\<lparr>adisk := (adisk (absv D st))(bn := aview (absv D st) bn),
      atrace := atrace (absv D st) @ [(bn, aview (absv D st) bn)]\<rparr>"
    using H A k by (subst same_but_abs [OF ok sb, where bn = bn])
      (auto simp: Let_def fun_eq_iff intro!: cache_view.equality)
  have "cache_clean (absv D ?t)" unfolding at using clean A(2) H(5) by (auto simp: cache_clean_def)
  moreover have "handle D ?t i n" if "handle D st i n" for i n
    using that by (cases "i = b") (auto simp: handle_def)
  ultimately show ?thesis using r okt k at by (intro exI [of _ ?t]) (auto simp: cache_inv_def)
qed

lemma set_data_ok:
  assumes inv: "cinv D st" and h: "handle D st b bn" and "length d = BSIZE"
  shows "cinv D (set_data b d st) \<and> absv D (set_data b d st) = (absv D st)\<lparr>aview := (aview (absv D st))(bn := d)\<rparr> \<and>
    (\<forall>i n. handle D st i n \<longrightarrow> handle D (set_data b d st) i n)"
proof -
  have ok: "bcache_ok D st" and dok: "dok (dsk st)" and clean: "cache_clean (absv D st)"
    using inv by (simp_all add: cache_inv_def)
  note H = handleD [OF h] and A = handle_abs [OF ok h, of content trace]
  let ?t = "upd b (data_update (\<lambda>_. d)) st"
  have sb: "same_but b (bufs st) (bufs ?t)" by (simp add: same_but_def)
  obtain L where "ring (bufs st) L" using bcache_okD(1) [OF ok] by blast
  then have L: "ring (bufs ?t) L" by (subst ring_upd) simp_all
  have okt: "bcache_ok D ?t"
    using H bcache_okD(4) [OF ok] assms(3) by (intro same_but_ok [OF ok sb L]) auto
  have at: "absv D ?t = (absv D st)\<lparr>aview := (aview (absv D st))(bn := d)\<rparr>"
    using H A by (subst same_but_abs [OF ok sb, where bn = bn])
      (auto simp: Let_def fun_eq_iff cache_abs_def intro!: cache_view.equality)
  have "0 < arefs (absv D st) bn" using A(2) H(5) by (simp add: unat_gt_0)
  then have "cache_clean (absv D ?t)" unfolding at using clean by (auto simp: cache_clean_def)
  then show ?thesis using okt dok at by (auto simp: cache_inv_def set_data_def handle_def)
qed


lemma bpin_ok:
  assumes inv: "cinv D st" and h: "handle D st b bn" and "arefs (absv D st) bn + 1 < 2 ^ 32"
  shows "cinv D (bpin b st) \<and> absv D (bpin b st) = (absv D st)\<lparr>arefs := (arefs (absv D st))(bn := arefs (absv D st) bn + 1)\<rparr> \<and>
    (\<forall>i n. handle D st i n \<longrightarrow> handle D (bpin b st) i n)"
proof -
  have ok: "bcache_ok D st" and dok: "dok (dsk st)" and clean: "cache_clean (absv D st)"
    using inv by (simp_all add: cache_inv_def)
  note H = handleD [OF h] and A = handle_abs [OF ok h, of content trace]
  have r1: "unat (refcnt (bufs st b) + 1) = arefs (absv D st) bn + 1"
    using assms(3) A(2) by (simp add: unat_word_ariths)
  then have r0: "refcnt (bufs st b) + 1 \<noteq> 0" by (metis Suc_eq_plus1 nat.distinct(1) unsigned_0)
  let ?t = "upd b (\<lambda>x. x\<lparr>refcnt := refcnt x + 1\<rparr>) st"
  have sb: "same_but b (bufs st) (bufs ?t)" by (simp add: same_but_def)
  obtain L where "ring (bufs st) L" using bcache_okD(1) [OF ok] by blast
  then have L: "ring (bufs ?t) L" by (subst ring_upd) simp_all
  have okt: "bcache_ok D ?t"
    using H r0 bcache_okD(5) [OF ok] by (intro same_but_ok [OF ok sb L]) auto
  have at: "absv D ?t = (absv D st)\<lparr>arefs := (arefs (absv D st))(bn := arefs (absv D st) bn + 1)\<rparr>"
    using H A r1 by (subst same_but_abs [OF ok sb, where bn = bn])
      (auto simp: Let_def fun_eq_iff cache_abs_def intro!: cache_view.equality)
  have "cache_clean (absv D ?t)" unfolding at using clean by (auto simp: cache_clean_def)
  then show ?thesis using okt dok at r0 by (auto simp: cache_inv_def bpin_def handle_def)
qed

lemma bunpin_ok:
  assumes inv: "cinv D st" and h: "handle D st b bn"
    and keep: "1 < arefs (absv D st) bn"
  shows "cinv D (bunpin b st) \<and> absv D (bunpin b st) = (absv D st)\<lparr>arefs := (arefs (absv D st))(bn := arefs (absv D st) bn - 1)\<rparr> \<and>
    (\<forall>i n. handle D st i n \<longrightarrow> handle D (bunpin b st) i n)"
proof -
  have ok: "bcache_ok D st" and dok: "dok (dsk st)" and clean: "cache_clean (absv D st)"
    using inv by (simp_all add: cache_inv_def)
  note H = handleD [OF h] and A = handle_abs [OF ok h, of content trace]
  have r1: "unat (refcnt (bufs st b) - 1) = arefs (absv D st) bn - 1"
    using H(5) A(2) by (simp add: unat_minus_one)
  then have r0: "refcnt (bufs st b) - 1 \<noteq> 0" using keep by (metis less_numeral_extra(3) unsigned_0 zero_less_diff)
  let ?t = "upd b (\<lambda>x. x\<lparr>refcnt := refcnt x - 1\<rparr>) st"
  have sb: "same_but b (bufs st) (bufs ?t)" by (simp add: same_but_def)
  obtain L where "ring (bufs st) L" using bcache_okD(1) [OF ok] by blast
  then have L: "ring (bufs ?t) L" by (subst ring_upd) simp_all
  have okt: "bcache_ok D ?t"
    using H r0 bcache_okD(5) [OF ok] by (intro same_but_ok [OF ok sb L]) auto
  have at: "absv D ?t = (absv D st)\<lparr>arefs := (arefs (absv D st))(bn := arefs (absv D st) bn - 1)\<rparr>"
    using H A r1 by (subst same_but_abs [OF ok sb, where bn = bn])
      (auto simp: Let_def fun_eq_iff cache_abs_def intro!: cache_view.equality)
  have "cache_clean (absv D ?t)" unfolding at using clean keep by (auto simp: cache_clean_def)
  then show ?thesis using okt dok at r0 by (auto simp: cache_inv_def bunpin_def handle_def)
qed

lemma binit_inv: "zero_bufs st \<Longrightarrow> D \<noteq> 0 \<Longrightarrow> dok (dsk st) \<Longrightarrow> cinv D (binit st)"
  using binit_ok [of st D] binit_abs [of st D content trace] by (simp add: cache_inv_def cache_clean_def)

lemma bread_no_buffers:
  assumes "cinv D st" and "card {n. 0 < arefs (absv D st) n} = NBUF" and "arefs (absv D st) bn = 0"
  shows "bread rw me D bn st = Panic ''bget: no buffers''"
proof -
  have ok: "bcache_ok D st" using assms(1) by (simp add: cache_inv_def)
  have full: "refcnt (bufs st i) \<noteq> 0" if "i < NBUF" for i using unused_buffer [OF ok, of content trace] assms(2) that by auto
  have "lookup_buf D (bufs st) bn = None"
  proof (rule ccontr)
    assume "lookup_buf D (bufs st) bn \<noteq> None"
    then obtain i where i: "lookup_buf D (bufs st) bn = Some i" by blast
    then have "i < NBUF" by (simp add: lookup_Some [OF ok])
    then have "0 < unat (refcnt (bufs st i))" using full by (simp add: unat_gt_0)
    then show False using i assms(3) by (simp add: cache_abs_def)
  qed
  then show ?thesis
    using bcache_ok_no_unused [OF ok full] by (simp add: bread_def bget_def find_cached_lookup [OF ok])
qed

end


text \<open>
  Any driver that reads back what was written becomes a block device when its writes are recorded
  beside its state.
\<close>

definition traced :: "'d driver \<Rightarrow> ('d \<times> (u32 \<times> u8 list) list) driver" where
  "traced rw write bn d k = obind (rw write bn d (fst k))
     (\<lambda>(d', k'). Ok (d', (k', if write then snd k @ [(bn, d)] else snd k)))"

locale disk_driver =
  fixes rw :: "'d driver" and content :: "'d \<Rightarrow> u32 \<Rightarrow> u8 list" and dok :: "'d \<Rightarrow> bool" and nblk :: u32
  assumes drv_read: "dok k \<Longrightarrow> bn < nblk \<Longrightarrow> length d = BSIZE \<Longrightarrow>
      \<exists>k'. rw False bn d k = Ok (content k bn, k') \<and> dok k' \<and> content k' = content k"
    and drv_write: "dok k \<Longrightarrow> bn < nblk \<Longrightarrow> length d = BSIZE \<Longrightarrow>
      \<exists>k'. rw True bn d k = Ok (d, k') \<and> dok k' \<and> content k' = (content k)(bn := d)"
    and drv_length: "dok k \<Longrightarrow> bn < nblk \<Longrightarrow> length (content k bn) = BSIZE"

sublocale disk_driver \<subseteq> tr: block_device "traced rw" "\<lambda>k. content (fst k)" snd "\<lambda>k. dok (fst k)" nblk
proof
  fix k :: "'d \<times> (u32 \<times> u8 list) list" and bn and d :: "u8 list"
  assume a: "dok (fst k)" "bn < nblk"
  show "length (content (fst k) bn) = BSIZE" using drv_length a .
  assume l: "length d = BSIZE"
  show "\<exists>k'. traced rw False bn d k = Ok (content (fst k) bn, k') \<and> dok (fst k') \<and>
      content (fst k') = content (fst k) \<and> snd k' = snd k"
    using drv_read [OF a l] by (auto simp: traced_def)
  show "\<exists>k'. traced rw True bn d k = Ok (d, k') \<and> dok (fst k') \<and>
      content (fst k') = (content (fst k))(bn := d) \<and> snd k' = snd k @ [(bn, d)]"
    using drv_write [OF a l] by (auto simp: traced_def)
qed

end
