(* ===== verification/Xv6_Log.thy ===== *)
theory Xv6_Log
  imports Xv6_Bio
begin

text \<open>
  The write-ahead log (\<^verbatim>\<open>kernel/log.c\<close>): the on-disk header, committing a transaction, recovery after a
  crash and the admission of file-system calls. The theorems are that a crash at any disk write of a
  commit leaves, after recovery, either all or none of the transaction, and the space accounting of
  \<^verbatim>\<open>begin_op\<close>/\<^verbatim>\<open>log_write\<close>/\<^verbatim>\<open>end_op\<close>.
\<close>

section \<open>Model\<close>

abbreviation (input) MAXOPBLOCKS :: int where "MAXOPBLOCKS \<equiv> 10"
abbreviation (input) LOGSIZE :: nat where "LOGSIZE \<equiv> 30"

record logheader =
  hn :: int
  hblock :: "u32 list"

record log =
  lstart :: u32
  lsize :: int
  outstanding :: int
  committing :: bool
  ldev :: u32
  lh :: logheader

text \<open>The log and the buffer cache below it; \<open>rw\<close> is the disk driver and \<open>me\<close> the calling process.\<close>

record 'd logst =
  lg :: log
  bc :: "'d bcache"

text \<open>The fields of \<^verbatim>\<open>struct logheader\<close> in the bytes of a block.\<close>

definition head_n :: "u8 list \<Rightarrow> int" where
  "head_n d = sint (word_of_nat (get_le 4 d 0) :: i32)"

definition head_block :: "u8 list \<Rightarrow> nat \<Rightarrow> u32" where
  "head_block d i = word_of_nat (get_le 4 d (4 + 4 * i))"

definition put_head_n :: "int \<Rightarrow> u8 list \<Rightarrow> u8 list" where
  "put_head_n n d = put_le 4 0 (unat (word_of_int n :: u32)) d"

definition put_head_block :: "nat \<Rightarrow> u32 \<Rightarrow> u8 list \<Rightarrow> u8 list" where
  "put_head_block i b d = put_le 4 (4 + 4 * i) (unat b) d"

text \<open>One iteration of \<^verbatim>\<open>install_trans\<close> from log block \<open>src\<close> to home block \<open>dst\<close>, and the loop.\<close>

definition install_block :: "'d driver \<Rightarrow> i32 \<Rightarrow> bool \<Rightarrow> u32 \<Rightarrow> u32 \<Rightarrow> u32 \<Rightarrow> 'd bcache \<Rightarrow> 'd bcache outcome" where
  "install_block rw me recovering dev src dst c = obind (bread rw me dev src c) (\<lambda>(lbuf, c).
     obind (bread rw me dev dst c) (\<lambda>(dbuf, c).
     obind (bwrite rw me dbuf (set_data dbuf (data (bufs c lbuf)) c)) (\<lambda>c.
     obind (brelse me lbuf (if \<not> recovering then bunpin dbuf c else c)) (\<lambda>c.
     brelse me dbuf c))))"

definition install_trans :: "'d driver \<Rightarrow> i32 \<Rightarrow> bool \<Rightarrow> 'd logst \<Rightarrow> 'd logst outcome" where
  "install_trans rw me recovering st = ofold (\<lambda>tail st.
     if LOGSIZE \<le> tail then Undefined
     else obind (install_block rw me recovering (ldev (lg st)) (lstart (lg st) + word_of_nat tail + 1)
       (hblock (lh (lg st)) ! tail) (bc st)) (\<lambda>c. Ok (st\<lparr>bc := c\<rparr>)))
   [0..<nat (hn (lh (lg st)))] st"

definition read_head :: "'d driver \<Rightarrow> i32 \<Rightarrow> 'd logst \<Rightarrow> 'd logst outcome" where
  "read_head rw me st = obind (bread rw me (ldev (lg st)) (lstart (lg st)) (bc st)) (\<lambda>(b, c).
     let d = data (bufs c b); n = head_n d in
     obind (ofold (\<lambda>i bl. if LOGSIZE \<le> i then Undefined else Ok (bl[i := head_block d i])) [0..<nat n] (hblock (lh (lg st)))) (\<lambda>bl.
     obind (brelse me b c) (\<lambda>c. Ok (st\<lparr>lg := (lg st)\<lparr>lh := \<lparr>hn = n, hblock = bl\<rparr>\<rparr>, bc := c\<rparr>))))"

definition write_head :: "'d driver \<Rightarrow> i32 \<Rightarrow> 'd logst \<Rightarrow> 'd logst outcome" where
  "write_head rw me st = obind (bread rw me (ldev (lg st)) (lstart (lg st)) (bc st)) (\<lambda>(b, c).
     let h = lh (lg st) in
     obind (ofold (\<lambda>i d. if LOGSIZE \<le> i then Undefined else Ok (put_head_block i (hblock h ! i) d)) [0..<nat (hn h)]
         (put_head_n (hn h) (data (bufs c b)))) (\<lambda>d.
     obind (bwrite rw me b (set_data b d c)) (\<lambda>c.
     obind (brelse me b c) (\<lambda>c. Ok (st\<lparr>bc := c\<rparr>)))))"

definition clear_head :: "'d logst \<Rightarrow> 'd logst" where
  "clear_head st = st\<lparr>lg := (lg st)\<lparr>lh := (lh (lg st))\<lparr>hn := 0\<rparr>\<rparr>\<rparr>"

definition recover_from_log :: "'d driver \<Rightarrow> i32 \<Rightarrow> 'd logst \<Rightarrow> 'd logst outcome" where
  "recover_from_log rw me st = obind (read_head rw me st) (\<lambda>st.
     obind (install_trans rw me True st) (\<lambda>st. write_head rw me (clear_head st)))"

text \<open>\<^verbatim>\<open>sizeof(struct logheader)\<close> is \<open>4 + 4 * LOGSIZE\<close>, below \<^verbatim>\<open>BSIZE\<close>, so the first panic cannot happen.\<close>

definition initlog :: "'d driver \<Rightarrow> i32 \<Rightarrow> u32 \<Rightarrow> u32 \<Rightarrow> u32 \<Rightarrow> 'd logst \<Rightarrow> 'd logst outcome" where
  "initlog rw me dev logstart nlog st = (if BSIZE \<le> 4 + 4 * LOGSIZE then Panic ''initlog: too big logheader''
     else recover_from_log rw me
       (st\<lparr>lg := (lg st)\<lparr>lstart := logstart, lsize := sint (ucast nlog :: i32), ldev := dev\<rparr>\<rparr>))"

definition begin_op :: "log \<Rightarrow> log outcome" where
  "begin_op l = (if committing l then Sleeps
     else if int LOGSIZE < hn (lh l) + (outstanding l + 1) * MAXOPBLOCKS then Sleeps
     else Ok (l\<lparr>outstanding := outstanding l + 1\<rparr>))"

definition log_block :: "'d driver \<Rightarrow> i32 \<Rightarrow> u32 \<Rightarrow> u32 \<Rightarrow> u32 \<Rightarrow> 'd bcache \<Rightarrow> 'd bcache outcome" where
  "log_block rw me dev dst src c = obind (bread rw me dev dst c) (\<lambda>(to, c).
     obind (bread rw me dev src c) (\<lambda>(from, c).
     obind (bwrite rw me to (set_data to (data (bufs c from)) c)) (\<lambda>c.
     obind (brelse me from c) (\<lambda>c. brelse me to c))))"

definition write_log :: "'d driver \<Rightarrow> i32 \<Rightarrow> 'd logst \<Rightarrow> 'd logst outcome" where
  "write_log rw me st = ofold (\<lambda>tail st.
     if LOGSIZE \<le> tail then Undefined
     else obind (log_block rw me (ldev (lg st)) (lstart (lg st) + word_of_nat tail + 1)
       (hblock (lh (lg st)) ! tail) (bc st)) (\<lambda>c. Ok (st\<lparr>bc := c\<rparr>)))
   [0..<nat (hn (lh (lg st)))] st"

definition commit :: "'d driver \<Rightarrow> i32 \<Rightarrow> 'd logst \<Rightarrow> 'd logst outcome" where
  "commit rw me st = (if 0 < hn (lh (lg st)) then
       obind (write_log rw me st) (\<lambda>st.
       obind (write_head rw me st) (\<lambda>st.
       obind (install_trans rw me False st) (\<lambda>st. write_head rw me (clear_head st))))
     else Ok st)"

text \<open>\<^verbatim>\<open>end_op\<close> up to the release of the log lock (the flag is \<^verbatim>\<open>do_commit\<close>), and as a whole.\<close>

definition end_op_enter :: "log \<Rightarrow> (bool \<times> log) outcome" where
  "end_op_enter l = (let l = l\<lparr>outstanding := outstanding l - 1\<rparr> in
     if committing l then Panic ''log.committing''
     else if outstanding l = 0 then Ok (True, l\<lparr>committing := True\<rparr>) else Ok (False, l))"

definition end_op :: "'d driver \<Rightarrow> i32 \<Rightarrow> 'd logst \<Rightarrow> 'd logst outcome" where
  "end_op rw me st = obind (end_op_enter (lg st)) (\<lambda>(do_commit, l).
     let st = st\<lparr>lg := l\<rparr> in
     if do_commit then obind (commit rw me st) (\<lambda>st. Ok (st\<lparr>lg := (lg st)\<lparr>committing := False\<rparr>\<rparr>))
     else Ok st)"

primrec absorb_index :: "u32 list \<Rightarrow> nat \<Rightarrow> nat \<Rightarrow> u32 \<Rightarrow> nat" where
  "absorb_index bl i 0 bn = i"
| "absorb_index bl i (Suc k) bn = (if bl ! i = bn then i else absorb_index bl (Suc i) k bn)"

definition log_write :: "nat \<Rightarrow> 'd logst \<Rightarrow> 'd logst outcome" where
  "log_write b st = (let l = lg st; h = lh l; bn = blockno (bufs (bc st) b) in
     if int LOGSIZE \<le> hn h \<or> lsize l - 1 \<le> hn h then Panic ''too big a transaction''
     else if outstanding l < 1 then Panic ''log_write outside of trans''
     else let
       i = absorb_index (hblock h) 0 (nat (hn h)) bn;
       h' = h\<lparr>hblock := (hblock h)[i := bn]\<rparr>
     in if int i = hn h
       then Ok (st\<lparr>bc := bpin b (bc st), lg := l\<lparr>lh := h'\<lparr>hn := hn h + 1\<rparr>\<rparr>\<rparr>)
       else Ok (st\<lparr>lg := l\<lparr>lh := h'\<rparr>\<rparr>))"

section \<open>Copying one block\<close>

definition copied :: "u32 \<Rightarrow> u8 list \<Rightarrow> cache_view \<Rightarrow> cache_view" where
  "copied dst d v = v\<lparr>aview := (aview v)(dst := d), adisk := (adisk v)(dst := d), atrace := atrace v @ [(dst, d)]\<rparr>"

definition unpinned :: "u32 \<Rightarrow> cache_view \<Rightarrow> cache_view" where
  "unpinned bn v = v\<lparr>arefs := (arefs v)(bn := arefs v bn - 1)\<rparr>"

text \<open>Both blocks of a copy can be held at once.\<close>

definition pair_room :: "u32 \<Rightarrow> u32 \<Rightarrow> cache_view \<Rightarrow> bool" where
  "pair_room x y v \<longleftrightarrow> x \<noteq> y \<and> aheld v x = None \<and> aheld v y = None \<and> arefs v x + 2 < 2 ^ 32 \<and> arefs v y + 2 < 2 ^ 32 \<and>
     card {n. 0 < arefs v n} < NBUF \<and> (0 < arefs v x \<or> 0 < arefs v y \<or> card {n. 0 < arefs v n} + 1 < NBUF)"

lemma pair_room_fst: "pair_room x y v \<Longrightarrow> cache_room x v"
  by (simp add: pair_room_def cache_room_def)

lemma pair_room_snd:
  assumes "pair_room x y v" and "finite {n. 0 < arefs v n}"
  shows "cache_room y (took me x v)"
proof -
  have "{n. 0 < arefs (took me x v) n} = insert x {n. 0 < arefs v n}" by (auto simp: took_def)
  then have "card {n. 0 < arefs (took me x v) n} < NBUF" if "\<not> 0 < arefs v y"
    using assms that by (cases "0 < arefs v x") (auto simp: pair_room_def insert_absorb card_insert_if)
  moreover have "arefs (took me x v) y = arefs v y" "aheld (took me x v) y = aheld v y"
    using assms(1) by (auto simp add: pair_room_def took_def)
  ultimately show ?thesis using assms(1) unfolding cache_room_def by (auto simp: pair_room_def)
qed

context block_device
begin

lemma finite_refs: "cinv D st \<Longrightarrow> finite {n. 0 < arefs (absv D st) n}"
  by (simp add: cache_inv_def finite_referenced)

lemma bread_pair:
  assumes "cinv D c" and "pair_room x y (absv D c)" and "x < nblk" and "y < nblk"
  obtains bx by' c1 c2 where "bread rw me D x c = Ok (bx, c1)" and "bread rw me D y c1 = Ok (by', c2)"
    and "cinv D c2" and "handle D c2 bx x" and "handle D c2 by' y"
    and "absv D c2 = took me y (took me x (absv D c))"
proof -
  obtain bx c1 where 1: "bread rw me D x c = Ok (bx, c1)" "cinv D c1" "handle D c1 bx x" "absv D c1 = took me x (absv D c)"
    using bread_ok [OF assms(1,3) pair_room_fst [OF assms(2)]] by blast
  have "cache_room y (absv D c1)" unfolding 1(4) by (rule pair_room_snd [OF assms(2) finite_refs [OF assms(1)]])
  from bread_ok [OF 1(2) assms(4) this] obtain by' c2 where
    2: "bread rw me D y c1 = Ok (by', c2)" "cinv D c2" "handle D c2 by' y" "absv D c2 = took me y (absv D c1)"
      "\<forall>i n. handle D c1 i n \<longrightarrow> handle D c2 i n" by blast
  show ?thesis using 1 2 by (intro that [of bx c1 by' c2]) auto
qed

lemma handle_data: "cinv D st \<Longrightarrow> handle D st b bn \<Longrightarrow> data (bufs st b) = aview (absv D st) bn"
  using handle_abs(1) [of D st b bn content trace] by (simp add: cache_inv_def)

lemma handle_data_length: "cinv D st \<Longrightarrow> handle D st b bn \<Longrightarrow> length (data (bufs st b)) = BSIZE"
  using bcache_okD(5) [of D st b] by (simp add: cache_inv_def handle_def)

lemma install_block_ok:
  assumes inv: "cinv D c" and room: "pair_room src dst (absv D c)" and "src < nblk" and "dst < nblk"
    and pinned: "\<not> r \<Longrightarrow> 0 < arefs (absv D c) dst"
  shows "\<exists>c'. install_block rw me r D src dst c = Ok c' \<and> cinv D c' \<and>
    absv D c' = copied dst (aview (absv D c) src) (if r then absv D c else unpinned dst (absv D c))"
proof -
  let ?v = "absv D c"
  have R: "src \<noteq> dst" "aheld ?v src = None" "aheld ?v dst = None" using room by (auto simp: pair_room_def)
  have clean: "cache_clean ?v" using inv by (simp add: cache_inv_def)
  obtain lb db c1 c2 where b: "bread rw me D src c = Ok (lb, c1)" "bread rw me D dst c1 = Ok (db, c2)" "cinv D c2"
      "handle D c2 lb src" "handle D c2 db dst" "absv D c2 = took me dst (took me src ?v)"
    using bread_pair [OF inv room assms(3,4)] by metis
  define d where "d = data (bufs c2 lb)"
  have d: "d = aview ?v src" "length d = BSIZE"
    using handle_data [OF b(3,4)] handle_data_length [OF b(3,4)] by (simp_all add: d_def b(6) took_def)
  let ?c3 = "set_data db d c2"
  have c3: "cinv D ?c3" "absv D ?c3 = (absv D c2)\<lparr>aview := (aview (absv D c2))(dst := d)\<rparr>"
      "handle D ?c3 lb src" "handle D ?c3 db dst"
    using set_data_ok [OF b(3,5) d(2)] b(4,5) by auto
  have "aheld (absv D ?c3) dst = Some me" by (simp add: c3(2) b(6) took_def)
  from bwrite_ok [OF c3(1,4) this assms(4)] obtain c4 where
    c4: "bwrite rw me db ?c3 = Ok c4" "cinv D c4" "handle D c4 lb src" "handle D c4 db dst"
      "absv D c4 = took me dst (took me src (copied dst d ?v))"
    using c3 by (auto simp: b(6) took_def copied_def)
  let ?c5 = "if \<not> r then bunpin db c4 else c4"
  let ?w = "copied dst d (if r then ?v else unpinned dst ?v)"
  have c5: "cinv D ?c5" "handle D ?c5 lb src" "handle D ?c5 db dst" "absv D ?c5 = took me dst (took me src ?w)"
  proof -
    have "1 < arefs (absv D c4) dst" if "\<not> r" using pinned [OF that] R by (simp add: c4(5) took_def copied_def)
    note u = bunpin_ok [OF c4(2,4) this]
    show "cinv D ?c5" "handle D ?c5 lb src" "handle D ?c5 db dst" "absv D ?c5 = took me dst (took me src ?w)"
      using u c4 R pinned by (auto simp: took_def copied_def unpinned_def fun_eq_iff intro!: cache_view.equality)
  qed
  have s1: "aheld (absv D ?c5) src = Some me" using R by (simp add: c5(4) took_def)
  have s2: "1 < arefs (absv D ?c5) src \<or> aview (absv D ?c5) src = adisk (absv D ?c5) src"
    using clean R by (cases "arefs ?v src") (auto simp: c5(4) took_def copied_def unpinned_def cache_clean_def)
  from brelse_ok [OF c5(1,2) s1 s2] obtain c6 where
    c6: "brelse me lb ?c5 = Ok c6" "cinv D c6" "absv D c6 = gave src (absv D ?c5)" "handle D c6 db dst"
    using R(1) c5(3) by blast
  have t1: "aheld (absv D c6) dst = Some me" using R(1) by (simp add: c6(3) c5(4) took_def gave_def)
  have t2: "aview (absv D c6) dst = adisk (absv D c6) dst" by (simp add: c6(3) c5(4) took_def gave_def copied_def)
  from brelse_ok [OF c6(2,4) t1] t2 obtain c7 where
    c7: "brelse me db c6 = Ok c7" "cinv D c7" "absv D c7 = gave dst (absv D c6)" by blast
  have "absv D c7 = ?w" unfolding c7(3) c6(3) c5(4) using R
    by (auto simp: took_def gave_def copied_def unpinned_def fun_eq_iff intro!: cache_view.equality)
  moreover have "install_block rw me r D src dst c = Ok c7"
    using b c4 c6 c7 by (simp add: install_block_def d_def)
  ultimately show ?thesis using c7(2) d(1) by (intro exI [of _ c7]) simp
qed


lemma log_block_ok:
  assumes inv: "cinv D c" and room: "pair_room dst src (absv D c)" and "src < nblk" and "dst < nblk"
  shows "\<exists>c'. log_block rw me D dst src c = Ok c' \<and> cinv D c' \<and>
    absv D c' = copied dst (aview (absv D c) src) (absv D c)"
proof -
  let ?v = "absv D c"
  have R: "src \<noteq> dst" "aheld ?v src = None" "aheld ?v dst = None" using room by (auto simp: pair_room_def)
  have clean: "cache_clean ?v" using inv by (simp add: cache_inv_def)
  obtain db sb c1 c2 where b: "bread rw me D dst c = Ok (db, c1)" "bread rw me D src c1 = Ok (sb, c2)" "cinv D c2"
      "handle D c2 db dst" "handle D c2 sb src" "absv D c2 = took me src (took me dst ?v)"
    using bread_pair [OF inv room assms(4,3)] by metis
  define d where "d = data (bufs c2 sb)"
  have d: "d = aview ?v src" "length d = BSIZE"
    using handle_data [OF b(3,5)] handle_data_length [OF b(3,5)] by (simp_all add: d_def b(6) took_def)
  let ?c3 = "set_data db d c2"
  have c3: "cinv D ?c3" "absv D ?c3 = (absv D c2)\<lparr>aview := (aview (absv D c2))(dst := d)\<rparr>"
      "handle D ?c3 db dst" "handle D ?c3 sb src"
    using set_data_ok [OF b(3,4) d(2)] b(4,5) by auto
  have "aheld (absv D ?c3) dst = Some me" using R(1) by (simp add: c3(2) b(6) took_def)
  from bwrite_ok [OF c3(1,3) this assms(4)] obtain c4 where
    c4: "bwrite rw me db ?c3 = Ok c4" "cinv D c4" "handle D c4 db dst" "handle D c4 sb src"
      "absv D c4 = took me src (took me dst (copied dst d ?v))"
    using c3 by (auto simp: b(6) took_def copied_def)
  have s1: "aheld (absv D c4) src = Some me" by (simp add: c4(5) took_def)
  have s2: "1 < arefs (absv D c4) src \<or> aview (absv D c4) src = adisk (absv D c4) src"
    using clean R by (cases "arefs ?v src") (auto simp: c4(5) took_def copied_def cache_clean_def)
  from brelse_ok [OF c4(2,4) s1 s2] obtain c6 where
    c6: "brelse me sb c4 = Ok c6" "cinv D c6" "absv D c6 = gave src (absv D c4)" "handle D c6 db dst"
    using R(1) c4(3) by blast
  have t1: "aheld (absv D c6) dst = Some me" using R(1) by (simp add: c6(3) c4(5) took_def gave_def)
  have t2: "aview (absv D c6) dst = adisk (absv D c6) dst" by (simp add: c6(3) c4(5) took_def gave_def copied_def)
  from brelse_ok [OF c6(2,4) t1] t2 obtain c7 where
    c7: "brelse me db c6 = Ok c7" "cinv D c7" "absv D c7 = gave dst (absv D c6)" by blast
  have "absv D c7 = copied dst d ?v" unfolding c7(3) c6(3) c4(5) using R
    by (auto simp: took_def gave_def copied_def fun_eq_iff intro!: cache_view.equality)
  moreover have "log_block rw me D dst src c = Ok c7"
    using b c4 c6 c7 by (simp add: log_block_def d_def)
  ultimately show ?thesis using c7(2) d(1) by (intro exI [of _ c7]) simp
qed

end

section \<open>The header block\<close>

lemma length_put_head [simp]:
  "4 \<le> length d \<Longrightarrow> length (put_head_n n d) = length d"
  "8 + 4 * i \<le> length d \<Longrightarrow> length (put_head_block i b d) = length d"
  by (simp_all add: put_head_n_def put_head_block_def)

lemma head_n_put_same:
  assumes "4 \<le> length d" and "0 \<le> n" and "n < 2 ^ 31"
  shows "head_n (put_head_n n d) = n"
proof -
  have "unat (word_of_int n :: u32) < 256 ^ 4" using unsigned_less [of "word_of_int n :: u32", where 'a = nat] by simp
  then have "get_le 4 (put_head_n n d) 0 = unat (word_of_int n :: u32)"
    unfolding put_head_n_def by (rule get_put_le_same [rotated]) (use assms in simp)
  then have "head_n (put_head_n n d) = sint (word_of_int n :: i32)" by (simp add: head_n_def)
  also have "\<dots> = n" using assms by (simp add: int_word_sint)
  finally show ?thesis .
qed

lemma head_block_put_same: "8 + 4 * i \<le> length d \<Longrightarrow> head_block (put_head_block i b d) i = b"
  using unsigned_less [of b, where 'a = nat] by (simp add: head_block_def put_head_block_def get_put_le_same)

lemma head_put_other:
  "8 + 4 * i \<le> length d \<Longrightarrow> head_n (put_head_block i b d) = head_n d"
  "8 + 4 * i \<le> length d \<Longrightarrow> j \<noteq> i \<Longrightarrow> head_block (put_head_block i b d) j = head_block d j"
  "4 \<le> length d \<Longrightarrow> head_block (put_head_n n d) j = head_block d j"
proof -
  show "head_block (put_head_block i b d) j = head_block d j" if "8 + 4 * i \<le> length d" "j \<noteq> i"
  proof -
    have "4 + 4 * j + 4 \<le> 4 + 4 * i \<or> 4 + 4 * i + 4 \<le> 4 + 4 * j" using that(2) by arith
    then show ?thesis using that(1) by (simp add: head_block_def put_head_block_def get_put_le_other)
  qed
qed (auto simp: head_n_def head_block_def put_head_block_def put_head_n_def get_put_le_other)

text \<open>A header block that records \<open>n\<close> blocks \<open>bl\<close>.\<close>

definition is_head :: "nat \<Rightarrow> (nat \<Rightarrow> u32) \<Rightarrow> u8 list \<Rightarrow> bool" where
  "is_head n bl d \<longleftrightarrow> head_n d = int n \<and> (\<forall>i<n. head_block d i = bl i)"

lemma write_head_loop:
  assumes "length d = BSIZE" and "n \<le> LOGSIZE"
  shows "\<exists>d'. ofold (\<lambda>i d. if LOGSIZE \<le> i then Undefined else Ok (put_head_block i (bl ! i) d)) [0..<n]
      (put_head_n (int n) d) = Ok d' \<and> (length d' = BSIZE \<and> is_head n ((!) bl) d')"
proof -
  let ?P = "\<lambda>i d'. length d' = BSIZE \<and> head_n d' = int n \<and> (\<forall>j<i. head_block d' j = bl ! j)"
  have "\<exists>d'. ofold (\<lambda>i d. if LOGSIZE \<le> i then Undefined else Ok (put_head_block i (bl ! i) d)) [0..<n]
      (put_head_n (int n) d) = Ok d' \<and> ?P n d'"
  proof (rule ofold_upt [where P = ?P])
    show "?P 0 (put_head_n (int n) d)" using assms by (simp add: head_n_put_same)
  next
    fix i d' assume i: "i < n" and P: "?P i d'"
    then have "8 + 4 * i \<le> length d'" using assms(2) by simp
    then show "\<exists>u. (if LOGSIZE \<le> i then Undefined else Ok (put_head_block i (bl ! i) d')) = Ok u \<and> ?P (Suc i) u"
      using P i assms(2) by (auto simp: head_put_other head_block_put_same less_Suc_eq)
  qed
  then show ?thesis by (auto simp: is_head_def)
qed

lemma read_head_loop:
  assumes "n \<le> LOGSIZE" and "length bl = LOGSIZE"
  shows "\<exists>bl'. ofold (\<lambda>i bl. if LOGSIZE \<le> i then Undefined else Ok (bl[i := head_block d i])) [0..<n] bl = Ok bl' \<and>
    (length bl' = LOGSIZE \<and> (\<forall>i<n. bl' ! i = head_block d i))"
proof (rule ofold_upt [where P = "\<lambda>n bl. length bl = LOGSIZE \<and> (\<forall>i<n. bl ! i = head_block d i)"])
  fix i bl assume "i < n" "length bl = LOGSIZE \<and> (\<forall>j<i. bl ! j = head_block d j)"
  then show "\<exists>u. (if LOGSIZE \<le> i then Undefined else Ok (bl[i := head_block d i])) = Ok u \<and>
      (length u = LOGSIZE \<and> (\<forall>j<Suc i. u ! j = head_block d j))"
    using assms(1) by (auto simp: nth_list_update less_Suc_eq)
qed (use assms in simp)

section \<open>The phases of a commit\<close>

text \<open>
  The log that \<^verbatim>\<open>mkfs\<close> makes occupies \<^verbatim>\<open>LOGSIZE\<close> blocks from \<^verbatim>\<open>log.start\<close>, header first, so that it has room for
  \<open>LOGSIZE - 1\<close> blocks.
\<close>

abbreviation (input) LOGDATA :: nat where "LOGDATA \<equiv> 29"

definition log_area :: "u32 \<Rightarrow> u32 set" where
  "log_area S = (\<lambda>i. S + word_of_nat i) ` {..LOGDATA}"

definition apply_writes :: "(u32 \<times> u8 list) list \<Rightarrow> (u32 \<Rightarrow> u8 list) \<Rightarrow> u32 \<Rightarrow> u8 list" where
  "apply_writes ws = fold (\<lambda>(n, d) f. f(n := d)) ws"

lemma apply_writes_simps [simp]:
  "apply_writes [] f = f" "apply_writes (w # ws) f = apply_writes ws (f(fst w := snd w))"
  "apply_writes (ws @ us) f = apply_writes us (apply_writes ws f)"
  by (simp_all add: apply_writes_def split_beta)

lemma apply_writes_other: "n \<notin> fst ` set ws \<Longrightarrow> apply_writes ws f n = f n"
  by (induction ws arbitrary: f) auto

lemma apply_writes_in: "distinct (map fst ws) \<Longrightarrow> (n, d) \<in> set ws \<Longrightarrow> apply_writes ws f n = d"
proof (induction ws arbitrary: f)
  case (Cons w ws)
  show ?case
  proof (cases "w = (n, d)")
    case True
    then show ?thesis using Cons.prems(1) by (simp add: apply_writes_other)
  qed (use Cons in auto)
qed simp

definition wrote :: "(u32 \<times> u8 list) list \<Rightarrow> cache_view \<Rightarrow> cache_view" where
  "wrote ws v = v\<lparr>aview := apply_writes ws (aview v), adisk := apply_writes ws (adisk v), atrace := atrace v @ ws\<rparr>"

lemma wrote_simps [simp]:
  "aview (wrote ws v) = apply_writes ws (aview v)" "adisk (wrote ws v) = apply_writes ws (adisk v)"
  "atrace (wrote ws v) = atrace v @ ws" "arefs (wrote ws v) = arefs v" "aheld (wrote ws v) = aheld v"
  "wrote [] v = v" "wrote us (wrote ws v) = wrote (ws @ us) v" "copied n d v = wrote [(n, d)] v"
  by (simp_all add: wrote_def copied_def)

text \<open>A log in memory that fits the disk: \<open>n\<close> distinct home blocks outside the log area.\<close>

definition log_fits :: "u32 \<Rightarrow> log \<Rightarrow> bool" where
  "log_fits nblk l \<longleftrightarrow> 0 \<le> hn (lh l) \<and> hn (lh l) \<le> int LOGDATA \<and> length (hblock (lh l)) = LOGSIZE \<and>
     unat (lstart l) + LOGDATA < unat nblk \<and>
     (\<forall>i < nat (hn (lh l)). hblock (lh l) ! i \<notin> log_area (lstart l) \<and> hblock (lh l) ! i < nblk)"

abbreviation nlogged :: "log \<Rightarrow> nat" where
  "nlogged l \<equiv> nat (hn (lh l))"

abbreviation log_slot :: "log \<Rightarrow> nat \<Rightarrow> u32" where
  "log_slot l i \<equiv> lstart l + word_of_nat i + 1"

lemma slot_less:
  assumes "unat S + LOGDATA < unat nblk" and "i \<le> LOGDATA"
  shows "S + word_of_nat i < nblk" and "unat (S + word_of_nat i :: u32) = unat S + i"
proof -
  have "unat (S + word_of_nat i) = unat S + i"
    using assms unsigned_less [of nblk, where 'a = nat] by (simp add: unat_word_ariths unat_of_nat take_bit_nat_eq_self mod_less)
  then show "unat (S + word_of_nat i) = unat S + i" "S + word_of_nat i < nblk" using assms by (simp_all add: word_less_nat_alt)
qed

lemma log_slot_eq: "log_slot l i = lstart l + word_of_nat (Suc i)"
  by simp

lemma log_fitsD:
  assumes "log_fits nblk l"
  shows "nlogged l \<le> LOGDATA" and "length (hblock (lh l)) = LOGSIZE" and "int (nlogged l) = hn (lh l)" and "lstart l < nblk"
    and "i < nlogged l \<Longrightarrow> hblock (lh l) ! i \<notin> log_area (lstart l)" and "i < nlogged l \<Longrightarrow> hblock (lh l) ! i < nblk"
    and "i < LOGDATA \<Longrightarrow> log_slot l i < nblk" and "i < LOGDATA \<Longrightarrow> log_slot l i \<in> log_area (lstart l)"
    and "i < LOGDATA \<Longrightarrow> j < LOGDATA \<Longrightarrow> log_slot l i = log_slot l j \<longleftrightarrow> i = j" and "i < LOGDATA \<Longrightarrow> log_slot l i \<noteq> lstart l"
    and "lstart l \<in> log_area (lstart l)"
proof -
  have u: "unat (lstart l) + LOGDATA < unat nblk" using assms by (simp add: log_fits_def)
  note S = slot_less [OF u]
  show "nlogged l \<le> LOGDATA" "length (hblock (lh l)) = LOGSIZE" "int (nlogged l) = hn (lh l)"
      "i < nlogged l \<Longrightarrow> hblock (lh l) ! i \<notin> log_area (lstart l)" "i < nlogged l \<Longrightarrow> hblock (lh l) ! i < nblk"
    using assms by (auto simp: log_fits_def)
  show "lstart l < nblk" using S(1) [of 0] by simp
  show "i < LOGDATA \<Longrightarrow> log_slot l i < nblk" using S(1) [of "Suc i"] by (simp add: log_slot_eq del: of_nat_Suc)
  show "i < LOGDATA \<Longrightarrow> log_slot l i \<in> log_area (lstart l)"
    unfolding log_slot_eq log_area_def by (rule imageI) simp
  show "i < LOGDATA \<Longrightarrow> j < LOGDATA \<Longrightarrow> log_slot l i = log_slot l j \<longleftrightarrow> i = j"
    unfolding log_slot_eq using S(2) [of "Suc i"] S(2) [of "Suc j"] by (metis Suc_leI add_left_cancel old.nat.inject)
  show "i < LOGDATA \<Longrightarrow> log_slot l i \<noteq> lstart l"
    unfolding log_slot_eq using S(2) [of "Suc i"] by auto
  show "lstart l \<in> log_area (lstart l)" unfolding log_area_def by (rule image_eqI [of _ _ 0]) simp_all
qed

text \<open>The home block of the \<open>i\<close>-th logged block, and the disk writes of the phases.\<close>

abbreviation home :: "log \<Rightarrow> nat \<Rightarrow> u32" where
  "home l i \<equiv> hblock (lh l) ! i"

definition log_writes :: "log \<Rightarrow> (u32 \<Rightarrow> u8 list) \<Rightarrow> nat \<Rightarrow> (u32 \<times> u8 list) list" where
  "log_writes l f n = map (\<lambda>i. (log_slot l i, f (home l i))) [0..<n]"

definition home_writes :: "log \<Rightarrow> (u32 \<Rightarrow> u8 list) \<Rightarrow> nat \<Rightarrow> (u32 \<times> u8 list) list" where
  "home_writes l f n = map (\<lambda>i. (home l i, f (log_slot l i))) [0..<n]"

lemma writes_Suc:
  "log_writes l f (Suc n) = log_writes l f n @ [(log_slot l n, f (home l n))]"
  "home_writes l f (Suc n) = home_writes l f n @ [(home l n, f (log_slot l n))]"
  "log_writes l f 0 = []" "home_writes l f 0 = []"
  by (simp_all add: log_writes_def home_writes_def)

lemma log_writes_home:
  assumes "log_fits nblk l" and "n \<le> LOGDATA" and "bn \<notin> log_area (lstart l)"
  shows "apply_writes (log_writes l f n) g bn = g bn"
  using assms log_fitsD(8) [OF assms(1)] by (intro apply_writes_other) (auto simp: log_writes_def)

lemma home_writes_log:
  assumes "log_fits nblk l" and "n \<le> nlogged l" and "bn \<in> log_area (lstart l)"
  shows "apply_writes (home_writes l f n) g bn = g bn"
  using assms log_fitsD(5) [OF assms(1)] by (intro apply_writes_other) (auto simp: home_writes_def)

text \<open>No buffer is locked and the reference counts are far from wrapping.\<close>

definition quiet :: "cache_view \<Rightarrow> bool" where
  "quiet v \<longleftrightarrow> (\<forall>bn. aheld v bn = None \<and> arefs v bn + 2 < 2 ^ 32)"

abbreviation nrefs :: "cache_view \<Rightarrow> nat" where
  "nrefs v \<equiv> card {n. 0 < arefs v n}"

definition unpin_home :: "log \<Rightarrow> nat \<Rightarrow> cache_view \<Rightarrow> cache_view" where
  "unpin_home l n v = v\<lparr>arefs := (\<lambda>bn. arefs v bn - (if bn \<in> home l ` {..<n} then 1 else 0))\<rparr>"

lemma quietD: "quiet v \<Longrightarrow> aheld v bn = None" "quiet v \<Longrightarrow> arefs v bn + 2 < 2 ^ 32"
  by (simp_all add: quiet_def)

lemma quiet_wrote [simp]: "quiet (wrote ws v) = quiet v"
  by (simp add: quiet_def)

context block_device
begin

lemma write_log_ok:
  assumes inv: "cinv D (bc st)" and fits: "log_fits nblk (lg st)" and dev: "ldev (lg st) = D"
    and q: "quiet (absv D (bc st))" and few: "nrefs (absv D (bc st)) < NBUF"
    and pin: "\<And>i. i < nlogged (lg st) \<Longrightarrow> 0 < arefs (absv D (bc st)) (home (lg st) i)"
  shows "\<exists>c. write_log rw me st = Ok (st\<lparr>bc := c\<rparr>) \<and> cinv D c \<and>
    absv D c = wrote (log_writes (lg st) (aview (absv D (bc st))) (nlogged (lg st))) (absv D (bc st))"
proof -
  let ?l = "lg st" and ?v = "absv D (bc st)"
  note F = log_fitsD [OF fits]
  let ?P = "\<lambda>i t. \<exists>c. t = st\<lparr>bc := c\<rparr> \<and> cinv D c \<and> absv D c = wrote (log_writes ?l (aview ?v) i) ?v"
  let ?f = "\<lambda>tail st. if LOGSIZE \<le> tail then Undefined
     else obind (log_block rw me (ldev (lg st)) (log_slot (lg st) tail) (home (lg st) tail) (bc st)) (\<lambda>c. Ok (st\<lparr>bc := c\<rparr>))"
  have "\<exists>u. ofold ?f [0..<nlogged ?l] st = Ok u \<and> ?P (nlogged ?l) u"
  proof (rule ofold_upt [where P = ?P])
    show "?P 0 st" using inv by (auto simp: writes_Suc intro!: exI [of _ "bc st"])
  next
    fix i t assume i: "i < nlogged ?l" and "?P i t"
    then obtain c where c: "t = st\<lparr>bc := c\<rparr>" "cinv D c" "absv D c = wrote (log_writes ?l (aview ?v) i) ?v" by blast
    have i': "i < LOGDATA" using i F(1) by simp
    have ne: "log_slot ?l i \<noteq> home ?l i" using F(5) [OF i] F(8) [OF i'] by metis
    have "pair_room (log_slot ?l i) (home ?l i) (absv D c)"
      using ne quietD [OF q] few pin [OF i] by (simp add: pair_room_def c(3))
    from log_block_ok [OF c(2) this F(6) [OF i] F(7) [OF i']]
    obtain c' where "log_block rw me D (log_slot ?l i) (home ?l i) c = Ok c'" "cinv D c'"
      "absv D c' = copied (log_slot ?l i) (aview (absv D c) (home ?l i)) (absv D c)" by blast
    then show "\<exists>u. ?f i t = Ok u \<and> ?P (Suc i) u"
      using i' c dev log_writes_home [OF fits _ F(5) [OF i]] by (auto simp: writes_Suc intro!: exI [of _ c'])
  qed
  then show ?thesis unfolding write_log_def by blast
qed

lemma install_trans_ok:
  assumes inv: "cinv D (bc st)" and fits: "log_fits nblk (lg st)" and dev: "ldev (lg st) = D"
    and q: "quiet (absv D (bc st))" and few: "nrefs (absv D (bc st)) < NBUF"
    and rec: "r \<Longrightarrow> nrefs (absv D (bc st)) + 1 < NBUF"
    and pin: "\<And>i. \<not> r \<Longrightarrow> i < nlogged (lg st) \<Longrightarrow> 0 < arefs (absv D (bc st)) (home (lg st) i)"
    and dist: "\<not> r \<Longrightarrow> distinct (take (nlogged (lg st)) (hblock (lh (lg st))))"
  shows "\<exists>c. install_trans rw me r st = Ok (st\<lparr>bc := c\<rparr>) \<and> cinv D c \<and>
    absv D c = wrote (home_writes (lg st) (aview (absv D (bc st))) (nlogged (lg st)))
      (if r then absv D (bc st) else unpin_home (lg st) (nlogged (lg st)) (absv D (bc st)))"
proof -
  let ?l = "lg st" and ?v = "absv D (bc st)"
  let ?w = "\<lambda>i. if r then ?v else unpin_home ?l i ?v"
  note F = log_fitsD [OF fits]
  have sub: "{n. 0 < arefs (?w i) n} \<subseteq> {n. 0 < arefs ?v n}" for i by (auto simp: unpin_home_def)
  have few_i: "nrefs (?w i) \<le> nrefs ?v" for i using card_mono [OF finite_refs [OF inv] sub] .
  have q_i: "aheld (?w i) bn = None" "arefs (?w i) bn + 2 < 2 ^ 32" "aview (?w i) = aview ?v" for i bn
    using quietD [OF q, of bn] by (auto simp: unpin_home_def)
  have inj: "home ?l i \<notin> home ?l ` {..<i}" if "\<not> r" "i < nlogged ?l" for i
    using dist [OF that(1)] that(2) F(1,2) by (force simp: distinct_conv_nth)
  let ?P = "\<lambda>i t. \<exists>c. t = st\<lparr>bc := c\<rparr> \<and> cinv D c \<and> absv D c = wrote (home_writes ?l (aview ?v) i) (?w i)"
  let ?f = "\<lambda>tail st. if LOGSIZE \<le> tail then Undefined
     else obind (install_block rw me r (ldev (lg st)) (log_slot (lg st) tail) (home (lg st) tail) (bc st)) (\<lambda>c. Ok (st\<lparr>bc := c\<rparr>))"
  have "\<exists>u. ofold ?f [0..<nlogged ?l] st = Ok u \<and> ?P (nlogged ?l) u"
  proof (rule ofold_upt [where P = ?P])
    show "?P 0 st" using inv by (auto simp: writes_Suc unpin_home_def intro!: exI [of _ "bc st"])
  next
    fix i t assume i: "i < nlogged ?l" and "?P i t"
    then obtain c where c: "t = st\<lparr>bc := c\<rparr>" "cinv D c" "absv D c = wrote (home_writes ?l (aview ?v) i) (?w i)" by blast
    have i': "i < LOGDATA" using i F(1) by simp
    have ne: "log_slot ?l i \<noteq> home ?l i" using F(5) [OF i] F(8) [OF i'] by metis
    have p: "0 < arefs (?w i) (home ?l i)" if "\<not> r" using pin [OF that i] inj [OF that i] that by (simp add: unpin_home_def)
    have "pair_room (log_slot ?l i) (home ?l i) (absv D c)"
      using ne q_i(1,2) few few_i [of i] p rec unfolding pair_room_def c(3) by (cases r) auto
    from install_block_ok [OF c(2) this F(7) [OF i'] F(6) [OF i], of r me] p
    obtain c' where c': "install_block rw me r D (log_slot ?l i) (home ?l i) c = Ok c'" "cinv D c'"
      "absv D c' = copied (home ?l i) (aview (absv D c) (log_slot ?l i)) (if r then absv D c else unpinned (home ?l i) (absv D c))"
      by (auto simp: c(3))
    have "(if r then absv D c else unpinned (home ?l i) (absv D c)) = wrote (home_writes ?l (aview ?v) i) (?w (Suc i))"
      using inj [OF _ i] by (auto simp: c(3) unpinned_def wrote_def unpin_home_def fun_eq_iff lessThan_Suc)
    then have "absv D c' = wrote (home_writes ?l (aview ?v) (Suc i)) (?w (Suc i))"
      using home_writes_log [OF fits less_imp_le [OF i] F(8) [OF i']] by (simp add: c'(3) c(3) writes_Suc q_i(3))
    then show "\<exists>u. ?f i t = Ok u \<and> ?P (Suc i) u" using i' c(1) c'(1,2) dev
      by (intro exI [of _ "st\<lparr>bc := c'\<rparr>"] conjI exI [of _ c']) simp_all
  qed
  then show ?thesis unfolding install_trans_def by blast
qed


lemma write_head_ok:
  assumes inv: "cinv D (bc st)" and fits: "log_fits nblk (lg st)" and dev: "ldev (lg st) = D"
    and q: "quiet (absv D (bc st))" and few: "nrefs (absv D (bc st)) < NBUF"
  shows "\<exists>c d. write_head rw me st = Ok (st\<lparr>bc := c\<rparr>) \<and> cinv D c \<and> is_head (nlogged (lg st)) (home (lg st)) d \<and>
    absv D c = wrote [(lstart (lg st), d)] (absv D (bc st))"
proof -
  let ?l = "lg st" and ?v = "absv D (bc st)" and ?S = "lstart (lg st)"
  note F = log_fitsD [OF fits]
  have clean: "cache_clean ?v" using inv by (simp add: cache_inv_def)
  have "cache_room ?S ?v" using few quietD [OF q, of ?S] by (simp add: cache_room_def)
  from bread_ok [OF inv F(4) this] obtain b c1 where
    1: "bread rw me D ?S (bc st) = Ok (b, c1)" "cinv D c1" "handle D c1 b ?S" "absv D c1 = took me ?S ?v" by blast
  obtain d where d: "ofold (\<lambda>i d. if LOGSIZE \<le> i then Undefined else Ok (put_head_block i (home ?l i) d)) [0..<nlogged ?l]
      (put_head_n (hn (lh ?l)) (data (bufs c1 b))) = Ok d" "length d = BSIZE" "is_head (nlogged ?l) (home ?l) d"
    using write_head_loop [OF handle_data_length [OF 1(2,3)] order_trans [OF F(1)], of "hblock (lh ?l)"] F(3) by auto
  let ?c2 = "set_data b d c1"
  have 2: "cinv D ?c2" "handle D ?c2 b ?S" "absv D ?c2 = (absv D c1)\<lparr>aview := (aview (absv D c1))(?S := d)\<rparr>"
    using set_data_ok [OF 1(2,3) d(2)] 1(3) by auto
  have h: "aheld (absv D ?c2) ?S = Some me" by (simp add: 2(3) 1(4) took_def)
  from bwrite_ok [OF 2(1,2) h F(4)] obtain c3 where
    3: "bwrite rw me b ?c2 = Ok c3" "cinv D c3" "handle D c3 b ?S" "absv D c3 = took me ?S (wrote [(?S, d)] ?v)"
    using 2(2) by (auto simp: 2(3) 1(4) took_def wrote_def)
  have h: "aheld (absv D c3) ?S = Some me" "aview (absv D c3) ?S = adisk (absv D c3) ?S"
    by (simp_all add: 3(4) took_def)
  from brelse_ok [OF 3(2,3) h(1)] h(2) obtain c4 where
    4: "brelse me b c3 = Ok c4" "cinv D c4" "absv D c4 = gave ?S (absv D c3)" by blast
  have "absv D c4 = wrote [(?S, d)] ?v" unfolding 4(3) 3(4) using quietD(1) [OF q]
    by (auto simp: took_def gave_def wrote_def fun_eq_iff intro!: cache_view.equality)
  moreover have "write_head rw me st = Ok (st\<lparr>bc := c4\<rparr>)" using 1 d 3 4 dev by (simp add: write_head_def Let_def)
  ultimately show ?thesis using 4(2) d(3) by (intro exI [of _ c4] exI [of _ d]) simp
qed

lemma read_head_ok:
  assumes inv: "cinv D (bc st)" and "lstart (lg st) < nblk" and dev: "ldev (lg st) = D"
    and q: "quiet (absv D (bc st))" and few: "nrefs (absv D (bc st)) < NBUF"
    and len: "length (hblock (lh (lg st))) = LOGSIZE" and n: "head_n (aview (absv D (bc st)) (lstart (lg st))) \<le> int LOGSIZE"
  shows "\<exists>c bl. read_head rw me st = Ok (st\<lparr>lg := (lg st)\<lparr>lh := \<lparr>hn = head_n (aview (absv D (bc st)) (lstart (lg st))), hblock = bl\<rparr>\<rparr>, bc := c\<rparr>) \<and>
    cinv D c \<and> absv D c = absv D (bc st) \<and> length bl = LOGSIZE \<and>
    (\<forall>i < nat (head_n (aview (absv D (bc st)) (lstart (lg st)))). bl ! i = head_block (aview (absv D (bc st)) (lstart (lg st))) i)"
proof -
  let ?v = "absv D (bc st)" and ?S = "lstart (lg st)"
  have clean: "cache_clean ?v" using inv by (simp add: cache_inv_def)
  have "cache_room ?S ?v" using few quietD [OF q, of ?S] by (simp add: cache_room_def)
  from bread_ok [OF inv assms(2) this] obtain b c1 where
    1: "bread rw me D ?S (bc st) = Ok (b, c1)" "cinv D c1" "handle D c1 b ?S" "absv D c1 = took me ?S ?v" by blast
  have d: "data (bufs c1 b) = aview ?v ?S" using handle_data [OF 1(2,3)] by (simp add: 1(4) took_def)
  have nn: "nat (head_n (aview ?v ?S)) \<le> LOGSIZE" using n by (simp add: nat_le_iff)
  obtain bl where bl: "ofold (\<lambda>i bl. if LOGSIZE \<le> i then Undefined else Ok (bl[i := head_block (aview ?v ?S) i]))
      [0..<nat (head_n (aview ?v ?S))] (hblock (lh (lg st))) = Ok bl" "length bl = LOGSIZE"
      "\<forall>i<nat (head_n (aview ?v ?S)). bl ! i = head_block (aview ?v ?S) i"
    using read_head_loop [OF nn len, of "aview ?v ?S"] by blast
  have h: "aheld (absv D c1) ?S = Some me" by (simp add: 1(4) took_def)
  have k: "1 < arefs (absv D c1) ?S \<or> aview (absv D c1) ?S = adisk (absv D c1) ?S"
    using clean by (cases "arefs ?v ?S") (auto simp: 1(4) took_def cache_clean_def)
  from brelse_ok [OF 1(2,3) h k] obtain c2 where
    2: "brelse me b c1 = Ok c2" "cinv D c2" "absv D c2 = gave ?S (absv D c1)" by blast
  have "absv D c2 = ?v" unfolding 2(3) 1(4) using quietD(1) [OF q]
    by (auto simp: took_def gave_def fun_eq_iff intro!: cache_view.equality)
  then show ?thesis using 1 2 bl dev
    by (intro exI [of _ c2] exI [of _ bl]) (simp add: read_head_def d Let_def cong: if_cong)
qed

end

definition commit_writes :: "log \<Rightarrow> (u32 \<Rightarrow> u8 list) \<Rightarrow> u8 list \<Rightarrow> u8 list \<Rightarrow> (u32 \<times> u8 list) list" where
  "commit_writes l f h1 h0 = log_writes l f (nlogged l) @ [(lstart l, h1)] @
     map (\<lambda>i. (home l i, f (home l i))) [0..<nlogged l] @ [(lstart l, h0)]"

lemma clear_head_simps [simp]:
  "bc (clear_head st) = bc st" "lstart (lg (clear_head st)) = lstart (lg st)" "ldev (lg (clear_head st)) = ldev (lg st)"
  "hn (lh (lg (clear_head st))) = 0" "hblock (lh (lg (clear_head st))) = hblock (lh (lg st))"
  "lsize (lg (clear_head st)) = lsize (lg st)" "outstanding (lg (clear_head st)) = outstanding (lg st)"
  "committing (lg (clear_head st)) = committing (lg st)"
  by (simp_all add: clear_head_def)

lemma clear_head_fits: "log_fits nblk (lg st) \<Longrightarrow> log_fits nblk (lg (clear_head st))"
  by (simp add: log_fits_def)

lemma log_writes_slot:
  assumes "log_fits nblk l" and "i < nlogged l"
  shows "apply_writes (log_writes l f (nlogged l)) g (log_slot l i) = f (home l i)"
proof (rule apply_writes_in)
  note F = log_fitsD [OF assms(1)]
  show "distinct (map fst (log_writes l f (nlogged l)))"
    using F(1) F(9) by (auto simp: log_writes_def distinct_map comp_def intro!: inj_onI)
  show "(log_slot l i, f (home l i)) \<in> set (log_writes l f (nlogged l))" using assms(2) by (auto simp: log_writes_def)
qed

lemma unpin_home_simps [simp]:
  "aview (unpin_home l n v) = aview v" "adisk (unpin_home l n v) = adisk v" "atrace (unpin_home l n v) = atrace v"
  "aheld (unpin_home l n v) = aheld v"
  by (simp_all add: unpin_home_def)

lemma apply_writes_map_same:
  "apply_writes (map (\<lambda>i. (h i, f (h i))) [0..<n]) g bn = (if bn \<in> h ` {..<n} then f bn else g bn)"
  by (induction n) (auto simp: lessThan_Suc)

text \<open>
  Crashing after \<open>k\<close> of the disk writes of a commit: what recovery then reads and writes. Up to the header
  write the home blocks are untouched and the header is empty; from there on the header lists every
  block and the log holds its new contents, until the header is cleared.
\<close>

lemma crash_recovery:
  assumes fits: "log_fits nblk l" and h1: "is_head (nlogged l) (home l) h1" and h0: "is_head 0 (home l) h0"
    and c: "is_head 0 (home l) (c (lstart l))" and W: "W = commit_writes l f h1 h0" and ck: "ck = apply_writes (take k W) c"
  shows "\<exists>m. is_head m (home l) (ck (lstart l)) \<and> m \<le> nlogged l \<and>
    (\<forall>bn. bn \<notin> log_area (lstart l) \<longrightarrow>
      apply_writes (map (\<lambda>i. (home l i, ck (log_slot l i))) [0..<m]) ck bn =
        (if k \<le> nlogged l then c bn else if bn \<in> home l ` {..<nlogged l} then f bn else c bn))"
proof -
  note F = log_fitsD [OF fits]
  let ?n = "nlogged l" and ?S = "lstart l"
  let ?hw = "map (\<lambda>i. (home l i, f (home l i))) [0..<?n]"
  have lw: "length (log_writes l f ?n) = ?n" "length ?hw = ?n" by (simp_all add: log_writes_def)
  have tk: "take j (log_writes l f ?n) = log_writes l f (min j ?n)" for j
    by (simp add: log_writes_def take_map take_upt min_def)
  have Slog: "apply_writes (log_writes l f j) g ?S = g ?S" if "j \<le> ?n" for j g
    using F(1) F(10) that by (intro apply_writes_other) (force simp: log_writes_def)
  have hws: "apply_writes (take j ?hw) g x = g x" if "x \<in> log_area ?S" for j g x
    using F(5) that set_take_subset [of j ?hw] by (intro apply_writes_other) force
  have hwo: "apply_writes (take j ?hw) g bn = g bn" if "bn \<notin> home l ` {..<?n}" for j g bn
    using that set_take_subset [of j ?hw] by (intro apply_writes_other) force
  consider (before) "k \<le> ?n" | (mid) j where "k = Suc (?n + j)" "j \<le> ?n" | (all) "2 * ?n + 2 \<le> k"
  proof -
    have "k \<le> ?n \<or> k = Suc (?n + (k - Suc ?n)) \<and> k - Suc ?n \<le> ?n \<or> 2 * ?n + 2 \<le> k" by arith
    then show ?thesis using that by blast
  qed
  then show ?thesis
  proof cases
    case before
    then have "ck = apply_writes (log_writes l f k) c" by (simp add: ck W commit_writes_def lw tk min_def)
    then show ?thesis using c before Slog [OF before] log_writes_home [OF fits] F(1)
      by (intro exI [of _ 0]) (auto simp: is_head_def)
  next
    case mid
    then have ck': "ck = apply_writes (take j ?hw) ((apply_writes (log_writes l f ?n) c)(?S := h1))"
      by (simp add: ck W commit_writes_def lw tk)
    have "ck (log_slot l i) = f (home l i)" if "i < ?n" for i
      unfolding ck' using that F(1) F(8,10) log_writes_slot [OF fits that] by (subst hws) auto
    then have m: "map (\<lambda>i. (home l i, ck (log_slot l i))) [0..<?n] = ?hw" by simp
    have o: "ck bn = c bn" if "bn \<notin> log_area ?S" "bn \<notin> home l ` {..<?n}" for bn
      unfolding ck' using that F(11) log_writes_home [OF fits F(1) that(1)] by (subst hwo) auto
    have "ck ?S = h1" unfolding ck' using hws [OF F(11)] by simp
    then show ?thesis using h1 mid o by (intro exI [of _ ?n]) (auto simp: m apply_writes_map_same)
  next
    case all
    then have "take k W = W" by (simp add: W commit_writes_def lw)
    then have ck': "ck = (apply_writes ?hw ((apply_writes (log_writes l f ?n) c)(?S := h1)))(?S := h0)"
      by (simp add: ck W commit_writes_def)
    have "ck bn = (if bn \<in> home l ` {..<?n} then f bn else c bn)" if "bn \<notin> log_area ?S" for bn
      unfolding ck' using that F(11) log_writes_home [OF fits F(1) that] by (auto simp: apply_writes_map_same)
    then show ?thesis using h0 all ck' by (intro exI [of _ 0]) auto
  qed
qed

context block_device
begin


lemma commit_ok:
  assumes inv: "cinv D (bc st)" and fits: "log_fits nblk (lg st)" and dev: "ldev (lg st) = D" and pos: "0 < hn (lh (lg st))"
    and q: "quiet (absv D (bc st))" and few: "nrefs (absv D (bc st)) < NBUF"
    and pin: "\<And>i. i < nlogged (lg st) \<Longrightarrow> 0 < arefs (absv D (bc st)) (home (lg st) i)"
    and dist: "distinct (take (nlogged (lg st)) (hblock (lh (lg st))))"
  shows "\<exists>c h1 h0. commit rw me st = Ok (clear_head st\<lparr>bc := c\<rparr>) \<and> cinv D c \<and> is_head (nlogged (lg st)) (home (lg st)) h1 \<and>
    is_head 0 (home (lg st)) h0 \<and>
    absv D c = wrote (commit_writes (lg st) (aview (absv D (bc st))) h1 h0) (unpin_home (lg st) (nlogged (lg st)) (absv D (bc st)))"
proof -
  let ?l = "lg st" and ?v = "absv D (bc st)" and ?n = "nlogged (lg st)"
  note F = log_fitsD [OF fits]
  obtain c1 where c1: "write_log rw me st = Ok (st\<lparr>bc := c1\<rparr>)" "cinv D c1" "absv D c1 = wrote (log_writes ?l (aview ?v) ?n) ?v"
    using write_log_ok [OF inv fits dev q few pin] by blast
  from write_head_ok [of D "st\<lparr>bc := c1\<rparr>" me] obtain c2 h1 where
    c2: "write_head rw me (st\<lparr>bc := c1\<rparr>) = Ok (st\<lparr>bc := c2\<rparr>)" "cinv D c2" "is_head ?n (home ?l) h1"
      "absv D c2 = wrote (log_writes ?l (aview ?v) ?n @ [(lstart ?l, h1)]) ?v"
    using c1 fits dev q few by auto
  from install_trans_ok [of D "st\<lparr>bc := c2\<rparr>" False me] obtain c3 where
    c3: "install_trans rw me False (st\<lparr>bc := c2\<rparr>) = Ok (st\<lparr>bc := c3\<rparr>)" "cinv D c3"
      "absv D c3 = wrote (home_writes ?l (aview (absv D c2)) ?n) (unpin_home ?l ?n (absv D c2))"
    using c2 fits dev q few pin dist by auto
  have w: "home_writes ?l (aview (absv D c2)) ?n = map (\<lambda>i. (home ?l i, aview ?v (home ?l i))) [0..<?n]"
    using log_writes_slot [OF fits] F(1) F(10) by (auto simp: home_writes_def c2(4))
  have e: "unpin_home ?l ?n (wrote ws ?v) = wrote ws (unpin_home ?l ?n ?v)" for ws
    by (simp add: unpin_home_def wrote_def)
  have v3: "absv D c3 = wrote (log_writes ?l (aview ?v) ?n @ [(lstart ?l, h1)] @ map (\<lambda>i. (home ?l i, aview ?v (home ?l i))) [0..<?n]) (unpin_home ?l ?n ?v)"
    unfolding c3(3) w unfolding c2(4) e by simp
  have "nrefs (unpin_home ?l ?n ?v) \<le> nrefs ?v"
    by (rule card_mono [OF finite_refs [OF inv]]) (auto simp: unpin_home_def)
  then have few3: "nrefs (absv D c3) < NBUF" using few by (simp add: v3)
  have q3: "quiet (absv D c3)" using q by (auto simp: v3 quiet_def unpin_home_def less_imp_diff_less)
  from write_head_ok [of D "clear_head (st\<lparr>bc := c3\<rparr>)" me] obtain c4 h0 where
    c4: "write_head rw me (clear_head (st\<lparr>bc := c3\<rparr>)) = Ok (clear_head (st\<lparr>bc := c3\<rparr>)\<lparr>bc := c4\<rparr>)" "cinv D c4" "is_head 0 (home ?l) h0"
      "absv D c4 = wrote [(lstart ?l, h0)] (absv D c3)"
    using c3(2) clear_head_fits [of nblk "st\<lparr>bc := c3\<rparr>"] fits dev q3 few3 by auto
  have "clear_head (st\<lparr>bc := c3\<rparr>)\<lparr>bc := c4\<rparr> = clear_head st\<lparr>bc := c4\<rparr>" by (simp add: clear_head_def)
  then show ?thesis
    using c1(1) c2(1,3) c3(1) c4 pos by (intro exI [of _ c4] exI [of _ h1] exI [of _ h0]) (simp add: commit_def v3 commit_writes_def)
qed

lemma recover_ok:
  assumes inv: "cinv D (bc st)" and dev: "ldev (lg st) = D"
    and q: "quiet (absv D (bc st))" and few: "nrefs (absv D (bc st)) + 1 < NBUF"
    and len: "length (hblock (lh (lg st))) = LOGSIZE" and S: "lstart (lg st) = S" and fit: "unat S + LOGDATA < unat nblk"
    and head: "is_head n bl (aview (absv D (bc st)) S)" and n: "n \<le> LOGDATA"
    and bl: "\<And>i. i < n \<Longrightarrow> bl i \<notin> log_area S \<and> bl i < nblk"
  shows "\<exists>st' h0. recover_from_log rw me st = Ok st' \<and> cinv D (bc st') \<and> lg st' = (lg st)\<lparr>lh := lh (lg st')\<rparr> \<and> hn (lh (lg st')) = 0 \<and>
    length (hblock (lh (lg st'))) = LOGSIZE \<and> is_head 0 bl h0 \<and> absv D (bc st') =
      wrote (map (\<lambda>i. (bl i, aview (absv D (bc st)) (S + word_of_nat i + 1))) [0..<n] @ [(S, h0)]) (absv D (bc st))"
proof -
  let ?v = "absv D (bc st)"
  have hn: "head_n (aview ?v S) = int n" "\<And>i. i < n \<Longrightarrow> head_block (aview ?v S) i = bl i" using head by (simp_all add: is_head_def)
  have "S < nblk" using slot_less(1) [OF fit, of 0] by simp
  with read_head_ok [OF inv _ dev q _ len, of me] obtain c1 b where
    c1: "read_head rw me st = Ok (st\<lparr>lg := (lg st)\<lparr>lh := \<lparr>hn = int n, hblock = b\<rparr>\<rparr>, bc := c1\<rparr>)" "cinv D c1"
      "absv D c1 = ?v" "length b = LOGSIZE" "\<forall>i<n. b ! i = bl i"
    using few n hn S by auto
  define t where "t = st\<lparr>lg := (lg st)\<lparr>lh := \<lparr>hn = int n, hblock = b\<rparr>\<rparr>, bc := c1\<rparr>"
  have t: "bc t = c1" "nlogged (lg t) = n" "lstart (lg t) = S" "ldev (lg t) = D" "hblock (lh (lg t)) = b" "hn (lh (lg t)) = int n"
    "lg t = (lg st)\<lparr>lh := \<lparr>hn = int n, hblock = b\<rparr>\<rparr>"
    using dev S by (simp_all add: t_def)
  have fits: "log_fits nblk (lg t)" using n c1(4,5) fit bl by (simp add: log_fits_def t S)
  have "\<exists>c. install_trans rw me True t = Ok (t\<lparr>bc := c\<rparr>) \<and> cinv D c \<and>
      absv D c = wrote (home_writes (lg t) (aview (absv D (bc t))) (nlogged (lg t))) (absv D (bc t))"
    using install_trans_ok [of D t True me] c1 t fits q few by simp
  then obtain c2 where c2: "install_trans rw me True t = Ok (t\<lparr>bc := c2\<rparr>)" "cinv D c2"
      "absv D c2 = wrote (home_writes (lg t) (aview ?v) n) ?v" using t c1(3) by auto
  have w: "home_writes (lg t) (aview ?v) n = map (\<lambda>i. (bl i, aview ?v (S + word_of_nat i + 1))) [0..<n]"
    using c1(5) t by (simp add: home_writes_def)
  let ?u = "clear_head (t\<lparr>bc := c2\<rparr>)"
  have "\<exists>c h0. write_head rw me ?u = Ok (?u\<lparr>bc := c\<rparr>) \<and> cinv D c \<and> is_head 0 (home (lg ?u)) h0 \<and>
      absv D c = wrote [(S, h0)] (absv D c2)"
    using write_head_ok [of D ?u me] c2 t clear_head_fits [of nblk "t\<lparr>bc := c2\<rparr>"] fits q few by auto
  then obtain c3 h0 where c3: "write_head rw me ?u = Ok (?u\<lparr>bc := c3\<rparr>)" "cinv D c3" "is_head 0 (home (lg ?u)) h0"
      "absv D c3 = wrote [(S, h0)] (absv D c2)" by blast
  have "lg (?u\<lparr>bc := c3\<rparr>) = (lg st)\<lparr>lh := lh (lg (?u\<lparr>bc := c3\<rparr>))\<rparr>" by (simp add: clear_head_def t)
  moreover have "recover_from_log rw me st = Ok (?u\<lparr>bc := c3\<rparr>)"
    using c1(1) c2(1) c3(1) unfolding recover_from_log_def t_def by simp
  moreover have "is_head 0 bl h0" "length (hblock (lh (lg (?u\<lparr>bc := c3\<rparr>)))) = LOGSIZE"
    using c3(3) c1(4) t by (simp_all add: is_head_def)
  ultimately show ?thesis using c3(2,4) c2(3) w by (intro exI [of _ "?u\<lparr>bc := c3\<rparr>"] exI [of _ h0]) simp
qed

end

section \<open>Transactions\<close>

text \<open>
  The use of the log that the comment above \<^verbatim>\<open>log_write\<close> prescribes, and a file-system call that makes
  the block updates \<open>us\<close>.
\<close>

definition log_update :: "'d driver \<Rightarrow> i32 \<Rightarrow> u32 \<times> u8 list \<Rightarrow> 'd logst \<Rightarrow> 'd logst outcome" where
  "log_update rw me u st = obind (bread rw me (ldev (lg st)) (fst u) (bc st)) (\<lambda>(b, c).
     obind (log_write b (st\<lparr>bc := set_data b (snd u) c\<rparr>)) (\<lambda>st.
     obind (brelse me b (bc st)) (\<lambda>c. Ok (st\<lparr>bc := c\<rparr>))))"

definition transaction :: "'d driver \<Rightarrow> i32 \<Rightarrow> (u32 \<times> u8 list) list \<Rightarrow> 'd logst \<Rightarrow> 'd logst outcome" where
  "transaction rw me us st = obind (begin_op (lg st)) (\<lambda>l.
     obind (ofold (log_update rw me) us (st\<lparr>lg := l\<rparr>)) (end_op rw me))"

lemma absorb_index_spec:
  "i \<le> absorb_index bl i k bn \<and> absorb_index bl i k bn \<le> i + k \<and>
   (absorb_index bl i k bn < i + k \<longrightarrow> bl ! absorb_index bl i k bn = bn) \<and>
   (\<forall>j. i \<le> j \<and> j < absorb_index bl i k bn \<longrightarrow> bl ! j \<noteq> bn)"
proof (induction k arbitrary: i)
  case (Suc k)
  have "bl ! j \<noteq> bn" if "bl ! i \<noteq> bn" "i \<le> j" "j < absorb_index bl (Suc i) k bn" for j
    using that Suc [of "Suc i"] by (cases "j = i") auto
  then show ?case using Suc [of "Suc i"] by auto
qed auto

text \<open>The log between transactions: empty in memory and on disk, nothing pinned or locked.\<close>

definition log_idle :: "('d \<Rightarrow> u32 \<Rightarrow> u8 list) \<Rightarrow> ('d \<Rightarrow> (u32 \<times> u8 list) list) \<Rightarrow> ('d \<Rightarrow> bool) \<Rightarrow> u32 \<Rightarrow> u32 \<Rightarrow> 'd logst \<Rightarrow> bool" where
  "log_idle content trace dok nblk D st \<longleftrightarrow> cache_inv content trace dok D (bc st) \<and> log_fits nblk (lg st) \<and> ldev (lg st) = D \<and>
     hn (lh (lg st)) = 0 \<and> outstanding (lg st) = 0 \<and> \<not> committing (lg st) \<and> MAXOPBLOCKS < lsize (lg st) \<and>
     (\<forall>bn. arefs (cache_abs content trace D (bc st)) bn = 0 \<and> aheld (cache_abs content trace D (bc st)) bn = None) \<and>
     head_n (content (dsk (bc st)) (lstart (lg st))) = 0"

text \<open>Updates a transaction may make: whole blocks of the disk outside the log area, at most \<^verbatim>\<open>MAXOPBLOCKS\<close>.\<close>

definition updates_fit :: "u32 \<Rightarrow> u32 \<Rightarrow> (u32 \<times> u8 list) list \<Rightarrow> bool" where
  "updates_fit nblk S us \<longleftrightarrow> int (length us) \<le> MAXOPBLOCKS \<and>
     (\<forall>(bn, d) \<in> set us. bn < nblk \<and> bn \<notin> log_area S \<and> length d = BSIZE)"

definition dirtied :: "(u32 \<times> u8 list) list \<Rightarrow> cache_view \<Rightarrow> cache_view" where
  "dirtied us v = v\<lparr>aview := apply_writes us (aview v), arefs := (\<lambda>bn. if bn \<in> fst ` set us then 1 else 0)\<rparr>"

text \<open>The log inside a transaction that has made the updates \<open>us\<close>.\<close>

definition in_trans :: "u32 \<Rightarrow> log \<Rightarrow> (u32 \<times> u8 list) list \<Rightarrow> log \<Rightarrow> bool" where
  "in_trans nblk l0 us l \<longleftrightarrow> lstart l = lstart l0 \<and> lsize l = lsize l0 \<and> ldev l = ldev l0 \<and>
     outstanding l = 1 \<and> committing l = committing l0 \<and> log_fits nblk l \<and> nlogged l \<le> length us \<and>
     distinct (take (nlogged l) (hblock (lh l))) \<and> set (take (nlogged l) (hblock (lh l))) = fst ` set us"

lemma in_trans_home:
  assumes "in_trans nblk l0 us l"
  shows "home l ` {..<nlogged l} = fst ` set us"
proof -
  have "nlogged l \<le> length (hblock (lh l))" using assms log_fitsD(1,2) [of nblk l] by (simp add: in_trans_def)
  then have "home l ` {..<nlogged l} = set (take (nlogged l) (hblock (lh l)))"
    by (simp add: nth_image [symmetric] lessThan_atLeast0)
  then show ?thesis using assms by (simp add: in_trans_def)
qed

lemma log_write_absorb:
  assumes tr: "in_trans nblk l0 us (lg st)" and "blockno (bufs (bc st) b) = bn" and "bn \<in> fst ` set us"
    and "length us < 10" and "10 < lsize l0"
  shows "\<exists>st'. log_write b st = Ok st' \<and> bc st' = bc st \<and> in_trans nblk l0 (us @ [(bn, d)]) (lg st')"
proof -
  let ?l = "lg st"
  let ?i = "absorb_index (hblock (lh ?l)) 0 (nlogged ?l) bn"
  note F = log_fitsD [of nblk ?l]
  have fits: "log_fits nblk ?l" and n: "nlogged ?l \<le> length us"
    using tr by (auto simp: in_trans_def)
  have ls: "lsize ?l = lsize l0" "outstanding ?l = 1" using tr by (auto simp: in_trans_def)
  have hn: "hn (lh ?l) < 10" using n assms(4) F(3) [OF fits] by linarith
  have "bn \<in> home ?l ` {..<nlogged ?l}" unfolding in_trans_home [OF tr] by (rule assms(3))
  then obtain j where j: "j < nlogged ?l" "home ?l j = bn" by auto
  note sp = absorb_index_spec [of 0 "hblock (lh ?l)" "nlogged ?l" bn, simplified]
  have i: "?i < nlogged ?l"
  proof (rule ccontr)
    assume "\<not> ?i < nlogged ?l"
    then have "j < ?i" using j(1) by simp
    then show False using sp j(2) by blast
  qed
  then have at: "home ?l ?i = bn" using sp by blast
  have same: "(hblock (lh ?l))[?i := bn] = hblock (lh ?l)"
    using list_update_id [of "hblock (lh ?l)" ?i] unfolding at .
  have "int ?i \<noteq> hn (lh ?l)" using i F(3) [OF fits] by linarith
  then have "log_write b st = Ok (st\<lparr>lg := ?l\<lparr>lh := lh ?l\<rparr>\<rparr>)"
    using assms(2,5) ls hn by (simp add: log_write_def Let_def same)
  moreover have "in_trans nblk l0 (us @ [(bn, d)]) ?l"
    using tr assms(3) unfolding in_trans_def by (simp add: insert_absorb)
  ultimately show ?thesis by simp
qed

lemma log_write_append:
  assumes tr: "in_trans nblk l0 us (lg st)" and "blockno (bufs (bc st) b) = bn" and "bn \<notin> fst ` set us"
    and "length us < 10" and "10 < lsize l0" and "bn < nblk" and "bn \<notin> log_area (lstart l0)"
  shows "\<exists>st'. log_write b st = Ok st' \<and> bc st' = bpin b (bc st) \<and> in_trans nblk l0 (us @ [(bn, d)]) (lg st')"
proof -
  let ?l = "lg st" and ?n = "nlogged (lg st)"
  let ?i = "absorb_index (hblock (lh ?l)) 0 ?n bn"
  note F = log_fitsD [of nblk ?l]
  have fits: "log_fits nblk ?l" and n: "?n \<le> length us"
    using tr by (auto simp: in_trans_def)
  have ls: "lsize ?l = lsize l0" "outstanding ?l = 1" "lstart ?l = lstart l0"
    using tr by (auto simp: in_trans_def)
  have hn: "hn (lh ?l) < 10" "0 \<le> hn (lh ?l)" using n assms(4) F(3) [OF fits] by linarith+
  have new: "home ?l j \<noteq> bn" if "j < ?n" for j using in_trans_home [OF tr] assms(3) that by blast
  note sp = absorb_index_spec [of 0 "hblock (lh ?l)" ?n bn, simplified]
  have "\<not> ?i < ?n" using sp new by blast
  then have i: "?i = ?n" using sp by linarith
  let ?h = "\<lparr>hn = hn (lh ?l) + 1, hblock = (hblock (lh ?l))[?n := bn]\<rparr>"
  let ?t = "st\<lparr>bc := bpin b (bc st), lg := ?l\<lparr>lh := ?h\<rparr>\<rparr>"
  have "log_write b st = Ok ?t"
    using assms(2,5) ls hn by (simp add: log_write_def Let_def i)
  moreover have "in_trans nblk l0 (us @ [(bn, d)]) (lg ?t)"
  proof -
    have n': "nlogged (lg ?t) = Suc ?n" using hn by (simp add: nat_add_distrib)
    have len: "?n < length (hblock (lh ?l))" using n assms(4) F(2) [OF fits] by simp
    have tk: "take (Suc ?n) ((hblock (lh ?l))[?n := bn]) = take ?n (hblock (lh ?l)) @ [bn]"
      using len by (simp add: take_Suc_conv_app_nth)
    have "log_fits nblk (lg ?t)" unfolding log_fits_def n'
      using fits n assms(4,6,7) len ls(3) by (auto simp: log_fits_def nth_list_update less_Suc_eq)
    then show ?thesis using tr assms(3) n n' tk by (auto simp: in_trans_def)
  qed
  ultimately show ?thesis by (intro exI [of _ ?t]) simp
qed

lemma dirtied_simps [simp]:
  "aview (dirtied us v) = apply_writes us (aview v)" "adisk (dirtied us v) = adisk v" "aheld (dirtied us v) = aheld v"
  "atrace (dirtied us v) = atrace v" "arefs (dirtied us v) bn = (if bn \<in> fst ` set us then 1 else 0)"
  by (simp_all add: dirtied_def)

lemma nrefs_dirtied: "nrefs (dirtied us v) \<le> length us"
proof -
  have "{n. 0 < arefs (dirtied us v) n} = fst ` set us" by auto
  then show ?thesis using card_image_le [of "set us" fst] card_length [of us] by simp
qed

context block_device
begin

lemma log_update_ok:
  assumes inv: "cinv D (bc st)" and tr: "in_trans nblk l0 us (lg st)" and dev: "ldev l0 = D"
    and len: "length us < 10" and size: "10 < lsize l0" and abs: "absv D (bc st) = dirtied us v0"
    and held: "\<And>bn. aheld v0 bn = None" and u: "bn < nblk" "bn \<notin> log_area (lstart l0)" "length d = BSIZE"
  shows "\<exists>st'. log_update rw me (bn, d) st = Ok st' \<and> cinv D (bc st') \<and> in_trans nblk l0 (us @ [(bn, d)]) (lg st') \<and>
    absv D (bc st') = dirtied (us @ [(bn, d)]) v0"
proof -
  let ?w = "dirtied (us @ [(bn, d)]) v0" and ?old = "bn \<in> fst ` set us"
  have dev': "ldev (lg st) = D" using tr dev by (simp add: in_trans_def)
  have "cache_room bn (absv D (bc st))"
    using nrefs_dirtied [of us v0] len held by (simp add: cache_room_def abs)
  from bread_ok [OF inv u(1) this] obtain b c1 where
    1: "bread rw me D bn (bc st) = Ok (b, c1)" "cinv D c1" "handle D c1 b bn" "absv D c1 = took me bn (dirtied us v0)"
    unfolding abs by blast
  let ?c2 = "set_data b d c1"
  have 2: "cinv D ?c2" "handle D ?c2 b bn" "absv D ?c2 = (absv D c1)\<lparr>aview := (aview (absv D c1))(bn := d)\<rparr>"
    using set_data_ok [OF 1(2,3) u(3)] 1(3) by auto
  have r2: "arefs (absv D ?c2) bn = (if ?old then 2 else 1)" by (simp add: 2(3) 1(4) took_def)
  let ?c3 = "if ?old then ?c2 else bpin b ?c2"
  have "arefs (absv D ?c2) bn + 1 < 2 ^ 32" using r2 by simp
  from bpin_ok [OF 2(1,2) this]
  have 3: "cinv D ?c3" "handle D ?c3 b bn" "absv D ?c3 = took me bn ?w"
    using 2 by (auto simp: 1(4) took_def dirtied_def fun_eq_iff intro!: cache_view.equality)
  let ?s = "st\<lparr>bc := ?c2\<rparr>"
  have s: "in_trans nblk l0 us (lg ?s)" "blockno (bufs (bc ?s) b) = bn" using tr handleD(3) [OF 2(2)] by simp_all
  obtain t where t: "log_write b ?s = Ok t" "bc t = ?c3" "in_trans nblk l0 (us @ [(bn, d)]) (lg t)"
  proof (cases ?old)
    case True
    from log_write_absorb [OF s True len size] that True show thesis by auto
  next
    case False
    from log_write_append [OF s False len size u(1,2)] that False show thesis by auto
  qed
  have h: "aheld (absv D ?c3) bn = Some me" "1 < arefs (absv D ?c3) bn" unfolding 3(3) by (simp_all add: took_def)
  from brelse_ok [OF 3(1,2) h(1)] h(2) obtain c4 where
    4: "brelse me b ?c3 = Ok c4" "cinv D c4" "absv D c4 = gave bn (took me bn ?w)" unfolding 3(3) by blast
  have "absv D c4 = ?w" unfolding 4(3) using held
    by (auto simp: took_def gave_def fun_eq_iff intro!: cache_view.equality)
  moreover have "log_update rw me (bn, d) st = Ok (t\<lparr>bc := c4\<rparr>)"
    using 1(1) t(1,2) 4(1) dev' by (simp add: log_update_def)
  ultimately show ?thesis using 4(2) t(3) by (intro exI [of _ "t\<lparr>bc := c4\<rparr>"]) simp
qed

lemma log_updates_ok:
  assumes "cinv D (bc st)" and "in_trans nblk l0 us (lg st)" and "ldev l0 = D"
    and "length (us @ ws) \<le> 10" and "10 < lsize l0" and "absv D (bc st) = dirtied us v0"
    and "\<And>bn. aheld v0 bn = None" and "\<forall>(bn, d) \<in> set ws. bn < nblk \<and> bn \<notin> log_area (lstart l0) \<and> length d = BSIZE"
  shows "\<exists>st'. ofold (log_update rw me) ws st = Ok st' \<and> cinv D (bc st') \<and> in_trans nblk l0 (us @ ws) (lg st') \<and>
    absv D (bc st') = dirtied (us @ ws) v0"
  using assms
proof (induction ws arbitrary: st us)
  case (Cons w ws)
  obtain bn d where w: "w = (bn, d)" by force
  have "length us < 10" using Cons.prems(4) by simp
  from log_update_ok [OF Cons.prems(1-3) this Cons.prems(5-7), of bn d me] Cons.prems(8) obtain t where
    t: "log_update rw me (bn, d) st = Ok t" "cinv D (bc t)" "in_trans nblk l0 (us @ [w]) (lg t)" "absv D (bc t) = dirtied (us @ [w]) v0"
    using w by auto
  have "\<exists>st'. ofold (log_update rw me) ws t = Ok st' \<and> cinv D (bc st') \<and> in_trans nblk l0 ((us @ [w]) @ ws) (lg st') \<and>
      absv D (bc st') = dirtied ((us @ [w]) @ ws) v0"
    by (rule Cons.IH [OF t(2,3) Cons.prems(3) _ Cons.prems(5) t(4) Cons.prems(7)]) (use Cons.prems in auto)
  then show ?case using t(1) w by simp
qed auto

end

section \<open>Atomicity\<close>

text \<open>\<open>recovers nblk S c f\<close>: recovery from the disk \<open>c\<close> with the log at \<open>S\<close> reconstructs \<open>f\<close> outside the log.\<close>

definition recovers :: "u32 \<Rightarrow> u32 \<Rightarrow> (u32 \<Rightarrow> u8 list) \<Rightarrow> (u32 \<Rightarrow> u8 list) \<Rightarrow> bool" where
  "recovers nblk S c f \<longleftrightarrow> (\<exists>m bl. is_head m bl (c S) \<and> m \<le> LOGDATA \<and> (\<forall>i<m. bl i \<notin> log_area S \<and> bl i < nblk) \<and>
     (\<forall>bn. bn \<notin> log_area S \<longrightarrow> apply_writes (map (\<lambda>i. (bl i, c (S + word_of_nat i + 1))) [0..<m]) c bn = f bn))"

lemma recovers_empty: "head_n (c S) = 0 \<Longrightarrow> recovers nblk S c c"
  unfolding recovers_def by (rule exI [of _ 0]) (auto simp: is_head_def)

lemma log_idleD:
  assumes "log_idle content trace dok nblk D st"
  shows "cache_inv content trace dok D (bc st)" and "log_fits nblk (lg st)" and "ldev (lg st) = D" and "hn (lh (lg st)) = 0"
    and "outstanding (lg st) = 0" and "\<not> committing (lg st)" and "10 < lsize (lg st)"
    and "arefs (cache_abs content trace D (bc st)) bn = 0" and "aheld (cache_abs content trace D (bc st)) bn = None"
    and "head_n (content (dsk (bc st)) (lstart (lg st))) = 0"
  using assms unfolding log_idle_def by auto

lemma log_idle_view:
  assumes "log_idle content trace dok nblk D st"
  shows "aview (cache_abs content trace D (bc st)) = content (dsk (bc st))"
  using log_idleD(1,8) [OF assms] by (auto simp: cache_inv_def cache_clean_def cache_abs_def fun_eq_iff)

context block_device
begin

abbreviation idle :: "u32 \<Rightarrow> 'd logst \<Rightarrow> bool" where
  "idle \<equiv> log_idle content trace dok nblk"

lemma adisk_abs: "adisk (absv D c) = content (dsk c)"
  by (simp add: cache_abs_def)

lemma commit_crash:
  assumes fits: "log_fits nblk l" and h1: "is_head (nlogged l) (home l) h1" and h0: "is_head 0 (home l) h0"
    and c: "head_n (c (lstart l)) = 0" and home: "home l ` {..<nlogged l} = fst ` set us"
  shows "recovers nblk (lstart l) (apply_writes (take k (commit_writes l (apply_writes us c) h1 h0)) c) c \<or>
    recovers nblk (lstart l) (apply_writes (take k (commit_writes l (apply_writes us c) h1 h0)) c) (apply_writes us c)"
proof -
  let ?W = "commit_writes l (apply_writes us c) h1 h0"
  let ?ck = "apply_writes (take k ?W) c"
  have "is_head 0 (home l) (c (lstart l))" using c by (simp add: is_head_def)
  from crash_recovery [where c = c and W = ?W and ck = ?ck and k = k, OF fits h1 h0 this refl refl]
  obtain m where m: "is_head m (home l) (?ck (lstart l))" "m \<le> nlogged l"
    "\<forall>bn. bn \<notin> log_area (lstart l) \<longrightarrow> apply_writes (map (\<lambda>i. (home l i, ?ck (log_slot l i))) [0..<m]) ?ck bn =
        (if k \<le> nlogged l then c bn else if bn \<in> fst ` set us then apply_writes us c bn else c bn)"
    unfolding home by blast
  let ?t = "if k \<le> nlogged l then c else apply_writes us c"
  have "recovers nblk (lstart l) ?ck ?t"
    unfolding recovers_def
  proof (intro exI conjI)
    show "is_head m (home l) (?ck (lstart l))" by (rule m(1))
    show "m \<le> LOGDATA" using m(2) log_fitsD(1) [OF fits] by simp
    show "\<forall>i<m. home l i \<notin> log_area (lstart l) \<and> home l i < nblk" using m(2) log_fitsD(5,6) [OF fits] by simp
    show "\<forall>bn. bn \<notin> log_area (lstart l) \<longrightarrow> apply_writes (map (\<lambda>i. (home l i, ?ck (log_slot l i))) [0..<m]) ?ck bn = ?t bn"
      using m(3) by (auto simp: apply_writes_other)
  qed
  then show ?thesis by (auto split: if_splits)
qed

lemma transaction_ok:
  assumes idle: "idle D st" and fit: "updates_fit nblk (lstart (lg st)) us"
  shows "\<exists>st' ws. transaction rw me us st = Ok st' \<and> idle D st' \<and> lstart (lg st') = lstart (lg st) \<and>
    trace (dsk (bc st')) = trace (dsk (bc st)) @ ws \<and> content (dsk (bc st')) = apply_writes ws (content (dsk (bc st))) \<and>
    (\<forall>bn. bn \<notin> log_area (lstart (lg st)) \<longrightarrow> content (dsk (bc st')) bn = apply_writes us (content (dsk (bc st))) bn) \<and>
    (\<forall>k. recovers nblk (lstart (lg st)) (apply_writes (take k ws) (content (dsk (bc st)))) (content (dsk (bc st))) \<or>
      recovers nblk (lstart (lg st)) (apply_writes (take k ws) (content (dsk (bc st)))) (apply_writes us (content (dsk (bc st)))))"
proof -
  let ?c = "content (dsk (bc st))" and ?S = "lstart (lg st)" and ?v = "absv D (bc st)"
  note I = log_idleD [OF idle] and view = log_idle_view [OF idle]
  let ?l = "(lg st)\<lparr>outstanding := 1\<rparr>"
  have b: "begin_op (lg st) = Ok ?l" using I by (simp add: begin_op_def)
  have tr0: "in_trans nblk ?l [] (lg (st\<lparr>lg := ?l\<rparr>))" using I by (simp add: in_trans_def log_fits_def)
  have a0: "absv D (bc (st\<lparr>lg := ?l\<rparr>)) = dirtied [] ?v"
    using I(8) by (auto simp: dirtied_def fun_eq_iff intro!: cache_view.equality)
  obtain t where t: "ofold (log_update rw me) us (st\<lparr>lg := ?l\<rparr>) = Ok t" "cinv D (bc t)" "in_trans nblk ?l us (lg t)"
      "absv D (bc t) = dirtied us ?v"
    using log_updates_ok [OF _ tr0 _ _ _ a0, of us me] I fit by (auto simp: updates_fit_def)
  define u where "u = t\<lparr>lg := (lg t)\<lparr>outstanding := 0, committing := True\<rparr>\<rparr>"
  have u: "bc u = bc t" "lstart (lg u) = ?S" "ldev (lg u) = D" "lh (lg u) = lh (lg t)" "log_fits nblk (lg u)" "lsize (lg u) = lsize (lg st)"
    "outstanding (lg u) = 0"
    using t(3) I(3) by (auto simp: u_def in_trans_def log_fits_def)
  have home: "home (lg u) ` {..<nlogged (lg u)} = fst ` set us" using in_trans_home [OF t(3)] by (simp add: u(4))
  have nus: "nlogged (lg u) \<le> length us" "length us \<le> 10" "distinct (take (nlogged (lg u)) (hblock (lh (lg u))))"
    using t(3) fit by (auto simp: in_trans_def u(4) updates_fit_def)
  have e: "end_op rw me t = obind (commit rw me u) (\<lambda>st. Ok (st\<lparr>lg := (lg st)\<lparr>committing := False\<rparr>\<rparr>))"
    using t(3) I(6) by (simp add: end_op_def end_op_enter_def in_trans_def u_def Let_def)
  have trans: "transaction rw me us st = end_op rw me t" using b t(1) by (simp add: transaction_def)
  show ?thesis
  proof (cases "hn (lh (lg u)) = 0")
    case True
    then have "us = []" using home by auto
    then have "absv D (bc t) = ?v" using t(4) a0 by simp
    let ?r = "u\<lparr>lg := (lg u)\<lparr>committing := False\<rparr>\<rparr>"
    have c: "content (dsk (bc t)) = ?c" "trace (dsk (bc t)) = trace (dsk (bc st))"
      using \<open>absv D (bc t) = ?v\<close> by (metis adisk_abs, metis atrace_abs)
    have "idle D ?r"
      using u True t(2) I(7-10) c \<open>absv D (bc t) = ?v\<close> unfolding log_idle_def by (auto simp: log_fits_def)
    moreover have "transaction rw me us st = Ok ?r" using trans e True by (simp add: commit_def)
    ultimately show ?thesis using u c \<open>us = []\<close> recovers_empty [of ?c ?S nblk] I(10)
      by (intro exI [of _ ?r] exI [of _ "[]"]) simp
  next
    case False
    then have pos: "0 < hn (lh (lg u))" using u(5) by (simp add: log_fits_def)
    have q: "quiet (absv D (bc u))" using I(9) by (simp add: quiet_def u(1) t(4))
    have few: "nrefs (absv D (bc u)) < NBUF" using nrefs_dirtied [of us ?v] nus(2) by (simp add: u(1) t(4))
    have pin: "0 < arefs (absv D (bc u)) (home (lg u) i)" if "i < nlogged (lg u)" for i
      using home that by (auto simp: u(1) t(4))
    from commit_ok [OF _ u(5,3) pos q few pin nus(3), of me] t(2) u(1) obtain c h1 h0 where
      C: "commit rw me u = Ok (clear_head u\<lparr>bc := c\<rparr>)" "cinv D c" "is_head (nlogged (lg u)) (home (lg u)) h1" "is_head 0 (home (lg u)) h0"
        "absv D c = wrote (commit_writes (lg u) (aview (absv D (bc u))) h1 h0) (unpin_home (lg u) (nlogged (lg u)) (absv D (bc u)))"
      by auto
    let ?W = "commit_writes (lg u) (apply_writes us ?c) h1 h0"
    let ?r = "(clear_head u\<lparr>bc := c\<rparr>)\<lparr>lg := (lg (clear_head u))\<lparr>committing := False\<rparr>\<rparr>"
    have W: "absv D c = wrote ?W (unpin_home (lg u) (nlogged (lg u)) (dirtied us ?v))"
      using C(5) by (simp add: u(1) t(4) view)
    have cont: "content (dsk c) = apply_writes ?W ?c" "trace (dsk c) = trace (dsk (bc st)) @ ?W"
      using arg_cong [OF W, of adisk] arg_cong [OF W, of atrace] by (simp_all add: adisk_abs)
    have z: "arefs (absv D c) bn = 0" "aheld (absv D c) bn = None" for bn
      unfolding W using home I(9) by (auto simp: unpin_home_def)
    have rec: "recovers nblk ?S (apply_writes (take k ?W) ?c) ?c \<or> recovers nblk ?S (apply_writes (take k ?W) ?c) (apply_writes us ?c)" for k
      using commit_crash [OF u(5) C(3,4) _ home, of ?c k] I(10) unfolding u(2) by simp
    have hd: "head_n (content (dsk c) ?S) = 0" unfolding cont commit_writes_def using C(4) u(2) by (simp add: is_head_def)
    then have "idle D ?r" using C(2) u I(7) z unfolding log_idle_def
      by (auto simp: log_fits_def clear_head_def)
    moreover have "transaction rw me us st = Ok ?r" using trans e C(1) by (simp add: clear_head_def)
    moreover have "content (dsk c) bn = apply_writes us ?c bn" if "bn \<notin> log_area ?S" for bn
    proof -
      have "bn \<noteq> ?S" using that log_fitsD(11) [OF u(5)] u(2) by auto
      then show ?thesis using log_writes_home [OF u(5) log_fitsD(1) [OF u(5)]] that home
        unfolding cont commit_writes_def by (auto simp: u(2) apply_writes_map_same apply_writes_other)
    qed
    ultimately show ?thesis using cont rec u(2) by (intro exI [of _ ?r] exI [of _ ?W]) (simp add: clear_head_def)
  qed
qed


lemma reboot_ok:
  assumes rec: "recovers nblk S (content (dsk (bc st))) f" and fit: "unat S + LOGDATA < unat nblk"
    and boot: "zero_bufs (bc st)" "dok (dsk (bc st))" "D \<noteq> 0"
    and lg: "length (hblock (lh (lg st))) = LOGSIZE" "outstanding (lg st) = 0" "\<not> committing (lg st)"
    and size: "10 < sint (ucast nlog :: i32)"
  shows "\<exists>st'. initlog rw me D S nlog (st\<lparr>bc := binit (bc st)\<rparr>) = Ok st' \<and> idle D st' \<and> lstart (lg st') = S \<and>
    (\<forall>bn. bn \<notin> log_area S \<longrightarrow> content (dsk (bc st')) bn = f bn)"
proof -
  let ?c = "content (dsk (bc st))"
  obtain m bl where m: "is_head m bl (?c S)" "m \<le> LOGDATA" "\<And>i. i < m \<Longrightarrow> bl i \<notin> log_area S \<and> bl i < nblk"
    "\<And>bn. bn \<notin> log_area S \<Longrightarrow> apply_writes (map (\<lambda>i. (bl i, ?c (S + word_of_nat i + 1))) [0..<m]) ?c bn = f bn"
    using rec unfolding recovers_def by blast
  define t where "t = st\<lparr>bc := binit (bc st), lg := (lg st)\<lparr>lstart := S, lsize := sint (ucast nlog :: i32), ldev := D\<rparr>\<rparr>"
  have t: "bc t = binit (bc st)" "ldev (lg t) = D" "lstart (lg t) = S" "length (hblock (lh (lg t))) = LOGSIZE" "outstanding (lg t) = 0"
    "\<not> committing (lg t)" "lsize (lg t) = sint (ucast nlog :: i32)"
    using lg by (simp_all add: t_def)
  have abs: "absv D (bc t) = \<lparr>aview = ?c, adisk = ?c, arefs = (\<lambda>_. 0), aheld = (\<lambda>_. None), atrace = trace (dsk (bc st))\<rparr>"
    unfolding t(1) by (rule binit_abs [OF boot(1,3)])
  have inv: "cinv D (bc t)" unfolding t(1) by (rule binit_inv [OF boot(1,3,2)])
  have "\<exists>st' h0. recover_from_log rw me t = Ok st' \<and> cinv D (bc st') \<and> lg st' = (lg t)\<lparr>lh := lh (lg st')\<rparr> \<and> hn (lh (lg st')) = 0 \<and>
    length (hblock (lh (lg st'))) = LOGSIZE \<and> is_head 0 bl h0 \<and> absv D (bc st') =
      wrote (map (\<lambda>i. (bl i, aview (absv D (bc t)) (S + word_of_nat i + 1))) [0..<m] @ [(S, h0)]) (absv D (bc t))"
    by (rule recover_ok [OF inv t(2) _ _ t(4,3) fit _ m(2,3)]) (use m(1) in \<open>simp_all add: abs quiet_def\<close>)
  then obtain u h0 where u: "recover_from_log rw me t = Ok u" "cinv D (bc u)" "lg u = (lg t)\<lparr>lh := lh (lg u)\<rparr>" "hn (lh (lg u)) = 0"
      "length (hblock (lh (lg u))) = LOGSIZE" "is_head 0 bl h0"
      "absv D (bc u) = wrote (map (\<lambda>i. (bl i, ?c (S + word_of_nat i + 1))) [0..<m] @ [(S, h0)]) (absv D (bc t))"
    unfolding abs by auto
  have l: "lstart (lg u) = S" "ldev (lg u) = D" "outstanding (lg u) = 0" "\<not> committing (lg u)" "lsize (lg u) = sint (ucast nlog :: i32)"
    using t by (subst u(3), simp)+
  have c: "content (dsk (bc u)) = (apply_writes (map (\<lambda>i. (bl i, ?c (S + word_of_nat i + 1))) [0..<m]) ?c)(S := h0)"
    using arg_cong [OF u(7), of adisk] by (simp add: adisk_abs abs)
  have "arefs (absv D (bc u)) bn = 0" "aheld (absv D (bc u)) bn = None" for bn by (simp_all add: u(7) abs)
  moreover have "log_fits nblk (lg u)" using u(4,5) fit l by (simp add: log_fits_def)
  moreover have "head_n (content (dsk (bc u)) S) = 0" unfolding c using u(6) by (simp add: is_head_def)
  ultimately have "idle D u" using u(2,4) l size unfolding log_idle_def by simp
  moreover have "initlog rw me D S nlog (st\<lparr>bc := binit (bc st)\<rparr>) = Ok u" using u(1) by (simp add: initlog_def t_def)
  moreover have "S \<in> log_area S" unfolding log_area_def by (rule image_eqI [of _ _ 0]) simp_all
  then have "content (dsk (bc u)) bn = f bn" if "bn \<notin> log_area S" for bn using that m(4) [OF that] unfolding c by auto
  ultimately show ?thesis using l(1) by blast
qed

end

section \<open>Admission of file-system calls\<close>

text \<open>
  The states of the log that interleaved file-system calls reach. \<open>bs\<close> lists, for each call between
  \<^verbatim>\<open>begin_op\<close> and \<^verbatim>\<open>end_op\<close>, how many of its \<^verbatim>\<open>MAXOPBLOCKS\<close> calls of \<^verbatim>\<open>log_write\<close> are left. A commit empties
  the header, as \<^verbatim>\<open>commit\<close> does; the disk plays no role here, so its state is \<^typ>\<open>unit\<close>.
\<close>

inductive log_reach :: "log \<Rightarrow> nat list \<Rightarrow> bool" where
  boot: "hn (lh l) = 0 \<Longrightarrow> length (hblock (lh l)) = LOGSIZE \<Longrightarrow> outstanding l = 0 \<Longrightarrow> \<not> committing l \<Longrightarrow> log_reach l []"
| begin_op: "log_reach l bs \<Longrightarrow> begin_op l = Ok l' \<Longrightarrow> log_reach l' (nat MAXOPBLOCKS # bs)"
| log_write: "log_reach (lg st) bs \<Longrightarrow> i < length bs \<Longrightarrow> 0 < bs ! i \<Longrightarrow> log_write b (st :: unit logst) = Ok st' \<Longrightarrow>
    log_reach (lg st') (bs[i := bs ! i - 1])"
| end_op: "log_reach l bs \<Longrightarrow> i < length bs \<Longrightarrow> end_op_enter l = Ok (c, l') \<Longrightarrow> log_reach l' (take i bs @ drop (Suc i) bs)"
| commit: "log_reach l bs \<Longrightarrow> committing l \<Longrightarrow> log_reach (l\<lparr>lh := (lh l)\<lparr>hn := 0\<rparr>, committing := False\<rparr>) bs"

definition log_space :: "log \<Rightarrow> nat list \<Rightarrow> bool" where
  "log_space l bs \<longleftrightarrow> 0 \<le> hn (lh l) \<and> length (hblock (lh l)) = LOGSIZE \<and> outstanding l = int (length bs) \<and>
     hn (lh l) + int (sum_list bs) \<le> int LOGSIZE \<and> (\<forall>n\<in>set bs. n \<le> 10) \<and> (committing l \<longrightarrow> bs = [])"

lemma sum_list_budget: "\<forall>n\<in>set bs. n \<le> 10 \<Longrightarrow> sum_list bs \<le> 10 * length bs"
  by (induction bs) auto

lemma sum_list_dec: "i < length bs \<Longrightarrow> 0 < bs ! i \<Longrightarrow> sum_list (bs[i := bs ! i - 1]) + 1 = sum_list (bs :: nat list)"
  by (induction bs arbitrary: i) (auto simp: nth_Cons' less_Suc_eq_0_disj split: nat.split)

lemma budget_left: "0 < sum_list bs \<Longrightarrow> \<exists>i<length bs. 0 < (bs :: nat list) ! i"
  by (metis gr0I in_set_conv_nth sum_list_eq_0_iff)

lemma sum_list_drop: "i < length bs \<Longrightarrow> sum_list (take i bs @ drop (Suc i) bs) \<le> sum_list (bs :: nat list)"
  by (induction bs arbitrary: i) (auto split: nat.split simp: less_Suc_eq_0_disj)

lemma log_write_header:
  assumes "log_write b st = Ok st'" and "0 \<le> hn (lh (lg st))"
  shows "hn (lh (lg st')) \<le> hn (lh (lg st)) + 1" "hn (lh (lg st)) \<le> hn (lh (lg st'))" "length (hblock (lh (lg st'))) = length (hblock (lh (lg st)))"
    "outstanding (lg st') = outstanding (lg st)" "committing (lg st') = committing (lg st)" "lsize (lg st') = lsize (lg st)"
  using assms by (auto simp: log_write_def Let_def split: if_splits)

lemma log_reach_space: "log_reach l bs \<Longrightarrow> log_space l bs"
proof (induction rule: log_reach.induct)
  case (begin_op l bs l')
  then have "hn (lh l) + (int (length bs) + 1) * 10 \<le> 30" by (auto simp: begin_op_def log_space_def split: if_splits)
  moreover have "sum_list bs \<le> 10 * length bs" using begin_op.IH sum_list_budget by (simp add: log_space_def)
  ultimately show ?case using begin_op by (auto simp: begin_op_def log_space_def split: if_splits)
next
  case (log_write st bs i b st')
  have "n \<le> 10" if "n \<in> set (bs[i := bs ! i - 1])" for n
  proof -
    have "n = bs ! i - 1 \<or> n \<in> set bs" using that set_update_subset_insert [of bs i "bs ! i - 1"] by auto
    moreover have "bs ! i \<le> 10" using log_write.IH log_write.hyps(2) by (simp add: log_space_def)
    ultimately show ?thesis using log_write.IH by (auto simp: log_space_def)
  qed
  then show ?case
    using log_write log_write_header [OF log_write.hyps(4)] sum_list_dec [OF log_write.hyps(2,3)]
    by (auto simp: log_space_def)
next
  case (end_op l bs i c l')
  then have "\<not> committing l" by (auto simp: log_space_def)
  moreover have "n \<le> 10" if "n \<in> set (take i bs @ drop (Suc i) bs)" for n
  proof -
    have "n \<in> set bs" using that by (auto dest: in_set_takeD in_set_dropD)
    then show ?thesis using end_op.IH by (simp add: log_space_def)
  qed
  moreover have "l' = l\<lparr>outstanding := outstanding l - 1\<rparr> \<or>
      l' = l\<lparr>outstanding := outstanding l - 1, committing := True\<rparr> \<and> outstanding l = 1"
    using end_op.hyps(3) by (auto simp: end_op_enter_def Let_def split: if_splits)
  moreover have "length (take i bs @ drop (Suc i) bs) = length bs - 1" using end_op.hyps(2) by simp
  ultimately show ?case using end_op.IH end_op.hyps(2) sum_list_drop [OF end_op.hyps(2)]
    unfolding log_space_def by (elim disjE; simp)
qed (auto simp: log_space_def)


section \<open>Properties\<close>

text \<open>
  C28 (log space). However file-system calls interleave, the blocks in the header together with the
  writes that admitted calls may still make never exceed \<^verbatim>\<open>LOGSIZE\<close>, \<^verbatim>\<open>end_op\<close> never panics, and if the disk
  has a log of more than \<^verbatim>\<open>LOGSIZE\<close> blocks, \<^verbatim>\<open>log_write\<close> never panics for a call within its budget.
\<close>

theorem log_space_reserved:
  assumes "log_reach (lg st) bs"
  shows "hn (lh (lg st)) + int (sum_list bs) \<le> int LOGSIZE \<and>
    (bs \<noteq> [] \<longrightarrow> (\<exists>c l'. end_op_enter (lg st) = Ok (c, l'))) \<and>
    (\<forall>i b. i < length bs \<and> 0 < bs ! i \<and> int LOGSIZE < lsize (lg st) \<longrightarrow> (\<exists>st'. log_write b (st :: unit logst) = Ok st'))"
proof -
  note S = log_reach_space [OF assms, unfolded log_space_def]
  have "\<exists>st'. log_write b st = Ok st'" if i: "i < length bs" "0 < bs ! i" and "int LOGSIZE < lsize (lg st)" for i b
  proof -
    have "hn (lh (lg st)) + 1 \<le> int LOGSIZE" using sum_list_dec [OF i] S by linarith
    then show ?thesis using S i that(3) by (auto simp: log_write_def Let_def)
  qed
  moreover have "\<exists>c l'. end_op_enter (lg st) = Ok (c, l')" if "bs \<noteq> []"
    using S that by (auto simp: end_op_enter_def Let_def)
  ultimately show ?thesis using S by blast
qed

text \<open>Three calls are admitted at once and make 29 writes of different blocks.\<close>

definition boot_log :: log where
  "boot_log = \<lparr>lstart = 2, lsize = 30, outstanding = 0, committing = False, ldev = 1, lh = \<lparr>hn = 0, hblock = replicate LOGSIZE 0\<rparr>\<rparr>"

definition one_buf :: "u32 \<Rightarrow> unit bcache" where
  "one_buf bn = \<lparr>bufs = (\<lambda>_. \<lparr>valid = True, bdev = 1, blockno = bn, block = initsleeplock, refcnt = 1, prev = 0, nxt = 0, data = []\<rparr>),
     dsk = ()\<rparr>"

lemma three_calls: "log_reach (boot_log\<lparr>outstanding := 3\<rparr>) [10, 10, 10]"
proof -
  have "log_reach boot_log []" by (rule log_reach.boot) (simp_all add: boot_log_def)
  from log_reach.begin_op [OF this, of "boot_log\<lparr>outstanding := 1\<rparr>"]
  have "log_reach (boot_log\<lparr>outstanding := 1\<rparr>) [10]" by (simp add: begin_op_def boot_log_def)
  from log_reach.begin_op [OF this, of "boot_log\<lparr>outstanding := 2\<rparr>"]
  have "log_reach (boot_log\<lparr>outstanding := 2\<rparr>) [10, 10]" by (simp add: begin_op_def boot_log_def)
  from log_reach.begin_op [OF this, of "boot_log\<lparr>outstanding := 3\<rparr>"]
  show ?thesis by (simp add: begin_op_def boot_log_def)
qed

lemma many_writes:
  "n \<le> 29 \<Longrightarrow> \<exists>l bs. log_reach l bs \<and> lsize l = 30 \<and> outstanding l = 3 \<and> hn (lh l) = int n \<and> length bs = 3 \<and>
     sum_list bs = 30 - n \<and> length (hblock (lh l)) = LOGSIZE \<and> (\<forall>i<n. hblock (lh l) ! i = word_of_nat i)"
proof (induction n)
  case 0
  then show ?case using three_calls by (intro exI [of _ "boot_log\<lparr>outstanding := 3\<rparr>"] exI [of _ "[10, 10, 10]"]) (simp add: boot_log_def)
next
  case (Suc n)
  then obtain l bs where l: "log_reach l bs" "lsize l = 30" "outstanding l = 3" "hn (lh l) = int n" "length bs = 3" "sum_list bs = 30 - n"
    "length (hblock (lh l)) = LOGSIZE" "\<forall>i<n. hblock (lh l) ! i = word_of_nat i" by auto
  have "0 < sum_list bs" using l(6) Suc.prems by simp
  then obtain i where i: "i < length bs" "0 < bs ! i" using budget_left by blast
  have ne: "(word_of_nat j :: u32) \<noteq> word_of_nat n" if "j < n" for j
    using that Suc.prems by (simp add: word_of_nat_eq_iff take_bit_nat_eq_self)
  have "absorb_index (hblock (lh l)) j k (word_of_nat n) = j + k" if "j + k = n" for j k
    using that l(8) ne by (induction k arbitrary: j) auto
  from this [of 0 n] have a: "absorb_index (hblock (lh l)) 0 n (word_of_nat n) = n" by simp
  let ?st = "\<lparr>lg = l, bc = one_buf (word_of_nat n)\<rparr>"
  let ?l = "l\<lparr>lh := \<lparr>hn = int n + 1, hblock = (hblock (lh l))[n := word_of_nat n]\<rparr>\<rparr>"
  have "log_write 0 ?st = Ok (?st\<lparr>bc := bpin 0 (bc ?st), lg := ?l\<rparr>)"
    using l Suc.prems a by (simp add: log_write_def Let_def one_buf_def)
  from log_reach.log_write [OF _ i this] l(1) have "log_reach ?l (bs[i := bs ! i - 1])" by simp
  moreover have "sum_list (bs[i := bs ! i - 1]) = 30 - Suc n" using sum_list_dec [OF i] l(6) Suc.prems by simp
  ultimately show ?case using l Suc.prems by (intro exI [of _ ?l] exI [of _ "bs[i := bs ! i - 1]"]) (auto simp: less_Suc_eq)
qed

text \<open>
  C29 (log space, a defect). \<^verbatim>\<open>mkfs\<close> makes a log of \<^verbatim>\<open>LOGSIZE\<close> blocks including the header, and \<^verbatim>\<open>log_write\<close>
  keeps one block free, but \<^verbatim>\<open>begin_op\<close> reserves up to \<^verbatim>\<open>LOGSIZE\<close> blocks: three admitted calls that each
  stay within \<^verbatim>\<open>MAXOPBLOCKS\<close> reach a state where the next \<^verbatim>\<open>log_write\<close> panics.
\<close>

theorem log_overcommit_panics:
  "\<exists>st :: unit logst. \<exists>bs i. log_reach (lg st) bs \<and> lsize (lg st) = 30 \<and> i < length bs \<and> 0 < bs ! i \<and>
     log_write 0 st = Panic ''too big a transaction''"
proof -
  obtain l bs where l: "log_reach l bs" "lsize l = 30" "outstanding l = 3" "hn (lh l) = 29" "length bs = 3" "sum_list bs = 1"
    using many_writes [of 29] by auto
  then obtain i where "i < length bs" "0 < bs ! i" using budget_left [of bs] by auto
  then show ?thesis using l
    by (intro exI [of _ "\<lparr>lg = l, bc = one_buf 100\<rparr>"] exI [of _ bs] exI [of _ i]) (simp add: log_write_def Let_def)
qed

theorem log_space_reserved_witness:
  "\<exists>st'. log_write 0 (\<lparr>lg = boot_log\<lparr>outstanding := 3, lsize := 31\<rparr>, bc = one_buf 100\<rparr> :: unit logst) = Ok st'"
proof -
  let ?l = "boot_log\<lparr>lsize := 31\<rparr>"
  have "log_reach ?l []" by (rule log_reach.boot) (simp_all add: boot_log_def)
  from log_reach.begin_op [OF this, of "?l\<lparr>outstanding := 1\<rparr>"]
  have "log_reach (?l\<lparr>outstanding := 1\<rparr>) [10]" by (simp add: begin_op_def boot_log_def)
  from log_reach.begin_op [OF this, of "?l\<lparr>outstanding := 2\<rparr>"]
  have "log_reach (?l\<lparr>outstanding := 2\<rparr>) [10, 10]" by (simp add: begin_op_def boot_log_def)
  from log_reach.begin_op [OF this, of "?l\<lparr>outstanding := 3\<rparr>"]
  have "log_reach (boot_log\<lparr>outstanding := 3, lsize := 31\<rparr>) [10, 10, 10]" by (simp add: begin_op_def boot_log_def)
  then have r: "log_reach (lg \<lparr>lg = boot_log\<lparr>outstanding := 3, lsize := 31\<rparr>, bc = one_buf 100\<rparr>) [10, 10, 10]" by simp
  show ?thesis
    using log_space_reserved [OF r, THEN conjunct2, THEN conjunct2, rule_format, of 0 0] by simp
qed

end
