(* ===== verification/Xv6_Virtio.thy ===== *)
theory Xv6_Virtio
  imports Xv6_Log Xv6_Kalloc
begin

unbundle bit_operations_syntax

text \<open>
  The virtio disk driver (\<^verbatim>\<open>kernel/virtio_disk.c\<close>, structures from \<^verbatim>\<open>kernel/virtio.h\<close>): descriptor
  allocation, submission of a request, the completion interrupt and initialisation. The device is not
  part of the kernel: it is a parameter, with the behaviour the virtio specification prescribes as the
  laws of the locale \<open>virtio_device\<close>. The driver over such a device is a block device in the sense of the
  buffer cache, so the crash-safety theorem of the log holds on top of it.
\<close>

section \<open>Model\<close>

abbreviation (input) NUM :: nat where "NUM \<equiv> 8"

abbreviation (input) VRING_DESC_F_NEXT :: u16 where "VRING_DESC_F_NEXT \<equiv> 1"
abbreviation (input) VRING_DESC_F_WRITE :: u16 where "VRING_DESC_F_WRITE \<equiv> 2"
abbreviation (input) VIRTIO_BLK_T_IN :: u32 where "VIRTIO_BLK_T_IN \<equiv> 0"
abbreviation (input) VIRTIO_BLK_T_OUT :: u32 where "VIRTIO_BLK_T_OUT \<equiv> 1"

text \<open>
  What a descriptor points at: the request header \<^verbatim>\<open>disk.ops[i]\<close>, the data of a buffer, or the status byte
  \<^verbatim>\<open>disk.info[i].status\<close>.
\<close>

datatype dma_addr = Null | Ops nat | Data nat | Status nat

record virtq_desc =
  addr :: dma_addr
  len :: u32
  flags :: u16
  dnext :: u16

record virtio_blk_req =
  type :: u32
  reserved :: u32
  sector :: u64

text \<open>\<^verbatim>\<open>struct disk\<close> with the rings it points to; \<open>owned b\<close> is the field \<^verbatim>\<open>disk\<close> of buffer \<open>b\<close>.\<close>

record vdisk =
  desc :: "nat \<Rightarrow> virtq_desc"
  avail_idx :: u16
  avail_ring :: "nat \<Rightarrow> u16"
  used_idx_dev :: u16
  used_ring :: "nat \<Rightarrow> u32"
  dfree :: "nat \<Rightarrow> bool"
  used_idx :: u16
  info_b :: "nat \<Rightarrow> nat option"
  info_status :: "nat \<Rightarrow> u8"
  ops :: "nat \<Rightarrow> virtio_blk_req"
  owned :: "nat \<Rightarrow> bool"

definition alloc_desc :: "vdisk \<Rightarrow> nat option \<times> vdisk" where
  "alloc_desc s = (case List.find (dfree s) [0..<NUM] of
     Some i \<Rightarrow> (Some i, s\<lparr>dfree := (dfree s)(i := False)\<rparr>)
   | None \<Rightarrow> (None, s))"

abbreviation (input) zero_desc :: virtq_desc where
  "zero_desc \<equiv> \<lparr>addr = Null, len = 0, flags = 0, dnext = 0\<rparr>"

definition free_desc :: "nat \<Rightarrow> vdisk \<Rightarrow> vdisk outcome" where
  "free_desc i s = (if NUM \<le> i then Panic ''free_desc 1''
     else if dfree s i then Panic ''free_desc 2''
     else Ok (s\<lparr>desc := (desc s)(i := zero_desc), dfree := (dfree s)(i := True)\<rparr>))"

partial_function (option) free_chain :: "nat \<Rightarrow> vdisk \<Rightarrow> vdisk outcome option" where
  "free_chain i s = (let flag = flags (desc s i); nx = unat (dnext (desc s i)) in
     case free_desc i s of
       Ok s' \<Rightarrow> if flag AND VRING_DESC_F_NEXT \<noteq> 0 then free_chain nx s' else Some (Ok s')
     | e \<Rightarrow> Some e)"

definition alloc3_desc :: "vdisk \<Rightarrow> ((nat \<times> nat \<times> nat) option \<times> vdisk) outcome" where
  "alloc3_desc s = (case alloc_desc s of
     (None, s) \<Rightarrow> Ok (None, s)
   | (Some i0, s) \<Rightarrow> (case alloc_desc s of
       (None, s) \<Rightarrow> obind (free_desc i0 s) (\<lambda>s. Ok (None, s))
     | (Some i1, s) \<Rightarrow> (case alloc_desc s of
         (None, s) \<Rightarrow> obind (free_desc i0 s) (\<lambda>s. obind (free_desc i1 s) (\<lambda>s. Ok (None, s)))
       | (Some i2, s) \<Rightarrow> Ok (Some (i0, i1, i2), s))))"

text \<open>\<^verbatim>\<open>virtio_disk_rw\<close> up to the notification of the device: the request of buffer \<open>b\<close> for block \<open>bn\<close>.\<close>

definition virtio_submit :: "nat \<Rightarrow> u32 \<Rightarrow> bool \<Rightarrow> vdisk \<Rightarrow> (nat \<times> vdisk) outcome" where
  "virtio_submit b bn write s = obind (alloc3_desc s) (\<lambda>(r, s). case r of
     None \<Rightarrow> Sleeps
   | Some (i0, i1, i2) \<Rightarrow>
       let s = s\<lparr>ops := (ops s)(i0 := \<lparr>type = (if write then VIRTIO_BLK_T_OUT else VIRTIO_BLK_T_IN),
               reserved = 0, sector = ucast (bn * 2)\<rparr>)\<rparr>;
           s = s\<lparr>desc := (desc s)
             (i0 := \<lparr>addr = Ops i0, len = 16, flags = VRING_DESC_F_NEXT, dnext = word_of_nat i1\<rparr>,
              i1 := \<lparr>addr = Data b, len = word_of_nat BSIZE,
                flags = (if write then 0 else VRING_DESC_F_WRITE) OR VRING_DESC_F_NEXT, dnext = word_of_nat i2\<rparr>,
              i2 := \<lparr>addr = Status i0, len = 1, flags = VRING_DESC_F_WRITE, dnext = 0\<rparr>)\<rparr>;
           s = s\<lparr>info_status := (info_status s)(i0 := 0xff), owned := (owned s)(b := True),
             info_b := (info_b s)(i0 := Some b)\<rparr>;
           s = s\<lparr>avail_ring := (avail_ring s)(unat (avail_idx s) mod NUM := word_of_nat i0)\<rparr>
       in Ok (i0, s\<lparr>avail_idx := avail_idx s + 1\<rparr>))"

text \<open>The end of \<^verbatim>\<open>virtio_disk_rw\<close>, once the interrupt handler has taken the buffer back from the device.\<close>

definition virtio_finish :: "nat \<Rightarrow> vdisk \<Rightarrow> vdisk outcome" where
  "virtio_finish i0 s = (case free_chain i0 (s\<lparr>info_b := (info_b s)(i0 := None)\<rparr>) of
     None \<Rightarrow> Diverges | Some r \<Rightarrow> r)"

text \<open>The loop of \<^verbatim>\<open>virtio_disk_intr\<close>; an entry whose buffer pointer is null would be a null dereference.\<close>

partial_function (option) virtio_intr_loop :: "vdisk \<Rightarrow> vdisk outcome option" where
  "virtio_intr_loop s = (if used_idx s = used_idx_dev s then Some (Ok s) else
     let id = unat (used_ring s (unat (used_idx s) mod NUM)) in
     if NUM \<le> id then Some Undefined
     else if info_status s id \<noteq> 0 then Some (Panic ''virtio_disk_intr status'')
     else case info_b s id of
       None \<Rightarrow> Some Undefined
     | Some b \<Rightarrow> virtio_intr_loop (s\<lparr>owned := (owned s)(b := False), used_idx := used_idx s + 1\<rparr>))"

definition virtio_disk_intr :: "vdisk \<Rightarrow> vdisk outcome" where
  "virtio_disk_intr s = (case virtio_intr_loop s of None \<Rightarrow> Diverges | Some r \<Rightarrow> r)"

text \<open>
  One request from submission to completion. \<open>dev\<close> is what the device does between the notification and
  the interrupt: from the queue, the data of the buffer and its own state it computes the queue with
  the used ring and status byte written, the data and its new state. The buffer of the request is
  number 0.
\<close>

type_synonym 'k device = "vdisk \<Rightarrow> u8 list \<Rightarrow> 'k \<Rightarrow> vdisk \<times> u8 list \<times> 'k"

definition virtio_disk_rw :: "'k device \<Rightarrow> ('k \<times> vdisk) driver" where
  "virtio_disk_rw dev write bn d ks = obind (virtio_submit 0 bn write (snd ks)) (\<lambda>(i0, s).
     let (s, d, k) = dev s d (fst ks) in
     obind (virtio_disk_intr s) (\<lambda>s.
     if owned s 0 then Sleeps
     else obind (virtio_finish i0 s) (\<lambda>s. Ok (d, (k, s)))))"

text \<open>
  Initialisation: \<open>rd\<close> and \<open>wr\<close> read and write the device's memory-mapped registers by offset. The queue
  pages come from \<^verbatim>\<open>kalloc\<close> and are zeroed.
\<close>

definition clear_bit_of :: "nat \<Rightarrow> u64 \<Rightarrow> u64" where
  "clear_bit_of n x = x AND NOT (push_bit n 1)"

definition virtio_features :: "u32 \<Rightarrow> u32" where
  "virtio_features f = ucast (fold clear_bit_of [5, 7, 11, 12, 27, 29, 28] (ucast f :: u64))"

definition zero_queue :: "vdisk \<Rightarrow> vdisk" where
  "zero_queue s = s\<lparr>desc := (\<lambda>_. zero_desc), avail_idx := 0, avail_ring := (\<lambda>_. 0), used_idx_dev := 0, used_ring := (\<lambda>_. 0)\<rparr>"

definition virtio_disk_init ::
  "(u32 \<Rightarrow> 'k \<Rightarrow> u32) \<Rightarrow> (u32 \<Rightarrow> u32 \<Rightarrow> 'k \<Rightarrow> 'k) \<Rightarrow> kmem \<Rightarrow> vdisk \<Rightarrow> 'k \<Rightarrow> (kmem \<times> vdisk \<times> 'k) outcome" where
  "virtio_disk_init rd wr km s k =
    (if rd 0x000 k \<noteq> 0x74726976 \<or> rd 0x004 k \<noteq> 2 \<or> rd 0x008 k \<noteq> 2 \<or> rd 0x00c k \<noteq> 0x554d4551
     then Panic ''could not find virtio disk''
     else let
       k = wr 0x070 0 k;
       status = 0 OR 1; k = wr 0x070 status k;
       status = status OR 2; k = wr 0x070 status k;
       k = wr 0x020 (virtio_features (rd 0x010 k)) k;
       status = status OR 8; k = wr 0x070 status k;
       status = rd 0x070 k
     in if status AND 8 = 0 then Panic ''virtio disk FEATURES_OK unset''
     else let k = wr 0x030 0 k in
     if rd 0x044 k \<noteq> 0 then Panic ''virtio disk should not be ready''
     else let mx = rd 0x034 k in
     if mx = 0 then Panic ''virtio disk has no queue 0''
     else if mx < word_of_nat NUM then Panic ''virtio disk max queue too short''
     else let (de, km) = kalloc km; (av, km) = kalloc km; (us, km) = kalloc km in
     if de = 0 \<or> av = 0 \<or> us = 0 then Panic ''virtio disk kalloc''
     else let
       km = km\<lparr>mem := memset (memset (memset (mem km) de 0 0x1000) av 0 0x1000) us 0 0x1000\<rparr>;
       s = zero_queue s;
       k = wr 0x038 (word_of_nat NUM) k;
       k = wr 0x080 (ucast de) k; k = wr 0x084 (ucast (drop_bit 32 de)) k;
       k = wr 0x090 (ucast av) k; k = wr 0x094 (ucast (drop_bit 32 av)) k;
       k = wr 0x0a0 (ucast us) k; k = wr 0x0a4 (ucast (drop_bit 32 us)) k;
       k = wr 0x044 1 k;
       s = s\<lparr>dfree := (\<lambda>i. i < NUM \<or> dfree s i)\<rparr>;
       k = wr 0x070 (status OR 4) k
     in Ok (km, s, k))"

section \<open>The device\<close>

text \<open>
  How a device reads a request from the descriptor chain that starts at \<open>h\<close>: header, data, status; the
  result is the direction, the sector, the buffer and the index of the status byte.
\<close>

definition chain_request :: "vdisk \<Rightarrow> nat \<Rightarrow> (bool \<times> u64 \<times> nat \<times> nat) option" where
  "chain_request s h = (let d0 = desc s h; d1 = desc s (unat (dnext d0)); d2 = desc s (unat (dnext d1)) in
     case (addr d0, addr d1, addr d2) of
       (Ops r, Data b, Status i) \<Rightarrow>
         if len d0 = 16 \<and> flags d0 = VRING_DESC_F_NEXT \<and> len d1 = word_of_nat BSIZE \<and> len d2 = 1 \<and> flags d2 = VRING_DESC_F_WRITE \<and>
           (type (ops s r) = VIRTIO_BLK_T_OUT \<and> flags d1 = VRING_DESC_F_NEXT \<or>
            type (ops s r) = VIRTIO_BLK_T_IN \<and> flags d1 = VRING_DESC_F_WRITE OR VRING_DESC_F_NEXT)
         then Some (type (ops s r) = VIRTIO_BLK_T_OUT, sector (ops s r), b, i) else None
     | _ \<Rightarrow> None)"

text \<open>The queue after the device has completed the chain \<open>h\<close> with status byte \<open>i\<close>.\<close>

definition completed :: "nat \<Rightarrow> nat \<Rightarrow> vdisk \<Rightarrow> vdisk" where
  "completed h i s = s\<lparr>used_ring := (used_ring s)(unat (used_idx_dev s) mod NUM := word_of_nat h),
     used_idx_dev := used_idx_dev s + 1, info_status := (info_status s)(i := 0)\<rparr>"

text \<open>
  A virtio block device: when the driver has made one more chain available than the device has seen,
  the device performs its request, writes 0 to the status byte and returns the chain in the used ring.
\<close>

locale virtio_device =
  fixes dev :: "'k device" and blocks :: "'k \<Rightarrow> u32 \<Rightarrow> u8 list" and seen :: "'k \<Rightarrow> u16" and kok :: "'k \<Rightarrow> bool" and nblk :: u32
  assumes disk_size: "nblk \<le> 0x80000000"
    and block_length: "kok k \<Longrightarrow> bn < nblk \<Longrightarrow> length (blocks k bn) = BSIZE"
    and dev_read: "kok k \<Longrightarrow> avail_idx s = seen k + 1 \<Longrightarrow> h = unat (avail_ring s (unat (seen k) mod NUM)) \<Longrightarrow>
      chain_request s h = Some (False, 2 * ucast bn, b, i) \<Longrightarrow> bn < nblk \<Longrightarrow> length d = BSIZE \<Longrightarrow>
      \<exists>k'. dev s d k = (completed h i s, blocks k bn, k') \<and> kok k' \<and> seen k' = seen k + 1 \<and> blocks k' = blocks k"
    and dev_write: "kok k \<Longrightarrow> avail_idx s = seen k + 1 \<Longrightarrow> h = unat (avail_ring s (unat (seen k) mod NUM)) \<Longrightarrow>
      chain_request s h = Some (True, 2 * ucast bn, b, i) \<Longrightarrow> bn < nblk \<Longrightarrow> length d = BSIZE \<Longrightarrow>
      \<exists>k'. dev s d k = (completed h i s, d, k') \<and> kok k' \<and> seen k' = seen k + 1 \<and> blocks k' = (blocks k)(bn := d)"

section \<open>One request\<close>

definition vdisk_idle :: "vdisk \<Rightarrow> bool" where
  "vdisk_idle s \<longleftrightarrow> (\<forall>i<NUM. dfree s i) \<and> used_idx s = used_idx_dev s"

lemma alloc3_idle:
  assumes "vdisk_idle s"
  shows "alloc3_desc s = Ok (Some (0, 1, 2), s\<lparr>dfree := (dfree s)(0 := False, 1 := False, 2 := False)\<rparr>)"
proof -
  have u: "[0..<NUM] = [0, 1, 2, 3, 4, 5, 6, 7]" by (simp add: upt_rec)
  have "dfree s 0" "dfree s 1" "dfree s 2" using assms by (simp_all add: vdisk_idle_def)
  then show ?thesis unfolding alloc3_desc_def alloc_desc_def u by simp
qed

lemma sector_of_block: "bn < 0x80000000 \<Longrightarrow> (ucast (bn * 2 :: u32) :: u64) = 2 * ucast bn"
proof -
  assume a: "bn < 0x80000000"
  then have b: "unat bn < 2147483648" by (simp add: word_less_nat_alt)
  then have "unat (bn * 2) = 2 * unat bn" by (simp add: unat_word_ariths)
  then show ?thesis using b
    by (simp add: word_unat_eq_iff unat_word_ariths unsigned_ucast_eq take_bit_nat_eq_self)
qed

lemma submit_idle:
  assumes "vdisk_idle s" and "bn < 0x80000000"
  obtains s' where "virtio_submit b bn write s = Ok (0, s')" and "chain_request s' 0 = Some (write, 2 * ucast bn, b, 0)"
    and "avail_idx s' = avail_idx s + 1" and "avail_ring s' (unat (avail_idx s) mod NUM) = 0"
    and "used_idx s' = used_idx s" and "used_idx_dev s' = used_idx_dev s" and "dfree s' = (dfree s)(0 := False, 1 := False, 2 := False)"
    and "info_b s' 0 = Some b" and "owned s' b"
    and "flags (desc s' 0) = 1" "flags (desc s' 1) AND 1 \<noteq> 0" "flags (desc s' 2) = 2" "dnext (desc s' 0) = 1" "dnext (desc s' 1) = 2"
proof -
  obtain s' where s': "virtio_submit b bn write s = Ok (0, s')" by (simp add: virtio_submit_def alloc3_idle [OF assms(1)] Let_def)
  then show ?thesis
    using sector_of_block [OF assms(2)]
    by (intro that [of s']) (auto simp: virtio_submit_def alloc3_idle [OF assms(1)] Let_def chain_request_def)
qed

lemma intr_one:
  assumes "used_idx s = used_idx_dev s" and "info_b s h = Some b" and "h < NUM"
  shows "virtio_disk_intr (completed h h s) =
    Ok ((completed h h s)\<lparr>owned := (owned s)(b := False), used_idx := used_idx s + 1\<rparr>)"
proof -
  have "unat (word_of_nat h :: u32) = h" using assms(3) by (simp add: unat_of_nat take_bit_nat_eq_self)
  then show ?thesis using assms by (simp add: virtio_disk_intr_def virtio_intr_loop.simps completed_def Let_def)
qed


lemma finish_one:
  assumes "dfree s = (dfree s0)(0 := False, 1 := False, 2 := False)" and "\<forall>i<NUM. dfree s0 i"
    and "flags (desc s 0) = 1" "flags (desc s 1) AND 1 \<noteq> 0" "flags (desc s 2) = 2" "dnext (desc s 0) = 1" "dnext (desc s 1) = 2"
  shows "\<exists>s'. virtio_finish 0 s = Ok s' \<and> (\<forall>i<NUM. dfree s' i) \<and> used_idx s' = used_idx s \<and> used_idx_dev s' = used_idx_dev s \<and>
    avail_idx s' = avail_idx s"
proof -
  have "free_chain 0 (s\<lparr>info_b := (info_b s)(0 := None)\<rparr>) =
    Some (Ok (s\<lparr>info_b := (info_b s)(0 := None), desc := (desc s)(0 := zero_desc, 1 := zero_desc, 2 := zero_desc),
      dfree := (dfree s)(0 := True, 1 := True, 2 := True)\<rparr>))"
    using assms by (simp add: free_chain.simps free_desc_def Let_def)
  then show ?thesis using assms(1,2) by (simp add: virtio_finish_def)
qed

text \<open>Device and driver agree: every chain made available has been seen, and the driver has no request.\<close>

definition vdisk_ok :: "('k \<Rightarrow> u16) \<Rightarrow> ('k \<Rightarrow> bool) \<Rightarrow> 'k \<times> vdisk \<Rightarrow> bool" where
  "vdisk_ok seen kok ks \<longleftrightarrow> kok (fst ks) \<and> seen (fst ks) = avail_idx (snd ks) \<and> vdisk_idle (snd ks)"

context virtio_device
begin

abbreviation vdok :: "'k \<times> vdisk \<Rightarrow> bool" where
  "vdok \<equiv> vdisk_ok seen kok"

lemma request_ok:
  assumes ok: "vdok ks" and bn: "bn < nblk" and len: "length d = BSIZE"
  shows "\<exists>ks'. virtio_disk_rw dev write bn d ks = Ok (if write then d else blocks (fst ks) bn, ks') \<and> vdok ks' \<and>
    blocks (fst ks') = (if write then (blocks (fst ks))(bn := d) else blocks (fst ks))"
proof -
  obtain k s where ks: "ks = (k, s)" by force
  have k: "kok k" "seen k = avail_idx s" and s: "vdisk_idle s" using ok by (simp_all add: vdisk_ok_def ks)
  have bn': "bn < 0x80000000" using bn disk_size by simp
  obtain s1 where 1: "virtio_submit 0 bn write s = Ok (0, s1)" "chain_request s1 0 = Some (write, 2 * ucast bn, 0, 0)"
    "avail_idx s1 = avail_idx s + 1" "avail_ring s1 (unat (avail_idx s) mod NUM) = 0" "used_idx s1 = used_idx s"
    "used_idx_dev s1 = used_idx_dev s" "dfree s1 = (dfree s)(0 := False, 1 := False, 2 := False)" "info_b s1 0 = Some 0" "owned s1 0"
    and fl: "flags (desc s1 0) = 1" "flags (desc s1 1) AND 1 \<noteq> 0" "flags (desc s1 2) = 2" "dnext (desc s1 0) = 1" "dnext (desc s1 1) = 2"
    by (rule submit_idle [OF s bn', of 0 "write"])
  have "\<exists>k'. dev s1 d k = (completed 0 0 s1, if write then d else blocks k bn, k') \<and> kok k' \<and> seen k' = seen k + 1 \<and>
      blocks k' = (if write then (blocks k)(bn := d) else blocks k)"
    using dev_read [OF k(1) _ _ _ bn len, of s1 0 0 0] dev_write [OF k(1) _ _ _ bn len, of s1 0 0 0] 1 k(2) by (cases "write") auto
  then obtain k' where k': "dev s1 d k = (completed 0 0 s1, if write then d else blocks k bn, k')" "kok k'" "seen k' = seen k + 1"
    "blocks k' = (if write then (blocks k)(bn := d) else blocks k)" by blast
  let ?s2 = "(completed 0 0 s1)\<lparr>owned := (owned s1)(0 := False), used_idx := used_idx s1 + 1\<rparr>"
  have i: "virtio_disk_intr (completed 0 0 s1) = Ok ?s2"
    using intr_one [of s1 0 0] 1 s by (simp add: vdisk_idle_def)
  obtain s3 where s3: "virtio_finish 0 ?s2 = Ok s3" "\<forall>i<NUM. dfree s3 i" "used_idx s3 = used_idx ?s2" "used_idx_dev s3 = used_idx_dev ?s2"
    "avail_idx s3 = avail_idx ?s2"
    using finish_one [of ?s2 s] 1(7) s fl by (auto simp: vdisk_idle_def completed_def)
  have "virtio_disk_rw dev write bn d ks = Ok (if write then d else blocks k bn, (k', s3))"
    using 1(1) k'(1) i s3(1) by (simp add: virtio_disk_rw_def ks Let_def)
  moreover have "vdok (k', s3)"
    using k' k s3 1 s by (simp add: vdisk_ok_def vdisk_idle_def completed_def)
  ultimately show ?thesis using k'(4) ks by (intro exI [of _ "(k', s3)"]) simp
qed

end

sublocale virtio_device \<subseteq> vd: disk_driver "virtio_disk_rw dev" "\<lambda>ks. blocks (fst ks)" vdok nblk
proof
  fix ks bn and d :: "u8 list"
  assume a: "vdok ks" "bn < nblk"
  then show "length (blocks (fst ks) bn) = BSIZE" by (simp add: vdisk_ok_def block_length)
  assume l: "length d = BSIZE"
  show "\<exists>k'. virtio_disk_rw dev False bn d ks = Ok (blocks (fst ks) bn, k') \<and> vdok k' \<and> blocks (fst k') = blocks (fst ks)"
    using request_ok [OF a l, of False] by simp
  show "\<exists>k'. virtio_disk_rw dev True bn d ks = Ok (d, k') \<and> vdok k' \<and> blocks (fst k') = (blocks (fst ks))(bn := d)"
    using request_ok [OF a l, of True] by simp
qed


context virtio_device
begin

lemma traced_block_device:
  "block_device (traced (virtio_disk_rw dev)) (\<lambda>k. blocks (fst (fst k))) snd (\<lambda>k. vdok (fst k)) nblk"
  by (rule vd.tr.block_device_axioms)

end

context block_device
begin

lemma write_block_ok:
  assumes inv: "cinv D st" and bn: "bn < nblk" and room: "cache_room bn (absv D st)" and len: "length d = BSIZE"
  shows "\<exists>st'. obind (bread rw me D bn st) (\<lambda>(b, st). obind (bwrite rw me b (set_data b d st)) (brelse me b)) = Ok st' \<and>
    cinv D st' \<and> absv D st' = copied bn d (absv D st)"
proof -
  let ?v = "absv D st"
  have nl: "aheld ?v bn = None" using room by (simp add: cache_room_def)
  from bread_ok [OF inv bn room] obtain b c1 where
    1: "bread rw me D bn st = Ok (b, c1)" "cinv D c1" "handle D c1 b bn" "absv D c1 = took me bn ?v" by blast
  let ?c2 = "set_data b d c1"
  have 2: "cinv D ?c2" "handle D ?c2 b bn" "absv D ?c2 = (absv D c1)\<lparr>aview := (aview (absv D c1))(bn := d)\<rparr>"
    using set_data_ok [OF 1(2,3) len] 1(3) by auto
  have h: "aheld (absv D ?c2) bn = Some me" by (simp add: 2(3) 1(4) took_def)
  from bwrite_ok [OF 2(1,2) h bn] obtain c3 where
    3: "bwrite rw me b ?c2 = Ok c3" "cinv D c3" "handle D c3 b bn" "absv D c3 = took me bn (copied bn d ?v)"
    using 2(2) by (auto simp: 2(3) 1(4) took_def wrote_def)
  have h: "aheld (absv D c3) bn = Some me" "aview (absv D c3) bn = adisk (absv D c3) bn"
    by (simp_all add: 3(4) took_def)
  from brelse_ok [OF 3(2,3) h(1)] h(2) obtain c4 where
    4: "brelse me b c3 = Ok c4" "cinv D c4" "absv D c4 = gave bn (absv D c3)" by blast
  have "absv D c4 = copied bn d ?v" unfolding 4(3) 3(4) using nl
    by (auto simp: took_def gave_def wrote_def fun_eq_iff intro!: cache_view.equality)
  then show ?thesis using 1(1) 3(1) 4 by simp
qed

end

section \<open>A device that follows the specification\<close>

text \<open>A disk image and the count of chains seen, serving the next available chain.\<close>

definition spec_device :: "((u32 \<Rightarrow> u8 list) \<times> u16) device" where
  "spec_device s d k = (let h = unat (avail_ring s (unat (snd k) mod NUM)) in
     case chain_request s h of
       None \<Rightarrow> (s, d, k)
     | Some (w, sec, b, i) \<Rightarrow> let bn = ucast (sec div 2) in
         if w then (completed h i s, d, ((fst k)(bn := d), snd k + 1))
         else (completed h i s, fst k bn, (fst k, snd k + 1)))"

abbreviation (input) FSSIZE :: u32 where "FSSIZE \<equiv> 2000"

lemma block_of_sector: "bn < FSSIZE \<Longrightarrow> ucast ((2 * ucast bn :: u64) div 2) = (bn :: u32)"
proof -
  assume "bn < FSSIZE"
  then have b: "unat bn < 2000" by (simp add: word_less_nat_alt)
  then have u: "unat (2 * ucast bn :: u64) = 2 * unat bn"
    by (simp add: unat_word_ariths unsigned_ucast_eq take_bit_nat_eq_self)
  have "unat ((2 * ucast bn :: u64) div 2) = unat bn" by (simp add: unat_div u)
  then show ?thesis using b by (simp add: word_unat_eq_iff unsigned_ucast_eq take_bit_nat_eq_self)
qed

interpretation sd: virtio_device spec_device fst snd "\<lambda>k. \<forall>bn. length (fst k bn) = BSIZE" FSSIZE
  by unfold_locales (auto simp: spec_device_def block_of_sector)

section \<open>Properties\<close>

text \<open>
  C26 (buffer cache). Over any block device, \<^verbatim>\<open>bread\<close> of a block that is not locked, with a buffer to spare,
  returns a locked buffer with the current contents of the block: abstractly it only adds a reference
  and the lock, so an eviction loses nothing and no block is cached twice.
\<close>

theorem bread_refines:
  assumes "block_device rw content trace dok nblk" and "cache_inv content trace dok D st" and "bn < nblk"
    and "cache_room bn (cache_abs content trace D st)"
  shows "\<exists>b st'. bread rw me D bn st = Ok (b, st') \<and> cache_inv content trace dok D st' \<and> handle D st' b bn \<and>
    data (bufs st' b) = aview (cache_abs content trace D st) bn \<and>
    cache_abs content trace D st' = took me bn (cache_abs content trace D st)"
  using block_device.bread_ok [OF assms, of me] block_device.handle_data [OF assms(1)]
  by (fastforce simp: took_def)

text \<open>
  C27 (buffer cache). Reading a block, replacing its data, writing it and releasing it returns, changes
  exactly this block on the disk and in the cache, and leaves every reference count and lock as before.
\<close>

theorem cache_write_through:
  assumes dev: "block_device rw content trace dok nblk" and inv: "cache_inv content trace dok D st" and "bn < nblk"
    and "cache_room bn (cache_abs content trace D st)" and "length d = BSIZE"
  shows "\<exists>st'. obind (bread rw me D bn st) (\<lambda>(b, st). obind (bwrite rw me b (set_data b d st)) (brelse me b)) = Ok st' \<and>
    cache_inv content trace dok D st' \<and>
    cache_abs content trace D st' = copied bn d (cache_abs content trace D st)"
  by (rule block_device.write_block_ok [OF assms])


text \<open>
  C1 (crash atomicity). Over a virtio device, from an idle log a file-system transaction of at most
  \<^verbatim>\<open>MAXOPBLOCKS\<close> block updates (repetitions are absorbed) returns, installs all updates and leaves the log
  idle. If the machine stops after any number \<open>k\<close> of its disk writes, then booting and \<^verbatim>\<open>initlog\<close> on the
  disk left behind return, and every block outside the log is as before the transaction, or every block
  is as after it.
\<close>

theorem transaction_crash_atomic:
  assumes dev: "virtio_device dev blocks seen kok nblk"
    and idle: "log_idle (\<lambda>k. blocks (fst (fst k))) snd (\<lambda>k. vdisk_ok seen kok (fst k)) nblk D st"
    and fit: "updates_fit nblk (lstart (lg st)) us" and D: "D \<noteq> 0" and nlog: "10 < sint (ucast nlog :: i32)"
  shows "\<exists>st' ws. transaction (traced (virtio_disk_rw dev)) me us st = Ok st' \<and>
    log_idle (\<lambda>k. blocks (fst (fst k))) snd (\<lambda>k. vdisk_ok seen kok (fst k)) nblk D st' \<and>
    snd (dsk (bc st')) = snd (dsk (bc st)) @ ws \<and>
    (\<forall>bn. bn \<notin> log_area (lstart (lg st)) \<longrightarrow>
      blocks (fst (fst (dsk (bc st')))) bn = apply_writes us (blocks (fst (fst (dsk (bc st))))) bn) \<and>
    (\<forall>k bt. zero_bufs (bc bt) \<and> vdisk_ok seen kok (fst (dsk (bc bt))) \<and>
        blocks (fst (fst (dsk (bc bt)))) = apply_writes (take k ws) (blocks (fst (fst (dsk (bc st))))) \<and>
        length (hblock (lh (lg bt))) = LOGSIZE \<and> outstanding (lg bt) = 0 \<and> \<not> committing (lg bt) \<longrightarrow>
      (\<exists>st2. initlog (traced (virtio_disk_rw dev)) me D (lstart (lg st)) nlog (bt\<lparr>bc := binit (bc bt)\<rparr>) = Ok st2 \<and>
        log_idle (\<lambda>k. blocks (fst (fst k))) snd (\<lambda>k. vdisk_ok seen kok (fst k)) nblk D st2 \<and>
        ((\<forall>bn. bn \<notin> log_area (lstart (lg st)) \<longrightarrow>
            blocks (fst (fst (dsk (bc st2)))) bn = blocks (fst (fst (dsk (bc st)))) bn) \<or>
         (\<forall>bn. bn \<notin> log_area (lstart (lg st)) \<longrightarrow>
            blocks (fst (fst (dsk (bc st2)))) bn = apply_writes us (blocks (fst (fst (dsk (bc st))))) bn))))"
proof -
  let ?S = "lstart (lg st)" and ?old = "blocks (fst (fst (dsk (bc st))))" and ?rw = "traced (virtio_disk_rw dev)"
  have bd: "block_device ?rw (\<lambda>k. blocks (fst (fst k))) snd (\<lambda>k. vdisk_ok seen kok (fst k)) nblk"
    by (rule virtio_device.traced_block_device [OF dev])
  obtain st' ws where T: "transaction ?rw me us st = Ok st'"
      "log_idle (\<lambda>k. blocks (fst (fst k))) snd (\<lambda>k. vdisk_ok seen kok (fst k)) nblk D st'"
      "snd (dsk (bc st')) = snd (dsk (bc st)) @ ws"
      "\<forall>bn. bn \<notin> log_area ?S \<longrightarrow> blocks (fst (fst (dsk (bc st')))) bn = apply_writes us ?old bn"
      "\<forall>k. recovers nblk ?S (apply_writes (take k ws) ?old) ?old \<or> recovers nblk ?S (apply_writes (take k ws) ?old) (apply_writes us ?old)"
    using block_device.transaction_ok [OF bd idle fit, of me] by blast
  have S: "unat ?S + LOGDATA < unat nblk" using log_idleD(2) [OF idle] by (simp add: log_fits_def)
  have R: "\<exists>st2. initlog ?rw me D ?S nlog (bt\<lparr>bc := binit (bc bt)\<rparr>) = Ok st2 \<and>
      log_idle (\<lambda>k. blocks (fst (fst k))) snd (\<lambda>k. vdisk_ok seen kok (fst k)) nblk D st2 \<and>
      ((\<forall>bn. bn \<notin> log_area ?S \<longrightarrow> blocks (fst (fst (dsk (bc st2)))) bn = ?old bn) \<or>
       (\<forall>bn. bn \<notin> log_area ?S \<longrightarrow> blocks (fst (fst (dsk (bc st2)))) bn = apply_writes us ?old bn))"
    if b: "zero_bufs (bc bt)" "vdisk_ok seen kok (fst (dsk (bc bt)))" "length (hblock (lh (lg bt))) = LOGSIZE"
      "outstanding (lg bt) = 0" "\<not> committing (lg bt)"
      and d: "blocks (fst (fst (dsk (bc bt)))) = apply_writes (take k ws) ?old" for k bt
  proof -
    have "recovers nblk ?S (blocks (fst (fst (dsk (bc bt))))) ?old \<or> recovers nblk ?S (blocks (fst (fst (dsk (bc bt))))) (apply_writes us ?old)"
      unfolding d using T(5) by blast
    then show ?thesis using block_device.reboot_ok [OF bd _ S b(1,2) D b(3-5) nlog, of _ me] by blast
  qed
  show ?thesis
    by (rule exI [of _ st'], rule exI [of _ ws], intro conjI T(1-4), intro allI impI, elim conjE) (rule R)
qed

text \<open>A freshly booted kernel over the image of zero blocks, with the log at block 2.\<close>

definition example_bc :: "((((u32 \<Rightarrow> u8 list) \<times> u16) \<times> vdisk) \<times> (u32 \<times> u8 list) list) bcache" where
  "example_bc = \<lparr>bufs = (\<lambda>_. \<lparr>valid = False, bdev = 0, blockno = 0, block = initsleeplock, refcnt = 0, prev = 0, nxt = 0,
       data = replicate BSIZE 0\<rparr>),
     dsk = (((\<lambda>_. replicate BSIZE 0, 0), \<lparr>desc = (\<lambda>_. zero_desc), avail_idx = 0, avail_ring = (\<lambda>_. 0), used_idx_dev = 0,
       used_ring = (\<lambda>_. 0), dfree = (\<lambda>_. True), used_idx = 0, info_b = (\<lambda>_. None), info_status = (\<lambda>_. 0),
       ops = (\<lambda>_. \<lparr>type = 0, reserved = 0, sector = 0\<rparr>), owned = (\<lambda>_. False)\<rparr>), [])\<rparr>"

definition example_log :: "((((u32 \<Rightarrow> u8 list) \<times> u16) \<times> vdisk) \<times> (u32 \<times> u8 list) list) logst" where
  "example_log = \<lparr>lg = \<lparr>lstart = 2, lsize = 30, outstanding = 0, committing = False, ldev = 1,
     lh = \<lparr>hn = 0, hblock = replicate LOGSIZE 0\<rparr>\<rparr>, bc = binit example_bc\<rparr>"

abbreviation sdok :: "((u32 \<Rightarrow> u8 list) \<times> u16) \<times> vdisk \<Rightarrow> bool" where
  "sdok \<equiv> vdisk_ok snd (\<lambda>k. \<forall>bn. length (fst k bn) = BSIZE)"

lemma example_zero: "zero_bufs example_bc" and example_sdok: "sdok (fst (dsk example_bc))"
  by (simp_all add: zero_bufs_def example_bc_def vdisk_ok_def vdisk_idle_def)

lemma example_inv: "cache_inv (\<lambda>k. fst (fst (fst k))) snd (\<lambda>k. sdok (fst k)) 1 (binit example_bc)"
  using sd.vd.tr.binit_inv [of example_bc 1] example_zero example_sdok by simp

lemma example_abs: "cache_abs (\<lambda>k. fst (fst (fst k))) snd 1 (binit example_bc) =
  \<lparr>aview = (\<lambda>_. replicate BSIZE 0), adisk = (\<lambda>_. replicate BSIZE 0), arefs = (\<lambda>_. 0), aheld = (\<lambda>_. None), atrace = []\<rparr>"
  using binit_abs [OF example_zero, of 1] by (simp add: example_bc_def)

lemma le_decode_zero: "le_decode (replicate n 0) = 0"
  by (induction n) simp_all

lemma head_n_zero: "head_n (replicate BSIZE 0) = 0"
  by (simp add: head_n_def get_le_def le_decode_zero)

lemma example_idle: "log_idle (\<lambda>k. fst (fst (fst k))) snd (\<lambda>k. sdok (fst k)) FSSIZE 1 example_log"
  using example_inv example_abs head_n_zero
  by (simp add: log_idle_def example_log_def log_fits_def example_bc_def)

lemma example_updates: "updates_fit FSSIZE 2 [(46, replicate BSIZE 7), (46, replicate BSIZE 8)]"
proof -
  have "(46 :: u32) \<noteq> 2 + word_of_nat i" if "i \<le> LOGDATA" for i
    using slot_less(2) [of 2 FSSIZE i] that by auto
  then have "(46 :: u32) \<notin> log_area 2" unfolding log_area_def by blast
  then show ?thesis by (simp add: updates_fit_def)
qed

theorem bread_refines_witness:
  "\<exists>b st'. bread (traced (virtio_disk_rw spec_device)) 1 1 46 (binit example_bc) = Ok (b, st') \<and>
     data (bufs st' b) = replicate BSIZE 0"
  using bread_refines [OF sd.traced_block_device example_inv, of 46 1] by (simp add: example_abs cache_room_def) blast

theorem cache_write_through_witness:
  "\<exists>st'. obind (bread (traced (virtio_disk_rw spec_device)) 1 1 46 (binit example_bc))
       (\<lambda>(b, st). obind (bwrite (traced (virtio_disk_rw spec_device)) 1 b (set_data b (replicate BSIZE 7) st)) (brelse 1 b)) = Ok st' \<and>
     adisk (cache_abs (\<lambda>k. fst (fst (fst k))) snd 1 st') 46 = replicate BSIZE 7"
  using cache_write_through [OF sd.traced_block_device example_inv, of 46 "replicate BSIZE 7" 1]
  by (auto simp add: example_abs cache_room_def)

theorem transaction_crash_atomic_witness:
  "\<exists>st'. transaction (traced (virtio_disk_rw spec_device)) 1 [(46, replicate BSIZE 7), (46, replicate BSIZE 8)] example_log = Ok st' \<and>
     fst (fst (fst (dsk (bc st')))) 46 = replicate BSIZE 8"
proof -
  have S: "lstart (lg example_log) = 2" by (simp add: example_log_def)
  have n: "46 \<notin> log_area 2" using example_updates by (simp add: updates_fit_def)
  show ?thesis
    using transaction_crash_atomic [OF sd.virtio_device_axioms example_idle, of "[(46, replicate BSIZE 7), (46, replicate BSIZE 8)]" 30 1]
      example_updates n unfolding S by auto
qed

end
