(* ===== verification/Xv6_Fs.thy ===== *)
theory Xv6_Fs
  imports Xv6_Virtio Xv6_Umem
begin

text \<open>
  The file system (\<^verbatim>\<open>kernel/fs.c\<close>, \<^verbatim>\<open>kernel/fs.h\<close>): the on-disk structures as bytes of blocks, the block
  allocator, the table of in-memory inodes, inode contents, directories and path names, over the
  buffer cache and the log of \<^verbatim>\<open>kernel/bio.c\<close> and \<^verbatim>\<open>kernel/log.c\<close>. Every function that reads or writes
  a block goes through \<^verbatim>\<open>bread\<close>, \<^verbatim>\<open>log_write\<close> and \<^verbatim>\<open>brelse\<close> with the driver \<open>rw\<close> and the calling process
  \<open>me\<close>. The messages that \<^verbatim>\<open>balloc\<close> and \<^verbatim>\<open>ialloc\<close> print on the console are left out.
\<close>

section \<open>Loops with an early return\<close>

primrec osearch :: "('i \<Rightarrow> 's \<Rightarrow> ('r option \<times> 's) outcome) \<Rightarrow> 'i list \<Rightarrow> 's \<Rightarrow> ('r option \<times> 's) outcome" where
  "osearch f [] s = Ok (None, s)"
| "osearch f (x # xs) s = obind (f x s) (\<lambda>(r, s). case r of Some _ \<Rightarrow> Ok (r, s) | None \<Rightarrow> osearch f xs s)"

text \<open>The values of \<^verbatim>\<open>for(i = 0; i < n; i += d)\<close>.\<close>

definition steps :: "nat \<Rightarrow> nat \<Rightarrow> nat list" where
  "steps d n = map ((*) d) [0..<(n + d - 1) div d]"

section \<open>On-disk format\<close>

abbreviation (input) ROOTDEV :: u32 where "ROOTDEV \<equiv> 1"
abbreviation (input) ROOTINO :: u32 where "ROOTINO \<equiv> 1"
abbreviation (input) FSMAGIC :: u32 where "FSMAGIC \<equiv> 0x10203040"
abbreviation (input) NINODE :: nat where "NINODE \<equiv> 50"
abbreviation (input) NDIRECT :: nat where "NDIRECT \<equiv> 12"
abbreviation (input) NINDIRECT :: nat where "NINDIRECT \<equiv> 256"
abbreviation (input) MAXFILE :: nat where "MAXFILE \<equiv> 268"
abbreviation (input) BPB :: nat where "BPB \<equiv> 8192"
abbreviation (input) IPB :: nat where "IPB \<equiv> 16"
abbreviation (input) DIRSIZ :: nat where "DIRSIZ \<equiv> 14"
abbreviation (input) T_DIR :: u16 where "T_DIR \<equiv> 1"
abbreviation (input) T_FILE :: u16 where "T_FILE \<equiv> 2"
abbreviation (input) T_DEVICE :: u16 where "T_DEVICE \<equiv> 3"

record superblock =
  magic :: u32
  fssize :: u32
  nblocks :: u32
  ninodes :: u32
  nlog :: u32
  logstart :: u32
  inodestart :: u32
  bmapstart :: u32

text \<open>A 32-bit field at a byte offset of a block.\<close>

definition get32 :: "u8 list \<Rightarrow> nat \<Rightarrow> u32" where
  "get32 d off = word_of_nat (get_le 4 d off)"

definition put32 :: "nat \<Rightarrow> u32 \<Rightarrow> u8 list \<Rightarrow> u8 list" where
  "put32 off v d = put_le 4 off (unat v) d"

definition get16 :: "u8 list \<Rightarrow> nat \<Rightarrow> u16" where
  "get16 d off = word_of_nat (get_le 2 d off)"

definition put16 :: "nat \<Rightarrow> u16 \<Rightarrow> u8 list \<Rightarrow> u8 list" where
  "put16 off v d = put_le 2 off (unat v) d"

definition decode_sb :: "u8 list \<Rightarrow> superblock" where
  "decode_sb d = \<lparr>magic = get32 d 0, fssize = get32 d 4, nblocks = get32 d 8, ninodes = get32 d 12,
     nlog = get32 d 16, logstart = get32 d 20, inodestart = get32 d 24, bmapstart = get32 d 28\<rparr>"

text \<open>The on-disk inode: 64 bytes, four shorts, the size and the 13 block addresses.\<close>

record dinode =
  dtype :: u16
  dmajor :: u16
  dminor :: u16
  dnlink :: u16
  dsize :: u32
  daddrs :: "u32 list"

definition get_dinode :: "u8 list \<Rightarrow> nat \<Rightarrow> dinode" where
  "get_dinode d off = \<lparr>dtype = get16 d off, dmajor = get16 d (off + 2), dminor = get16 d (off + 4),
     dnlink = get16 d (off + 6), dsize = get32 d (off + 8),
     daddrs = map (\<lambda>i. get32 d (off + 12 + 4 * i)) [0..<NDIRECT + 1]\<rparr>"

definition put_dinode :: "nat \<Rightarrow> dinode \<Rightarrow> u8 list \<Rightarrow> u8 list" where
  "put_dinode off di d =
     fold (\<lambda>i. put32 (off + 12 + 4 * i) (daddrs di ! i)) [0..<NDIRECT + 1]
       (put32 (off + 8) (dsize di) (put16 (off + 6) (dnlink di) (put16 (off + 4) (dminor di)
       (put16 (off + 2) (dmajor di) (put16 off (dtype di) d)))))"

definition IBLOCK :: "u32 \<Rightarrow> superblock \<Rightarrow> u32" where
  "IBLOCK i sb = i div word_of_nat IPB + inodestart sb"

definition BBLOCK :: "u32 \<Rightarrow> superblock \<Rightarrow> u32" where
  "BBLOCK b sb = b div word_of_nat BPB + bmapstart sb"

section \<open>State\<close>

record inode =
  idev :: u32
  inum :: u32
  iref :: int
  ilck :: sleeplock
  ivalid :: bool
  itype :: u16
  imajor :: u16
  iminor :: u16
  inlink :: u16
  isize :: u32
  iaddrs :: "u32 list"

text \<open>An inode pointer is an index into \<^verbatim>\<open>itable.inode\<close>; \<^verbatim>\<open>itable.lock\<close> makes the table operations atomic.\<close>

record 'd fs =
  sb :: superblock
  ls :: "'d logst"
  itab :: "nat \<Rightarrow> inode"

definition iupd :: "nat \<Rightarrow> (inode \<Rightarrow> inode) \<Rightarrow> 'd fs \<Rightarrow> 'd fs" where
  "iupd ip f st = st\<lparr>itab := (itab st)(ip := f (itab st ip))\<rparr>"

text \<open>The block operations on the file-system state.\<close>

definition fs_bread :: "'d driver \<Rightarrow> i32 \<Rightarrow> u32 \<Rightarrow> u32 \<Rightarrow> 'd fs \<Rightarrow> (nat \<times> 'd fs) outcome" where
  "fs_bread rw me dev bn st = obind (bread rw me dev bn (bc (ls st))) (\<lambda>(b, c). Ok (b, st\<lparr>ls := (ls st)\<lparr>bc := c\<rparr>\<rparr>))"

definition fs_brelse :: "i32 \<Rightarrow> nat \<Rightarrow> 'd fs \<Rightarrow> 'd fs outcome" where
  "fs_brelse me b st = obind (brelse me b (bc (ls st))) (\<lambda>c. Ok (st\<lparr>ls := (ls st)\<lparr>bc := c\<rparr>\<rparr>))"

definition fs_log_write :: "nat \<Rightarrow> 'd fs \<Rightarrow> 'd fs outcome" where
  "fs_log_write b st = obind (log_write b (ls st)) (\<lambda>l. Ok (st\<lparr>ls := l\<rparr>))"

definition bdata :: "nat \<Rightarrow> 'd fs \<Rightarrow> u8 list" where
  "bdata b st = data (bufs (bc (ls st)) b)"

definition bstore :: "nat \<Rightarrow> u8 list \<Rightarrow> 'd fs \<Rightarrow> 'd fs" where
  "bstore b d st = st\<lparr>ls := (ls st)\<lparr>bc := set_data b d (bc (ls st))\<rparr>\<rparr>"

section \<open>Superblock\<close>

definition readsb :: "'d driver \<Rightarrow> i32 \<Rightarrow> u32 \<Rightarrow> 'd fs \<Rightarrow> 'd fs outcome" where
  "readsb rw me dev st = obind (fs_bread rw me dev 1 st) (\<lambda>(bp, st).
     fs_brelse me bp (st\<lparr>sb := decode_sb (bdata bp st)\<rparr>))"

definition fsinit :: "'d driver \<Rightarrow> i32 \<Rightarrow> u32 \<Rightarrow> 'd fs \<Rightarrow> 'd fs outcome" where
  "fsinit rw me dev st = obind (readsb rw me dev st) (\<lambda>st.
     if magic (sb st) \<noteq> FSMAGIC then Panic ''invalid file system''
     else obind (initlog rw me dev (logstart (sb st)) (nlog (sb st)) (ls st)) (\<lambda>l. Ok (st\<lparr>ls := l\<rparr>)))"

section \<open>Blocks\<close>

definition bzero :: "'d driver \<Rightarrow> i32 \<Rightarrow> u32 \<Rightarrow> u32 \<Rightarrow> 'd fs \<Rightarrow> 'd fs outcome" where
  "bzero rw me dev bno st = obind (fs_bread rw me dev bno st) (\<lambda>(bp, st).
     obind (fs_log_write bp (bstore bp (replicate BSIZE 0) st)) (fs_brelse me bp))"

text \<open>Bit \<open>bi\<close> of a bitmap block, with the mask \<^verbatim>\<open>1 << (bi % 8)\<close> on byte \<^verbatim>\<open>bi/8\<close>.\<close>

definition bit_mask :: "nat \<Rightarrow> u8" where
  "bit_mask bi = push_bit (bi mod 8) 1"

definition bit_clear :: "u8 list \<Rightarrow> nat \<Rightarrow> bool" where
  "bit_clear d bi \<longleftrightarrow> d ! (bi div 8) AND bit_mask bi = 0"

definition mark_bit :: "nat \<Rightarrow> u8 list \<Rightarrow> u8 list" where
  "mark_bit bi d = d[bi div 8 := d ! (bi div 8) OR bit_mask bi]"

definition clear_bit :: "nat \<Rightarrow> u8 list \<Rightarrow> u8 list" where
  "clear_bit bi d = d[bi div 8 := d ! (bi div 8) AND NOT (bit_mask bi)]"

definition balloc_block :: "'d driver \<Rightarrow> i32 \<Rightarrow> u32 \<Rightarrow> nat \<Rightarrow> 'd fs \<Rightarrow> (u32 option \<times> 'd fs) outcome" where
  "balloc_block rw me dev b st = obind (fs_bread rw me dev (BBLOCK (word_of_nat b) (sb st)) st) (\<lambda>(bp, st).
     case List.find (bit_clear (bdata bp st)) [0..<min BPB (unat (fssize (sb st)) - b)] of
       Some bi \<Rightarrow>
         obind (fs_log_write bp (bstore bp (mark_bit bi (bdata bp st)) st)) (\<lambda>st.
         obind (fs_brelse me bp st) (\<lambda>st.
         obind (bzero rw me dev (word_of_nat (b + bi)) st) (\<lambda>st. Ok (Some (word_of_nat (b + bi)), st))))
     | None \<Rightarrow> obind (fs_brelse me bp st) (\<lambda>st. Ok (None, st)))"

definition balloc :: "'d driver \<Rightarrow> i32 \<Rightarrow> u32 \<Rightarrow> 'd fs \<Rightarrow> (u32 \<times> 'd fs) outcome" where
  "balloc rw me dev st = obind (osearch (balloc_block rw me dev) (steps BPB (unat (fssize (sb st)))) st) (\<lambda>(r, st).
     case r of Some a \<Rightarrow> Ok (a, st) | None \<Rightarrow> Ok (0, st))"

definition bfree :: "'d driver \<Rightarrow> i32 \<Rightarrow> u32 \<Rightarrow> u32 \<Rightarrow> 'd fs \<Rightarrow> 'd fs outcome" where
  "bfree rw me dev b st = obind (fs_bread rw me dev (BBLOCK b (sb st)) st) (\<lambda>(bp, st).
     let bi = unat b mod BPB in
     if bit_clear (bdata bp st) bi then Panic ''freeing free block''
     else obind (fs_log_write bp (bstore bp (clear_bit bi (bdata bp st)) st)) (fs_brelse me bp))"

section \<open>The inode table\<close>

definition iinit :: "'d fs \<Rightarrow> 'd fs" where
  "iinit st = fold (\<lambda>i. iupd i (ilck_update (\<lambda>_. initsleeplock))) [0..<NINODE] st"

definition iget :: "u32 \<Rightarrow> u32 \<Rightarrow> 'd fs \<Rightarrow> (nat \<times> 'd fs) outcome" where
  "iget dev i st =
    (case List.find (\<lambda>ip. 0 < iref (itab st ip) \<and> idev (itab st ip) = dev \<and> inum (itab st ip) = i) [0..<NINODE] of
       Some ip \<Rightarrow> Ok (ip, iupd ip (\<lambda>x. x\<lparr>iref := iref x + 1\<rparr>) st)
     | None \<Rightarrow> (case List.find (\<lambda>ip. iref (itab st ip) = 0) [0..<NINODE] of
         None \<Rightarrow> Panic ''iget: no inodes''
       | Some ip \<Rightarrow> Ok (ip, iupd ip (\<lambda>x. x\<lparr>idev := dev, inum := i, iref := 1, ivalid := False\<rparr>) st)))"

definition idup :: "nat \<Rightarrow> 'd fs \<Rightarrow> nat \<times> 'd fs" where
  "idup ip st = (ip, iupd ip (\<lambda>x. x\<lparr>iref := iref x + 1\<rparr>) st)"

definition ialloc_try :: "'d driver \<Rightarrow> i32 \<Rightarrow> u32 \<Rightarrow> u16 \<Rightarrow> nat \<Rightarrow> 'd fs \<Rightarrow> (nat option \<times> 'd fs) outcome" where
  "ialloc_try rw me dev ty i st = obind (fs_bread rw me dev (IBLOCK (word_of_nat i) (sb st)) st) (\<lambda>(bp, st).
     let off = 64 * (i mod IPB) in
     if dtype (get_dinode (bdata bp st) off) = 0 then
       obind (fs_log_write bp (bstore bp
         (put16 off ty (take off (bdata bp st) @ replicate 64 0 @ drop (off + 64) (bdata bp st))) st)) (\<lambda>st.
       obind (fs_brelse me bp st) (\<lambda>st.
       obind (iget dev (word_of_nat i) st) (\<lambda>(ip, st). Ok (Some ip, st))))
     else obind (fs_brelse me bp st) (\<lambda>st. Ok (None, st)))"

definition ialloc :: "'d driver \<Rightarrow> i32 \<Rightarrow> u32 \<Rightarrow> u16 \<Rightarrow> 'd fs \<Rightarrow> (nat option \<times> 'd fs) outcome" where
  "ialloc rw me dev ty st = osearch (ialloc_try rw me dev ty) [1..<unat (ninodes (sb st))] st"

definition inode_to_disk :: "inode \<Rightarrow> dinode" where
  "inode_to_disk x = \<lparr>dtype = itype x, dmajor = imajor x, dminor = iminor x, dnlink = inlink x, dsize = isize x, daddrs = iaddrs x\<rparr>"

definition iupdate :: "'d driver \<Rightarrow> i32 \<Rightarrow> nat \<Rightarrow> 'd fs \<Rightarrow> 'd fs outcome" where
  "iupdate rw me ip st = obind (fs_bread rw me (idev (itab st ip)) (IBLOCK (inum (itab st ip)) (sb st)) st) (\<lambda>(bp, st).
     obind (fs_log_write bp (bstore bp
       (put_dinode (64 * (unat (inum (itab st ip)) mod IPB)) (inode_to_disk (itab st ip)) (bdata bp st)) st))
     (fs_brelse me bp))"

definition ilock :: "'d driver \<Rightarrow> i32 \<Rightarrow> nat \<Rightarrow> 'd fs \<Rightarrow> 'd fs outcome" where
  "ilock rw me ip st = (if iref (itab st ip) < 1 then Panic ''ilock''
     else obind (acquiresleep me (ilck (itab st ip))) (\<lambda>l.
     let st = iupd ip (ilck_update (\<lambda>_. l)) st in
     if \<not> ivalid (itab st ip) then
       obind (fs_bread rw me (idev (itab st ip)) (IBLOCK (inum (itab st ip)) (sb st)) st) (\<lambda>(bp, st).
       let di = get_dinode (bdata bp st) (64 * (unat (inum (itab st ip)) mod IPB));
           st = iupd ip (\<lambda>x. x\<lparr>itype := dtype di, imajor := dmajor di, iminor := dminor di, inlink := dnlink di,
             isize := dsize di, iaddrs := daddrs di\<rparr>) st
       in obind (fs_brelse me bp st) (\<lambda>st.
       let st = iupd ip (ivalid_update (\<lambda>_. True)) st in
       if itype (itab st ip) = 0 then Panic ''ilock: no type'' else Ok st))
     else Ok st))"

definition iunlock :: "i32 \<Rightarrow> nat \<Rightarrow> 'd fs \<Rightarrow> 'd fs outcome" where
  "iunlock me ip st = (if \<not> holdingsleep me (ilck (itab st ip)) \<or> iref (itab st ip) < 1 then Panic ''iunlock''
     else Ok (iupd ip (ilck_update releasesleep) st))"

section \<open>Inode contents\<close>

text \<open>\<open>ip->addrs[i]\<close>, allocating a block when the slot is empty.\<close>

definition bmap_slot :: "'d driver \<Rightarrow> i32 \<Rightarrow> nat \<Rightarrow> nat \<Rightarrow> 'd fs \<Rightarrow> (u32 \<times> 'd fs) outcome" where
  "bmap_slot rw me ip i st = (if iaddrs (itab st ip) ! i = 0 then
     obind (balloc rw me (idev (itab st ip)) st) (\<lambda>(addr, st).
       if addr = 0 then Ok (0, st)
       else Ok (addr, iupd ip (\<lambda>x. x\<lparr>iaddrs := (iaddrs x)[i := addr]\<rparr>) st))
     else Ok (iaddrs (itab st ip) ! i, st))"

text \<open>Entry \<open>i\<close> of the indirect block in buffer \<open>bp\<close>, allocating a block when the entry is empty.\<close>

definition bmap_entry :: "'d driver \<Rightarrow> i32 \<Rightarrow> nat \<Rightarrow> nat \<Rightarrow> nat \<Rightarrow> 'd fs \<Rightarrow> (u32 \<times> 'd fs) outcome" where
  "bmap_entry rw me ip bp i st = (if get32 (bdata bp st) (4 * i) = 0 then
     obind (balloc rw me (idev (itab st ip)) st) (\<lambda>(addr, st).
       if addr \<noteq> 0 then obind (fs_log_write bp (bstore bp (put32 (4 * i) addr (bdata bp st)) st)) (\<lambda>st. Ok (addr, st))
       else Ok (addr, st))
     else Ok (get32 (bdata bp st) (4 * i), st))"

definition bmap :: "'d driver \<Rightarrow> i32 \<Rightarrow> nat \<Rightarrow> nat \<Rightarrow> 'd fs \<Rightarrow> (u32 \<times> 'd fs) outcome" where
  "bmap rw me ip bn st = (if bn < NDIRECT then bmap_slot rw me ip bn st
     else let bn = bn - NDIRECT in
       if bn < NINDIRECT then
         obind (bmap_slot rw me ip NDIRECT st) (\<lambda>(addr, st).
           if addr = 0 then Ok (0, st)
           else obind (fs_bread rw me (idev (itab st ip)) addr st) (\<lambda>(bp, st).
             obind (bmap_entry rw me ip bp bn st) (\<lambda>(addr, st).
             obind (fs_brelse me bp st) (\<lambda>st. Ok (addr, st)))))
       else Panic ''bmap: out of range'')"

definition itrunc_direct :: "'d driver \<Rightarrow> i32 \<Rightarrow> nat \<Rightarrow> nat \<Rightarrow> 'd fs \<Rightarrow> 'd fs outcome" where
  "itrunc_direct rw me ip i st = (if iaddrs (itab st ip) ! i \<noteq> 0 then
     obind (bfree rw me (idev (itab st ip)) (iaddrs (itab st ip) ! i) st) (\<lambda>st.
       Ok (iupd ip (\<lambda>x. x\<lparr>iaddrs := (iaddrs x)[i := 0]\<rparr>) st))
     else Ok st)"

definition itrunc_entry :: "'d driver \<Rightarrow> i32 \<Rightarrow> nat \<Rightarrow> nat \<Rightarrow> nat \<Rightarrow> 'd fs \<Rightarrow> 'd fs outcome" where
  "itrunc_entry rw me ip bp j st = (if get32 (bdata bp st) (4 * j) \<noteq> 0
     then bfree rw me (idev (itab st ip)) (get32 (bdata bp st) (4 * j)) st else Ok st)"

definition itrunc :: "'d driver \<Rightarrow> i32 \<Rightarrow> nat \<Rightarrow> 'd fs \<Rightarrow> 'd fs outcome" where
  "itrunc rw me ip st = obind (ofold (itrunc_direct rw me ip) [0..<NDIRECT] st) (\<lambda>st.
     obind (if iaddrs (itab st ip) ! NDIRECT \<noteq> 0 then
         obind (fs_bread rw me (idev (itab st ip)) (iaddrs (itab st ip) ! NDIRECT) st) (\<lambda>(bp, st).
         obind (ofold (itrunc_entry rw me ip bp) [0..<NINDIRECT] st) (\<lambda>st.
         obind (fs_brelse me bp st) (\<lambda>st.
         obind (bfree rw me (idev (itab st ip)) (iaddrs (itab st ip) ! NDIRECT) st) (\<lambda>st.
         Ok (iupd ip (\<lambda>x. x\<lparr>iaddrs := (iaddrs x)[NDIRECT := 0]\<rparr>) st)))))
       else Ok st) (\<lambda>st.
     iupdate rw me ip (iupd ip (isize_update (\<lambda>_. 0)) st)))"

definition iput :: "'d driver \<Rightarrow> i32 \<Rightarrow> nat \<Rightarrow> 'd fs \<Rightarrow> 'd fs outcome" where
  "iput rw me ip st = obind
     (if iref (itab st ip) = 1 \<and> ivalid (itab st ip) \<and> inlink (itab st ip) = 0 then
        obind (acquiresleep me (ilck (itab st ip))) (\<lambda>l.
        obind (itrunc rw me ip (iupd ip (ilck_update (\<lambda>_. l)) st)) (\<lambda>st.
        obind (iupdate rw me ip (iupd ip (itype_update (\<lambda>_. 0)) st)) (\<lambda>st.
        Ok (iupd ip (ilck_update releasesleep) (iupd ip (ivalid_update (\<lambda>_. False)) st)))))
      else Ok st)
     (\<lambda>st. Ok (iupd ip (\<lambda>x. x\<lparr>iref := iref x - 1\<rparr>) st))"

definition iunlockput :: "'d driver \<Rightarrow> i32 \<Rightarrow> nat \<Rightarrow> 'd fs \<Rightarrow> 'd fs outcome" where
  "iunlockput rw me ip st = obind (iunlock me ip st) (iput rw me ip)"

record stat =
  st_dev :: u32
  st_ino :: u32
  st_type :: u16
  st_nlink :: u16
  st_size :: u64

definition stati :: "nat \<Rightarrow> 'd fs \<Rightarrow> stat" where
  "stati ip st = \<lparr>st_dev = idev (itab st ip), st_ino = inum (itab st ip), st_type = itype (itab st ip),
     st_nlink = inlink (itab st ip), st_size = ucast (isize (itab st ip))\<rparr>"

text \<open>
  \<^verbatim>\<open>either_copyout\<close> and \<^verbatim>\<open>either_copyin\<close> (\<^verbatim>\<open>kernel/proc.c\<close>). With the flag, the memory is the user's
  and an inaccessible address is an error, after which the bytes before it have been copied. Without
  it, the memory is the kernel's and \<^verbatim>\<open>memmove\<close> stores or reads every byte.
\<close>

definition either_copyout :: "bool \<Rightarrow> u64 \<Rightarrow> u8 list \<Rightarrow> umem \<Rightarrow> bool \<times> umem" where
  "either_copyout user dst bs um = (if user then ucopyout dst bs um
     else (True, \<lambda>a. if unat (a - dst) < length bs then Some (bs ! unat (a - dst)) else um a))"

primrec uprefix :: "u64 \<Rightarrow> nat \<Rightarrow> umem \<Rightarrow> u8 list" where
  "uprefix va 0 um = []"
| "uprefix va (Suc n) um = (case um va of None \<Rightarrow> [] | Some b \<Rightarrow> b # uprefix (va + 1) n um)"

definition kbytes_of :: "u64 \<Rightarrow> nat \<Rightarrow> umem \<Rightarrow> u8 list" where
  "kbytes_of a n um = map (\<lambda>i. case um (a + word_of_nat i) of Some b \<Rightarrow> b | None \<Rightarrow> 0) [0..<n]"

definition either_copyin :: "bool \<Rightarrow> u64 \<Rightarrow> nat \<Rightarrow> umem \<Rightarrow> bool \<times> u8 list" where
  "either_copyin user src n um = (if user then (length (uprefix src n um) = n, uprefix src n um)
     else (True, kbytes_of src n um))"

text \<open>Bytes overwritten at an offset of a block.\<close>

definition patch :: "nat \<Rightarrow> u8 list \<Rightarrow> u8 list \<Rightarrow> u8 list" where
  "patch off bs d = take off d @ bs @ drop (off + length bs) d"

text \<open>
  The loops of \<^verbatim>\<open>readi\<close> and \<^verbatim>\<open>writei\<close>. The test \<^verbatim>\<open>off + n < off\<close> before them excludes wrap-around, so
  offsets are natural numbers inside.
\<close>

function readi_loop ::
  "'d driver \<Rightarrow> i32 \<Rightarrow> nat \<Rightarrow> bool \<Rightarrow> nat \<Rightarrow> nat \<Rightarrow> nat \<Rightarrow> u64 \<Rightarrow> umem \<Rightarrow> 'd fs \<Rightarrow> (int \<times> umem \<times> 'd fs) outcome" where
  "readi_loop rw me ip user n tot off dst um st = (if tot < n then
     obind (bmap rw me ip (off div BSIZE) st) (\<lambda>(addr, st).
     if addr = 0 then Ok (int tot, um, st)
     else obind (fs_bread rw me (idev (itab st ip)) addr st) (\<lambda>(bp, st).
       let m = min (n - tot) (BSIZE - off mod BSIZE);
           r = either_copyout user dst (take m (drop (off mod BSIZE) (bdata bp st))) um
       in if \<not> fst r then obind (fs_brelse me bp st) (\<lambda>st. Ok (-1, snd r, st))
          else obind (fs_brelse me bp st) (\<lambda>st.
            readi_loop rw me ip user n (tot + m) (off + m) (dst + word_of_nat m) (snd r) st)))
     else Ok (int tot, um, st))"
  by pat_completeness auto
termination by (relation "measure (\<lambda>(rw, me, ip, user, n, tot, off, dst, um, st). n - tot)") auto

definition readi ::
  "'d driver \<Rightarrow> i32 \<Rightarrow> nat \<Rightarrow> bool \<Rightarrow> u64 \<Rightarrow> u32 \<Rightarrow> u32 \<Rightarrow> umem \<Rightarrow> 'd fs \<Rightarrow> (int \<times> umem \<times> 'd fs) outcome" where
  "readi rw me ip user dst off n um st = (let size = isize (itab st ip) in
     if size < off \<or> off + n < off then Ok (0, um, st)
     else let n = (if size < off + n then size - off else n) in
       readi_loop rw me ip user (unat n) 0 (unat off) dst um st)"

function writei_loop ::
  "'d driver \<Rightarrow> i32 \<Rightarrow> nat \<Rightarrow> bool \<Rightarrow> umem \<Rightarrow> nat \<Rightarrow> nat \<Rightarrow> nat \<Rightarrow> u64 \<Rightarrow> 'd fs \<Rightarrow> (nat \<times> nat \<times> 'd fs) outcome" where
  "writei_loop rw me ip user um n tot off src st = (if tot < n then
     obind (bmap rw me ip (off div BSIZE) st) (\<lambda>(addr, st).
     if addr = 0 then Ok (tot, off, st)
     else obind (fs_bread rw me (idev (itab st ip)) addr st) (\<lambda>(bp, st).
       let m = min (n - tot) (BSIZE - off mod BSIZE);
           r = either_copyin user src m um;
           st = bstore bp (patch (off mod BSIZE) (snd r) (bdata bp st)) st
       in if \<not> fst r then obind (fs_brelse me bp st) (\<lambda>st. Ok (tot, off, st))
          else obind (fs_log_write bp st) (\<lambda>st.
            obind (fs_brelse me bp st) (\<lambda>st.
            writei_loop rw me ip user um n (tot + m) (off + m) (src + word_of_nat m) st))))
     else Ok (tot, off, st))"
  by pat_completeness auto
termination by (relation "measure (\<lambda>(rw, me, ip, user, um, n, tot, off, src, st). n - tot)") auto

declare readi_loop.simps [simp del] writei_loop.simps [simp del]

definition writei ::
  "'d driver \<Rightarrow> i32 \<Rightarrow> nat \<Rightarrow> bool \<Rightarrow> u64 \<Rightarrow> u32 \<Rightarrow> u32 \<Rightarrow> umem \<Rightarrow> 'd fs \<Rightarrow> (int \<times> 'd fs) outcome" where
  "writei rw me ip user src off n um st =
    (if isize (itab st ip) < off \<or> off + n < off then Ok (-1, st)
     else if word_of_nat (MAXFILE * BSIZE) < off + n then Ok (-1, st)
     else obind (writei_loop rw me ip user um (unat n) 0 (unat off) src st) (\<lambda>(tot, off, st).
       let st = (if unat (isize (itab st ip)) < off then iupd ip (isize_update (\<lambda>_. word_of_nat off)) st else st) in
       obind (iupdate rw me ip st) (\<lambda>st. Ok (int tot, st))))"

section \<open>Directories\<close>

text \<open>Two byte arrays placed in memory, for the routines of \<^verbatim>\<open>kernel/string.c\<close>.\<close>

definition two_arrays :: "u8 list \<Rightarrow> u8 list \<Rightarrow> memory" where
  "two_arrays s t = write_bytes (write_bytes (\<lambda>_. 0) 4096 t) 0 s"

definition namecmp :: "u8 list \<Rightarrow> u8 list \<Rightarrow> int" where
  "namecmp s t = strncmp (two_arrays s t) 0 4096 (word_of_nat DIRSIZ)"

definition dirent_name :: "u8 list \<Rightarrow> u8 list" where
  "dirent_name name = read_bytes (strncpy (two_arrays (replicate DIRSIZ 0) name) 0 4096 (word_of_nat DIRSIZ)) 0 DIRSIZ"

definition read_dirent :: "'d driver \<Rightarrow> i32 \<Rightarrow> nat \<Rightarrow> string \<Rightarrow> nat \<Rightarrow> 'd fs \<Rightarrow> (u8 list \<times> 'd fs) outcome" where
  "read_dirent rw me dp msg off st = obind (readi rw me dp False 0 (word_of_nat off) 16 Map.empty st) (\<lambda>(r, um, st).
     if r \<noteq> 16 then Panic msg else Ok (kbytes_of 0 16 um, st))"

definition dirlookup_at :: "'d driver \<Rightarrow> i32 \<Rightarrow> nat \<Rightarrow> u8 list \<Rightarrow> nat \<Rightarrow> 'd fs \<Rightarrow> ((nat \<times> nat) option \<times> 'd fs) outcome" where
  "dirlookup_at rw me dp name off st = obind (read_dirent rw me dp ''dirlookup read'' off st) (\<lambda>(de, st).
     if get16 de 0 = 0 then Ok (None, st)
     else if namecmp name (drop 2 de) = 0
     then obind (iget (idev (itab st dp)) (ucast (get16 de 0)) st) (\<lambda>(ip, st). Ok (Some (ip, off), st))
     else Ok (None, st))"

definition dirlookup :: "'d driver \<Rightarrow> i32 \<Rightarrow> nat \<Rightarrow> u8 list \<Rightarrow> 'd fs \<Rightarrow> ((nat \<times> nat) option \<times> 'd fs) outcome" where
  "dirlookup rw me dp name st = (if itype (itab st dp) \<noteq> T_DIR then Panic ''dirlookup not DIR''
     else osearch (dirlookup_at rw me dp name) (steps 16 (unat (isize (itab st dp)))) st)"

definition dirlink_at :: "'d driver \<Rightarrow> i32 \<Rightarrow> nat \<Rightarrow> nat \<Rightarrow> 'd fs \<Rightarrow> (nat option \<times> 'd fs) outcome" where
  "dirlink_at rw me dp off st = obind (read_dirent rw me dp ''dirlink read'' off st) (\<lambda>(de, st).
     Ok (if get16 de 0 = 0 then Some off else None, st))"

definition array_mem :: "u8 list \<Rightarrow> umem" where
  "array_mem bs = (\<lambda>a. if unat a < length bs then Some (bs ! unat a) else None)"

definition dirlink :: "'d driver \<Rightarrow> i32 \<Rightarrow> nat \<Rightarrow> u8 list \<Rightarrow> u32 \<Rightarrow> 'd fs \<Rightarrow> (int \<times> 'd fs) outcome" where
  "dirlink rw me dp name i st = obind (dirlookup rw me dp name st) (\<lambda>(r, st). case r of
     Some (ip, _) \<Rightarrow> obind (iput rw me ip st) (\<lambda>st. Ok (-1, st))
   | None \<Rightarrow> let size = unat (isize (itab st dp)) in
       obind (osearch (dirlink_at rw me dp) (steps 16 size) st) (\<lambda>(r, st).
       let off = (case r of Some off \<Rightarrow> off | None \<Rightarrow> 16 * ((size + 15) div 16));
           de = le_encode 2 (unat i) @ dirent_name name
       in obind (writei rw me dp False 0 (word_of_nat off) 16 (array_mem de) st) (\<lambda>(r, st).
          Ok (if r \<noteq> 16 then -1 else 0, st))))"

section \<open>Paths\<close>

text \<open>A path is the list of the bytes before its NUL; 47 is the slash. The array \<open>name\<close> keeps its other bytes.\<close>

definition skipelem :: "u8 list \<Rightarrow> u8 list \<Rightarrow> (u8 list \<times> u8 list) option" where
  "skipelem path name = (let path = dropWhile (\<lambda>c. c = 47) path in
     if path = [] then None
     else let s = takeWhile (\<lambda>c. c \<noteq> 47) path;
              len = length s;
              name = (if DIRSIZ \<le> len then patch 0 (take DIRSIZ s) name else patch len [0] (patch 0 s name));
              path = dropWhile (\<lambda>c. c = 47) (dropWhile (\<lambda>c. c \<noteq> 47) path)
          in Some (path, name))"

lemma skipelem_shorter: "skipelem path name = Some (path', name') \<Longrightarrow> length path' < length path"
proof -
  assume a: "skipelem path name = Some (path', name')"
  let ?p = "dropWhile (\<lambda>c. c = 47) path"
  from a have p: "?p \<noteq> []" "path' = dropWhile (\<lambda>c. c = 47) (dropWhile (\<lambda>c. c \<noteq> 47) ?p)"
    by (auto simp: skipelem_def Let_def split: if_splits)
  then have "hd ?p \<noteq> 47" using hd_dropWhile by blast
  then have "length (dropWhile (\<lambda>c. c \<noteq> 47) ?p) < length ?p"
    using p(1) by (cases ?p) (auto simp: le_imp_less_Suc length_dropWhile_le)
  moreover have "length path' \<le> length (dropWhile (\<lambda>c. c \<noteq> 47) ?p)" unfolding p(2) by (rule length_dropWhile_le)
  moreover have "length ?p \<le> length path" by (rule length_dropWhile_le)
  ultimately show ?thesis by linarith
qed

function namex_loop ::
  "'d driver \<Rightarrow> i32 \<Rightarrow> nat \<Rightarrow> u8 list \<Rightarrow> bool \<Rightarrow> u8 list \<Rightarrow> 'd fs \<Rightarrow> (nat option \<times> u8 list \<times> 'd fs) outcome" where
  "namex_loop rw me ip path parent name st = (case skipelem path name of
     None \<Rightarrow> if parent then obind (iput rw me ip st) (\<lambda>st. Ok (None, name, st)) else Ok (Some ip, name, st)
   | Some (path, name) \<Rightarrow> obind (ilock rw me ip st) (\<lambda>st.
       if itype (itab st ip) \<noteq> T_DIR then obind (iunlockput rw me ip st) (\<lambda>st. Ok (None, name, st))
       else if parent \<and> path = [] then obind (iunlock me ip st) (\<lambda>st. Ok (Some ip, name, st))
       else obind (dirlookup rw me ip name st) (\<lambda>(r, st). case r of
         None \<Rightarrow> obind (iunlockput rw me ip st) (\<lambda>st. Ok (None, name, st))
       | Some (child, _) \<Rightarrow> obind (iunlockput rw me ip st) (\<lambda>st. namex_loop rw me child path parent name st))))"
  by pat_completeness auto
termination
  by (relation "measure (\<lambda>(rw, me, ip, path, parent, name, st). length path)") (auto simp: skipelem_shorter)

declare namex_loop.simps [simp del]

definition namex ::
  "'d driver \<Rightarrow> i32 \<Rightarrow> nat \<Rightarrow> u8 list \<Rightarrow> bool \<Rightarrow> u8 list \<Rightarrow> 'd fs \<Rightarrow> (nat option \<times> u8 list \<times> 'd fs) outcome" where
  "namex rw me cwd path parent name st =
     obind (if path \<noteq> [] \<and> hd path = 47 then iget ROOTDEV ROOTINO st else Ok (idup cwd st)) (\<lambda>(ip, st).
       namex_loop rw me ip path parent name st)"

definition namei :: "'d driver \<Rightarrow> i32 \<Rightarrow> nat \<Rightarrow> u8 list \<Rightarrow> 'd fs \<Rightarrow> (nat option \<times> 'd fs) outcome" where
  "namei rw me cwd path st =
     obind (namex rw me cwd path False (replicate DIRSIZ 0) st) (\<lambda>(ip, _, st). Ok (ip, st))"

definition nameiparent ::
  "'d driver \<Rightarrow> i32 \<Rightarrow> nat \<Rightarrow> u8 list \<Rightarrow> u8 list \<Rightarrow> 'd fs \<Rightarrow> (nat option \<times> u8 list \<times> 'd fs) outcome" where
  "nameiparent rw me cwd path name st = namex rw me cwd path True name st"

end
