(* ===== verification/Xv6_Fs_Blocks.thy ===== *)
theory Xv6_Fs_Blocks
  imports Xv6_Fs
begin

text \<open>
  The contract the buffer cache and the log give the file system inside a transaction: reading a block
  gives its current contents, logging it changes exactly that block, and releasing a buffer changes
  nothing. The block allocator is proved against it.
\<close>

section \<open>Inside a transaction\<close>

definition logged :: "log \<Rightarrow> u32 set" where
  "logged l = set (take (nlogged l) (hblock (lh l)))"

text \<open>
  The calling process \<open>me\<close> holds the buffers of the blocks \<open>H\<close>, and the blocks \<open>P\<close> are pinned by the log;
  every other block is unused and as on the disk.
\<close>

definition reading ::
  "('d \<Rightarrow> u32 \<Rightarrow> u8 list) \<Rightarrow> ('d \<Rightarrow> (u32 \<times> u8 list) list) \<Rightarrow> ('d \<Rightarrow> bool) \<Rightarrow> u32 \<Rightarrow> i32 \<Rightarrow> u32 set \<Rightarrow> u32 set \<Rightarrow> 'd bcache \<Rightarrow> bool" where
  "reading content trace dok D me P H c \<longleftrightarrow>
     cache_inv content trace dok D c \<and> finite P \<and> card P \<le> 26 \<and> finite H \<and> card H \<le> 3 \<and>
     (\<forall>bn. arefs (cache_abs content trace D c) bn = (if bn \<in> P then 1 else 0) + (if bn \<in> H then 1 else 0)) \<and>
     (\<forall>bn. aheld (cache_abs content trace D c) bn = (if bn \<in> H then Some me else None)) \<and>
     (\<forall>bn. bn \<notin> P \<longrightarrow> aview (cache_abs content trace D c) bn = adisk (cache_abs content trace D c) bn)"

text \<open>
  A transaction is open and may log the blocks \<open>A\<close>, at most \<open>cap\<close> of them; the log starts at block \<open>S\<close>.
\<close>

definition log_open :: "u32 \<Rightarrow> u32 \<Rightarrow> u32 \<Rightarrow> nat \<Rightarrow> u32 set \<Rightarrow> log \<Rightarrow> bool" where
  "log_open nblk D S cap A l \<longleftrightarrow> log_fits nblk l \<and> ldev l = D \<and> 1 \<le> outstanding l \<and>
     distinct (take (nlogged l) (hblock (lh l))) \<and> logged l \<subseteq> A \<and> finite A \<and> card A \<le> cap \<and> cap \<le> 26 \<and>
     int cap + 1 < lsize l \<and> lstart l = S \<and> (\<forall>bn\<in>A. bn < nblk \<and> bn \<notin> log_area S)"

definition in_op ::
  "('d \<Rightarrow> u32 \<Rightarrow> u8 list) \<Rightarrow> ('d \<Rightarrow> (u32 \<times> u8 list) list) \<Rightarrow> ('d \<Rightarrow> bool) \<Rightarrow> u32 \<Rightarrow> u32 \<Rightarrow> i32 \<Rightarrow> u32 \<Rightarrow> nat \<Rightarrow>
   u32 set \<Rightarrow> u32 set \<Rightarrow> 'd logst \<Rightarrow> bool" where
  "in_op content trace dok nblk D me S cap A H l \<longleftrightarrow>
     reading content trace dok D me (logged (lg l)) H (bc l) \<and> log_open nblk D S cap A (lg l)"

lemma readingD:
  assumes "reading content trace dok D me P H c"
  shows "cache_inv content trace dok D c" "finite P" "card P \<le> 26" "finite H" "card H \<le> 3"
    "\<And>bn. arefs (cache_abs content trace D c) bn = (if bn \<in> P then 1 else 0) + (if bn \<in> H then 1 else 0)"
    "\<And>bn. aheld (cache_abs content trace D c) bn = (if bn \<in> H then Some me else None)"
    "\<And>bn. bn \<notin> P \<Longrightarrow> aview (cache_abs content trace D c) bn = adisk (cache_abs content trace D c) bn"
  using assms unfolding reading_def by blast+

lemma nlogged_card:
  assumes "log_fits nblk l" and "distinct (take (nlogged l) (hblock (lh l)))"
  shows "card (logged l) = nlogged l"
  using assms distinct_card [OF assms(2)] log_fitsD(1,2) [OF assms(1)] by (simp add: logged_def)

text \<open>The effect of \<^verbatim>\<open>log_write\<close> on the log: the block is logged, its buffer pinned if it was not.\<close>

lemma log_write_cases:
  assumes "log_fits nblk (lg l)" and "distinct (take (nlogged (lg l)) (hblock (lh (lg l))))"
    and "logged (lg l) \<subseteq> A" and "finite A" and "card A \<le> 26" and "int (card A) + 1 < lsize (lg l)"
    and "1 \<le> outstanding (lg l)" and "blockno (bufs (bc l) b) = bn" and "bn \<in> A" and "bn < nblk" and "bn \<notin> log_area (lstart (lg l))"
  shows "\<exists>l'. log_write b l = Ok l' \<and> bc l' = (if bn \<in> logged (lg l) then bc l else bpin b (bc l)) \<and>
    log_fits nblk (lg l') \<and> ldev (lg l') = ldev (lg l) \<and> outstanding (lg l') = outstanding (lg l) \<and>
    lsize (lg l') = lsize (lg l) \<and> lstart (lg l') = lstart (lg l) \<and> committing (lg l') = committing (lg l) \<and>
    distinct (take (nlogged (lg l')) (hblock (lh (lg l')))) \<and> logged (lg l') = insert bn (logged (lg l))"
proof -
  let ?l = "lg l" and ?n = "nlogged (lg l)"
  let ?h = "hblock (lh ?l)"
  let ?i = "absorb_index ?h 0 ?n bn"
  note F = log_fitsD [OF assms(1)]
  have card: "?n \<le> card A" using nlogged_card [OF assms(1,2)] card_mono [OF assms(4,3)] by simp
  have hn: "hn (lh ?l) < int LOGDATA" "hn (lh ?l) < lsize ?l - 1" using card assms(5,6) F(3) by linarith+
  note sp = absorb_index_spec [of 0 ?h ?n bn, simplified]
  have lg: "logged ?l = (!) ?h ` {..<?n}"
    using F(1,2) by (simp add: logged_def nth_image [symmetric] lessThan_atLeast0)
  show ?thesis
  proof (cases "bn \<in> logged ?l")
    case True
    then obtain j where j: "j < ?n" "?h ! j = bn" unfolding lg by auto
    have i: "?i < ?n"
    proof (rule ccontr)
      assume "\<not> ?i < ?n"
      then have "j < ?i" using j(1) by simp
      then show False using sp j(2) by blast
    qed
    then have "?h ! ?i = bn" using sp by blast
    then have same: "?h[?i := bn] = ?h" using list_update_id [of ?h ?i] by simp
    have "int ?i \<noteq> hn (lh ?l)" using i F(3) by linarith
    then have "log_write b l = Ok (l\<lparr>lg := ?l\<lparr>lh := lh ?l\<rparr>\<rparr>)"
      using assms(7,8) hn by (simp add: log_write_def Let_def same)
    then show ?thesis using assms True by (simp add: insert_absorb)
  next
    case False
    then have "\<not> ?i < ?n" using sp unfolding lg by (metis imageI lessThan_iff)
    then have i: "?i = ?n" using sp by linarith
    let ?t = "l\<lparr>bc := bpin b (bc l), lg := ?l\<lparr>lh := \<lparr>hn = hn (lh ?l) + 1, hblock = ?h[?n := bn]\<rparr>\<rparr>\<rparr>"
    have "log_write b l = Ok ?t" using assms(7,8) hn F(3) by (simp add: log_write_def Let_def i)
    moreover have n': "nlogged (lg ?t) = Suc ?n" using assms(1) by (simp add: log_fits_def nat_add_distrib)
    moreover have len: "?n < length ?h" using card assms(5) F(2) by simp
    moreover have tk: "take (Suc ?n) (?h[?n := bn]) = take ?n ?h @ [bn]"
      using len by (simp add: take_Suc_conv_app_nth)
    moreover have "log_fits nblk (lg ?t)" unfolding log_fits_def n'
      using assms(1,10,11) len hn by (auto simp: log_fits_def nth_list_update less_Suc_eq)
    ultimately show ?thesis using assms False
      by (intro exI [of _ ?t]) (simp add: logged_def n' tk)
  qed
qed


lemma log_open_write:
  assumes "log_open nblk D S cap A (lg l)" and "blockno (bufs (bc l) b) = bn" and "bn \<in> A"
  shows "\<exists>l'. log_write b l = Ok l' \<and> bc l' = (if bn \<in> logged (lg l) then bc l else bpin b (bc l)) \<and>
    log_open nblk D S cap A (lg l') \<and> logged (lg l') = insert bn (logged (lg l))"
proof -
  note O = assms(1) [unfolded log_open_def]
  have "card A \<le> 26" "int (card A) + 1 < lsize (lg l)" using O by linarith+
  then obtain l' where "log_write b l = Ok l'" "bc l' = (if bn \<in> logged (lg l) then bc l else bpin b (bc l))"
    "log_fits nblk (lg l')" "ldev (lg l') = ldev (lg l)" "outstanding (lg l') = outstanding (lg l)"
    "lsize (lg l') = lsize (lg l)" "lstart (lg l') = lstart (lg l)"
    "distinct (take (nlogged (lg l')) (hblock (lh (lg l'))))" "logged (lg l') = insert bn (logged (lg l))"
    using log_write_cases [of nblk l A b bn] O assms(2,3) by auto
  then show ?thesis using O assms(3) by (intro exI [of _ l']) (simp add: log_open_def)
qed

context block_device
begin

abbreviation rdg :: "u32 \<Rightarrow> i32 \<Rightarrow> u32 set \<Rightarrow> u32 set \<Rightarrow> 'd bcache \<Rightarrow> bool" where
  "rdg \<equiv> reading content trace dok"

lemma reading_bread:
  assumes op: "rdg D me P H c0" and "bn < nblk" and "bn \<notin> H" and "card H \<le> 2"
  shows "\<exists>b c. bread rw me D bn c0 = Ok (b, c) \<and> rdg D me P (insert bn H) c \<and>
    aview (absv D c) = aview (absv D c0) \<and> handle D c b bn \<and> (\<forall>i n. handle D c0 i n \<longrightarrow> handle D c i n)"
proof -
  note O = readingD [OF op]
  have "{n. 0 < arefs (absv D c0) n} \<subseteq> P \<union> H" by (auto simp: O(6) split: if_splits)
  then have "card {n. 0 < arefs (absv D c0) n} \<le> card P + card H"
    using card_mono [of "P \<union> H"] card_Un_le [of P H] O(2,4) by (meson finite_UnI le_trans)
  then have "cache_room bn (absv D c0)" using O(3) assms(3,4) by (simp add: cache_room_def O(6,7))
  from bread_ok [OF O(1) assms(2) this] obtain b c where
    c: "bread rw me D bn c0 = Ok (b, c)" "cinv D c" "handle D c b bn" "absv D c = took me bn (absv D c0)"
      "\<forall>i n. handle D c0 i n \<longrightarrow> handle D c i n" by blast
  have "card (insert bn H) \<le> 3" using assms(3,4) O(4) by simp
  then have "rdg D me P (insert bn H) c" using op c(2) assms(3) unfolding reading_def by (auto simp: c(4) took_def)
  then show ?thesis using c by (auto simp: took_def)
qed

lemma reading_brelse:
  assumes op: "rdg D me P H c0" and h: "handle D c0 b bn" and "bn \<in> H"
  shows "\<exists>c. brelse me b c0 = Ok c \<and> rdg D me P (H - {bn}) c \<and>
    aview (absv D c) = aview (absv D c0) \<and> (\<forall>i n. handle D c0 i n \<and> n \<noteq> bn \<longrightarrow> handle D c i n)"
proof -
  note O = readingD [OF op]
  have "aheld (absv D c0) bn = Some me" using assms(3) by (simp add: O(7))
  moreover have "1 < arefs (absv D c0) bn \<or> aview (absv D c0) bn = adisk (absv D c0) bn"
    using O(8) [of bn] assms(3) by (auto simp: O(6))
  ultimately obtain c where c: "brelse me b c0 = Ok c" "cinv D c" "absv D c = gave bn (absv D c0)"
      "\<forall>i n. handle D c0 i n \<longrightarrow> n \<noteq> bn \<or> 1 < arefs (absv D c0) bn \<longrightarrow> handle D c i n"
    using brelse_ok [OF O(1) h] by blast
  have "card (H - {bn}) \<le> 3" using O(4,5) card_Diff1_le [of H bn] by linarith
  then have "rdg D me P (H - {bn}) c" using op c(2) assms(3) unfolding reading_def by (auto simp: c(3) gave_def)
  then show ?thesis using c by (auto simp: gave_def)
qed

lemma view_length:
  assumes "cinv D c" and "bn < nblk"
  shows "length (aview (absv D c) bn) = BSIZE"
proof (cases "lookup_buf D (bufs c) bn")
  case None
  then show ?thesis using assms content_length by (simp add: cache_abs_def cache_inv_def)
next
  case (Some b)
  have ok: "bcache_ok D c" using assms(1) by (simp add: cache_inv_def)
  then have "b < NBUF" using Some by (simp add: lookup_Some)
  then show ?thesis using Some assms content_length bcache_okD(5) [OF ok] by (simp add: cache_abs_def cache_inv_def)
qed

lemma op_log_write:
  assumes op: "in_op content trace dok nblk D me S cap A H l" and h: "handle D (bc l) b bn" and "bn \<in> H" and "bn \<in> A"
    and "length d = BSIZE"
  shows "\<exists>l'. log_write b (l\<lparr>bc := set_data b d (bc l)\<rparr>) = Ok l' \<and> in_op content trace dok nblk D me S cap A H l' \<and>
    aview (absv D (bc l')) = (aview (absv D (bc l)))(bn := d) \<and> (\<forall>i n. handle D (bc l) i n \<longrightarrow> handle D (bc l') i n)"
proof -
  let ?m = "l\<lparr>bc := set_data b d (bc l)\<rparr>"
  have R: "rdg D me (logged (lg l)) H (bc l)" and L: "log_open nblk D S cap A (lg l)" using op by (simp_all add: in_op_def)
  note O = readingD [OF R] and SD = set_data_ok [OF readingD(1) [OF R] h assms(5)]
  have m: "cinv D (bc ?m)" "handle D (bc ?m) b bn" "absv D (bc ?m) = (absv D (bc l))\<lparr>aview := (aview (absv D (bc l)))(bn := d)\<rparr>"
    "\<forall>i n. handle D (bc l) i n \<longrightarrow> handle D (bc ?m) i n" using SD h by auto
  obtain l' where l': "log_write b ?m = Ok l'" "bc l' = (if bn \<in> logged (lg l) then bc ?m else bpin b (bc ?m))"
      "log_open nblk D S cap A (lg l')" "logged (lg l') = insert bn (logged (lg l))"
    using log_open_write [of nblk D S cap A ?m b bn] L handleD(3) [OF m(2)] assms(4) by auto
  have "arefs (absv D (bc ?m)) bn + 1 < 2 ^ 32" using O(6) unfolding m(3) by simp
  note P = bpin_ok [OF m(1,2) this]
  have abs: "absv D (bc l') = (absv D (bc l))\<lparr>aview := (aview (absv D (bc l)))(bn := d),
      arefs := (\<lambda>n. (if n \<in> logged (lg l') then 1 else 0) + (if n \<in> H then 1 else 0))\<rparr>"
  proof (cases "bn \<in> logged (lg l)")
    case True
    then show ?thesis using l'(2,4) m(3) O(6) by (auto simp: fun_eq_iff insert_absorb intro!: cache_view.equality)
  next
    case False
    then show ?thesis using l'(2,4) m(3) P O(6) by (auto simp: fun_eq_iff intro!: cache_view.equality)
  qed
  have cl: "cinv D (bc l')" "\<forall>i n. handle D (bc l) i n \<longrightarrow> handle D (bc l') i n"
    using l'(2) m P by (auto split: if_splits)
  have f: "finite (logged (lg l'))" "card (logged (lg l')) \<le> 26"
    using l'(3) card_mono [of A "logged (lg l')"] unfolding log_open_def by (auto intro: finite_subset)
  have "rdg D me (logged (lg l')) H (bc l')"
    unfolding reading_def abs using R l'(4) cl(1) f by (auto simp: reading_def)
  then show ?thesis using l'(1,3) cl(2) by (intro exI [of _ l']) (simp add: abs in_op_def)
qed

end

section \<open>The contract\<close>

text \<open>
  What the file system relies on to read blocks: \<open>rd H l\<close> holds while it has the buffers of the blocks \<open>H\<close>,
  \<open>view l\<close> gives the current contents of the blocks, and \<open>has l b bn\<close> says that buffer \<open>b\<close> is that of
  block \<open>bn\<close>.
\<close>

locale block_reader =
  fixes rw :: "'d driver" and me :: i32 and D nblk :: u32
    and rd :: "u32 set \<Rightarrow> 'd logst \<Rightarrow> bool" and view :: "'d logst \<Rightarrow> u32 \<Rightarrow> u8 list"
    and has :: "'d logst \<Rightarrow> nat \<Rightarrow> u32 \<Rightarrow> bool"
  assumes read_bread: "rd H l \<Longrightarrow> bn < nblk \<Longrightarrow> bn \<notin> H \<Longrightarrow> card H \<le> 2 \<Longrightarrow>
      \<exists>b c. bread rw me D bn (bc l) = Ok (b, c) \<and> rd (insert bn H) (l\<lparr>bc := c\<rparr>) \<and> view (l\<lparr>bc := c\<rparr>) = view l \<and>
        has (l\<lparr>bc := c\<rparr>) b bn \<and> (\<forall>i n. has l i n \<longrightarrow> has (l\<lparr>bc := c\<rparr>) i n)"
    and read_brelse: "rd H l \<Longrightarrow> has l b bn \<Longrightarrow> bn \<in> H \<Longrightarrow>
      \<exists>c. brelse me b (bc l) = Ok c \<and> rd (H - {bn}) (l\<lparr>bc := c\<rparr>) \<and> view (l\<lparr>bc := c\<rparr>) = view l \<and>
        (\<forall>i n. has l i n \<and> n \<noteq> bn \<longrightarrow> has (l\<lparr>bc := c\<rparr>) i n)"
    and read_data: "rd H l \<Longrightarrow> has l b bn \<Longrightarrow> data (bufs (bc l) b) = view l bn"
    and read_length: "rd H l \<Longrightarrow> bn < nblk \<Longrightarrow> length (view l bn) = BSIZE"
    and read_finite: "rd H l \<Longrightarrow> finite H"

text \<open>And to change them: \<open>inop A H l\<close> holds inside a transaction that may log the blocks \<open>A\<close>.\<close>

locale block_store =
  fixes rw :: "'d driver" and me :: i32 and D nblk S :: u32 and cap :: nat
    and inop :: "u32 set \<Rightarrow> u32 set \<Rightarrow> 'd logst \<Rightarrow> bool" and view :: "'d logst \<Rightarrow> u32 \<Rightarrow> u8 list"
    and has :: "'d logst \<Rightarrow> nat \<Rightarrow> u32 \<Rightarrow> bool"
  assumes store_reader: "block_reader rw me D nblk (inop A) view has"
    and store_log_write: "inop A H l \<Longrightarrow> has l b bn \<Longrightarrow> bn \<in> H \<Longrightarrow> bn \<in> A \<Longrightarrow> length d = BSIZE \<Longrightarrow>
      \<exists>l'. log_write b (l\<lparr>bc := set_data b d (bc l)\<rparr>) = Ok l' \<and> inop A H l' \<and> view l' = (view l)(bn := d) \<and>
        (\<forall>i n. has l i n \<longrightarrow> has l' i n)"
    and store_range: "inop A H l \<Longrightarrow> bn \<in> A \<Longrightarrow> bn < nblk"
    and store_may_log: "inop A H l \<Longrightarrow> bn < nblk \<Longrightarrow> bn \<notin> log_area S \<Longrightarrow> card (insert bn A) \<le> cap \<Longrightarrow> inop (insert bn A) H l"
    and store_finite: "inop A H l \<Longrightarrow> finite A"

text \<open>The cache and the log over a block device provide both.\<close>

locale block_user = block_device +
  fixes me :: i32 and D S :: u32 and cap :: nat

sublocale block_user \<subseteq> reader: block_reader rw me D nblk "\<lambda>H l. \<exists>P. rdg D me P H (bc l)" "\<lambda>l. aview (absv D (bc l))" "\<lambda>l. handle D (bc l)"
proof unfold_locales
  fix H :: "u32 set" and l :: "'a logst" and bn :: u32
  assume "\<exists>P. rdg D me P H (bc l)" and a: "bn < nblk" "bn \<notin> H" "card H \<le> 2"
  then obtain P where "rdg D me P H (bc l)" by blast
  from reading_bread [OF this a] show "\<exists>b c. bread rw me D bn (bc l) = Ok (b, c) \<and>
      (\<exists>P. rdg D me P (insert bn H) (bc (l\<lparr>bc := c\<rparr>))) \<and> aview (absv D (bc (l\<lparr>bc := c\<rparr>))) = aview (absv D (bc l)) \<and>
      handle D (bc (l\<lparr>bc := c\<rparr>)) b bn \<and> (\<forall>i n. handle D (bc l) i n \<longrightarrow> handle D (bc (l\<lparr>bc := c\<rparr>)) i n)" by auto
next
  fix H :: "u32 set" and l :: "'a logst" and bn :: u32 and b
  assume "\<exists>P. rdg D me P H (bc l)" and a: "handle D (bc l) b bn" "bn \<in> H"
  then obtain P where "rdg D me P H (bc l)" by blast
  from reading_brelse [OF this a] show "\<exists>c. brelse me b (bc l) = Ok c \<and>
      (\<exists>P. rdg D me P (H - {bn}) (bc (l\<lparr>bc := c\<rparr>))) \<and> aview (absv D (bc (l\<lparr>bc := c\<rparr>))) = aview (absv D (bc l)) \<and>
      (\<forall>i n. handle D (bc l) i n \<and> n \<noteq> bn \<longrightarrow> handle D (bc (l\<lparr>bc := c\<rparr>)) i n)" by auto
next
  fix H :: "u32 set" and l :: "'a logst" and bn :: u32 and b
  assume "\<exists>P. rdg D me P H (bc l)" and "handle D (bc l) b bn"
  then show "data (bufs (bc l) b) = aview (absv D (bc l)) bn" using readingD(1) handle_data by blast
next
  fix H :: "u32 set" and l :: "'a logst" and bn :: u32
  assume "\<exists>P. rdg D me P H (bc l)" and "bn < nblk"
  then show "length (aview (absv D (bc l)) bn) = BSIZE" using readingD(1) view_length by blast
next
  fix H :: "u32 set" and l :: "'a logst"
  assume "\<exists>P. rdg D me P H (bc l)"
  then show "finite H" using readingD(4) by blast
qed

sublocale block_user \<subseteq> store: block_store rw me D nblk S cap "in_op content trace dok nblk D me S cap"
  "\<lambda>l. aview (absv D (bc l))" "\<lambda>l. handle D (bc l)"
proof unfold_locales
  fix A H :: "u32 set" and l :: "'a logst" and bn :: u32
  assume "in_op content trace dok nblk D me S cap A H l" and a: "bn < nblk" "bn \<notin> H" "card H \<le> 2"
  then have o: "rdg D me (logged (lg l)) H (bc l)" "log_open nblk D S cap A (lg l)" by (simp_all add: in_op_def)
  from reading_bread [OF o(1) a] o(2) show "\<exists>b c. bread rw me D bn (bc l) = Ok (b, c) \<and>
      in_op content trace dok nblk D me S cap A (insert bn H) (l\<lparr>bc := c\<rparr>) \<and> aview (absv D (bc (l\<lparr>bc := c\<rparr>))) = aview (absv D (bc l)) \<and>
      handle D (bc (l\<lparr>bc := c\<rparr>)) b bn \<and> (\<forall>i n. handle D (bc l) i n \<longrightarrow> handle D (bc (l\<lparr>bc := c\<rparr>)) i n)"
    by (auto simp: in_op_def)
next
  fix A H :: "u32 set" and l :: "'a logst" and bn :: u32 and b
  assume "in_op content trace dok nblk D me S cap A H l" and a: "handle D (bc l) b bn" "bn \<in> H"
  then have o: "rdg D me (logged (lg l)) H (bc l)" "log_open nblk D S cap A (lg l)" by (simp_all add: in_op_def)
  from reading_brelse [OF o(1) a] o(2) show "\<exists>c. brelse me b (bc l) = Ok c \<and>
      in_op content trace dok nblk D me S cap A (H - {bn}) (l\<lparr>bc := c\<rparr>) \<and> aview (absv D (bc (l\<lparr>bc := c\<rparr>))) = aview (absv D (bc l)) \<and>
      (\<forall>i n. handle D (bc l) i n \<and> n \<noteq> bn \<longrightarrow> handle D (bc (l\<lparr>bc := c\<rparr>)) i n)" by (auto simp: in_op_def)
next
  fix A H :: "u32 set" and l :: "'a logst" and bn :: u32 and b
  assume "in_op content trace dok nblk D me S cap A H l" and "handle D (bc l) b bn"
  then show "data (bufs (bc l) b) = aview (absv D (bc l)) bn"
    unfolding in_op_def using readingD(1) handle_data by blast
next
  fix A H :: "u32 set" and l :: "'a logst" and bn :: u32
  assume "in_op content trace dok nblk D me S cap A H l" and "bn < nblk"
  then show "length (aview (absv D (bc l)) bn) = BSIZE" unfolding in_op_def using readingD(1) view_length by blast
next
  fix A H :: "u32 set" and l :: "'a logst"
  assume "in_op content trace dok nblk D me S cap A H l"
  then show "finite H" unfolding in_op_def using readingD(4) by blast
next
  fix A H :: "u32 set" and l :: "'a logst" and b bn and d :: "u8 list"
  assume "in_op content trace dok nblk D me S cap A H l" "handle D (bc l) b bn" "bn \<in> H" "bn \<in> A" "length d = BSIZE"
  then show "\<exists>l'. log_write b (l\<lparr>bc := set_data b d (bc l)\<rparr>) = Ok l' \<and> in_op content trace dok nblk D me S cap A H l' \<and>
      aview (absv D (bc l')) = (aview (absv D (bc l)))(bn := d) \<and> (\<forall>i n. handle D (bc l) i n \<longrightarrow> handle D (bc l') i n)"
    by (rule op_log_write)
next
  fix A H :: "u32 set" and l :: "'a logst" and bn :: u32
  assume "in_op content trace dok nblk D me S cap A H l" and "bn \<in> A"
  then show "bn < nblk" by (simp add: in_op_def log_open_def)
next
  fix A H :: "u32 set" and l :: "'a logst" and bn :: u32
  assume "in_op content trace dok nblk D me S cap A H l" "bn < nblk" "bn \<notin> log_area S" "card (insert bn A) \<le> cap"
  then show "in_op content trace dok nblk D me S cap (insert bn A) H l" by (auto simp: in_op_def log_open_def)
next
  fix A H :: "u32 set" and l :: "'a logst"
  assume "in_op content trace dok nblk D me S cap A H l"
  then show "finite A" by (simp add: in_op_def log_open_def)
qed

section \<open>Blocks of the file-system state\<close>

text \<open>What block operations keep: the superblock, the inode table and the held buffers.\<close>

definition frame :: "('d logst \<Rightarrow> nat \<Rightarrow> u32 \<Rightarrow> bool) \<Rightarrow> u32 set \<Rightarrow> 'd fs \<Rightarrow> 'd fs \<Rightarrow> bool" where
  "frame has H st st' \<longleftrightarrow> sb st' = sb st \<and> itab st' = itab st \<and> (\<forall>i n. n \<in> H \<and> has (ls st) i n \<longrightarrow> has (ls st') i n)"

lemma frame_refl [simp]: "frame has H st st"
  by (simp add: frame_def)

lemma frame_trans: "frame has H a b \<Longrightarrow> frame has H b c \<Longrightarrow> frame has H a c"
  by (auto simp: frame_def)

lemma frame_mono: "frame has H a b \<Longrightarrow> G \<subseteq> H \<Longrightarrow> frame has G a b"
  by (auto simp: frame_def)

lemma frame_sb: "frame has H st st' \<Longrightarrow> sb st' = sb st" and frame_itab: "frame has H st st' \<Longrightarrow> itab st' = itab st"
  by (simp_all add: frame_def)

context block_reader
begin

lemma fs_bread_ok:
  assumes "rd H (ls st)" and "bn < nblk" and "bn \<notin> H" and "card H \<le> 2"
  shows "\<exists>b st'. fs_bread rw me D bn st = Ok (b, st') \<and> rd (insert bn H) (ls st') \<and> view (ls st') = view (ls st) \<and>
    has (ls st') b bn \<and> bdata b st' = view (ls st) bn \<and> frame has H st st'"
proof -
  from read_bread [OF assms] obtain b c where c: "bread rw me D bn (bc (ls st)) = Ok (b, c)"
    "rd (insert bn H) ((ls st)\<lparr>bc := c\<rparr>)" "view ((ls st)\<lparr>bc := c\<rparr>) = view (ls st)"
    "has ((ls st)\<lparr>bc := c\<rparr>) b bn" "\<forall>i n. has (ls st) i n \<longrightarrow> has ((ls st)\<lparr>bc := c\<rparr>) i n" by blast
  then show ?thesis using read_data [OF c(2,4)] by (simp add: fs_bread_def bdata_def frame_def)
qed

lemma fs_brelse_ok:
  assumes "rd (insert bn H) (ls st)" and "has (ls st) b bn" and "bn \<notin> H"
  shows "\<exists>st'. fs_brelse me b st = Ok st' \<and> rd H (ls st') \<and> view (ls st') = view (ls st) \<and> frame has H st st'"
proof -
  from read_brelse [OF assms(1,2)] obtain c where c: "brelse me b (bc (ls st)) = Ok c" "rd (insert bn H - {bn}) ((ls st)\<lparr>bc := c\<rparr>)"
    "view ((ls st)\<lparr>bc := c\<rparr>) = view (ls st)" "\<forall>i n. has (ls st) i n \<and> n \<noteq> bn \<longrightarrow> has ((ls st)\<lparr>bc := c\<rparr>) i n" by blast
  have "insert bn H - {bn} = H" using assms(3) by simp
  then show ?thesis using c assms(3) by (auto simp: fs_brelse_def frame_def)
qed

end

context block_store
begin

abbreviation fop :: "u32 set \<Rightarrow> u32 set \<Rightarrow> 'd fs \<Rightarrow> bool" where
  "fop A H st \<equiv> inop A H (ls st)"

abbreviation fview :: "'d fs \<Rightarrow> u32 \<Rightarrow> u8 list" where
  "fview st \<equiv> view (ls st)"

abbreviation fhas :: "'d fs \<Rightarrow> nat \<Rightarrow> u32 \<Rightarrow> bool" where
  "fhas st b bn \<equiv> has (ls st) b bn"

lemmas fop_bread = block_reader.fs_bread_ok [OF store_reader]
  and fop_brelse = block_reader.fs_brelse_ok [OF store_reader]
  and fop_length = block_reader.read_length [OF store_reader]
  and fop_data = block_reader.read_data [OF store_reader]
  and fop_finite = block_reader.read_finite [OF store_reader]

lemma fs_write_ok:
  assumes "fop A H st" and "fhas st b bn" and "bn \<in> H" and "bn \<in> A" and "length d = BSIZE"
  shows "\<exists>st'. fs_log_write b (bstore b d st) = Ok st' \<and> fop A H st' \<and> fview st' = (fview st)(bn := d) \<and>
    fhas st' b bn \<and> frame has H st st'"
proof -
  from store_log_write [OF assms] obtain l where "log_write b ((ls st)\<lparr>bc := set_data b d (bc (ls st))\<rparr>) = Ok l"
    "inop A H l" "view l = (view (ls st))(bn := d)" "\<forall>i n. has (ls st) i n \<longrightarrow> has l i n" by blast
  then show ?thesis using assms(2) by (simp add: fs_log_write_def bstore_def frame_def)
qed

text \<open>Logging new contents of a held block and releasing it.\<close>

lemma write_back_ok:
  assumes "fop A (insert bn H) st" and "fhas st b bn" and "bn \<notin> H" and "bn \<in> A" and "length d = BSIZE"
  shows "\<exists>st'. obind (fs_log_write b (bstore b d st)) (fs_brelse me b) = Ok st' \<and> fop A H st' \<and>
    fview st' = (fview st)(bn := d) \<and> frame has H st st'"
proof -
  from fs_write_ok [OF assms(1,2) insertI1 assms(4,5)] obtain t where
    t: "fs_log_write b (bstore b d st) = Ok t" "fop A (insert bn H) t" "fview t = (fview st)(bn := d)"
      "fhas t b bn" "frame has (insert bn H) st t" by blast
  from fop_brelse [OF t(2,4) assms(3)] obtain u where
    u: "fs_brelse me b t = Ok u" "fop A H u" "fview u = fview t" "frame has H t u" by blast
  have "frame has H st u" using t(5) u(4) by (auto simp: frame_def)
  then show ?thesis using t u by simp
qed

lemma bzero_ok:
  assumes "fop A H st" and "bn \<in> A" and "bn \<notin> H" and "card H \<le> 2"
  shows "\<exists>st'. bzero rw me D bn st = Ok st' \<and> fop A H st' \<and> fview st' = (fview st)(bn := replicate BSIZE 0) \<and> frame has H st st'"
proof -
  from fop_bread [OF assms(1) store_range [OF assms(1,2)] assms(3,4)] obtain b t where
    t: "fs_bread rw me D bn st = Ok (b, t)" "fop A (insert bn H) t" "fview t = fview st" "fhas t b bn" "frame has H st t" by blast
  from write_back_ok [OF t(2,4) assms(3,2), of "replicate BSIZE 0"] obtain u where
    u: "obind (fs_log_write b (bstore b (replicate BSIZE 0) t)) (fs_brelse me b) = Ok u" "fop A H u"
      "fview u = (fview t)(bn := replicate BSIZE 0)" "frame has H t u" by auto
  then show ?thesis using t frame_trans [OF t(5) u(4)] by (simp add: bzero_def)
qed

end

section \<open>Loops\<close>

lemma osearch_rule:
  assumes "P s" and "\<And>x s. x \<in> set xs \<Longrightarrow> P s \<Longrightarrow>
    \<exists>r s'. f x s = Ok (r, s') \<and> (case r of None \<Rightarrow> P s' \<and> N x | Some a \<Rightarrow> Q x a s')"
  shows "\<exists>r s'. osearch f xs s = Ok (r, s') \<and> (case r of None \<Rightarrow> P s' \<and> (\<forall>x\<in>set xs. N x)
    | Some a \<Rightarrow> \<exists>ys x zs. xs = ys @ x # zs \<and> (\<forall>y\<in>set ys. N y) \<and> Q x a s')"
  using assms
proof (induction xs arbitrary: s)
  case (Cons x xs)
  from Cons.prems(2) [of x s] Cons.prems(1) obtain r s1 where
    f: "f x s = Ok (r, s1)" "case r of None \<Rightarrow> P s1 \<and> N x | Some a \<Rightarrow> Q x a s1" by auto
  show ?case
  proof (cases r)
    case (Some a)
    then have "\<exists>ys y zs. x # xs = ys @ y # zs \<and> (\<forall>y\<in>set ys. N y) \<and> Q y a s1"
      using f(2) by (intro exI [of _ "[]"] exI [of _ x] exI [of _ xs]) simp
    then show ?thesis using f Some by simp
  next
    case None
    then have n: "P s1" "N x" using f(2) by simp_all
    have tl: "\<exists>r s'. f y s = Ok (r, s') \<and> (case r of None \<Rightarrow> P s' \<and> N y | Some a \<Rightarrow> Q y a s')"
      if "y \<in> set xs" "P s" for y s by (rule Cons.prems(2)) (use that in simp_all)
    from Cons.IH [OF n(1) tl] obtain r2 s2 where
      2: "osearch f xs s1 = Ok (r2, s2)" "case r2 of None \<Rightarrow> P s2 \<and> (\<forall>x\<in>set xs. N x)
         | Some a \<Rightarrow> \<exists>ys y zs. xs = ys @ y # zs \<and> (\<forall>y\<in>set ys. N y) \<and> Q y a s2" by blast
    have e: "osearch f (x # xs) s = Ok (r2, s2)" using f(1) None 2(1) by simp
    show ?thesis
    proof (cases r2)
      case None
      then show ?thesis using e 2(2) n(2) by simp
    next
      case (Some a)
      then obtain ys y zs where y: "xs = ys @ y # zs" "\<forall>y\<in>set ys. N y" "Q y a s2" using 2(2) by auto
      then have "\<exists>ys y zs. x # xs = ys @ y # zs \<and> (\<forall>y\<in>set ys. N y) \<and> Q y a s2"
        using n(2) by (intro exI [of _ "x # ys"] exI [of _ y] exI [of _ zs]) simp
      then show ?thesis using e Some by simp
    qed
  qed
qed simp

lemma steps_set: "0 < d \<Longrightarrow> x \<in> set (steps d n) \<longleftrightarrow> d dvd x \<and> x < n"
proof -
  assume d: "0 < d"
  have "k < (n + d - 1) div d \<longleftrightarrow> d * k < n" for k
  proof -
    have "k < (n + d - 1) div d \<longleftrightarrow> Suc k * d \<le> n + d - 1"
      unfolding less_eq_div_iff_mult_less_eq [OF d, symmetric] by auto
    also have "\<dots> \<longleftrightarrow> d * k < n" using d by (simp add: mult.commute) arith
    finally show ?thesis .
  qed
  then have "{0..<(n + d - 1) div d} = {k. d * k < n}" by (simp add: set_eq_iff)
  then have "set (steps d n) = (*) d ` {k. d * k < n}" by (simp only: steps_def set_map set_upt)
  then show ?thesis by (auto elim: dvdE)
qed

lemma steps_split: "0 < d \<Longrightarrow> steps d n = ys @ x # zs \<Longrightarrow> y < x \<Longrightarrow> d dvd y \<Longrightarrow> y \<in> set ys"
proof -
  assume d: "0 < d" and e: "steps d n = ys @ x # zs" and y: "y < x" "d dvd y"
  have "sorted (steps d n)" by (auto simp: steps_def sorted_iff_nth_mono)
  moreover have "x < n" using steps_set [OF d, of x n] e by simp
  then have "y \<in> set (steps d n)" using y steps_set [OF d] by simp
  ultimately show ?thesis using e y(1) by (auto simp: sorted_append)
qed

section \<open>The bitmap\<close>

definition used :: "superblock \<Rightarrow> (u32 \<Rightarrow> u8 list) \<Rightarrow> u32 \<Rightarrow> bool" where
  "used s v x \<longleftrightarrow> \<not> bit_clear (v (BBLOCK x s)) (unat x mod BPB)"

lemma bit_clear_bit: "bit_clear d bi \<longleftrightarrow> \<not> bit (d ! (bi div 8)) (bi mod 8)"
proof -
  have "(w :: u8) AND push_bit k 1 = 0 \<longleftrightarrow> \<not> bit w k" if "k < 8" for w k
    using that by (auto simp: bit_eq_iff [where 'a = u8] bit_simps)
  then show ?thesis by (simp add: bit_clear_def bit_mask_def)
qed

lemma bit_index_eq: "a div 8 = b div 8 \<and> a mod 8 = b mod 8 \<longleftrightarrow> a = (b :: nat)"
  by (metis div_mult_mod_eq)

lemma bit_clear_mark: "bi div 8 < length d \<Longrightarrow> bit_clear (mark_bit bi d) bj \<longleftrightarrow> bj \<noteq> bi \<and> bit_clear d bj"
  using bit_index_eq [of bj bi]
  by (auto simp: bit_clear_bit mark_bit_def bit_mask_def nth_list_update bit_simps)

lemma bit_clear_clear: "bi div 8 < length d \<Longrightarrow> bit_clear (clear_bit bi d) bj \<longleftrightarrow> bj = bi \<or> bit_clear d bj"
  using bit_index_eq [of bj bi]
  by (auto simp: bit_clear_bit clear_bit_def bit_mask_def nth_list_update bit_simps)

lemma clear_mark_bit:
  assumes "bit_clear d bi" and "bi div 8 < length d"
  shows "clear_bit bi (mark_bit bi d) = d"
proof -
  have "(d ! (bi div 8) OR push_bit (bi mod 8) 1) AND NOT (push_bit (bi mod 8) 1) = d ! (bi div 8)"
    using assms(1) by (auto simp: bit_clear_bit bit_eq_iff [where 'a = u8] bit_simps)
  then show ?thesis using assms(2) by (simp add: clear_bit_def mark_bit_def bit_mask_def)
qed

lemma length_mark [simp]: "length (mark_bit bi d) = length d" "length (clear_bit bi d) = length d"
  by (simp_all add: mark_bit_def clear_bit_def)

lemma BBLOCK_group: "b + bi < 2 ^ 32 \<Longrightarrow> BPB dvd b \<Longrightarrow> bi < BPB \<Longrightarrow> BBLOCK (word_of_nat (b + bi)) s = BBLOCK (word_of_nat b) s"
proof -
  assume a: "b + bi < 2 ^ 32" "BPB dvd b" "bi < BPB"
  then obtain k where k: "b = 8192 * k" by blast
  have "unat (word_of_nat (b + bi) div 8192 :: u32) = (b + bi) div 8192"
    using a by (simp add: unat_div unat_of_nat take_bit_nat_eq_self del: of_nat_add)
  moreover have "unat (word_of_nat b div 8192 :: u32) = b div 8192"
    using a by (simp add: unat_div unat_of_nat take_bit_nat_eq_self)
  moreover have "(b + bi) div 8192 = b div 8192" using a k by simp
  ultimately have "(word_of_nat (b + bi) div 8192 :: u32) = word_of_nat b div 8192"
    by (simp add: word_unat_eq_iff)
  then show ?thesis by (simp add: BBLOCK_def)
qed

lemma find_upt_None: "List.find P [0..<n] = None \<longleftrightarrow> (\<forall>i<n. \<not> P i)"
  by (auto simp: find_None_iff)

lemma find_upt_Some: "List.find P [0..<n] = Some i \<longleftrightarrow> i < n \<and> P i \<and> (\<forall>j<i. \<not> P j)"
  by (auto simp: find_Some_iff)

section \<open>Allocating and freeing blocks\<close>

text \<open>The blocks that hold metadata: the log, the inodes and the bitmap.\<close>

definition meta :: "u32 \<Rightarrow> superblock \<Rightarrow> u32 set" where
  "meta S s = log_area S \<union> (\<lambda>i. IBLOCK i s) ` {..<ninodes s} \<union> (\<lambda>y. BBLOCK y s) ` {..<fssize s}"

text \<open>Free blocks are on the disk, hold no metadata, and nobody holds their buffers.\<close>

definition free_ok :: "u32 \<Rightarrow> u32 \<Rightarrow> u32 set \<Rightarrow> superblock \<Rightarrow> (u32 \<Rightarrow> u8 list) \<Rightarrow> bool" where
  "free_ok nblk S H s v \<longleftrightarrow> (\<forall>x<fssize s. \<not> used s v x \<longrightarrow> x < nblk \<and> x \<notin> meta S s \<and> x \<notin> H)"

definition bitmap_ok :: "u32 set \<Rightarrow> u32 set \<Rightarrow> superblock \<Rightarrow> bool" where
  "bitmap_ok A H s \<longleftrightarrow> (\<forall>x<fssize s. BBLOCK x s \<in> A \<and> BBLOCK x s \<notin> H)"

definition took_block :: "superblock \<Rightarrow> u32 \<Rightarrow> (u32 \<Rightarrow> u8 list) \<Rightarrow> u32 \<Rightarrow> u8 list" where
  "took_block s x v = v(BBLOCK x s := mark_bit (unat x mod BPB) (v (BBLOCK x s)), x := replicate BSIZE 0)"

definition gave_block :: "superblock \<Rightarrow> u32 \<Rightarrow> (u32 \<Rightarrow> u8 list) \<Rightarrow> u32 \<Rightarrow> u8 list" where
  "gave_block s x v = v(BBLOCK x s := clear_bit (unat x mod BPB) (v (BBLOCK x s)))"

context block_store
begin

lemma balloc_block_ok:
  assumes op: "fop A H st" "card H \<le> 2" "card A < cap" and b: "BPB dvd b" "b < unat (fssize (sb st))"
    and ok: "free_ok nblk S H (sb st) (fview st)" "bitmap_ok A H (sb st)"
  shows "\<exists>r st'. balloc_block rw me D b st = Ok (r, st') \<and> frame has H st st' \<and> (case r of
      None \<Rightarrow> fop A H st' \<and> fview st' = fview st \<and>
        (\<forall>bi<BPB. b + bi < unat (fssize (sb st)) \<longrightarrow> used (sb st) (fview st) (word_of_nat (b + bi)))
    | Some x \<Rightarrow> fop (insert x A) H st' \<and> x < fssize (sb st) \<and> \<not> used (sb st) (fview st) x \<and>
        (\<exists>bi<BPB. x = word_of_nat (b + bi) \<and> unat x = b + bi \<and> (\<forall>bj<bi. used (sb st) (fview st) (word_of_nat (b + bj)))) \<and>
        fview st' = took_block (sb st) x (fview st))"
proof -
  let ?s = "sb st" and ?n = "unat (fssize (sb st))" and ?bb = "BBLOCK (word_of_nat b) (sb st)" and ?v = "fview st"
  have n32: "?n < 2 ^ 32" using unsigned_less [of "fssize ?s", where 'a = nat] by simp
  have un: "unat (word_of_nat (b + bi) :: u32) = b + bi" if "b + bi < ?n" for bi
    using that n32 by (simp add: unat_of_nat take_bit_nat_eq_self del: of_nat_add)
  have lt: "word_of_nat (b + bi) < fssize ?s" if "b + bi < ?n" for bi
    unfolding word_less_nat_alt un [OF that] by (rule that)
  have grp: "used ?s ?v (word_of_nat (b + bi)) \<longleftrightarrow> \<not> bit_clear (?v ?bb) bi" if "b + bi < ?n" "bi < BPB" for bi
    using that b(1) n32 BBLOCK_group [of b bi ?s] un [OF that(1)] by (auto simp: used_def)
  have bb: "?bb \<in> A" "?bb \<notin> H" using ok(2) lt [of 0] b(2) by (simp_all add: bitmap_ok_def)
  have bbn: "?bb < nblk" by (rule store_range [OF op(1) bb(1)])
  from fop_bread [OF op(1) bbn bb(2) op(2)] obtain bp t where
    t: "fs_bread rw me D ?bb st = Ok (bp, t)" "fop A (insert ?bb H) t" "fview t = ?v" "fhas t bp ?bb" "bdata bp t = ?v ?bb" "frame has H st t"
    by blast
  have sbt: "sb t = ?s" using t(6) by (rule frame_sb)
  let ?f = "List.find (bit_clear (?v ?bb)) [0..<min BPB (?n - b)]"
  show ?thesis
  proof (cases ?f)
    case None
    from fop_brelse [OF t(2,4) bb(2)] obtain u where u: "fs_brelse me bp t = Ok u" "fop A H u" "fview u = fview t" "frame has H t u" by blast
    have "balloc_block rw me D b st = Ok (None, u)" using t(1,5) u(1) sbt None by (simp add: balloc_block_def)
    moreover have "used ?s ?v (word_of_nat (b + bi))" if "bi < BPB" "b + bi < ?n" for bi
      using None that grp [OF that(2,1)] by (auto simp: find_upt_None)
    ultimately show ?thesis using u t(3) frame_trans [OF t(6) u(4)] by (intro exI [of _ None] exI [of _ u]) simp
  next
    case (Some bi)
    then have bi: "bi < BPB" "b + bi < ?n" "bit_clear (?v ?bb) bi" and first: "\<forall>bj<bi. \<not> bit_clear (?v ?bb) bj"
      by (auto simp: find_upt_Some)
    let ?x = "word_of_nat (b + bi) :: u32"
    have x: "?x < fssize ?s" "\<not> used ?s ?v ?x" using lt [OF bi(2)] grp [OF bi(2,1)] bi(3) by simp_all
    have xok: "?x < nblk" "?x \<notin> log_area S" "?x \<notin> H" "?x \<noteq> ?bb"
      using ok(1) x lt [of 0] b(2) unfolding free_ok_def meta_def by (blast, blast, blast, force)
    have lv: "length (?v ?bb) = BSIZE" using fop_length [OF op(1) bbn] .
    from fs_write_ok [OF t(2,4) insertI1 bb(1), of "mark_bit bi (?v ?bb)"] lv obtain u where
      u: "fs_log_write bp (bstore bp (mark_bit bi (?v ?bb)) t) = Ok u" "fop A (insert ?bb H) u"
        "fview u = (fview t)(?bb := mark_bit bi (?v ?bb))" "fhas u bp ?bb" "frame has (insert ?bb H) t u" by auto
    from fop_brelse [OF u(2,4) bb(2)] obtain w where w: "fs_brelse me bp u = Ok w" "fop A H w" "fview w = fview u" "frame has H u w" by blast
    have "card (insert ?x A) \<le> cap" using op(3) store_finite [OF op(1)] by (simp add: card_insert_if)
    from bzero_ok [OF store_may_log [OF w(2) xok(1,2) this] insertI1 xok(3) op(2)] obtain z where
      z: "bzero rw me D ?x w = Ok z" "fop (insert ?x A) H z" "fview z = (fview w)(?x := replicate BSIZE 0)" "frame has H w z" by blast
    have fr: "frame has H st z" using t(6) u(5) w(4) z(4) by (auto simp: frame_def)
    have r: "balloc_block rw me D b st = Ok (Some ?x, z)" using t(1,5) u(1) w(1) z(1) sbt Some by (simp add: balloc_block_def)
    have B: "BBLOCK ?x ?s = ?bb" "unat ?x mod BPB = bi"
      using bi b(1) n32 BBLOCK_group [of b bi ?s] un [OF bi(2)] by (auto simp del: of_nat_add)
    have "fview z = took_block ?s ?x ?v" unfolding took_block_def B z(3) w(3) u(3) t(3) ..
    moreover have "\<forall>bj<bi. used ?s ?v (word_of_nat (b + bj))" using first grp bi(1,2) by (auto simp del: of_nat_add)
    ultimately show ?thesis using r fr z(2) x bi(1) un [OF bi(2)]
      by (intro exI [of _ "Some ?x"] exI [of _ z]) (auto simp del: of_nat_add)
  qed
qed

lemma balloc_ok:
  assumes op: "fop A H st" "card H \<le> 2" "card A < cap"
    and ok: "free_ok nblk S H (sb st) (fview st)" "bitmap_ok A H (sb st)" and boot: "used (sb st) (fview st) 0"
  shows "\<exists>x st'. balloc rw me D st = Ok (x, st') \<and> frame has H st st' \<and>
    (if x = 0 then fop A H st' \<and> fview st' = fview st \<and> (\<forall>y<fssize (sb st). used (sb st) (fview st) y)
     else fop (insert x A) H st' \<and> x < fssize (sb st) \<and> \<not> used (sb st) (fview st) x \<and>
       (\<forall>y<x. used (sb st) (fview st) y) \<and> fview st' = took_block (sb st) x (fview st))"
proof -
  let ?s = "sb st" and ?n = "unat (fssize (sb st))" and ?v = "fview st"
  let ?P = "\<lambda>t. fop A H t \<and> fview t = ?v \<and> frame has H st t"
  let ?N = "\<lambda>b. \<forall>bi<BPB. b + bi < ?n \<longrightarrow> used ?s ?v (word_of_nat (b + bi))"
  let ?Q = "\<lambda>b x t. fop (insert x A) H t \<and> x < fssize ?s \<and> \<not> used ?s ?v x \<and>
      (\<exists>bi<BPB. x = word_of_nat (b + bi) \<and> unat x = b + bi \<and> (\<forall>bj<bi. used ?s ?v (word_of_nat (b + bj)))) \<and>
      fview t = took_block ?s x ?v \<and> frame has H st t"
  have body: "\<exists>r t'. balloc_block rw me D b t = Ok (r, t') \<and> (case r of None \<Rightarrow> ?P t' \<and> ?N b | Some x \<Rightarrow> ?Q b x t')"
    if "b \<in> set (steps BPB ?n)" "?P t" for b t
  proof -
    have b: "BPB dvd b" "b < ?n" using that(1) steps_set [of BPB b ?n] by simp_all
    have e: "sb t = ?s" "fview t = ?v" using that(2) by (auto simp: frame_def)
    from balloc_block_ok [of A H t b] that(2) op(2,3) b ok obtain r t' where
      t': "balloc_block rw me D b t = Ok (r, t')" "frame has H t t'" "case r of
      None \<Rightarrow> fop A H t' \<and> fview t' = ?v \<and> ?N b
    | Some x \<Rightarrow> fop (insert x A) H t' \<and> x < fssize ?s \<and> \<not> used ?s ?v x \<and>
        (\<exists>bi<BPB. x = word_of_nat (b + bi) \<and> unat x = b + bi \<and> (\<forall>bj<bi. used ?s ?v (word_of_nat (b + bj)))) \<and>
        fview t' = took_block ?s x ?v"
      unfolding e by blast
    have "frame has H st t'" using that(2) t'(2) frame_trans by blast
    then show ?thesis using t'(1,3) by (intro exI [of _ r] exI [of _ t']) (auto split: option.splits)
  qed
  have split: "used ?s ?v y" if "?N (8192 * (unat y div 8192))" "y < fssize ?s" for y
  proof -
    have "unat y < ?n" using that(2) by (simp add: word_less_nat_alt)
    then show ?thesis using that(1) [THEN spec, of "unat y mod 8192"] by (simp add: mult_div_mod_eq del: of_nat_add of_nat_mult)
  qed
  from osearch_rule [of ?P st "steps BPB ?n" "balloc_block rw me D" ?N ?Q, OF _ body] op(1)
  obtain r t where t: "osearch (balloc_block rw me D) (steps BPB ?n) st = Ok (r, t)"
    "case r of None \<Rightarrow> ?P t \<and> (\<forall>b\<in>set (steps BPB ?n). ?N b)
     | Some x \<Rightarrow> \<exists>ys b zs. steps BPB ?n = ys @ b # zs \<and> (\<forall>y\<in>set ys. ?N y) \<and> ?Q b x t" by auto
  show ?thesis
  proof (cases r)
    case None
    then have "used ?s ?v y" if "y < fssize ?s" for y
    proof -
      have "8192 * (unat y div 8192) \<in> set (steps BPB ?n)"
        using that by (simp add: steps_set word_less_nat_alt)
      moreover have "\<forall>b\<in>set (steps BPB ?n). ?N b" using None t(2) by simp
      ultimately show ?thesis by (intro split [OF _ that]) (rule bspec)
    qed
    then show ?thesis using None t by (intro exI [of _ 0] exI [of _ t]) (simp add: balloc_def)
  next
    case (Some x)
    then obtain ys b zs where y: "steps BPB ?n = ys @ b # zs" "\<forall>y\<in>set ys. ?N y" "?Q b x t" using t(2) by auto
    then have "x \<noteq> 0" using boot by auto
    obtain bi where bi: "bi < BPB" "unat x = b + bi" "\<forall>bj<bi. used ?s ?v (word_of_nat (b + bj))" using y(3) by blast
    have bd: "BPB dvd b" "b < ?n" using steps_set [of BPB b ?n] y(1) by simp_all
    have "used ?s ?v z" if "z < x" for z
    proof (cases "unat z < b")
      case True
      have "8192 * (unat z div 8192) < b" using True by (meson le_less_trans times_div_less_eq_dividend)
      then have "8192 * (unat z div 8192) \<in> set ys" using steps_split [OF _ y(1)] by simp
      then show ?thesis using y(2,3) split that by (meson order_less_trans)
    next
      case False
      then have "unat z - b < bi" using that bi(2) by (simp add: word_less_nat_alt)
      then show ?thesis using bi(3) [THEN spec, of "unat z - b"] False by (simp del: of_nat_add)
    qed
    then show ?thesis using Some t(1) y(3) \<open>x \<noteq> 0\<close> by (intro exI [of _ x] exI [of _ t]) (simp add: balloc_def)
  qed
qed

lemma bfree_ok:
  assumes op: "fop A H st" "card H \<le> 2" and ok: "bitmap_ok A H (sb st)" "x < fssize (sb st)" "used (sb st) (fview st) x"
  shows "\<exists>st'. bfree rw me D x st = Ok st' \<and> fop A H st' \<and> fview st' = gave_block (sb st) x (fview st) \<and> frame has H st st'"
proof -
  let ?bb = "BBLOCK x (sb st)" and ?v = "fview st" and ?bi = "unat x mod BPB"
  have bb: "?bb \<in> A" "?bb \<notin> H" using ok(1,2) by (simp_all add: bitmap_ok_def)
  have bbn: "?bb < nblk" by (rule store_range [OF op(1) bb(1)])
  from fop_bread [OF op(1) bbn bb(2) op(2)] obtain bp t where
    t: "fs_bread rw me D ?bb st = Ok (bp, t)" "fop A (insert ?bb H) t" "fview t = ?v" "fhas t bp ?bb" "bdata bp t = ?v ?bb" "frame has H st t"
    by blast
  have "length (clear_bit ?bi (?v ?bb)) = BSIZE" using fop_length [OF op(1) bbn] by simp
  from write_back_ok [OF t(2,4) bb(2,1) this] obtain u where
    u: "obind (fs_log_write bp (bstore bp (clear_bit ?bi (?v ?bb)) t)) (fs_brelse me bp) = Ok u" "fop A H u"
      "fview u = (fview t)(?bb := clear_bit ?bi (?v ?bb))" "frame has H t u" by blast
  have "bfree rw me D x st = Ok u" using t(1,5) u(1) ok(3) by (simp add: bfree_def Let_def used_def)
  then show ?thesis using u t(3) frame_trans [OF t(6) u(4)] by (simp add: gave_block_def)
qed

end

end
