(* ===== verification/Xv6_Fs_Files.thy ===== *)
theory Xv6_Fs_Files
  imports Xv6_Fs_Blocks
begin

text \<open>
  Files over the block contract: the block map (\<^verbatim>\<open>bmap\<close>), reading and writing (\<^verbatim>\<open>readi\<close>, \<^verbatim>\<open>writei\<close>) and inodes on disk
  (\<^verbatim>\<open>iupdate\<close>), proved against the bytes of a file as a function of their offset.
\<close>

section \<open>The blocks of a file\<close>

text \<open>
  Slot \<open>k < MAXFILE\<close> is the address of block \<open>k\<close> of the file, through the indirect block from \<open>NDIRECT\<close> on;
  slot \<open>MAXFILE\<close> is the address of the indirect block. Zero means that there is none.
\<close>

definition slot :: "(u32 \<Rightarrow> u8 list) \<Rightarrow> inode \<Rightarrow> nat \<Rightarrow> u32" where
  "slot v x k = (if k < NDIRECT then iaddrs x ! k
     else if k = MAXFILE then iaddrs x ! NDIRECT
     else if iaddrs x ! NDIRECT = 0 then 0 else get32 (v (iaddrs x ! NDIRECT)) (4 * (k - NDIRECT)))"

text \<open>Byte \<open>i\<close> of a file; a missing block reads as zero.\<close>

definition fbyte :: "(u32 \<Rightarrow> u8 list) \<Rightarrow> inode \<Rightarrow> nat \<Rightarrow> u8" where
  "fbyte v x i = (if slot v x (i div BSIZE) = 0 then 0 else v (slot v x (i div BSIZE)) ! (i mod BSIZE))"

definition data_block :: "u32 \<Rightarrow> u32 \<Rightarrow> superblock \<Rightarrow> (u32 \<Rightarrow> u8 list) \<Rightarrow> u32 \<Rightarrow> bool" where
  "data_block nblk S s v a \<longleftrightarrow> a < fssize s \<and> a < nblk \<and> a \<notin> meta S s \<and> used s v a"

definition file_ok :: "u32 \<Rightarrow> u32 \<Rightarrow> superblock \<Rightarrow> (u32 \<Rightarrow> u8 list) \<Rightarrow> inode \<Rightarrow> bool" where
  "file_ok nblk S s v x \<longleftrightarrow> length (iaddrs x) = NDIRECT + 1 \<and>
     (\<forall>k\<le>MAXFILE. slot v x k \<noteq> 0 \<longrightarrow> data_block nblk S s v (slot v x k)) \<and>
     (\<forall>j\<le>MAXFILE. \<forall>k\<le>MAXFILE. slot v x j \<noteq> 0 \<and> slot v x j = slot v x k \<longrightarrow> j = k)"

definition layout_ok :: "u32 \<Rightarrow> superblock \<Rightarrow> bool" where
  "layout_ok S s \<longleftrightarrow> 0 < fssize s \<and> (\<forall>i<ninodes s. \<forall>y<fssize s. IBLOCK i s \<noteq> BBLOCK y s)"

text \<open>Adding one block to a file keeps its contents and its well-formedness.\<close>

lemma file_extend:
  assumes ok: "file_ok nblk S s v x" and len: "length (iaddrs x') = NDIRECT + 1"
    and k0: "k0 \<le> MAXFILE" "slot v x k0 = 0" and sl: "\<And>k. k \<le> MAXFILE \<Longrightarrow> slot v' x' k = (if k = k0 then a else slot v x k)"
    and a: "a \<noteq> 0" "\<not> used s v a" "a < fssize s" "a < nblk" "a \<notin> meta S s"
    and us: "\<And>y. y < fssize s \<Longrightarrow> used s v' y \<longleftrightarrow> used s v y \<or> y = a"
    and keep: "\<And>k. k < MAXFILE \<Longrightarrow> slot v x k \<noteq> 0 \<Longrightarrow> v' (slot v x k) = v (slot v x k)"
    and zero: "k0 < MAXFILE \<Longrightarrow> v' a = replicate BSIZE 0"
  shows "file_ok nblk S s v' x'" and "\<And>i. i < MAXFILE * BSIZE \<Longrightarrow> fbyte v' x' i = fbyte v x i"
proof -
  have d: "data_block nblk S s v (slot v x k)" if "k \<le> MAXFILE" "slot v x k \<noteq> 0" for k
    using ok that by (simp add: file_ok_def)
  have na: "slot v x k \<noteq> a" if "k \<le> MAXFILE" for k
    using d [OF that] a(1,2) by (auto simp: data_block_def)
  have "data_block nblk S s v' (slot v' x' k)" if "k \<le> MAXFILE" "slot v' x' k \<noteq> 0" for k
  proof (cases "k = k0")
    case True
    then show ?thesis using a us [OF a(3)] sl [OF k0(1)] by (simp add: data_block_def)
  next
    case False
    then show ?thesis using d [OF that(1)] that us by (auto simp: sl data_block_def)
  qed
  moreover have "j = k" if "j \<le> MAXFILE" "k \<le> MAXFILE" "slot v' x' j \<noteq> 0" "slot v' x' j = slot v' x' k" for j k
    using that ok na by (auto simp: sl file_ok_def split: if_splits)
  ultimately show "file_ok nblk S s v' x'" using len unfolding file_ok_def by blast
  fix i assume "i < MAXFILE * BSIZE"
  then have i: "i div 1024 < 268" by simp
  then show "fbyte v' x' i = fbyte v x i"
    using k0 sl [of "i div 1024"] keep [of "i div 1024"] zero a(1) by (auto simp: fbyte_def)
qed

section \<open>Taking a block from the bitmap\<close>

lemma used_took:
  assumes "x < fssize s" "x \<notin> meta S s" "y < fssize s" "length (v (BBLOCK x s)) = BSIZE"
  shows "used s (took_block s x v) y \<longleftrightarrow> used s v y \<or> y = x"
proof -
  have m: "BBLOCK y s \<noteq> x" using assms by (auto simp: meta_def)
  show ?thesis
  proof (cases "BBLOCK y s = BBLOCK x s")
    case True
    have "unat x mod BPB div 8 < length (v (BBLOCK x s))" unfolding assms(4) by (simp add: less_mult_imp_div_less)
    moreover have "unat y mod BPB = unat x mod BPB \<longleftrightarrow> y = x"
    proof -
      have "y div 8192 = x div 8192" using True by (simp add: BBLOCK_def)
      from arg_cong [OF this, of unat] have "unat y div 8192 = unat x div 8192" by (simp add: unat_div)
      then show ?thesis by (metis div_mult_mod_eq word_unat_eq_iff)
    qed
    ultimately show ?thesis using m True by (auto simp: used_def took_block_def bit_clear_mark)
  next
    case False
    then show ?thesis using m by (auto simp: used_def took_block_def)
  qed
qed

lemma took_other: "z \<noteq> x \<Longrightarrow> z \<noteq> BBLOCK x s \<Longrightarrow> took_block s x v z = v z"
  by (simp add: took_block_def)

lemma took_self: "took_block s x v x = replicate BSIZE 0"
  by (simp add: took_block_def)

lemma took_data:
  assumes "x < fssize s" "z \<noteq> x" "z \<notin> meta S s"
  shows "took_block s x v z = v z"
  using assms by (intro took_other) (auto simp: meta_def)

section \<open>Files that have got blocks\<close>

text \<open>
  The file \<open>x\<close> in the blocks \<open>v\<close> has become \<open>x'\<close> in \<open>v'\<close> by getting blocks that were free: its contents, the
  blocks of other files and the inode blocks are as before, and every block that came into use is one of its own.
\<close>

definition no_leak :: "superblock \<Rightarrow> (u32 \<Rightarrow> u8 list) \<Rightarrow> (u32 \<Rightarrow> u8 list) \<Rightarrow> inode \<Rightarrow> bool" where
  "no_leak s v v' x' \<longleftrightarrow> (\<forall>y<fssize s. used s v' y \<and> y \<noteq> 0 \<longrightarrow> used s v y \<or> (\<exists>k\<le>MAXFILE. slot v' x' k = y))"

lemma no_leak_trans:
  assumes "no_leak s v v' x'" and "no_leak s v' v'' x''"
    and "\<And>k. k \<le> MAXFILE \<Longrightarrow> slot v'' x'' k = slot v' x' k \<or> slot v' x' k = 0 \<and> \<not> used s v' (slot v'' x'' k)"
  shows "no_leak s v v'' x''"
  using assms unfolding no_leak_def by metis

definition extended :: "u32 \<Rightarrow> u32 \<Rightarrow> superblock \<Rightarrow> (u32 \<Rightarrow> u8 list) \<Rightarrow> inode \<Rightarrow> (u32 \<Rightarrow> u8 list) \<Rightarrow> inode \<Rightarrow> bool" where
  "extended nblk S s v x v' x' \<longleftrightarrow> file_ok nblk S s v' x' \<and> free_ok nblk S {} s v' \<and> used s v' 0 \<and>
     x' = x\<lparr>iaddrs := iaddrs x'\<rparr> \<and>
     (\<forall>i<MAXFILE * BSIZE. fbyte v' x' i = fbyte v x i) \<and>
     (\<forall>k\<le>MAXFILE. slot v' x' k = slot v x k \<or> slot v x k = 0 \<and> \<not> used s v (slot v' x' k)) \<and>
     (\<forall>y<fssize s. used s v y \<longrightarrow> used s v' y) \<and>
     (\<forall>y<fssize s. used s v y \<and> y \<notin> meta S s \<and> y \<noteq> slot v x MAXFILE \<longrightarrow> v' y = v y) \<and>
     (\<forall>i<ninodes s. v' (IBLOCK i s) = v (IBLOCK i s)) \<and> no_leak s v v' x'"

lemma extendedD:
  assumes "extended nblk S s v x v' x'"
  shows "file_ok nblk S s v' x'" "free_ok nblk S {} s v'" "used s v' 0" "x' = x\<lparr>iaddrs := iaddrs x'\<rparr>"
    "\<And>i. i < MAXFILE * BSIZE \<Longrightarrow> fbyte v' x' i = fbyte v x i"
    "\<And>k. k \<le> MAXFILE \<Longrightarrow> slot v' x' k = slot v x k \<or> slot v x k = 0 \<and> \<not> used s v (slot v' x' k)"
    "\<And>y. y < fssize s \<Longrightarrow> used s v y \<Longrightarrow> used s v' y"
    "\<And>y. y < fssize s \<Longrightarrow> used s v y \<Longrightarrow> y \<notin> meta S s \<Longrightarrow> y \<noteq> slot v x MAXFILE \<Longrightarrow> v' y = v y"
    "\<And>i. i < ninodes s \<Longrightarrow> v' (IBLOCK i s) = v (IBLOCK i s)" "no_leak s v v' x'"
  using assms unfolding extended_def by (blast, blast, blast, blast, blast, blast, blast, blast, blast, blast)

lemma extended_refl: "file_ok nblk S s v x \<Longrightarrow> free_ok nblk S {} s v \<Longrightarrow> used s v 0 \<Longrightarrow> extended nblk S s v x v x"
  by (simp add: extended_def no_leak_def)

lemma extended_fields:
  assumes "extended nblk S s v x v' x'"
  shows "isize x' = isize x" "idev x' = idev x" "inum x' = inum x" "iref x' = iref x" "ilck x' = ilck x" "ivalid x' = ivalid x"
    "itype x' = itype x" "imajor x' = imajor x" "iminor x' = iminor x" "inlink x' = inlink x"
  by (subst extendedD(4) [OF assms], simp)+

lemma extended_trans:
  assumes a: "extended nblk S s v x v' x'" and b: "extended nblk S s v' x' v'' x''"
  shows "extended nblk S s v x v'' x''"
proof -
  note A = extendedD [OF a] and B = extendedD [OF b]
  have sl: "slot v'' x'' k = slot v x k \<or> slot v x k = 0 \<and> \<not> used s v (slot v'' x'' k)" if k: "k \<le> MAXFILE" for k
  proof (cases "slot v'' x'' k = slot v' x' k")
    case True
    then show ?thesis using A(6) [OF k] by simp
  next
    case False
    then have z: "slot v' x' k = 0" "\<not> used s v' (slot v'' x'' k)" using B(6) [OF k] by simp_all
    have "slot v x k = 0" using A(6) [OF k] z(1) by auto
    moreover have "slot v'' x'' k < fssize s"
      using B(1) False z(1) k by (auto simp: file_ok_def data_block_def)
    ultimately show ?thesis using A(7) z(2) by blast
  qed
  have "v'' y = v y" if y: "y < fssize s" "used s v y" "y \<notin> meta S s" "y \<noteq> slot v x MAXFILE" for y
  proof -
    have "y \<noteq> slot v' x' MAXFILE" using A(6) [of MAXFILE] y(2,4) by auto
    then show ?thesis using A(8) [OF y] B(8) [of y] A(7) y by simp
  qed
  moreover have "x'' = x\<lparr>iaddrs := iaddrs x''\<rparr>" using A(4) B(4) by (metis inode.surjective inode.update_convs(11))
  ultimately show ?thesis unfolding extended_def using A B sl no_leak_trans [OF A(10) B(10,6)] by auto
qed

lemma extended_step:
  assumes ok: "file_ok nblk S s v x" "free_ok nblk S {} s v" "used s v 0" and lay: "layout_ok S s"
    and len: "\<And>y. y < fssize s \<Longrightarrow> length (v (BBLOCK y s)) = BSIZE"
    and a: "a \<noteq> 0" "a < fssize s" "\<not> used s v a"
    and x': "x' = x\<lparr>iaddrs := as\<rparr>" "length as = NDIRECT + 1"
    and kn: "kn \<le> MAXFILE" "slot v x kn = 0" and sl: "\<And>k. k \<le> MAXFILE \<Longrightarrow> slot v' x' k = (if k = kn then a else slot v x k)"
    and v': "\<And>z. z \<noteq> slot v x MAXFILE \<or> z = 0 \<Longrightarrow> v' z = took_block s a v z"
  shows "extended nblk S s v x v' x'"
proof -
  have am: "a < nblk" "a \<notin> meta S s" using ok(2) a by (auto simp: free_ok_def)
  have ind: "slot v x MAXFILE \<noteq> 0 \<Longrightarrow> data_block nblk S s v (slot v x MAXFILE)" using ok(1) by (simp add: file_ok_def)
  have vt: "v' z = took_block s a v z" if "z \<in> meta S s \<or> z = a" for z
    using v' [of z] ind that a(1,3) by (cases "slot v x MAXFILE = 0") (auto simp: data_block_def)
  have us: "used s v' y \<longleftrightarrow> used s v y \<or> y = a" if y: "y < fssize s" for y
  proof -
    have "BBLOCK y s \<in> meta S s" using y by (auto simp: meta_def)
    then have "used s v' y \<longleftrightarrow> used s (took_block s a v) y" using vt by (simp add: used_def)
    then show ?thesis using used_took [OF a(2) am(2) y] len [OF a(2)] by simp
  qed
  have other: "v' y = v y" if "used s v y" "y \<notin> meta S s" "y \<noteq> slot v x MAXFILE" for y
    using v' [of y] that took_data [OF a(2), of y S v] a(3) by auto
  have keep: "v' (slot v x k) = v (slot v x k)" if "k < MAXFILE" "slot v x k \<noteq> 0" for k
  proof (rule other)
    show "used s v (slot v x k)" "slot v x k \<notin> meta S s" using ok(1) that by (auto simp: file_ok_def data_block_def)
    have "slot v x k = slot v x MAXFILE \<longrightarrow> k = MAXFILE"
      using ok(1) that unfolding file_ok_def by (metis le_refl less_imp_le)
    then show "slot v x k \<noteq> slot v x MAXFILE" using that(1) by blast
  qed
  have zero: "v' a = replicate BSIZE 0" using vt [of a] by (simp add: took_self)
  have len': "length (iaddrs x') = NDIRECT + 1" using x' by simp
  note E = file_extend [OF ok(1) len' kn sl a(1,3,2) am us keep zero]
  have "free_ok nblk S {} s v'" using ok(2) us by (auto simp: free_ok_def)
  moreover have "used s v' 0" using us [of 0] ok(3) a(2) by (metis word_gt_0 not_less_iff_gr_or_eq)
  moreover have "v' (IBLOCK i s) = v (IBLOCK i s)" if i: "i < ninodes s" for i
  proof -
    have m: "IBLOCK i s \<in> meta S s" using i by (auto simp: meta_def)
    moreover have "IBLOCK i s \<noteq> BBLOCK a s" using lay i a(2) by (auto simp: layout_ok_def)
    moreover have "IBLOCK i s \<noteq> a" using m am(2) by auto
    ultimately show ?thesis using vt took_other by simp
  qed
  moreover have "slot v' x' k = slot v x k \<or> slot v x k = 0 \<and> \<not> used s v (slot v' x' k)" if "k \<le> MAXFILE" for k
    using sl [OF that] kn(2) a(3) by auto
  moreover have "no_leak s v v' x'" using us sl [OF kn(1)] kn(1) by (auto simp: no_leak_def)
  ultimately show ?thesis unfolding extended_def using E us other x' by auto
qed

lemma get32_zero: "get32 (replicate n 0) off = 0"
  by (simp add: get32_def get_le_def le_decode_zero)

lemma get32_put_same: "off + 4 \<le> length d \<Longrightarrow> get32 (put32 off a d) off = a"
  by (simp add: get32_def put32_def get_put_le_same unsigned_less [of a, where 'a = nat, simplified])

lemma get32_put_other: "off + 4 \<le> length d \<Longrightarrow> i + 4 \<le> off \<or> off + 4 \<le> i \<Longrightarrow> get32 (put32 off a d) i = get32 d i"
  by (simp add: get32_def put32_def get_put_le_other)

lemma length_put32 [simp]: "off + 4 \<le> length d \<Longrightarrow> length (put32 off a d) = length d"
  by (simp add: put32_def)

lemma iupd_simps [simp]:
  "sb (iupd ip f st) = sb st" "ls (iupd ip f st) = ls st" "itab (iupd ip f st) j = (if j = ip then f (itab st ip) else itab st j)"
  by (simp_all add: iupd_def)

lemma BBLOCK_meta: "y < fssize s \<Longrightarrow> BBLOCK y s \<in> meta S s" and IBLOCK_meta: "i < ninodes s \<Longrightarrow> IBLOCK i s \<in> meta S s"
  by (auto simp: meta_def)

context block_store
begin

text \<open>Inside a transaction, with a well-formed file system and inode \<open>ip\<close>.\<close>

definition file_at :: "u32 set \<Rightarrow> 'd fs \<Rightarrow> nat \<Rightarrow> bool" where
  "file_at A st ip \<longleftrightarrow> fop A {} st \<and> bitmap_ok A {} (sb st) \<and> layout_ok S (sb st) \<and> free_ok nblk S {} (sb st) (fview st) \<and>
     used (sb st) (fview st) 0 \<and> file_ok nblk S (sb st) (fview st) (itab st ip) \<and> idev (itab st ip) = D"

definition file_step :: "u32 set \<Rightarrow> 'd fs \<Rightarrow> nat \<Rightarrow> u32 set \<Rightarrow> 'd fs \<Rightarrow> bool" where
  "file_step A st ip A' st' \<longleftrightarrow> A \<subseteq> A' \<and> file_at A' st' ip \<and> sb st' = sb st \<and> (\<forall>j. j \<noteq> ip \<longrightarrow> itab st' j = itab st j) \<and>
     extended nblk S (sb st) (fview st) (itab st ip) (fview st') (itab st' ip)"

lemma file_atD:
  assumes "file_at A st ip"
  shows "fop A {} st" "bitmap_ok A {} (sb st)" "layout_ok S (sb st)" "free_ok nblk S {} (sb st) (fview st)"
    "used (sb st) (fview st) 0" "file_ok nblk S (sb st) (fview st) (itab st ip)" "idev (itab st ip) = D"
  using assms unfolding file_at_def by blast+

lemma file_step_trans: "file_step A a ip B b \<Longrightarrow> file_step B b ip C c \<Longrightarrow> file_step A a ip C c"
  unfolding file_step_def using extended_trans by (metis order_trans)

lemma bitmap_length:
  "fop A H st \<Longrightarrow> bitmap_ok A G (sb st) \<Longrightarrow> y < fssize (sb st) \<Longrightarrow> length (fview st (BBLOCK y (sb st))) = BSIZE"
  using fop_length store_range by (simp add: bitmap_ok_def)

lemma bitmap_mono: "bitmap_ok A H s \<Longrightarrow> A \<subseteq> B \<Longrightarrow> bitmap_ok B H s"
  by (auto simp: bitmap_ok_def)

lemma file_slot:
  assumes "file_at A st ip" and "k \<le> MAXFILE" and "slot (fview st) (itab st ip) k \<noteq> 0"
  shows "data_block nblk S (sb st) (fview st) (slot (fview st) (itab st ip) k)"
  using file_atD(6) [OF assms(1)] assms(2,3) by (simp add: file_ok_def)

lemma file_at_read:
  assumes "file_at A st ip" and "fop A {} t" "fview t = fview st" "frame has {} st t"
  shows "file_at A t ip" "file_step A st ip A t"
proof -
  have e: "sb t = sb st" "itab t = itab st" using assms(4) by (simp_all add: frame_def)
  show "file_at A t ip" using assms(1-3) e by (simp add: file_at_def)
  then show "file_step A st ip A t" using e assms(1,3) extended_refl by (simp add: file_step_def file_at_def)
qed

lemma bmap_slot_ok:
  assumes at: "file_at A st ip" and "card A < cap" and i: "i \<le> NDIRECT"
  shows "\<exists>a st' A'. bmap_slot rw me ip i st = Ok (a, st') \<and> file_step A st ip A' st' \<and> (A' = A \<or> A' = insert a A) \<and>
    a = iaddrs (itab st' ip) ! i \<and> (iaddrs (itab st ip) ! i \<noteq> 0 \<longrightarrow> st' = st \<and> A' = A) \<and>
    (iaddrs (itab st ip) ! i = 0 \<and> a \<noteq> 0 \<longrightarrow> a \<in> A') \<and> (a = 0 \<longrightarrow> (\<forall>y<fssize (sb st). used (sb st) (fview st') y))"
proof (cases "iaddrs (itab st ip) ! i = 0")
  case False
  then show ?thesis using at file_at_read(2) [OF at] file_atD(1) [OF at]
    by (intro exI [of _ "iaddrs (itab st ip) ! i"] exI [of _ st] exI [of _ A]) (simp add: bmap_slot_def)
next
  case True
  let ?x = "itab st ip" and ?v = "fview st" and ?s = "sb st"
  note F = file_atD [OF at]
  from balloc_ok [OF F(1) _ assms(2) F(4,2,5)] obtain a t where
    t: "balloc rw me D st = Ok (a, t)" "frame has {} st t" and
    c: "if a = 0 then fop A {} t \<and> fview t = ?v \<and> (\<forall>y<fssize ?s. used ?s ?v y)
     else fop (insert a A) {} t \<and> a < fssize ?s \<and> \<not> used ?s ?v a \<and> (\<forall>y<a. used ?s ?v y) \<and> fview t = took_block ?s a ?v" by auto
  have e: "sb t = ?s" "itab t = itab st" using t(2) by (simp_all add: frame_def)
  show ?thesis
  proof (cases "a = 0")
    case z: True
    then show ?thesis using c t True file_at_read [OF at _ _ t(2)] e F(7)
      by (intro exI [of _ 0] exI [of _ t] exI [of _ A]) (simp add: bmap_slot_def)
  next
    case nz: False
    let ?u = "iupd ip (\<lambda>x. x\<lparr>iaddrs := (iaddrs x)[i := a]\<rparr>) t" and ?x' = "?x\<lparr>iaddrs := (iaddrs ?x)[i := a]\<rparr>"
    let ?k = "if i < NDIRECT then i else MAXFILE"
    have len: "length (iaddrs ?x) = NDIRECT + 1" using F(6) by (simp add: file_ok_def)
    have a: "a < fssize ?s" "\<not> used ?s ?v a" and v: "fview t = took_block ?s a ?v" using c nz by simp_all
    have ind: "took_block ?s a ?v (iaddrs ?x ! 12) = ?v (iaddrs ?x ! 12)" if "iaddrs ?x ! 12 \<noteq> 0"
    proof (rule took_data [OF a(1)])
      have d: "data_block nblk S ?s ?v (slot ?v ?x 268)" using file_slot [OF at, of 268] that by (simp add: slot_def)
      then show "iaddrs ?x ! 12 \<noteq> a" "iaddrs ?x ! 12 \<notin> meta S ?s" using a(2) by (auto simp: data_block_def slot_def)
    qed
    have sl: "slot (took_block ?s a ?v) ?x' k = (if k = ?k then a else slot ?v ?x k)" if "k \<le> MAXFILE" for k
    proof (cases "i < 12")
      case True
      then show ?thesis using that len ind by (auto simp: slot_def nth_list_update)
    next
      case False
      then have "i = 12" using i by simp
      then show ?thesis using that len True nz by (auto simp: slot_def nth_list_update took_self get32_zero)
    qed
    have g: "extended nblk S ?s ?v ?x (fview ?u) (itab ?u ip)"
    proof (rule extended_step [OF F(6,4,5,3) bitmap_length [OF F(1,2)] nz a, where kn = "?k" and as = "(iaddrs ?x)[i := a]"])
      show "slot ?v ?x ?k = 0" using True i by (auto simp: slot_def)
      show "slot (fview ?u) (itab ?u ip) k = (if k = ?k then a else slot ?v ?x k)" if "k \<le> MAXFILE" for k
        using sl [OF that] v e by simp
    qed (use v e len i in auto)
    have "file_at (insert a A) ?u ip"
      using c nz F extendedD(1,2,3) [OF g] extended_fields(2) [OF g] e bitmap_mono [OF F(2) subset_insertI [of A a]]
      by (simp add: file_at_def)
    then have "file_step A st ip (insert a A) ?u" using g e by (auto simp: file_step_def)
    moreover have "bmap_slot rw me ip i st = Ok (a, ?u)" using True t(1) nz F(7) by (simp add: bmap_slot_def)
    moreover have "a = iaddrs (itab ?u ip) ! i" using len i e by simp
    ultimately show ?thesis using True nz by (intro exI [of _ a] exI [of _ ?u] exI [of _ "insert a A"]) simp
  qed
qed

lemma indirect_slot: "i < NINDIRECT \<Longrightarrow> iaddrs x ! NDIRECT \<noteq> 0 \<Longrightarrow> slot v x (NDIRECT + i) = get32 (v (iaddrs x ! NDIRECT)) (4 * i)"
  by (simp add: slot_def)

lemma slot_put_entry:
  assumes "i < NINDIRECT" and "k \<le> MAXFILE" and "iaddrs x ! NDIRECT \<noteq> 0" and "length (v (iaddrs x ! NDIRECT)) = BSIZE"
    and "v' (iaddrs x ! NDIRECT) = put32 (4 * i) a (v (iaddrs x ! NDIRECT))"
  shows "slot v' x k = (if k = NDIRECT + i then a else slot v x k)"
proof -
  have b: "4 * i + 4 \<le> length (v (iaddrs x ! NDIRECT))" using assms(1,4) by simp
  show ?thesis
  proof (cases "k < 12 \<or> k = 268 \<or> k = 12 + i")
    case True
    then show ?thesis using assms get32_put_same [OF b] by (auto simp: slot_def)
  next
    case False
    then have "4 * (k - 12) + 4 \<le> 4 * i \<or> 4 * i + 4 \<le> 4 * (k - 12)" by auto
    then show ?thesis using False assms get32_put_other [OF b] by (auto simp: slot_def)
  qed
qed

lemma bmap_entry_ok:
  assumes at: "file_at A st ip" and cap: "card (insert (iaddrs (itab st ip) ! NDIRECT) A) < cap"
    and i: "i < NINDIRECT" and ind: "iaddrs (itab st ip) ! NDIRECT \<noteq> 0"
  shows "\<exists>a st' A'. obind (fs_bread rw me D (iaddrs (itab st ip) ! NDIRECT) st) (\<lambda>(bp, st).
      obind (bmap_entry rw me ip bp i st) (\<lambda>(addr, st). obind (fs_brelse me bp st) (\<lambda>st. Ok (addr, st)))) = Ok (a, st') \<and>
    file_step A st ip A' st' \<and> A' \<subseteq> insert (iaddrs (itab st ip) ! NDIRECT) (insert a A) \<and>
    iaddrs (itab st' ip) ! NDIRECT = iaddrs (itab st ip) ! NDIRECT \<and> a = slot (fview st') (itab st' ip) (NDIRECT + i) \<and>
    (slot (fview st) (itab st ip) (NDIRECT + i) \<noteq> 0 \<longrightarrow> fview st' = fview st) \<and>
    (slot (fview st) (itab st ip) (NDIRECT + i) = 0 \<and> a \<noteq> 0 \<longrightarrow> a \<in> A') \<and>
    (a = 0 \<longrightarrow> (\<forall>y<fssize (sb st). used (sb st) (fview st') y))"
proof -
  let ?x = "itab st ip" and ?v = "fview st" and ?s = "sb st" and ?n = "iaddrs (itab st ip) ! NDIRECT"
  note F = file_atD [OF at]
  have s268: "slot ?v ?x MAXFILE = ?n" by (simp add: slot_def)
  have d: "data_block nblk S ?s ?v ?n" using file_slot [OF at, of MAXFILE] ind by (simp add: s268)
  then have n: "?n < nblk" "?n \<notin> meta S ?s" "used ?s ?v ?n" "?n < fssize ?s" by (simp_all add: data_block_def)
  have ln: "length (?v ?n) = BSIZE" by (rule fop_length [OF F(1) n(1)])
  have nl: "?n \<notin> log_area S" using n(2) by (simp add: meta_def)
  from fop_bread [OF F(1) n(1)] obtain bp t where
    t: "fs_bread rw me D ?n st = Ok (bp, t)" "fop A {?n} t" "fview t = ?v" "fhas t bp ?n" "bdata bp t = ?v ?n" "frame has {} st t" by auto
  have et: "sb t = ?s" "itab t = itab st" using t(6) by (simp_all add: frame_def)
  show ?thesis
  proof (cases "get32 (?v ?n) (4 * i) = 0")
    case False
    from fop_brelse [OF t(2,4)] obtain w where w: "fs_brelse me bp t = Ok w" "fop A {} w" "fview w = fview t" "frame has {} t w" by auto
    have fr: "frame has {} st w" using t(6) w(4) by (rule frame_trans)
    note R = file_at_read [OF at w(2) _ fr]
    have e: "itab w = itab st" using fr by (rule frame_itab)
    show ?thesis using False t w R(2) e ind i
      by (intro exI [of _ "get32 (?v ?n) (4 * i)"] exI [of _ w] exI [of _ A]) (auto simp: bmap_entry_def slot_def)
  next
    case True
    let ?A = "insert ?n A"
    have op: "fop ?A {?n} t" using store_may_log [OF t(2) n(1) nl] cap by simp
    have fo: "free_ok nblk S {?n} (sb t) (fview t)" using F(4) n(3) t(3) et by (auto simp: free_ok_def)
    have bo: "bitmap_ok ?A {?n} (sb t)" using F(2) n(2) et(1) BBLOCK_meta [of _ ?s S] by (fastforce simp: bitmap_ok_def)
    have ch: "card {?n} \<le> 2" by simp
    have b0: "used (sb t) (fview t) 0" using F(5) t(3) et by simp
    from balloc_ok [OF op ch cap fo bo b0, unfolded et t(3)] obtain a u where
      u: "balloc rw me D t = Ok (a, u)" "frame has {?n} t u" and
      c: "if a = 0 then fop ?A {?n} u \<and> fview u = ?v \<and> (\<forall>y<fssize ?s. used ?s ?v y)
        else fop (insert a ?A) {?n} u \<and> a < fssize ?s \<and> \<not> used ?s ?v a \<and> (\<forall>y<a. used ?s ?v y) \<and> fview u = took_block ?s a ?v" by blast
    have eu: "sb u = ?s" "itab u = itab st" "fhas u bp ?n" using u(2) et t(4) by (auto simp: frame_def)
    show ?thesis
    proof (cases "a = 0")
      case z: True
      then have cu: "fop ?A {?n} u" "fview u = ?v" "\<forall>y<fssize ?s. used ?s ?v y" using c by simp_all
      from fop_brelse [OF cu(1) eu(3)] obtain w where w: "fs_brelse me bp u = Ok w" "fop ?A {} w" "fview w = fview u" "frame has {} u w" by auto
      have fr: "frame has {} st w" using t(6) u(2) w(4) by (auto simp: frame_def)
      have "file_at ?A st ip" using at store_may_log [OF F(1) n(1) nl] cap bitmap_mono [OF F(2)] by (auto simp: file_at_def)
      note R = file_at_read [OF this w(2) _ fr]
      have e: "itab w = itab st" using fr by (rule frame_itab)
      have "file_step A st ip ?A w" using R(2) cu(2) w(3) by (auto simp: file_step_def)
      then show ?thesis using True z t u w e cu ind i F(7) et
        by (intro exI [of _ 0] exI [of _ w] exI [of _ ?A]) (auto simp: bmap_entry_def slot_def)
    next
      case nz: False
      let ?A2 = "insert a ?A"
      have cu: "fop ?A2 {?n} u" "a < fssize ?s" "\<not> used ?s ?v a" "fview u = took_block ?s a ?v" using c nz by simp_all
      have na: "?n \<noteq> a" using n(3) cu(3) by auto
      have un: "fview u ?n = ?v ?n" using cu(4) took_data [OF cu(2) na n(2)] by simp
      then have bd: "bdata bp u = ?v ?n" using fop_data [OF cu(1) eu(3)] by (simp add: bdata_def)
      let ?d = "put32 (4 * i) a (?v ?n)"
      from write_back_ok [OF cu(1) eu(3), of ?d] ln i obtain w where
        w: "obind (fs_log_write bp (bstore bp ?d u)) (fs_brelse me bp) = Ok w" "fop ?A2 {} w" "fview w = (fview u)(?n := ?d)" "frame has {} u w"
        by auto
      have ew: "sb w = ?s" "itab w = itab st" using w(4) eu by (simp_all add: frame_def)
      have sl: "slot (fview w) ?x k = (if k = NDIRECT + i then a else slot ?v ?x k)" if "k \<le> MAXFILE" for k
        using i that ind ln by (rule slot_put_entry) (simp add: w(3))
      have g: "extended nblk S ?s ?v ?x (fview w) (itab w ip)"
      proof (rule extended_step [OF F(6,4,5,3) bitmap_length [OF F(1,2)] nz cu(2,3), where kn = "NDIRECT + i" and as = "iaddrs ?x"])
        show "slot ?v ?x (NDIRECT + i) = 0" using True ind i by (simp add: slot_def)
        show "fview w z = took_block ?s a ?v z" if "z \<noteq> slot ?v ?x MAXFILE \<or> z = 0" for z
          using that w(3) cu(4) ind by (auto simp: s268)
      qed (use sl ew i F(6) in \<open>auto simp: file_ok_def\<close>)
      have "file_at ?A2 w ip"
        using w(2) F ew extendedD(1-3) [OF g] bitmap_mono [OF F(2), of ?A2] by (auto simp: file_at_def)
      then have "file_step A st ip ?A2 w" using g ew by (auto simp: file_step_def)
      moreover have "bmap_entry rw me ip bp i t = obind (fs_log_write bp (bstore bp ?d u)) (\<lambda>st. Ok (a, st))"
        using True nz t(5) u(1) bd et F(7) by (simp add: bmap_entry_def)
      then have "obind (bmap_entry rw me ip bp i t) (\<lambda>(addr, st). obind (fs_brelse me bp st) (\<lambda>st. Ok (addr, st))) = Ok (a, w)"
        using w(1) by (auto simp: obind_assoc obind_Ok_iff)
      ultimately show ?thesis using t(1) ew ind i nz sl [of "NDIRECT + i"] True
        by (intro exI [of _ a] exI [of _ w] exI [of _ ?A2]) (auto simp: slot_def)
    qed
  qed
qed

lemma bmap_ok:
  assumes at: "file_at A st ip" and cap: "card A + 2 \<le> cap" and bn: "bn < MAXFILE"
  shows "\<exists>a st' A'. bmap rw me ip bn st = Ok (a, st') \<and> file_step A st ip A' st' \<and>
    card A' \<le> card A + 2 \<and> (a \<noteq> 0 \<longrightarrow> card (insert a A') \<le> card A + 2) \<and> a = slot (fview st') (itab st' ip) bn \<and>
    (slot (fview st) (itab st ip) bn \<noteq> 0 \<longrightarrow> fview st' = fview st) \<and>
    (a = 0 \<longrightarrow> (\<forall>y<fssize (sb st). used (sb st) (fview st') y))"
proof (cases "bn < NDIRECT")
  case True
  have "card A < cap" using cap by simp
  from bmap_slot_ok [OF at this, of bn] True obtain a t B where
    t: "bmap_slot rw me ip bn st = Ok (a, t)" "file_step A st ip B t" "B = A \<or> B = insert a A" "a = iaddrs (itab t ip) ! bn"
      "iaddrs (itab st ip) ! bn \<noteq> 0 \<longrightarrow> t = st \<and> B = A"
      "a = 0 \<longrightarrow> (\<forall>y<fssize (sb st). used (sb st) (fview t) y)" by auto
  have "finite A" using store_finite file_atD(1) [OF at] by blast
  then have "card B \<le> card A + 2" "card (insert a B) \<le> card A + 2" using t(3) by (auto simp: card_insert_if)
  then show ?thesis using t True by (intro exI [of _ a] exI [of _ t] exI [of _ B]) (auto simp: bmap_def slot_def)
next
  case False
  then have bi: "bn - NDIRECT < NINDIRECT" "NDIRECT + (bn - NDIRECT) = bn" using bn by simp_all
  have fA: "finite A" using store_finite file_atD(1) [OF at] by blast
  from bmap_slot_ok [OF at, of NDIRECT] cap obtain n t B where
    t: "bmap_slot rw me ip NDIRECT st = Ok (n, t)" "file_step A st ip B t" "B = A \<or> B = insert n A" "n = iaddrs (itab t ip) ! NDIRECT"
      "iaddrs (itab st ip) ! NDIRECT \<noteq> 0 \<longrightarrow> t = st \<and> B = A" "n = 0 \<longrightarrow> (\<forall>y<fssize (sb st). used (sb st) (fview t) y)" by auto
  show ?thesis
  proof (cases "n = 0")
    case True
    have "bmap rw me ip bn st = Ok (0, t)" using False bn t(1) True by (simp add: bmap_def Let_def)
    moreover have "card B \<le> card A + 2" using t(3) fA by (auto simp: card_insert_if)
    moreover have "slot (fview t) (itab t ip) bn = 0" using True t(4) False bn by (simp add: slot_def)
    moreover have "slot (fview st) (itab st ip) bn \<noteq> 0 \<longrightarrow> fview t = fview st" using t(5) False by (auto simp: slot_def)
    ultimately show ?thesis using t(2,6) True by (intro exI [of _ 0] exI [of _ t] exI [of _ B]) simp
  next
    case nz: False
    have bt: "file_at B t ip" "sb t = sb st" using t(2) by (simp_all add: file_step_def)
    have cB: "card (insert n B) \<le> card A + 1" "finite B" using t(3) fA by (auto simp: card_insert_if)
    then have "card (insert (iaddrs (itab t ip) ! NDIRECT) B) < cap" using cap t(4) by simp
    from bmap_entry_ok [OF bt(1) this bi(1)] nz t(4) obtain a u C where
      u: "obind (fs_bread rw me D n t) (\<lambda>(bp, st). obind (bmap_entry rw me ip bp (bn - NDIRECT) st)
          (\<lambda>(addr, st). obind (fs_brelse me bp st) (\<lambda>st. Ok (addr, st)))) = Ok (a, u)"
        "file_step B t ip C u" "C \<subseteq> insert n (insert a B)" "a = slot (fview u) (itab u ip) bn"
        "slot (fview t) (itab t ip) bn \<noteq> 0 \<longrightarrow> fview u = fview t"
        "a = 0 \<longrightarrow> (\<forall>y<fssize (sb t). used (sb t) (fview u) y)" unfolding bi(2) by auto
    have "idev (itab t ip) = D" using file_atD(7) [OF bt(1)] .
    then have "bmap rw me ip bn st = Ok (a, u)" using False bn t(1) nz u(1) by (simp add: bmap_def Let_def)
    moreover have "card (insert a C) \<le> card (insert a (insert n B))" using u(3) cB(2) by (intro card_mono) auto
    then have "card (insert a C) \<le> card A + 2" using cB by (simp add: card_insert_if split: if_splits)
    moreover have "finite C" using store_finite file_atD(1) u(2) unfolding file_step_def by blast
    then have "card C \<le> card (insert a C)" by (simp add: card_insert_le)
    moreover have "fview u = fview st" if "slot (fview st) (itab st ip) bn \<noteq> 0"
    proof -
      have "iaddrs (itab st ip) ! NDIRECT \<noteq> 0" using that False bn by (auto simp: slot_def split: if_splits)
      then show ?thesis using t(5) u(5) that by simp
    qed
    ultimately show ?thesis using file_step_trans [OF t(2) u(2)] u(4,6) bt(2)
      by (intro exI [of _ a] exI [of _ u] exI [of _ C]) auto
  qed
qed

end

section \<open>Copying to memory\<close>

definition accessible :: "bool \<Rightarrow> umem \<Rightarrow> u64 \<Rightarrow> nat \<Rightarrow> bool" where
  "accessible user um a n \<longleftrightarrow> (user \<longrightarrow> (\<forall>i<n. um (a + word_of_nat i) \<noteq> None))"

definition filled :: "u64 \<Rightarrow> nat \<Rightarrow> (nat \<Rightarrow> u8) \<Rightarrow> umem \<Rightarrow> umem" where
  "filled a n f um = (\<lambda>x. if unat (x - a) < n then Some (f (unat (x - a))) else um x)"

lemma filled_cong: "(\<And>i. i < n \<Longrightarrow> f i = g i) \<Longrightarrow> filled a n f um = filled a n g um"
  by (auto simp: filled_def)

lemma copyout_accessible:
  assumes "accessible user um a (length bs)" and "length bs < 2 ^ 64"
  shows "either_copyout user a bs um = (True, filled a (length bs) ((!) bs) um)"
proof (cases user)
  case True
  have "ucopyout a bs um = (length bs = length bs, \<lambda>x. if unat (x - a) < length bs then Some (bs ! unat (x - a)) else um x)"
    using assms True by (intro ucopyout_prefix) (auto simp: accessible_def)
  then show ?thesis using True by (simp add: either_copyout_def filled_def)
qed (simp add: either_copyout_def filled_def)

lemma copyout_fault:
  assumes "\<not> accessible user um a (length bs)" and "length bs < 2 ^ 64"
  shows "\<not> fst (either_copyout user a bs um)"
proof -
  obtain i where i: "user" "i < length bs" "um (a + word_of_nat i) = None" using assms(1) by (auto simp: accessible_def)
  define k where "k = (LEAST k. um (a + word_of_nat k) = None)"
  have k: "um (a + word_of_nat k) = None" "k \<le> i" unfolding k_def using i(3) by (auto intro: LeastI Least_le)
  have "um (a + word_of_nat j) \<noteq> None" if "j < k" for j using not_less_Least that unfolding k_def by blast
  then have "ucopyout a bs um = (k = length bs, \<lambda>x. if unat (x - a) < k then Some (bs ! unat (x - a)) else um x)"
    using k i(2) assms(2) by (intro ucopyout_prefix) auto
  then show ?thesis using i(1,2) k(2) by (simp add: either_copyout_def)
qed

lemma filled_append:
  assumes "m + n < 2 ^ 64"
  shows "filled (a + word_of_nat m) n (\<lambda>i. f (m + i)) (filled a m f um) = filled a (m + n) f um"
proof
  fix x :: u64
  let ?u = "unat (x - a)"
  have c: "x - (a + word_of_nat m) = (x - a) - word_of_nat m" by simp
  have um: "unat (word_of_nat m :: u64) = m" using assms by (simp add: unat_of_nat take_bit_nat_eq_self)
  show "filled (a + word_of_nat m) n (\<lambda>i. f (m + i)) (filled a m f um) x = filled a (m + n) f um x"
  proof (cases "?u < m")
    case True
    have "unat (x - a - word_of_nat m) = 2 ^ 64 + ?u - m"
      using True assms unsigned_less [of "x - a", where 'a = nat] unat_sub_if' [of "x - a" "word_of_nat m"] by (simp add: um)
    then have "\<not> unat (x - a - word_of_nat m) < n" using True assms by linarith
    then show ?thesis using True by (simp add: filled_def c)
  next
    case False
    then have "unat (x - a - word_of_nat m) = ?u - m" using unat_sub [of "word_of_nat m" "x - a"] by (simp add: um word_le_nat_alt)
    then show ?thesis using False by (auto simp: filled_def c)
  qed
qed

lemma accessible_filled:
  assumes "accessible user um a m" and "m + n < 2 ^ 64"
  shows "accessible user (filled a m f um) (a + word_of_nat m) n \<longleftrightarrow> accessible user um a (m + n)"
proof -
  have f: "filled a m f um (a + word_of_nat m + word_of_nat i) = um (a + word_of_nat (m + i))" if "i < n" for i
  proof -
    have e: "a + word_of_nat m + word_of_nat i = a + word_of_nat (m + i)" by simp
    show ?thesis unfolding e using offset_word [of "m + i" a] that assms(2) by (simp add: filled_def del: of_nat_add)
  qed
  have "(\<forall>i<m + n. um (a + word_of_nat i) \<noteq> None) \<longleftrightarrow> (\<forall>i<n. um (a + word_of_nat (m + i)) \<noteq> None)" if "user"
  proof -
    have "um (a + word_of_nat i) \<noteq> None" if "\<forall>i<n. um (a + word_of_nat (m + i)) \<noteq> None" "i < m + n" for i
      using that assms(1) \<open>user\<close> by (cases "i < m") (auto simp: accessible_def simp del: of_nat_add dest: spec [of _ "i - m"])
    then show ?thesis by (metis nat_add_left_cancel_less)
  qed
  then show ?thesis using f by (auto simp: accessible_def simp del: of_nat_add)
qed

section \<open>Reading a file\<close>

lemma chunk_div:
  assumes "off mod BSIZE + i < BSIZE"
  shows "(off + i) div BSIZE = off div BSIZE" and "(off + i) mod BSIZE = off mod BSIZE + i"
proof -
  have e: "off + i = off mod 1024 + i + off div 1024 * 1024" by simp
  show "(off + i) div BSIZE = off div BSIZE" unfolding e using assms by (simp only: div_mult_self1 zero_neq_numeral div_less not_False_eq_True)
  show "(off + i) mod BSIZE = off mod BSIZE + i" unfolding e using assms by (simp only: mod_mult_self1 mod_less)
qed

lemma chunk_bytes:
  assumes "off mod BSIZE + i < BSIZE" and "slot v x (off div BSIZE) \<noteq> 0"
  shows "fbyte v x (off + i) = v (slot v x (off div BSIZE)) ! (off mod BSIZE + i)"
proof -
  show ?thesis using assms(2) chunk_div [OF assms(1)] by (simp add: fbyte_def)
qed

context block_reader
begin

lemma bmap_read:
  assumes rd: "rd {} (ls st)" and ok: "file_ok nblk S s (view (ls st)) (itab st ip)" and dev: "idev (itab st ip) = D"
    and bn: "bn < MAXFILE" and nz: "slot (view (ls st)) (itab st ip) bn \<noteq> 0"
  shows "\<exists>st'. bmap rw me ip bn st = Ok (slot (view (ls st)) (itab st ip) bn, st') \<and> rd {} (ls st') \<and>
    view (ls st') = view (ls st) \<and> frame has {} st st'"
proof (cases "bn < NDIRECT")
  case True
  then show ?thesis using nz rd by (intro exI [of _ st]) (simp add: bmap_def bmap_slot_def slot_def)
next
  case False
  let ?n = "iaddrs (itab st ip) ! NDIRECT" and ?v = "view (ls st)"
  have n: "?n \<noteq> 0" "slot ?v (itab st ip) bn = get32 (?v ?n) (4 * (bn - NDIRECT))"
    using nz False bn by (auto simp: slot_def split: if_splits)
  then have "?n < nblk" using ok unfolding file_ok_def data_block_def slot_def by (auto dest: spec [of _ MAXFILE])
  from fs_bread_ok [OF rd this] obtain bp t where
    t: "fs_bread rw me D ?n st = Ok (bp, t)" "rd {?n} (ls t)" "view (ls t) = ?v" "has (ls t) bp ?n" "bdata bp t = ?v ?n" "frame has {} st t" by auto
  from fs_brelse_ok [OF t(2,4)] obtain u where u: "fs_brelse me bp t = Ok u" "rd {} (ls u)" "view (ls u) = view (ls t)" "frame has {} t u" by auto
  have "bmap rw me ip bn st = Ok (get32 (?v ?n) (4 * (bn - NDIRECT)), u)"
    using False bn n nz t(1,5) u(1) dev by (simp add: bmap_def Let_def bmap_slot_def bmap_entry_def)
  then show ?thesis using u t(3) n(2) frame_trans [OF t(6) u(4)] by (intro exI [of _ u]) simp
qed

text \<open>The blocks of the bytes from \<open>off\<close> up to \<open>e\<close> exist.\<close>

lemma readi_loop_ok:
  assumes "rd {} (ls st)" and "file_ok nblk S s (view (ls st)) (itab st ip)" and "idev (itab st ip) = D"
    and "off + (n - tot) \<le> MAXFILE * BSIZE" and "tot \<le> n" and "n < 2 ^ 32"
    and "\<forall>i. off \<le> i \<and> i < off + (n - tot) \<longrightarrow> slot (view (ls st)) (itab st ip) (i div BSIZE) \<noteq> 0"
  shows "\<exists>r um' st'. readi_loop rw me ip user n tot off dst um st = Ok (r, um', st') \<and> rd {} (ls st') \<and>
    view (ls st') = view (ls st) \<and> frame has {} st st' \<and>
    (if accessible user um dst (n - tot) then r = int n \<and>
       um' = filled dst (n - tot) (\<lambda>i. fbyte (view (ls st)) (itab st ip) (off + i)) um else r = -1)"
  using assms
proof (induction "n - tot" arbitrary: tot off dst um st rule: less_induct)
  case less
  let ?v = "view (ls st)" and ?x = "itab st ip"
  show ?case
  proof (cases "tot < n")
    case False
    then have "readi_loop rw me ip user n tot off dst um st = Ok (int tot, um, st)" by (subst readi_loop.simps) simp
    then show ?thesis using less.prems False
      by (intro exI [of _ "int tot"] exI [of _ um] exI [of _ st])
        (simp add: accessible_def filled_def)
  next
    case True
    let ?a = "slot ?v ?x (off div BSIZE)"
    define m where "m = min (n - tot) (BSIZE - off mod BSIZE)"
    have "off mod BSIZE < BSIZE" by simp
    then have m: "0 < m" "m \<le> n - tot" "off mod BSIZE + m \<le> BSIZE" using True unfolding m_def by linarith+
    have nz: "?a \<noteq> 0" using less.prems(7) True by simp
    have bn: "off div BSIZE < MAXFILE" using less.prems(4) True by (simp add: less_mult_imp_div_less)
    from bmap_read [OF less.prems(1-3) bn nz] obtain t where
      t: "bmap rw me ip (off div BSIZE) st = Ok (?a, t)" "rd {} (ls t)" "view (ls t) = ?v" "frame has {} st t" by blast
    have an: "?a < nblk" using less.prems(2) bn nz by (auto simp: file_ok_def data_block_def)
    have et: "itab t = itab st" using t(4) by (rule frame_itab)
    from fs_bread_ok [OF t(2) an] obtain bp u where
      u: "fs_bread rw me D ?a t = Ok (bp, u)" "rd {?a} (ls u)" "view (ls u) = ?v" "has (ls u) bp ?a" "bdata bp u = ?v ?a" "frame has {} t u"
      unfolding t(3) by auto
    from fs_brelse_ok [OF u(2,4)] obtain w where
      w: "fs_brelse me bp u = Ok w" "rd {} (ls w)" "view (ls w) = ?v" "frame has {} u w" unfolding u(3) by auto
    have fr: "frame has {} st w" using frame_trans [OF frame_trans [OF t(4) u(6)] w(4)] .
    have ew: "itab w = itab st" using fr by (rule frame_itab)
    let ?bs = "take m (drop (off mod BSIZE) (?v ?a))"
    let ?r = "either_copyout user dst ?bs um"
    have lb: "length ?bs = m" using read_length [OF less.prems(1) an] m by simp
    have bs: "?bs ! i = fbyte ?v ?x (off + i)" if "i < m" for i
    proof -
      have "?bs ! i = ?v ?a ! (off mod BSIZE + i)" using that lb by (simp add: nth_append)
      then show ?thesis using chunk_bytes [of off i ?v ?x] that m nz by simp
    qed
    have step: "readi_loop rw me ip user n tot off dst um st =
       (if \<not> fst ?r then Ok (-1, snd ?r, w)
        else readi_loop rw me ip user n (tot + m) (off + m) (dst + word_of_nat m) (snd ?r) w)"
      using True t(1) nz u(1,5) w(1) et less.prems(3)
      by (simp add: readi_loop.simps [of rw me ip user n tot off dst um st] Let_def flip: m_def)
    show ?thesis
    proof (cases "accessible user um dst m")
      case False
      then have "\<not> fst ?r" using copyout_fault [of user um dst ?bs] lb less.prems(6) m(2) by simp
      moreover have "\<not> accessible user um dst (n - tot)" using False m(2) unfolding accessible_def by (meson order_less_le_trans)
      ultimately show ?thesis using step w(2,3) fr by (intro exI [of _ "-1"] exI [of _ "snd ?r"] exI [of _ w]) simp
    next
      case acc: True
      have r: "?r = (True, filled dst m (\<lambda>i. fbyte ?v ?x (off + i)) um)"
        using copyout_accessible [of user um dst ?bs] acc lb less.prems(6) m(2) bs by (auto intro: filled_cong)
      let ?um = "filled dst m (\<lambda>i. fbyte ?v ?x (off + i)) um"
      have n': "n - (tot + m) = n - tot - m" by simp
      have sum: "m + (n - tot - m) = n - tot" using m(2) by simp
      have "\<exists>r um' st'. readi_loop rw me ip user n (tot + m) (off + m) (dst + word_of_nat m) ?um w = Ok (r, um', st') \<and> rd {} (ls st') \<and>
        view (ls st') = view (ls w) \<and> frame has {} w st' \<and>
        (if accessible user ?um (dst + word_of_nat m) (n - (tot + m)) then r = int n \<and>
         um' = filled (dst + word_of_nat m) (n - (tot + m)) (\<lambda>i. fbyte (view (ls w)) (itab w ip) (off + m + i)) ?um else r = -1)"
        
      proof (rule less.hyps)
        show "\<forall>i. off + m \<le> i \<and> i < off + m + (n - (tot + m)) \<longrightarrow> slot (view (ls w)) (itab w ip) (i div BSIZE) \<noteq> 0"
          using less.prems(7) m(2) unfolding w(3) ew by auto
      qed (use less.prems w(2,3) ew m in auto)
      then obtain r um' z where z: "readi_loop rw me ip user n (tot + m) (off + m) (dst + word_of_nat m) ?um w = Ok (r, um', z)"
        "rd {} (ls z)" "view (ls z) = ?v" "frame has {} w z"
        "if accessible user ?um (dst + word_of_nat m) (n - tot - m) then r = int n \<and>
         um' = filled (dst + word_of_nat m) (n - tot - m) (\<lambda>i. fbyte ?v ?x (off + m + i)) ?um else r = -1"
        unfolding w(3) ew n' by blast
      have ac: "accessible user ?um (dst + word_of_nat m) (n - tot - m) \<longleftrightarrow> accessible user um dst (n - tot)"
        using accessible_filled [OF acc, of "n - tot - m"] less.prems(6) unfolding sum by simp
      have "filled (dst + word_of_nat m) (n - tot - m) (\<lambda>i. fbyte ?v ?x (off + m + i)) ?um =
          filled dst (n - tot) (\<lambda>i. fbyte ?v ?x (off + i)) um"
        using filled_append [of m "n - tot - m" dst "\<lambda>i. fbyte ?v ?x (off + i)" um] less.prems(6)
        unfolding sum by (simp add: add.assoc)
      then show ?thesis using step r z frame_trans [OF fr z(4)] unfolding ac
        by (intro exI [of _ r] exI [of _ um'] exI [of _ z]) simp
    qed
  qed
qed

end

section \<open>Writing a file\<close>

text \<open>As \<open>extended\<close>, with the bytes from \<open>lo\<close> up to \<open>hi\<close> replaced by \<open>g\<close>.\<close>

definition written :: "u32 \<Rightarrow> u32 \<Rightarrow> superblock \<Rightarrow> nat \<Rightarrow> nat \<Rightarrow> (nat \<Rightarrow> u8) \<Rightarrow> (u32 \<Rightarrow> u8 list) \<Rightarrow> inode \<Rightarrow> (u32 \<Rightarrow> u8 list) \<Rightarrow> inode \<Rightarrow> bool" where
  "written nblk S s lo hi g v x v' x' \<longleftrightarrow> file_ok nblk S s v' x' \<and> free_ok nblk S {} s v' \<and> used s v' 0 \<and>
     x' = x\<lparr>iaddrs := iaddrs x'\<rparr> \<and>
     (\<forall>i<MAXFILE * BSIZE. fbyte v' x' i = (if lo \<le> i \<and> i < hi then g i else fbyte v x i)) \<and>
     (\<forall>k\<le>MAXFILE. slot v' x' k = slot v x k \<or> slot v x k = 0 \<and> \<not> used s v (slot v' x' k)) \<and>
     (\<forall>y<fssize s. used s v y \<longrightarrow> used s v' y) \<and>
     (\<forall>y<fssize s. used s v y \<and> y \<notin> meta S s \<and> (\<forall>k\<le>MAXFILE. slot v x k \<noteq> y) \<longrightarrow> v' y = v y) \<and>
     (\<forall>i<ninodes s. v' (IBLOCK i s) = v (IBLOCK i s)) \<and> no_leak s v v' x'"

lemma writtenD:
  assumes "written nblk S s lo hi g v x v' x'"
  shows "file_ok nblk S s v' x'" "free_ok nblk S {} s v'" "used s v' 0" "x' = x\<lparr>iaddrs := iaddrs x'\<rparr>"
    "\<And>i. i < MAXFILE * BSIZE \<Longrightarrow> fbyte v' x' i = (if lo \<le> i \<and> i < hi then g i else fbyte v x i)"
    "\<And>k. k \<le> MAXFILE \<Longrightarrow> slot v' x' k = slot v x k \<or> slot v x k = 0 \<and> \<not> used s v (slot v' x' k)"
    "\<And>y. y < fssize s \<Longrightarrow> used s v y \<Longrightarrow> used s v' y"
    "\<And>y. y < fssize s \<Longrightarrow> used s v y \<Longrightarrow> y \<notin> meta S s \<Longrightarrow> \<forall>k\<le>MAXFILE. slot v x k \<noteq> y \<Longrightarrow> v' y = v y"
    "\<And>i. i < ninodes s \<Longrightarrow> v' (IBLOCK i s) = v (IBLOCK i s)" "no_leak s v v' x'"
  using assms unfolding written_def by (blast, blast, blast, blast, blast, blast, blast, blast, blast, blast)

lemma written_fields:
  assumes "written nblk S s lo hi g v x v' x'"
  shows "isize x' = isize x" "idev x' = idev x" "inum x' = inum x" "iref x' = iref x" "ilck x' = ilck x" "ivalid x' = ivalid x"
    "itype x' = itype x" "imajor x' = imajor x" "iminor x' = iminor x" "inlink x' = inlink x"
  by (subst writtenD(4) [OF assms], simp)+

lemma extended_written: "extended nblk S s v x v' x' \<Longrightarrow> written nblk S s lo lo g v x v' x'"
  unfolding extended_def written_def by auto

lemma written_trans:
  assumes a: "written nblk S s lo mid g v x v' x'" and b: "written nblk S s mid hi g v' x' v'' x''" and "lo \<le> mid" "mid \<le> hi"
  shows "written nblk S s lo hi g v x v'' x''"
proof -
  note A = writtenD [OF a] and B = writtenD [OF b]
  have sl: "slot v'' x'' k = slot v x k \<or> slot v x k = 0 \<and> \<not> used s v (slot v'' x'' k)" if k: "k \<le> MAXFILE" for k
  proof (cases "slot v'' x'' k = slot v' x' k")
    case True
    then show ?thesis using A(6) [OF k] by simp
  next
    case False
    then have z: "slot v' x' k = 0" "\<not> used s v' (slot v'' x'' k)" using B(6) [OF k] by simp_all
    have "slot v x k = 0" using A(6) [OF k] z(1) by auto
    moreover have "slot v'' x'' k < fssize s"
      using B(1) False z(1) k by (auto simp: file_ok_def data_block_def)
    ultimately show ?thesis using A(7) z(2) by blast
  qed
  have "v'' y = v y" if y: "y < fssize s" "used s v y" "y \<notin> meta S s" "\<forall>k\<le>MAXFILE. slot v x k \<noteq> y" for y
  proof -
    have "slot v' x' k \<noteq> y" if "k \<le> MAXFILE" for k using A(6) [OF that] y(2,4) that by auto
    then show ?thesis using A(8) [OF y] B(8) [of y] A(7) y by simp
  qed
  moreover have "x'' = x\<lparr>iaddrs := iaddrs x''\<rparr>" using A(4) B(4) by (metis inode.surjective inode.update_convs(11))
  moreover have "fbyte v'' x'' i = (if lo \<le> i \<and> i < hi then g i else fbyte v x i)" if "i < MAXFILE * BSIZE" for i
    using A(5) [OF that] B(5) [OF that] assms(3,4) by auto
  ultimately show ?thesis unfolding written_def using A B sl no_leak_trans [OF A(10) B(10,6)] by auto
qed

lemma nth_patch:
  assumes "off + length bs \<le> length d" and "i < length d"
  shows "patch off bs d ! i = (if off \<le> i \<and> i < off + length bs then bs ! (i - off) else d ! i)"
  using assms by (auto simp: patch_def nth_append min_def)

lemma length_patch: "off + length bs \<le> length d \<Longrightarrow> length (patch off bs d) = length d"
  by (simp add: patch_def)

text \<open>Overwriting part of one block of the file.\<close>

lemma written_chunk:
  assumes ok: "file_ok nblk S s v x" "free_ok nblk S {} s v" "used s v 0"
    and k: "off div BSIZE < MAXFILE" "slot v x (off div BSIZE) = a" "a \<noteq> 0"
    and len: "off mod BSIZE + m \<le> BSIZE" "length (v a) = BSIZE"
    and v': "v' = v(a := patch (off mod BSIZE) (map (\<lambda>i. g (off + i)) [0..<m]) (v a))"
  shows "written nblk S s off (off + m) g v x v' x"
proof -
  let ?k = "off div BSIZE"
  have d: "data_block nblk S s v a" using ok(1) k by (auto simp: file_ok_def)
  then have am: "a \<notin> meta S s" by (simp add: data_block_def)
  have inj: "j = ?k" if "j \<le> MAXFILE" "slot v x j = a" for j
    using ok(1) that k unfolding file_ok_def by (metis less_imp_le)
  have "a \<noteq> iaddrs x ! NDIRECT" using inj [of MAXFILE] k(1) by (auto simp: slot_def)
  then have sl: "slot v' x j = slot v x j" for j by (auto simp: slot_def v')
  have us: "used s v' y = used s v y" if "y < fssize s" for y
    using am BBLOCK_meta [OF that, of S] by (auto simp: used_def v')
  have "fbyte v' x i = (if off \<le> i \<and> i < off + m then g i else fbyte v x i)" if i: "i < MAXFILE * BSIZE" for i
  proof (cases "slot v x (i div BSIZE) = a")
    case False
    have "\<not> (off \<le> i \<and> i < off + m)"
    proof
      assume r: "off \<le> i \<and> i < off + m"
      then have "off mod BSIZE + (i - off) < BSIZE" using len(1) by linarith
      from chunk_div(1) [OF this] r have "i div BSIZE = ?k" by simp
      then show False using False k(2) by simp
    qed
    then show ?thesis using False sl by (auto simp: fbyte_def v')
  next
    case True
    have "i div BSIZE \<le> MAXFILE" using i by (simp add: less_mult_imp_div_less less_imp_le)
    then have ik: "i div BSIZE = ?k" using inj True by blast
    then have e: "i - off = i mod BSIZE - off mod BSIZE" "off \<le> i \<longleftrightarrow> off mod BSIZE \<le> i mod BSIZE"
      "i < off + m \<longleftrightarrow> i mod BSIZE < off mod BSIZE + m"
      using div_mult_mod_eq [of i BSIZE] div_mult_mod_eq [of off BSIZE] by linarith+
    have "v' a ! (i mod BSIZE) = (if off mod BSIZE \<le> i mod BSIZE \<and> i mod BSIZE < off mod BSIZE + m
        then g (off + (i mod BSIZE - off mod BSIZE)) else v a ! (i mod BSIZE))"
      unfolding v' using len by (subst fun_upd_same, subst nth_patch) auto
    then show ?thesis using True k(3) sl e by (auto simp: fbyte_def simp flip: e(1))
  qed
  moreover have "file_ok nblk S s v' x" using ok(1) sl us by (auto simp: file_ok_def data_block_def)
  moreover have "free_ok nblk S {} s v'" using ok(2) us by (auto simp: free_ok_def)
  moreover have "used s v' 0"
  proof -
    have "0 < fssize s" using d unfolding data_block_def by (metis word_neq_0_conv word_not_simps(1))
    then show ?thesis using us ok(3) by simp
  qed
  moreover have "v' (IBLOCK i s) = v (IBLOCK i s)" if "i < ninodes s" for i
    using am IBLOCK_meta [OF that, of S] by (auto simp: v')
  moreover have "v' y = v y" if "\<forall>k\<le>MAXFILE. slot v x k \<noteq> y" for y
    using that k by (auto simp: v' dest: spec [of _ ?k])
  moreover have "no_leak s v v' x" using us by (simp add: no_leak_def)
  ultimately show ?thesis unfolding written_def using us sl by simp
qed

text \<open>The number of blocks that \<open>n\<close> bytes from offset \<open>off\<close> touch.\<close>

definition span :: "nat \<Rightarrow> nat \<Rightarrow> nat" where
  "span off n = (if n = 0 then 0 else Suc ((off + n - 1) div BSIZE - off div BSIZE))"

lemma span_chunk:
  assumes "0 < n" and "m = min n (BSIZE - off mod BSIZE)"
  shows "Suc (span (off + m) (n - m)) \<le> span off n"
proof (cases "m = n")
  case True
  then show ?thesis using assms(1) by (simp add: span_def)
next
  case False
  then have m: "m = BSIZE - off mod BSIZE" "m < n" using assms by auto
  have "off mod BSIZE < BSIZE" by simp
  moreover have "q * 1024 + r + (1024 - r) = (q + 1) * 1024" if "r < 1024" for q r :: nat using that by simp
  from this [of "off mod BSIZE" "off div BSIZE"] have "off + m = (off div BSIZE + 1) * BSIZE" unfolding m(1) by simp
  then have d: "(off + m) div BSIZE = off div BSIZE + 1" by (simp only:) simp
  have "(off + m) div BSIZE \<le> (off + n - 1) div BSIZE" using m(2) by (intro div_le_mono) simp
  then show ?thesis using m(2) d by (simp add: span_def) linarith
qed

definition src_byte :: "umem \<Rightarrow> u64 \<Rightarrow> nat \<Rightarrow> u8" where
  "src_byte um src i = (case um (src + word_of_nat i) of Some b \<Rightarrow> b | None \<Rightarrow> 0)"

lemma uprefix_accessible: "(\<forall>i<n. um (src + word_of_nat i) \<noteq> None) \<Longrightarrow> uprefix src n um = map (src_byte um src) [0..<n]"
proof (induction n arbitrary: src)
  case (Suc n)
  have "\<forall>i<n. um (src + 1 + word_of_nat i) \<noteq> None" 
  proof (intro allI impI)
    fix i assume "i < n"
    then show "um (src + 1 + word_of_nat i) \<noteq> None" using Suc.prems [THEN spec, of "Suc i"] by (simp add: add.assoc)
  qed
  then have "uprefix (src + 1) n um = map (src_byte um (src + 1)) [0..<n]" by (rule Suc.IH)
  moreover have "src_byte um (src + 1) = (\<lambda>i. src_byte um src (Suc i))" by (simp add: src_byte_def fun_eq_iff add.assoc)
  moreover obtain b where "um src = Some b" using Suc.prems by fastforce
  ultimately show ?case by (simp add: map_upt_Suc src_byte_def del: upt_Suc)
qed simp

lemma copyin_accessible:
  "accessible user um src n \<Longrightarrow> either_copyin user src n um = (True, map (src_byte um src) [0..<n])"
  using uprefix_accessible [of n um src] by (cases user) (simp_all add: either_copyin_def accessible_def kbytes_of_def src_byte_def)

lemma accessible_shift: "accessible user um a (m + n) \<Longrightarrow> accessible user um (a + word_of_nat m) n"
  unfolding accessible_def by (metis add.assoc nat_add_left_cancel_less of_nat_add)

context block_store
begin

definition file_wrote :: "u32 set \<Rightarrow> 'd fs \<Rightarrow> nat \<Rightarrow> nat \<Rightarrow> nat \<Rightarrow> (nat \<Rightarrow> u8) \<Rightarrow> u32 set \<Rightarrow> 'd fs \<Rightarrow> bool" where
  "file_wrote A st ip lo hi g A' st' \<longleftrightarrow> A \<subseteq> A' \<and> file_at A' st' ip \<and> sb st' = sb st \<and> (\<forall>j. j \<noteq> ip \<longrightarrow> itab st' j = itab st j) \<and>
     written nblk S (sb st) lo hi g (fview st) (itab st ip) (fview st') (itab st' ip)"

lemma file_wrote_trans:
  assumes "file_wrote A a ip lo mid g B b" and "file_wrote B b ip mid hi g C c" and "lo \<le> mid" and "mid \<le> hi"
  shows "file_wrote A a ip lo hi g C c"
proof -
  have "sb b = sb a" using assms(1) by (simp add: file_wrote_def)
  then have "written nblk S (sb a) lo hi g (fview a) (itab a ip) (fview c) (itab c ip)"
    using assms(1,2) written_trans [OF _ _ assms(3,4)] unfolding file_wrote_def by metis
  then show ?thesis using assms(1,2) by (auto simp: file_wrote_def)
qed

lemma writei_chunk_ok:
  assumes at: "file_at A st ip" and a: "a = slot (fview st) (itab st ip) (off div BSIZE)" "a \<noteq> 0" "off div BSIZE < MAXFILE"
    and m: "off mod BSIZE + m \<le> BSIZE" and cap: "card (insert a A) \<le> cap"
  shows "\<exists>bp t u. fs_bread rw me D a st = Ok (bp, t) \<and>
      obind (fs_log_write bp (bstore bp (patch (off mod BSIZE) (map (\<lambda>i. g (off + i)) [0..<m]) (bdata bp t)) t)) (fs_brelse me bp) = Ok u \<and>
      file_wrote A st ip off (off + m) g (insert a A) u \<and> itab t = itab st"
proof -
  let ?v = "fview st" and ?x = "itab st ip" and ?s = "sb st"
  note F = file_atD [OF at]
  have "data_block nblk S ?s ?v a" using file_slot [OF at, of "off div BSIZE"] a by auto
  then have an: "a < nblk" "a \<notin> log_area S" by (auto simp: data_block_def meta_def)
  have ln: "length (?v a) = BSIZE" by (rule fop_length [OF F(1) an(1)])
  from fop_bread [OF F(1) an(1)] obtain bp t where
    t: "fs_bread rw me D a st = Ok (bp, t)" "fop A {a} t" "fview t = ?v" "fhas t bp a" "bdata bp t = ?v a" "frame has {} st t" by auto
  let ?d = "patch (off mod BSIZE) (map (\<lambda>i. g (off + i)) [0..<m]) (?v a)"
  have op: "fop (insert a A) {a} t" by (rule store_may_log [OF t(2) an cap])
  have "length ?d = BSIZE" using m ln by (simp add: length_patch)
  with write_back_ok [OF op t(4)] obtain u where
    u: "obind (fs_log_write bp (bstore bp ?d t)) (fs_brelse me bp) = Ok u" "fop (insert a A) {} u" "fview u = ?v(a := ?d)" "frame has {} t u"
    unfolding t(3) by blast
  have e: "sb u = ?s" "itab u = itab st" "itab t = itab st" using t(6) u(4) by (auto simp: frame_def)
  have w: "written nblk S ?s off (off + m) g ?v ?x (fview u) ?x"
    using a m ln u(3) by (intro written_chunk [OF F(6,4,5)]) auto
  have "file_at (insert a A) u ip"
    using u(2) F e writtenD(1-3) [OF w] bitmap_mono [OF F(2) subset_insertI [of A a]] by (simp add: file_at_def)
  then have "file_wrote A st ip off (off + m) g (insert a A) u" using w e by (auto simp: file_wrote_def)
  then show ?thesis using t(1,5) u(1) e(3) by (intro exI [of _ bp] exI [of _ t] exI [of _ u]) simp
qed

lemma writei_loop_ok:
  assumes "file_at A st ip" and "off + (n - tot) \<le> MAXFILE * BSIZE" and "tot \<le> n" and "accessible user um src (n - tot)"
    and "card A + 2 * span off (n - tot) \<le> cap" and "\<And>i. i < n - tot \<Longrightarrow> g (off + i) = src_byte um src i"
  shows "\<exists>tot' st' A'. writei_loop rw me ip user um n tot off src st = Ok (tot', off + (tot' - tot), st') \<and>
    tot \<le> tot' \<and> tot' \<le> n \<and> file_wrote A st ip off (off + (tot' - tot)) g A' st' \<and> card A' \<le> card A + 2 * span off (n - tot) \<and>
    (tot' < n \<longrightarrow> (\<forall>y<fssize (sb st). used (sb st) (fview st') y))"
  using assms
proof (induction "n - tot" arbitrary: tot off src st A rule: less_induct)
  case less
  let ?v = "fview st" and ?x = "itab st ip"
  note F = file_atD [OF less.prems(1)]
  have refl: "file_wrote A st ip off off g A st"
    using extended_written [OF extended_refl [OF F(6,4,5)]] less.prems(1) by (simp add: file_wrote_def)
  show ?case
  proof (cases "tot < n")
    case False
    then have "writei_loop rw me ip user um n tot off src st = Ok (tot, off, st)" by (subst writei_loop.simps) simp
    then show ?thesis using less.prems refl False by (intro exI [of _ tot] exI [of _ st] exI [of _ A]) simp
  next
    case True
    define m where "m = min (n - tot) (BSIZE - off mod BSIZE)"
    have "off mod BSIZE < BSIZE" by simp
    then have m: "0 < m" "m \<le> n - tot" "off mod BSIZE + m \<le> BSIZE" using True unfolding m_def by linarith+
    have bn: "off div BSIZE < MAXFILE" using less.prems(2) True by (simp add: less_mult_imp_div_less)
    have sp: "Suc (span (off + m) (n - tot - m)) \<le> span off (n - tot)" using True by (intro span_chunk) (simp_all add: m_def)
    have "card A + 2 \<le> cap" using less.prems(5) sp by linarith
    from bmap_ok [OF less.prems(1) this bn] obtain a t B where
      t: "bmap rw me ip (off div BSIZE) st = Ok (a, t)" "file_step A st ip B t" "card B \<le> card A + 2" "a \<noteq> 0 \<longrightarrow> card (insert a B) \<le> card A + 2"
        "a = slot (fview t) (itab t ip) (off div BSIZE)" "a = 0 \<longrightarrow> (\<forall>y<fssize (sb st). used (sb st) (fview t) y)" by blast
    have bt: "file_at B t ip" "sb t = sb st" using t(2) by (simp_all add: file_step_def)
    have gw: "file_wrote A st ip off off g B t" using t(2) extended_written by (auto simp: file_step_def file_wrote_def)
    show ?thesis
    proof (cases "a = 0")
      case z: True
      then have "writei_loop rw me ip user um n tot off src st = Ok (tot, off, t)"
        using t(1) True by (subst writei_loop.simps) simp
      moreover have "card B \<le> card A + 2 * span off (n - tot)" using t(3) sp by linarith
      ultimately show ?thesis using gw t(6) z True by (intro exI [of _ tot] exI [of _ t] exI [of _ B]) simp
    next
      case nz: False
      let ?C = "insert a B"
      have cC: "card ?C \<le> card A + 2" "card ?C \<le> cap" using t(4) nz less.prems(5) sp by linarith+
      have ga: "map (\<lambda>i. g (off + i)) [0..<m] = map (src_byte um src) [0..<m]" using less.prems(6) m(2) by simp
      from writei_chunk_ok [OF bt(1) t(5) nz bn m(3) cC(2), of g] obtain bp u w where
        w: "fs_bread rw me D a t = Ok (bp, u)"
          "obind (fs_log_write bp (bstore bp (patch (off mod BSIZE) (map (src_byte um src) [0..<m]) (bdata bp u)) u)) (fs_brelse me bp) = Ok w"
          "file_wrote B t ip off (off + m) g ?C w" "itab u = itab t" unfolding ga by blast
      have cm: "either_copyin user src m um = (True, map (src_byte um src) [0..<m])"
        using less.prems(4) m(2) by (intro copyin_accessible) (auto simp: accessible_def)
      have wt: "file_at ?C w ip" "sb w = sb st" using w(3) bt(2) by (simp_all add: file_wrote_def)
      have n': "n - (tot + m) = n - tot - m" by simp
      have step: "writei_loop rw me ip user um n tot off src st = writei_loop rw me ip user um n (tot + m) (off + m) (src + word_of_nat m) w"
        using t(1) True nz w(1,2,4) cm file_atD(7) [OF bt(1)]
        by (subst writei_loop.simps) (auto simp: Let_def obind_Ok_iff simp flip: m_def)
      have "\<exists>tot' st' A'. writei_loop rw me ip user um n (tot + m) (off + m) (src + word_of_nat m) w = Ok (tot', off + m + (tot' - (tot + m)), st') \<and>
         tot + m \<le> tot' \<and> tot' \<le> n \<and> file_wrote ?C w ip (off + m) (off + m + (tot' - (tot + m))) g A' st' \<and>
         card A' \<le> card ?C + 2 * span (off + m) (n - (tot + m)) \<and>
         (tot' < n \<longrightarrow> (\<forall>y<fssize (sb w). used (sb w) (fview st') y))"
      proof (rule less.hyps)
        show "card ?C + 2 * span (off + m) (n - (tot + m)) \<le> cap" using cC(1) sp less.prems(5) unfolding n' by linarith
        show "g (off + m + i) = src_byte um (src + word_of_nat m) i" if "i < n - (tot + m)" for i
          using less.prems(6) [of "m + i"] that by (simp add: src_byte_def add.assoc)
        show "accessible user um (src + word_of_nat m) (n - (tot + m))"
        proof (rule accessible_shift)
          have "m + (n - (tot + m)) = n - tot" using m(2) True by arith
          then show "accessible user um src (m + (n - (tot + m)))" using less.prems(4) by simp
        qed
      qed (use less.prems wt m True in auto)
      then obtain tot' z C where z: "writei_loop rw me ip user um n (tot + m) (off + m) (src + word_of_nat m) w = Ok (tot', off + m + (tot' - (tot + m)), z)"
         "tot + m \<le> tot'" "tot' \<le> n" "file_wrote ?C w ip (off + m) (off + m + (tot' - (tot + m))) g C z"
         "card C \<le> card ?C + 2 * span (off + m) (n - tot - m)" "tot' < n \<longrightarrow> (\<forall>y<fssize (sb st). used (sb st) (fview z) y)"
        unfolding n' wt(2) by blast
      have e: "off + m + (tot' - (tot + m)) = off + (tot' - tot)" using z(2) by simp
      have "file_wrote A st ip off (off + (tot' - tot)) g C z"
        using file_wrote_trans [OF file_wrote_trans [OF gw w(3)] z(4)] unfolding e using z(2) by simp
      moreover have "card C \<le> card A + 2 * span off (n - tot)" using z(5) cC(1) sp by linarith
      ultimately show ?thesis using step z(1,2,3,6) unfolding e by (intro exI [of _ tot'] exI [of _ z] exI [of _ C]) simp
    qed
  qed
qed

end

section \<open>Inodes on disk\<close>

lemma get16_put_same: "off + 2 \<le> length d \<Longrightarrow> get16 (put16 off a d) off = a"
  by (simp add: get16_def put16_def get_put_le_same unsigned_less [of a, where 'a = nat, simplified])

lemma length_put16 [simp]: "off + 2 \<le> length d \<Longrightarrow> length (put16 off a d) = length d"
  by (simp add: put16_def)

text \<open>Two fields of a block that do not overlap.\<close>

definition apart :: "nat \<Rightarrow> nat \<Rightarrow> nat \<Rightarrow> nat \<Rightarrow> bool" where
  "apart i m j n \<longleftrightarrow> i + m \<le> j \<or> j + n \<le> i"

lemma get_put_apart:
  "off + 4 \<le> length d \<Longrightarrow> apart i 4 off 4 \<Longrightarrow> get32 (put32 off a d) i = get32 d i"
  "off + 2 \<le> length d \<Longrightarrow> apart i 4 off 2 \<Longrightarrow> get32 (put16 off b d) i = get32 d i"
  "off + 4 \<le> length d \<Longrightarrow> apart i 2 off 4 \<Longrightarrow> get16 (put32 off a d) i = get16 d i"
  "off + 2 \<le> length d \<Longrightarrow> apart i 2 off 2 \<Longrightarrow> get16 (put16 off b d) i = get16 d i"
  by (simp_all add: get32_def put32_def get16_def put16_def get_put_le_other apart_def)

lemma put_addrs:
  fixes as :: "u32 list"
  assumes "off + 4 * n \<le> length d"
  defines "d' \<equiv> fold (\<lambda>i. put32 (off + 4 * i) (as ! i)) [0..<n] d"
  shows "length d' = length d \<and> (\<forall>i<n. get32 d' (off + 4 * i) = as ! i) \<and>
    (\<forall>j. apart j 4 off (4 * n) \<longrightarrow> get32 d' j = get32 d j) \<and> (\<forall>j. apart j 2 off (4 * n) \<longrightarrow> get16 d' j = get16 d j)"
  unfolding d'_def using assms(1)
proof (induction n)
  case (Suc n)
  let ?d = "fold (\<lambda>i. put32 (off + 4 * i) (as ! i)) [0..<n] d"
  note IH = Suc.IH [OF order_trans [OF _ Suc.prems]]
  have l: "off + 4 * n + 4 \<le> length ?d" using Suc.prems IH by simp
  have e: "fold (\<lambda>i. put32 (off + 4 * i) (as ! i)) [0..<Suc n] d = put32 (off + 4 * n) (as ! n) ?d" by simp
  have "get32 (put32 (off + 4 * n) (as ! n) ?d) (off + 4 * i) = as ! i" if "i < Suc n" for i
  proof (cases "i = n")
    case False
    then have "i < n" "apart (off + 4 * i) 4 (off + 4 * n) 4" using that by (auto simp: apart_def)
    then show ?thesis using l IH by (simp add: get_put_apart)
  qed (simp add: l get32_put_same)
  moreover have "apart j k off (4 * Suc n) \<Longrightarrow> apart j k off (4 * n) \<and> apart j k (off + 4 * n) 4" for j k
    by (auto simp: apart_def)
  ultimately show ?case unfolding e using l IH by (simp add: get_put_apart)
qed simp

definition dinode_ok :: "dinode \<Rightarrow> bool" where
  "dinode_ok di \<longleftrightarrow> length (daddrs di) = NDIRECT + 1"

lemma put_dinode:
  assumes "off + 64 \<le> length d" and "dinode_ok di"
  shows "length (put_dinode off di d) = length d" and "get_dinode (put_dinode off di d) off = di"
    and "apart j 64 off 64 \<Longrightarrow> get_dinode (put_dinode off di d) j = get_dinode d j"
proof -
  let ?h = "put32 (off + 8) (dsize di) (put16 (off + 6) (dnlink di) (put16 (off + 4) (dminor di)
       (put16 (off + 2) (dmajor di) (put16 off (dtype di) d))))"
  have lh: "length ?h = length d" using assms(1) by simp
  have "off + 12 + 4 * (NDIRECT + 1) \<le> length ?h" using lh assms(1) by simp
  note A = put_addrs [OF this, of "daddrs di"]
  show "length (put_dinode off di d) = length d" using A lh unfolding put_dinode_def by simp
  have h16: "get16 (put_dinode off di d) j = get16 ?h j" if "apart j 2 (off + 12) 52" for j
    using A that unfolding put_dinode_def by simp
  have h32: "get32 (put_dinode off di d) j = get32 ?h j" if "apart j 4 (off + 12) 52" for j
    using A that unfolding put_dinode_def by simp
  have "map (\<lambda>i. get32 (put_dinode off di d) (off + 12 + 4 * i)) [0..<NDIRECT + 1] = daddrs di"
    using A assms(2) unfolding put_dinode_def by (intro nth_equalityI) (simp_all add: dinode_ok_def)
  then show "get_dinode (put_dinode off di d) off = di"
    using assms(1) by (simp add: get_dinode_def h16 h32 apart_def get_put_apart get16_put_same get32_put_same
      dinode.equality del: upt_rec_numeral upt_Suc)
  assume j: "apart j 64 off 64"
  have "map (\<lambda>i. get32 (put_dinode off di d) (j + 12 + 4 * i)) [0..<NDIRECT + 1] = map (\<lambda>i. get32 d (j + 12 + 4 * i)) [0..<NDIRECT + 1]"
    using j assms(1) by (intro map_cong refl) (auto simp: h32 apart_def get_put_apart)
  then show "get_dinode (put_dinode off di d) j = get_dinode d j"
    using j assms(1) by (auto simp add: get_dinode_def h16 h32 apart_def get_put_apart simp del: upt_rec_numeral upt_Suc)
qed

text \<open>Writing an inode block changes no file contents and no bitmap.\<close>

lemma inode_write:
  assumes lay: "layout_ok S s" and i: "i < ninodes s" and v': "v' = v(IBLOCK i s := d)"
  shows "y < fssize s \<Longrightarrow> used s v' y = used s v y"
    and "file_ok nblk S s v x \<Longrightarrow> k \<le> MAXFILE \<Longrightarrow> slot v' x k = slot v x k"
    and "file_ok nblk S s v x \<Longrightarrow> file_ok nblk S s v' x"
    and "file_ok nblk S s v x \<Longrightarrow> j < MAXFILE * BSIZE \<Longrightarrow> fbyte v' x j = fbyte v x j"
    and "free_ok nblk S H s v \<Longrightarrow> free_ok nblk S H s v'"
proof -
  have m: "IBLOCK i s \<in> meta S s" by (rule IBLOCK_meta [OF i])
  show us: "used s v' y = used s v y" if "y < fssize s" for y
  proof -
    have "BBLOCK y s \<noteq> IBLOCK i s" using lay i that unfolding layout_ok_def by metis
    then show ?thesis by (simp add: used_def v')
  qed
  have db: "v' (slot v x k) = v (slot v x k)" if "file_ok nblk S s v x" "k \<le> MAXFILE" "slot v x k \<noteq> 0" for k
    using that m by (auto simp: file_ok_def data_block_def v')
  show sl: "slot v' x k = slot v x k" if "file_ok nblk S s v x" "k \<le> MAXFILE" for k
    using db [OF that(1), of MAXFILE] by (simp add: slot_def)
  show "file_ok nblk S s v' x" if "file_ok nblk S s v x"
    using that sl [OF that] us by (auto simp: file_ok_def data_block_def)
  show "fbyte v' x j = fbyte v x j" if "file_ok nblk S s v x" "j < MAXFILE * BSIZE"
  proof -
    have "j div BSIZE \<le> MAXFILE" using that(2) by simp
    then show ?thesis using sl [OF that(1)] db [OF that(1)] by (simp add: fbyte_def)
  qed
  show "free_ok nblk S H s v'" if "free_ok nblk S H s v" using that us by (auto simp: free_ok_def)
qed

definition ioff :: "u32 \<Rightarrow> nat" where
  "ioff i = 64 * (unat i mod IPB)"

context block_store
begin

lemma iupdate_ok:
  assumes at: "file_at A st ip" and i: "inum (itab st ip) < ninodes (sb st)" "IBLOCK (inum (itab st ip)) (sb st) \<in> A"
  shows "\<exists>st'. iupdate rw me ip st = Ok st' \<and> file_at A st' ip \<and> frame has {} st st' \<and>
    fview st' = (fview st)(IBLOCK (inum (itab st ip)) (sb st) :=
      put_dinode (ioff (inum (itab st ip))) (inode_to_disk (itab st ip)) (fview st (IBLOCK (inum (itab st ip)) (sb st))))"
proof -
  let ?x = "itab st ip" and ?s = "sb st" and ?v = "fview st"
  let ?b = "IBLOCK (inum ?x) ?s"
  note F = file_atD [OF at]
  have bn: "?b < nblk" by (rule store_range [OF F(1) i(2)])
  from fop_bread [OF F(1) bn] obtain bp t where
    t: "fs_bread rw me D ?b st = Ok (bp, t)" "fop A {?b} t" "fview t = ?v" "fhas t bp ?b" "bdata bp t = ?v ?b" "frame has {} st t" by auto
  have et: "itab t = itab st" "sb t = ?s" using t(6) by (simp_all add: frame_def)
  let ?d = "put_dinode (ioff (inum ?x)) (inode_to_disk ?x) (?v ?b)"
  have "ioff (inum ?x) + 64 \<le> BSIZE" by (simp add: ioff_def)
  moreover have "dinode_ok (inode_to_disk ?x)" using F(6) by (simp add: dinode_ok_def inode_to_disk_def file_ok_def)
  ultimately have "length ?d = BSIZE" using put_dinode(1) fop_length [OF F(1) bn] by simp
  with write_back_ok [OF t(2,4), of ?d] i(2) obtain u where
    u: "obind (fs_log_write bp (bstore bp ?d t)) (fs_brelse me bp) = Ok u" "fop A {} u" "fview u = ?v(?b := ?d)" "frame has {} t u"
    unfolding t(3) by auto
  have eu: "itab u = itab st" "sb u = ?s" using u(4) et by (simp_all add: frame_def)
  have "iupdate rw me ip st = Ok u" using t(1,5) u(1) F(7) et by (simp add: iupdate_def ioff_def)
  moreover have "file_at A u ip"
    using F u(2) eu inode_write [OF F(3) i(1) u(3)] by (auto simp: file_at_def layout_ok_def)
  ultimately show ?thesis using u(3) frame_trans [OF t(6) u(4)] by blast
qed

end

section \<open>readi and writei\<close>

lemma unat_add_bound: "unat (a :: u32) + unat b < 2 ^ 32 \<Longrightarrow> unat (a + b) = unat a + unat b"
  by (simp add: unat_word_ariths)

context block_reader
begin

lemma readi_ok:
  fixes off n :: u32
  assumes rd: "rd {} (ls st)" and ok: "file_ok nblk S s (view (ls st)) (itab st ip)" and dev: "idev (itab st ip) = D"
    and size: "unat (isize (itab st ip)) \<le> MAXFILE * BSIZE"
    and full: "\<And>i. i < unat (isize (itab st ip)) \<Longrightarrow> slot (view (ls st)) (itab st ip) (i div BSIZE) \<noteq> 0"
  defines "k \<equiv> (if isize (itab st ip) < off \<or> off + n < off then 0 else min (unat n) (unat (isize (itab st ip)) - unat off))"
  shows "\<exists>r um' st'. readi rw me ip user dst off n um st = Ok (r, um', st') \<and> rd {} (ls st') \<and>
    view (ls st') = view (ls st) \<and> frame has {} st st' \<and>
    (if accessible user um dst k then r = int k \<and>
       um' = filled dst k (\<lambda>i. fbyte (view (ls st)) (itab st ip) (unat off + i)) um else r = -1)"
proof (cases "isize (itab st ip) < off \<or> off + n < off")
  case True
  then show ?thesis using rd
    by (intro exI [of _ 0] exI [of _ um] exI [of _ st]) (auto simp: readi_def k_def Let_def accessible_def filled_def)
next
  case False
  let ?z = "isize (itab st ip)"
  let ?n = "if ?z < off + n then ?z - off else n"
  have nw: "unat off + unat n < 2 ^ 32" using False no_olen_add_nat [of off n] by (simp add: not_less)
  have le: "unat off \<le> unat ?z" using False by (simp add: word_le_nat_alt not_less)
  have n: "unat ?n = k"
  proof (cases "?z < off + n")
    case True
    then have "unat ?z < unat off + unat n" using nw by (simp add: word_less_nat_alt unat_add_bound)
    then show ?thesis using True False unat_sub [of off ?z] le by (simp add: k_def word_le_nat_alt)
  next
    case f: False
    then have "unat off + unat n \<le> unat ?z" using nw by (simp add: word_less_nat_alt unat_add_bound not_less)
    then show ?thesis using f False by (auto simp: k_def)
  qed
  have kz: "unat off + k \<le> unat ?z" using False le by (auto simp: k_def)
  have "\<exists>r um' st'. readi_loop rw me ip user k 0 (unat off) dst um st = Ok (r, um', st') \<and> rd {} (ls st') \<and>
    view (ls st') = view (ls st) \<and> frame has {} st st' \<and>
    (if accessible user um dst (k - 0) then r = int k \<and>
       um' = filled dst (k - 0) (\<lambda>i. fbyte (view (ls st)) (itab st ip) (unat off + i)) um else r = -1)"
  proof (rule readi_loop_ok [OF rd ok dev])
    show "unat off + (k - 0) \<le> MAXFILE * BSIZE" using kz size by simp
    show "k < 2 ^ 32" using kz unsigned_less [of ?z, where 'a = nat] by simp
    show "\<forall>i. unat off \<le> i \<and> i < unat off + (k - 0) \<longrightarrow> slot (view (ls st)) (itab st ip) (i div BSIZE) \<noteq> 0"
      using full kz by auto
  qed simp
  moreover have "readi rw me ip user dst off n um st = readi_loop rw me ip user k 0 (unat off) dst um st"
    using False n by (simp add: readi_def Let_def)
  ultimately show ?thesis by (simp only: diff_zero)
qed

end

context block_store
begin

lemma writei_ok:
  assumes at: "file_at A st ip" and i: "inum (itab st ip) < ninodes (sb st)" "IBLOCK (inum (itab st ip)) (sb st) \<in> A"
    and off: "off \<le> isize (itab st ip)" "unat off + unat n \<le> MAXFILE * BSIZE" and acc: "accessible user um src (unat n)"
    and cap: "card A + 2 * span (unat off) (unat n) \<le> cap"
  shows "\<exists>tot st' A'. writei rw me ip user src off n um st = Ok (int tot, st') \<and> tot \<le> unat n \<and>
    file_at A' st' ip \<and> A \<subseteq> A' \<and> card A' \<le> card A + 2 * span (unat off) (unat n) \<and> sb st' = sb st \<and>
    (\<forall>j. j \<noteq> ip \<longrightarrow> itab st' j = itab st j) \<and>
    itab st' ip = (itab st ip)\<lparr>iaddrs := iaddrs (itab st' ip), isize := isize (itab st' ip)\<rparr> \<and>
    unat (isize (itab st' ip)) = max (unat (isize (itab st ip))) (unat off + tot) \<and>
    (\<forall>j<MAXFILE * BSIZE. fbyte (fview st') (itab st' ip) j =
       (if unat off \<le> j \<and> j < unat off + tot then src_byte um src (j - unat off) else fbyte (fview st) (itab st ip) j)) \<and>
    get_dinode (fview st' (IBLOCK (inum (itab st ip)) (sb st))) (ioff (inum (itab st ip))) = inode_to_disk (itab st' ip) \<and>
    (\<forall>y<fssize (sb st). data_block nblk S (sb st) (fview st) y \<and> (\<forall>k\<le>MAXFILE. slot (fview st) (itab st ip) k \<noteq> y) \<longrightarrow> fview st' y = fview st y) \<and>
    no_leak (sb st) (fview st) (fview st') (itab st' ip) \<and>
    (tot < unat n \<longrightarrow> (\<forall>y<fssize (sb st). used (sb st) (fview st') y))"
proof -
  let ?x = "itab st ip" and ?s = "sb st" and ?v = "fview st"
  let ?g = "\<lambda>j. src_byte um src (j - unat off)"
  have nw: "unat (off + n) = unat off + unat n" using off(2) by (simp add: unat_add_bound)
  have c: "\<not> (isize ?x < off \<or> off + n < off)" "\<not> word_of_nat (MAXFILE * BSIZE) < off + n"
    using off nw by (simp_all add: word_less_nat_alt word_le_nat_alt)
  from writei_loop_ok [OF at, of "unat off" "unat n" 0 user um src ?g] off(2) acc cap obtain tot t B where
    t: "writei_loop rw me ip user um (unat n) 0 (unat off) src st = Ok (tot, unat off + tot, t)" "tot \<le> unat n"
      "file_wrote A st ip (unat off) (unat off + tot) ?g B t" "card B \<le> card A + 2 * span (unat off) (unat n)"
      "tot < unat n \<longrightarrow> (\<forall>y<fssize ?s. used ?s (fview t) y)" by auto
  have w: "written nblk S ?s (unat off) (unat off + tot) ?g ?v ?x (fview t) (itab t ip)" and ft: "file_at B t ip" "sb t = ?s" "A \<subseteq> B"
    "\<forall>j. j \<noteq> ip \<longrightarrow> itab t j = itab st j" using t(3) by (simp_all add: file_wrote_def)
  note W = writtenD [OF w] and WF = written_fields [OF w]
  define u where "u = (if unat (isize (itab t ip)) < unat off + tot then iupd ip (isize_update (\<lambda>_. word_of_nat (unat off + tot))) t else t)"
  have ub: "unat (word_of_nat (unat off + tot) :: u32) = unat off + tot"
    using t(2) off(2) by (simp add: unat_of_nat take_bit_nat_eq_self del: of_nat_add)
  have u: "ls u = ls t" "sb u = ?s" "\<forall>j. j \<noteq> ip \<longrightarrow> itab u j = itab st j" "iaddrs (itab u ip) = iaddrs (itab t ip)"
    "itab u ip = ?x\<lparr>iaddrs := iaddrs (itab u ip), isize := isize (itab u ip)\<rparr>"
    "unat (isize (itab u ip)) = max (unat (isize ?x)) (unat off + tot)"
    "idev (itab u ip) = idev (itab t ip)" "inum (itab u ip) = inum ?x"
    using ft WF ub W(4) unfolding u_def by auto
  have sl: "slot v (itab u ip) = slot v (itab t ip)" "fbyte v (itab u ip) = fbyte v (itab t ip)" for v
    by (auto simp: slot_def fbyte_def fun_eq_iff u(4))
  have "file_ok nblk S ?s (fview t) (itab u ip)" using file_atD(6) [OF ft(1)] unfolding file_ok_def sl u(4) ft(2) .
  then have fu: "file_at B u ip" using ft(1,2) u(1,2,7) unfolding file_at_def by simp
  have iB: "inum (itab u ip) < ninodes (sb u)" "IBLOCK (inum (itab u ip)) (sb u) \<in> B" using i ft(3) u(2,8) by auto
  from iupdate_ok [OF fu iB] obtain z where
    z: "iupdate rw me ip u = Ok z" "file_at B z ip" "frame has {} u z"
      "fview z = (fview u)(IBLOCK (inum ?x) ?s := put_dinode (ioff (inum ?x)) (inode_to_disk (itab u ip)) (fview u (IBLOCK (inum ?x) ?s)))"
    unfolding u(2,8) by blast
  have ez: "sb z = ?s" "itab z = itab u" using z(3) u(2) by (simp_all add: frame_def)
  note F = file_atD [OF fu]
  note I = inode_write [OF F(3) iB(1) z(4) [folded u(2,8)]]
  have r: "writei rw me ip user src off n um st = Ok (int tot, z)"
    using c t(1) z(1) by (simp add: writei_def Let_def flip: u_def)
  have di: "get_dinode (fview z (IBLOCK (inum ?x) ?s)) (ioff (inum ?x)) = inode_to_disk (itab z ip)"
  proof -
    have "length (fview u (IBLOCK (inum ?x) ?s)) = BSIZE" using fop_length [OF F(1)] store_range [OF F(1)] iB u(2,8) by metis
    moreover have "ioff (inum ?x) + 64 \<le> BSIZE" by (simp add: ioff_def)
    moreover have "dinode_ok (inode_to_disk (itab u ip))" using F(6) by (simp add: dinode_ok_def inode_to_disk_def file_ok_def)
    ultimately show ?thesis using put_dinode(2) by (simp add: z(4) ez)
  qed
  have oth: "fview z y = ?v y" if "y < fssize ?s" "data_block nblk S ?s ?v y" "\<forall>k\<le>MAXFILE. slot ?v ?x k \<noteq> y" for y
  proof -
    have "y \<noteq> IBLOCK (inum ?x) ?s" using that(2) IBLOCK_meta [OF i(1), of S] by (auto simp: data_block_def)
    then show ?thesis using W(8) [OF that(1)] that(2,3) u(1) by (simp add: z(4) data_block_def)
  qed
  have byt: "fbyte (fview z) (itab z ip) j = (if unat off \<le> j \<and> j < unat off + tot then ?g j else fbyte ?v ?x j)"
    if "j < MAXFILE * BSIZE" for j
    using I(4) [OF F(6) that] W(5) [OF that] by (simp add: ez sl u(1))
  have us: "tot < unat n \<longrightarrow> (\<forall>y<fssize ?s. used ?s (fview z) y)" using t(5) I(1) u(1,2) by simp
  have "no_leak ?s ?v (fview z) (itab z ip)"
    using W(10) I(1) I(2) [OF F(6)] u(1,2) unfolding no_leak_def ez by (simp add: sl) metis
  then show ?thesis
    by (intro exI [of _ tot] exI [of _ z] exI [of _ B] conjI allI impI)
      (use r t(2,4) z(2) ft(3) ez u(3,5,6) byt di oth us in auto)
qed

end

end
