(* ===== verification/Xv6_Fs_Correct.thy ===== *)
theory Xv6_Fs_Correct
  imports Xv6_Fs_Files
begin

text \<open>
  What a file-system call can rely on inside a transaction: reading and writing files and allocating blocks over any
  block device, with an example on the disk layout of \<^verbatim>\<open>mkfs\<close> over the virtio driver.
\<close>

section \<open>Correctness of the file operations\<close>

definition fsview :: "('d \<Rightarrow> u32 \<Rightarrow> u8 list) \<Rightarrow> ('d \<Rightarrow> (u32 \<times> u8 list) list) \<Rightarrow> u32 \<Rightarrow> 'd fs \<Rightarrow> u32 \<Rightarrow> u8 list" where
  "fsview content trace D st = aview (cache_abs content trace D (bc (ls st)))"

definition fs_writable ::
  "('d \<Rightarrow> u32 \<Rightarrow> u8 list) \<Rightarrow> ('d \<Rightarrow> (u32 \<times> u8 list) list) \<Rightarrow> ('d \<Rightarrow> bool) \<Rightarrow> u32 \<Rightarrow> u32 \<Rightarrow> i32 \<Rightarrow> u32 \<Rightarrow> nat \<Rightarrow>
   u32 set \<Rightarrow> 'd fs \<Rightarrow> bool" where
  "fs_writable content trace dok nblk D me S cap A st \<longleftrightarrow> in_op content trace dok nblk D me S cap A {} (ls st) \<and>
     bitmap_ok A {} (sb st) \<and> layout_ok S (sb st) \<and> free_ok nblk S {} (sb st) (fsview content trace D st) \<and>
     used (sb st) (fsview content trace D st) 0"

context block_user
begin

lemma writable_file: "fs_writable content trace dok nblk D me S cap A st \<and>
    file_ok nblk S (sb st) (fsview content trace D st) (itab st ip) \<and> idev (itab st ip) = D \<longleftrightarrow> store.file_at A st ip"
  by (auto simp add: fs_writable_def store.file_at_def fsview_def)

lemmas file_writable = store.file_atD [folded fsview_def]
  and writei_contents = store.writei_ok [folded fsview_def, folded writable_file]
  and readi_contents = reader.readi_ok [folded fsview_def]
  and balloc_contents = store.balloc_ok [folded fsview_def]
  and bitmap_contents = store.bitmap_length [folded fsview_def]
  and bfree_contents = store.bfree_ok [folded fsview_def]

end

lemma block_user_of: "block_device rw content trace dok nblk \<Longrightarrow> block_user rw content trace dok nblk"
  by (simp add: block_user_def)

interpretation sdu: block_user "traced (virtio_disk_rw spec_device)" "\<lambda>k. fst (fst (fst k))" snd "\<lambda>k. sdok (fst k)" FSSIZE 1 1 2 10
  by (rule block_user_of) (rule sd.traced_block_device)

text \<open>
  C4 (\<^verbatim>\<open>writei\<close>, \<^verbatim>\<open>bmap\<close>, \<^verbatim>\<open>balloc\<close> and \<^verbatim>\<open>iupdate\<close>, fs.c): inside a transaction with room for two blocks per
  block of the range, writing \<open>n\<close> accessible bytes at an offset within the file returns a number \<open>tot\<close> of bytes, all
  of them unless the disk is full. The file then has the written bytes in the range and its old bytes
  elsewhere, its size covers the range, its inode is on disk as in memory, and every data block that is not
  of this file is as before; every block that came into use belongs to the file.
\<close>

theorem writei_stores:
  assumes "block_device rw content trace dok nblk" and "fs_writable content trace dok nblk D me S cap A st"
    and "file_ok nblk S (sb st) (fsview content trace D st) (itab st ip)" and "idev (itab st ip) = D"
    and "inum (itab st ip) < ninodes (sb st)" and "IBLOCK (inum (itab st ip)) (sb st) \<in> A"
    and "off \<le> isize (itab st ip)" and "unat off + unat n \<le> MAXFILE * BSIZE" and "accessible user um src (unat n)"
    and "card A + 2 * span (unat off) (unat n) \<le> cap"
  shows "\<exists>tot st' A'. writei rw me ip user src off n um st = Ok (int tot, st') \<and> tot \<le> unat n \<and>
    (tot < unat n \<longrightarrow> (\<forall>y<fssize (sb st). used (sb st) (fsview content trace D st') y)) \<and>
    fs_writable content trace dok nblk D me S cap A' st' \<and> card A' \<le> card A + 2 * span (unat off) (unat n) \<and>
    file_ok nblk S (sb st) (fsview content trace D st') (itab st' ip) \<and> sb st' = sb st \<and>
    unat (isize (itab st' ip)) = max (unat (isize (itab st ip))) (unat off + tot) \<and>
    (\<forall>j<MAXFILE * BSIZE. fbyte (fsview content trace D st') (itab st' ip) j =
       (if unat off \<le> j \<and> j < unat off + tot then src_byte um src (j - unat off)
        else fbyte (fsview content trace D st) (itab st ip) j)) \<and>
    get_dinode (fsview content trace D st' (IBLOCK (inum (itab st ip)) (sb st))) (ioff (inum (itab st ip))) = inode_to_disk (itab st' ip) \<and>
    (\<forall>y. data_block nblk S (sb st) (fsview content trace D st) y \<and>
         (\<forall>k\<le>MAXFILE. slot (fsview content trace D st) (itab st ip) k \<noteq> y) \<longrightarrow>
       fsview content trace D st' y = fsview content trace D st y) \<and>
    no_leak (sb st) (fsview content trace D st) (fsview content trace D st') (itab st' ip)"
proof -
  have bu: "block_user rw content trace dok nblk" by (rule block_user_of [OF assms(1)])
  let ?c = "fsview content trace D"
  from block_user.writei_contents [OF bu, of D me S cap A st ip off n user um src] assms(2-10)
  obtain tot st' A' where
    r: "writei rw me ip user src off n um st = Ok (int tot, st')" "tot \<le> unat n" "fs_writable content trace dok nblk D me S cap A' st'"
      "file_ok nblk S (sb st') (?c st') (itab st' ip)" "card A' \<le> card A + 2 * span (unat off) (unat n)" "sb st' = sb st"
      "unat (isize (itab st' ip)) = max (unat (isize (itab st ip))) (unat off + tot)"
      "\<forall>j<MAXFILE * BSIZE. fbyte (?c st') (itab st' ip) j =
         (if unat off \<le> j \<and> j < unat off + tot then src_byte um src (j - unat off) else fbyte (?c st) (itab st ip) j)"
      "get_dinode (?c st' (IBLOCK (inum (itab st ip)) (sb st))) (ioff (inum (itab st ip))) = inode_to_disk (itab st' ip)"
      "\<forall>y<fssize (sb st). data_block nblk S (sb st) (?c st) y \<and> (\<forall>k\<le>MAXFILE. slot (?c st) (itab st ip) k \<noteq> y) \<longrightarrow> ?c st' y = ?c st y"
      "no_leak (sb st) (?c st) (?c st') (itab st' ip)" "tot < unat n \<longrightarrow> (\<forall>y<fssize (sb st). used (sb st) (?c st') y)" by blast
  then show ?thesis by (intro exI [of _ tot] exI [of _ st'] exI [of _ A'] conjI) (auto simp: data_block_def)
qed

text \<open>
  C32 (\<^verbatim>\<open>readi\<close> and \<^verbatim>\<open>bmap\<close>, fs.c): reading a file whose blocks are all present returns the number of bytes between the
  offset and the smaller of the end of the request and the end of the file, zero for an offset past the end
  or a range that wraps, and stores exactly these bytes at the destination; it returns -1 if the destination
  is not accessible. No block changes.
\<close>

theorem readi_reads:
  fixes off n :: u32
  assumes "block_device rw content trace dok nblk" and "reading content trace dok D me P {} (bc (ls st))"
    and "file_ok nblk S (sb st) (fsview content trace D st) (itab st ip)" and "idev (itab st ip) = D"
    and "unat (isize (itab st ip)) \<le> MAXFILE * BSIZE"
    and "\<And>i. i < unat (isize (itab st ip)) \<Longrightarrow> slot (fsview content trace D st) (itab st ip) (i div BSIZE) \<noteq> 0"
  defines "k \<equiv> (if isize (itab st ip) < off \<or> off + n < off then 0 else min (unat n) (unat (isize (itab st ip)) - unat off))"
  shows "\<exists>r um' st'. readi rw me ip user dst off n um st = Ok (r, um', st') \<and> fsview content trace D st' = fsview content trace D st \<and>
    itab st' = itab st \<and> sb st' = sb st \<and> (if accessible user um dst k then r = int k \<and>
       um' = filled dst k (\<lambda>i. fbyte (fsview content trace D st) (itab st ip) (unat off + i)) um else r = -1)"
proof -
  have bu: "block_user rw content trace dok nblk" by (rule block_user_of [OF assms(1)])
  have "\<exists>P. reading content trace dok D me P {} (bc (ls st))" using assms(2) by blast
  from block_user.readi_contents [OF bu this assms(3-6), where off = off and n = n, folded k_def]
  obtain r um' st' where "readi rw me ip user dst off n um st = Ok (r, um', st')"
      "fsview content trace D st' = fsview content trace D st"
      "frame (\<lambda>l. handle D (bc l)) {} st st'"
      "if accessible user um dst k then r = int k \<and>
         um' = filled dst k (\<lambda>i. fbyte (fsview content trace D st) (itab st ip) (unat off + i)) um else r = -1" by blast
  then show ?thesis unfolding frame_def by blast
qed

text \<open>
  C33 (\<^verbatim>\<open>balloc\<close> and \<^verbatim>\<open>bfree\<close>, fs.c): on a disk with a free block, \<^verbatim>\<open>balloc\<close> returns the free block with the least number,
  and freeing it again restores every block of the bitmap: the two calls together change nothing but the contents
  of that free block, which is zeroed.
\<close>

theorem balloc_bfree_roundtrip:
  assumes "block_device rw content trace dok nblk" and "fs_writable content trace dok nblk D me S cap A st" and "card A < cap"
    and "x < fssize (sb st)" and "\<not> used (sb st) (fsview content trace D st) x" and "\<forall>y<x. used (sb st) (fsview content trace D st) y"
  shows "\<exists>st1 st2. balloc rw me D st = Ok (x, st1) \<and> used (sb st) (fsview content trace D st1) x \<and> bfree rw me D x st1 = Ok st2 \<and>
    fsview content trace D st2 = (fsview content trace D st)(x := replicate BSIZE 0) \<and> itab st2 = itab st \<and> sb st2 = sb st"
proof -
  let ?v = "fsview content trace D" and ?s = "sb st"
  have bu: "block_user rw content trace dok nblk" by (rule block_user_of [OF assms(1)])
  have w: "in_op content trace dok nblk D me S cap A {} (ls st)" "bitmap_ok A {} ?s" "free_ok nblk S {} ?s (?v st)" "used ?s (?v st) 0"
    using assms(2) by (simp_all add: fs_writable_def)
  from block_user.balloc_contents [OF bu w(1) _ assms(3) w(3,2,4)] obtain a st1 where
    a: "balloc rw me D st = Ok (a, st1)" "frame (\<lambda>l. handle D (bc l)) {} st st1"
      "if a = 0 then in_op content trace dok nblk D me S cap A {} (ls st1) \<and> ?v st1 = ?v st \<and> (\<forall>y<fssize ?s. used ?s (?v st) y)
       else in_op content trace dok nblk D me S cap (insert a A) {} (ls st1) \<and> a < fssize ?s \<and> \<not> used ?s (?v st) a \<and>
         (\<forall>y<a. used ?s (?v st) y) \<and> ?v st1 = took_block ?s a (?v st)" by auto
  have "a = x" using a(3) assms(4-6) by (cases a x rule: linorder_cases) (auto split: if_splits)
  moreover have "x \<noteq> 0" using assms(5) w(4) by blast
  ultimately have t: "in_op content trace dok nblk D me S cap (insert x A) {} (ls st1)" "?v st1 = took_block ?s x (?v st)"
    using a(3) by simp_all
  have e: "sb st1 = ?s" "itab st1 = itab st" using a(2) by (simp_all add: frame_def)
  have m: "x \<notin> meta S ?s" using w(3) assms(4,5) by (simp add: free_ok_def)
  then have ne: "BBLOCK x ?s \<noteq> x" using BBLOCK_meta [OF assms(4), of S] by auto
  have len: "length (?v st (BBLOCK x ?s)) = BSIZE" using block_user.bitmap_contents [OF bu w(1,2) assms(4)] .
  have us: "used ?s (?v st1) x" using used_took [OF assms(4) m assms(4), of "?v st"] len t(2) by simp
  have "bitmap_ok (insert x A) {} (sb st1)" using w(2) e by (simp add: bitmap_ok_def)
  from block_user.bfree_contents [OF bu t(1) _ this, of x] us assms(4) e(1) obtain st2 where
    f: "bfree rw me D x st1 = Ok st2" "?v st2 = gave_block ?s x (?v st1)" "frame (\<lambda>l. handle D (bc l)) {} st1 st2" by auto
  have "gave_block ?s x (took_block ?s x (?v st)) = (?v st)(x := replicate BSIZE 0)"
    using assms(5) ne len clear_mark_bit [of "?v st (BBLOCK x ?s)" "unat x mod BPB"]
    by (auto simp: gave_block_def took_block_def used_def fun_eq_iff)
  then show ?thesis using a(1) \<open>a = x\<close> us f t(2) e by (intro exI [of _ st1] exI [of _ st2]) (simp add: frame_def)
qed

subsection \<open>An example\<close>

text \<open>
  The layout \<^verbatim>\<open>mkfs\<close> makes for 2000 blocks and 200 inodes, with the blocks up to 46 in use, an open
  transaction, and two files in the inode table: an empty one in slot 0, and one of five bytes in slot 1.
\<close>

definition example_sb :: superblock where
  "example_sb = \<lparr>magic = FSMAGIC, fssize = 2000, nblocks = 1954, ninodes = 200, nlog = 30, logstart = 2, inodestart = 32, bmapstart = 45\<rparr>"

definition example_blocks :: "u32 \<Rightarrow> u8 list" where
  "example_blocks bn = (if bn = 45 then replicate 5 255 @ 127 # replicate 1018 0
     else if bn = 46 then [104, 101, 108, 108, 111] @ replicate 1019 0 else replicate BSIZE 0)"

definition example_fs_bc :: "((((u32 \<Rightarrow> u8 list) \<times> u16) \<times> vdisk) \<times> (u32 \<times> u8 list) list) bcache" where
  "example_fs_bc = example_bc\<lparr>dsk := (((example_blocks, 0), snd (fst (dsk example_bc))), [])\<rparr>"

definition example_inode :: inode where
  "example_inode = \<lparr>idev = 1, inum = 2, iref = 1, ilck = initsleeplock, ivalid = True, itype = T_FILE, imajor = 0, iminor = 0,
     inlink = 1, isize = 0, iaddrs = replicate 13 0\<rparr>"

definition example_hello :: inode where
  "example_hello = example_inode\<lparr>inum := 3, isize := 5, iaddrs := 46 # replicate 12 0\<rparr>"

definition example_fs :: "((((u32 \<Rightarrow> u8 list) \<times> u16) \<times> vdisk) \<times> (u32 \<times> u8 list) list) fs" where
  "example_fs = \<lparr>sb = example_sb, ls = \<lparr>lg = (lg example_log)\<lparr>outstanding := 1\<rparr>, bc = binit example_fs_bc\<rparr>, itab = (\<lambda>i. if i = 0 then example_inode else example_hello)\<rparr>"

abbreviation "sd_content \<equiv> \<lambda>k :: (((u32 \<Rightarrow> u8 list) \<times> u16) \<times> vdisk) \<times> (u32 \<times> u8 list) list. fst (fst (fst k))"
abbreviation "sd_ok \<equiv> \<lambda>k :: (((u32 \<Rightarrow> u8 list) \<times> u16) \<times> vdisk) \<times> (u32 \<times> u8 list) list. sdok (fst k)"

lemma example_fs_zero: "zero_bufs example_fs_bc" and example_fs_ok: "sdok (fst (dsk example_fs_bc))"
  by (simp_all add: zero_bufs_def example_fs_bc_def example_bc_def vdisk_ok_def vdisk_idle_def example_blocks_def)

lemma example_fs_contents: "fsview sd_content snd 1 example_fs = example_blocks"
  using binit_abs [OF example_fs_zero, of 1 sd_content snd] by (simp add: fsview_def example_fs_def) (simp add: example_fs_bc_def)

lemma bblock_example: "x < 2000 \<Longrightarrow> BBLOCK x example_sb = 45"
proof -
  assume "x < 2000"
  then have "unat (x div 8192) = 0" by (simp add: unat_div word_less_nat_alt)
  then show ?thesis by (simp add: BBLOCK_def example_sb_def unat_eq_0)
qed

lemma example_used:
  assumes "x < 2000"
  shows "used example_sb example_blocks x \<longleftrightarrow> x < 47"
proof -
  define k where "k = unat x"
  have k: "k < 2000" using assms by (simp add: k_def word_less_nat_alt)
  have x: "x < 47 \<longleftrightarrow> k < 47" by (simp add: k_def word_less_nat_alt)
  have n: "(replicate 5 255 @ 127 # replicate 1018 0 :: u8 list) ! (k div 8) = (if k < 40 then mask 8 else if k < 48 then mask 7 else 0)"
    using k by (auto simp: nth_append nth_Cons' mask_eq_exp_minus_1)
  have "used example_sb example_blocks x \<longleftrightarrow> bit (if k < 40 then mask 8 else if k < 48 then mask 7 else 0 :: u8) (k mod 8)"
    using k n by (simp add: used_def bblock_example [OF assms] example_blocks_def bit_clear_bit flip: k_def del: mask_eq_0_iff)
  also have "\<dots> \<longleftrightarrow> k < 47"
  proof -
    have "k mod 8 < 7 \<longleftrightarrow> k < 47" if "40 \<le> k" "k < 48" using that by presburger
    then show ?thesis by (auto simp: bit_mask_iff)
  qed
  finally show ?thesis using x by simp
qed

lemma iblock_example: "i < 200 \<Longrightarrow> 32 \<le> IBLOCK i example_sb \<and> IBLOCK i example_sb < 45"
proof -
  assume "i < 200"
  then have "unat (i div 16) < 13" by (simp add: unat_div word_less_nat_alt)
  then have "unat (IBLOCK i example_sb) = unat (i div 16) + 32 \<and> unat (i div 16) < 13"
    by (simp add: IBLOCK_def example_sb_def unat_word_ariths)
  then show ?thesis by (simp add: word_less_nat_alt word_le_nat_alt)
qed

lemma example_log_area: "x \<in> log_area 2 \<Longrightarrow> x < 32"
  using slot_less(2) [of 2 FSSIZE] by (auto simp: log_area_def word_less_nat_alt)

lemma example_meta: "x \<in> meta 2 example_sb \<Longrightarrow> x < 46"
proof -
  assume "x \<in> meta 2 example_sb"
  then consider "x < 32" | i where "i < 200" "x = IBLOCK i example_sb" | "x = 45"
    using example_log_area bblock_example by (auto simp: meta_def example_sb_def)
  then show ?thesis
  proof cases
    case 2
    then have "x < 45" using iblock_example by blast
    then show ?thesis by (simp add: word_less_nat_alt)
  qed (simp_all add: word_less_nat_alt)
qed

lemma example_reading: "reading sd_content snd sd_ok 1 me {} {} (bc (ls example_fs))"
  using sd.vd.tr.binit_inv [of example_fs_bc 1] example_fs_zero example_fs_ok binit_abs [OF example_fs_zero, of 1 sd_content snd]
  by (simp add: reading_def example_fs_def)

lemma example_writable: "fs_writable sd_content snd sd_ok FSSIZE 1 me 2 10 {45, 32} example_fs"
proof -
  have A: "45 \<notin> log_area 2" "32 \<notin> log_area 2" using example_log_area [of 45] example_log_area [of 32] by auto
  have "in_op sd_content snd sd_ok FSSIZE 1 me 2 10 {45, 32} {} (ls example_fs)"
    using example_reading [of me] A
    by (simp add: in_op_def log_open_def logged_def log_fits_def example_fs_def example_log_def)
  moreover have "bitmap_ok {45, 32} {} example_sb" using bblock_example by (simp add: bitmap_ok_def example_sb_def)
  moreover have "layout_ok 2 example_sb" 
    using bblock_example iblock_example by (fastforce simp: layout_ok_def example_sb_def)
  moreover have "free_ok FSSIZE 2 {} example_sb example_blocks"
    unfolding free_ok_def
  proof (intro allI impI conjI)
    fix x assume "x < fssize example_sb" "\<not> used example_sb example_blocks x"
    then have x: "x < 2000" "\<not> x < 47" using example_used by (auto simp: example_sb_def)
    then show "x < FSSIZE" by simp
    show "x \<notin> meta 2 example_sb" using example_meta [of x] x(2) by (auto simp: word_less_nat_alt)
  qed simp
  moreover have "used example_sb example_blocks 0" by (simp add: example_used)
  ultimately show ?thesis by (simp add: fs_writable_def example_fs_contents) (simp add: example_fs_def)
qed

lemma example_file: "file_ok FSSIZE 2 example_sb example_blocks example_inode"
  by (simp add: file_ok_def slot_def example_inode_def)

lemma slot_hello: "k \<le> MAXFILE \<Longrightarrow> slot example_blocks example_hello k = (if k = 0 then 46 else 0)"
  by (auto simp: slot_def example_hello_def nth_Cons' )

lemma example_hello_ok: "file_ok FSSIZE 2 example_sb example_blocks example_hello"
proof -
  have "46 \<notin> meta 2 example_sb" using example_meta [of 46] by auto
  moreover have "used example_sb example_blocks 46" by (simp add: example_used)
  ultimately have "data_block FSSIZE 2 example_sb example_blocks 46" by (simp add: data_block_def example_sb_def)
  then show ?thesis by (simp add: file_ok_def slot_hello) (simp add: example_hello_def)
qed

lemma example_fs_sel: "sb example_fs = example_sb" "itab example_fs 0 = example_inode" "itab example_fs (Suc 0) = example_hello"
  by (simp_all add: example_fs_def)

text \<open>A file has too few blocks to fill the example disk.\<close>

lemma example_not_full: "no_leak example_sb example_blocks v x \<Longrightarrow> \<exists>y<fssize example_sb. \<not> used example_sb v y"
proof (rule ccontr)
  assume n: "no_leak example_sb example_blocks v x" and "\<not> (\<exists>y<fssize example_sb. \<not> used example_sb v y)"
  then have "\<exists>k\<le>MAXFILE. slot v x k = y" if "47 \<le> y" "y < 2000" for y
    using that example_used [of y] unfolding no_leak_def by (auto simp: example_sb_def not_less dest!: spec [of _ y])
  then have sub: "{47..<2000} \<subseteq> (\<lambda>k. slot v x k) ` {..MAXFILE}" by force
  have "word_of_nat ` {47..<2000} \<subseteq> {47..<2000 :: u32}"
    by (auto simp: word_le_nat_alt word_less_nat_alt unat_of_nat take_bit_nat_eq_self)
  moreover have "inj_on (word_of_nat :: nat \<Rightarrow> u32) {47..<2000}"
    by (auto intro!: inj_onI simp: word_unat_eq_iff unat_of_nat take_bit_nat_eq_self)
  ultimately have "card {47..<2000 :: nat} = card ((word_of_nat :: nat \<Rightarrow> u32) ` {47..<2000})"
    and "(word_of_nat :: nat \<Rightarrow> u32) ` {47..<2000} \<subseteq> (\<lambda>k. slot v x k) ` {..MAXFILE}"
    using sub by (blast intro: card_image [symmetric], blast)
  then have "card {47..<2000 :: nat} \<le> card ((\<lambda>k. slot v x k) ` {..MAXFILE})"
    using card_mono [of "(\<lambda>k. slot v x k) ` {..MAXFILE}" "(word_of_nat :: nat \<Rightarrow> u32) ` {47..<2000}"] by simp
  also have "\<dots> \<le> card {..MAXFILE}" by (rule card_image_le) simp
  finally show False by simp
qed

theorem writei_stores_witness:
  "\<exists>st'. writei (traced (virtio_disk_rw spec_device)) 1 0 True 4096 0 3 (\<lambda>a. Some (ucast a + 5)) example_fs = Ok (3, st') \<and>
     isize (itab st' 0) = 3 \<and> fbyte (fsview sd_content snd 1 st') (itab st' 0) 2 = 7"
proof -
  let ?um = "\<lambda>a :: u64. Some (ucast a + 5 :: u8)"
  have i: "isize example_inode = 0" "idev example_inode = 1" "inum example_inode = 2" by (simp_all add: example_inode_def)
  have b: "IBLOCK 2 example_sb = 32" "2 < ninodes example_sb" by (simp_all add: IBLOCK_def example_sb_def)
  have a: "accessible True ?um 4096 (unat (3 :: u32))" "span 0 (unat (3 :: u32)) = 1" by (simp_all add: accessible_def span_def)
  note W = writei_stores [OF sd.traced_block_device example_writable [of 1], where ip = 0 and off = 0 and n = 3 and user = True
    and src = 4096 and um = ?um, unfolded example_fs_sel example_fs_contents i b(1) unat_0 a(2)]
  have p: "(32 :: u32) \<in> {45, 32}" "0 + unat (3 :: u32) \<le> MAXFILE * BSIZE" "card {45, 32 :: u32} + 2 * 1 \<le> 10" by simp_all
  from W [OF example_file refl b(2) p(1) order_refl p(2) a(1) p(3)] obtain tot st' where
    w: "writei (traced (virtio_disk_rw spec_device)) 1 0 True 4096 0 3 ?um example_fs = Ok (int tot, st')" "tot \<le> unat (3 :: u32)"
      "tot < unat (3 :: u32) \<longrightarrow> (\<forall>y<fssize example_sb. used example_sb (fsview sd_content snd 1 st') y)"
      "unat (isize (itab st' 0)) = max 0 (0 + tot)" "\<forall>j<MAXFILE * BSIZE. fbyte (fsview sd_content snd 1 st') (itab st' 0) j =
        (if 0 \<le> j \<and> j < 0 + tot then src_byte ?um 4096 (j - 0) else fbyte example_blocks example_inode j)"
      "no_leak example_sb example_blocks (fsview sd_content snd 1 st') (itab st' 0)" by blast
  have "\<not> tot < unat (3 :: u32)" using w(3) example_not_full [OF w(6)] by blast
  then have t: "tot = 3" using w(2) by simp
  show ?thesis using w(1,4) w(5) [THEN spec, of 2] by (auto simp: t src_byte_def word_unat_eq_iff)
qed

theorem readi_reads_witness:
  "\<exists>um' st'. readi (traced (virtio_disk_rw spec_device)) 1 1 True 4096 1 9 (\<lambda>a. Some 0) example_fs = Ok (4, um', st') \<and>
     um' 4099 = Some 111"
proof -
  have i: "isize (itab example_fs 1) = 5" "idev (itab example_fs 1) = 1" by (simp_all add: example_fs_sel example_hello_def example_inode_def)
  have "slot example_blocks example_hello (i div BSIZE) \<noteq> 0" if "i < 5" for i
    using that by (subst slot_hello) auto
  then have "\<exists>r um' st'. readi (traced (virtio_disk_rw spec_device)) 1 1 True 4096 1 9 (\<lambda>a. Some 0) example_fs = Ok (r, um', st') \<and>
      r = 4 \<and> um' = filled 4096 4 (\<lambda>i. fbyte example_blocks example_hello (1 + i)) (\<lambda>a. Some 0)"
    using readi_reads [OF sd.traced_block_device example_reading, where S = 2 and ip = 1 and off = 1 and n = 9 and user = True
      and dst = 4096 and um = "\<lambda>a. Some 0" and me = 1] i example_hello_ok
    by (simp add: accessible_def example_fs_sel example_fs_contents) blast
  then show ?thesis using slot_hello [of 0] by (auto simp: filled_def fbyte_def example_blocks_def)
qed

theorem balloc_bfree_roundtrip_witness:
  "\<exists>st1 st2. balloc (traced (virtio_disk_rw spec_device)) 1 1 example_fs = Ok (47, st1) \<and>
     bfree (traced (virtio_disk_rw spec_device)) 1 1 47 st1 = Ok st2"
proof -
  have "\<forall>y<47. used example_sb example_blocks y" using example_used order.strict_trans [of _ 47 2000] by fastforce
  moreover have "47 < fssize example_sb" by (simp add: example_sb_def)
  ultimately show ?thesis using balloc_bfree_roundtrip [OF sd.traced_block_device example_writable [of 1], of 47] example_used [of 47]
    by (auto simp: example_fs_sel example_fs_contents)
qed

end
