(* ===== verification/Xv6_Printf.thy ===== *)
theory Xv6_Printf
  imports Xv6_Prelude
begin

text \<open>
  Formatted output of the kernel (\<^verbatim>\<open>kernel/printf.c\<close>) and of user programs (\<^verbatim>\<open>user/printf.c\<close>): the bytes a call
  sends to its output. Printed numbers read back as the numbers, and the digit buffers cannot overflow.
\<close>

section \<open>Numbers\<close>

text \<open>The two tables \<^verbatim>\<open>digits\<close>: the kernel prints lower-case hexadecimal digits, user programs upper-case ones.\<close>

definition digits :: "u8 list" where
  "digits = map word_of_nat ([48..<58] @ [97..<103])"

definition udigits :: "u8 list" where
  "udigits = map word_of_nat ([48..<58] @ [65..<71])"

text \<open>
  The loop \<^verbatim>\<open>do buf[i++] = digits[x % base]; while((x /= base) != 0)\<close>, least significant digit first. The
  callers pass the base 10 or 16.
\<close>

function digit_loop :: "u8 list \<Rightarrow> u32 \<Rightarrow> u32 \<Rightarrow> u8 list" where
  "digit_loop ds x base = (if base \<le> 1 then []
     else ds ! unat (x mod base) # (if x div base \<noteq> 0 then digit_loop ds (x div base) base else []))"
  by pat_completeness auto
termination
proof (relation "measure (\<lambda>(ds, x, base). unat x)", goal_cases)
  case (2 ds x base)
  then have "1 < unat base" "0 < unat x" by (auto simp: word_less_nat_alt not_le unat_gt_0)
  then show ?case by (simp add: unat_div)
qed simp

declare digit_loop.simps [simp del]

text \<open>The contents of \<^verbatim>\<open>buf\<close>; negation wraps around, as in \<^verbatim>\<open>x = -xx\<close> assigned to an unsigned.\<close>

definition print_buf :: "u8 list \<Rightarrow> i32 \<Rightarrow> u32 \<Rightarrow> bool \<Rightarrow> u8 list" where
  "print_buf ds xx base sign = (let neg = sign \<and> sint xx < 0;
     x = (if neg then - xx else xx)
   in digit_loop ds x base @ (if neg then [45] else []))"

definition printint :: "i32 \<Rightarrow> u32 \<Rightarrow> bool \<Rightarrow> u8 list" where
  "printint xx base sign = rev (print_buf digits xx base sign)"

definition uprintint :: "i32 \<Rightarrow> u32 \<Rightarrow> bool \<Rightarrow> u8 list" where
  "uprintint xx base sign = rev (print_buf udigits xx base sign)"

definition ptr_digits :: "u8 list \<Rightarrow> u64 \<Rightarrow> u8 list" where
  "ptr_digits ds x = map (\<lambda>i. ds ! unat (drop_bit 60 (push_bit (4 * i) x))) [0..<16]"

definition printptr :: "u64 \<Rightarrow> u8 list" where
  "printptr x = [48, 120] @ ptr_digits digits x"

definition uprintptr :: "u64 \<Rightarrow> u8 list" where
  "uprintptr x = [48, 120] @ ptr_digits udigits x"

section \<open>Formats\<close>

text \<open>
  The arguments after the format. A format that asks for an argument which is missing or of another type
  has no meaning in C. A string argument is null or the bytes before its NUL.
\<close>

datatype arg = Aint i32 | Along u64 | Astr "u8 list option"

definition str_arg :: "u8 list option \<Rightarrow> u8 list" where
  "str_arg s = (case s of Some t \<Rightarrow> t | None \<Rightarrow> map (\<lambda>c. word_of_nat (of_char c)) ''(null)'')"

definition emit :: "u8 list \<Rightarrow> u8 list outcome \<Rightarrow> u8 list outcome" where
  "emit bs r = obind r (\<lambda>cs. Ok (bs @ cs))"

text \<open>Kernel \<^verbatim>\<open>printf\<close>: 37 is the percent sign, 100, 120, 112 and 115 are the letters d, x, p and s.\<close>

fun kprintf :: "u8 list \<Rightarrow> arg list \<Rightarrow> u8 list outcome" where
  "kprintf [] as = Ok []"
| "kprintf (c # fmt) as = (if c \<noteq> 37 then emit [c] (kprintf fmt as) else (case fmt of
     [] \<Rightarrow> Ok []
   | c # fmt \<Rightarrow>
     if c = 100 then (case as of Aint n # as \<Rightarrow> emit (printint n 10 True) (kprintf fmt as) | _ \<Rightarrow> Undefined)
     else if c = 120 then (case as of Aint n # as \<Rightarrow> emit (printint n 16 True) (kprintf fmt as) | _ \<Rightarrow> Undefined)
     else if c = 112 then (case as of Along p # as \<Rightarrow> emit (printptr p) (kprintf fmt as) | _ \<Rightarrow> Undefined)
     else if c = 115 then (case as of Astr s # as \<Rightarrow> emit (str_arg s) (kprintf fmt as) | _ \<Rightarrow> Undefined)
     else if c = 37 then emit [37] (kprintf fmt as)
     else emit [37, c] (kprintf fmt as)))"

text \<open>User \<^verbatim>\<open>vprintf\<close>, with \<open>state\<close> true after a percent sign; 108 and 99 are the letters l and c.\<close>

fun vprintf_loop :: "bool \<Rightarrow> u8 list \<Rightarrow> arg list \<Rightarrow> u8 list outcome" where
  "vprintf_loop state [] as = Ok []"
| "vprintf_loop state (c # fmt) as = (if \<not> state then (if c = 37 then vprintf_loop True fmt as else emit [c] (vprintf_loop False fmt as))
     else if c = 100 then (case as of Aint n # as \<Rightarrow> emit (uprintint n 10 True) (vprintf_loop False fmt as) | _ \<Rightarrow> Undefined)
     else if c = 108 then (case as of Along n # as \<Rightarrow> emit (uprintint (ucast n) 10 False) (vprintf_loop False fmt as) | _ \<Rightarrow> Undefined)
     else if c = 120 then (case as of Aint n # as \<Rightarrow> emit (uprintint n 16 False) (vprintf_loop False fmt as) | _ \<Rightarrow> Undefined)
     else if c = 112 then (case as of Along p # as \<Rightarrow> emit (uprintptr p) (vprintf_loop False fmt as) | _ \<Rightarrow> Undefined)
     else if c = 115 then (case as of Astr s # as \<Rightarrow> emit (str_arg s) (vprintf_loop False fmt as) | _ \<Rightarrow> Undefined)
     else if c = 99 then (case as of Aint n # as \<Rightarrow> emit [ucast n] (vprintf_loop False fmt as) | _ \<Rightarrow> Undefined)
     else if c = 37 then emit [37] (vprintf_loop False fmt as)
     else emit [37, c] (vprintf_loop False fmt as))"

definition vprintf :: "u8 list \<Rightarrow> arg list \<Rightarrow> u8 list outcome" where
  "vprintf fmt as = vprintf_loop False fmt as"

section \<open>Reading numbers back\<close>

text \<open>The value of a digit character of either table, and of a string of digits, most significant first.\<close>

definition digit_val :: "u8 \<Rightarrow> nat" where
  "digit_val c = (if c \<le> 57 then unat c - 48 else if c \<le> 70 then unat c - 55 else unat c - 87)"

definition digits_val :: "nat \<Rightarrow> u8 list \<Rightarrow> nat" where
  "digits_val base = foldl (\<lambda>v c. base * v + digit_val c) 0"

definition number_val :: "nat \<Rightarrow> u8 list \<Rightarrow> int" where
  "number_val base s = (case s of [] \<Rightarrow> 0 | c # t \<Rightarrow> if c = 45 then - int (digits_val base t) else int (digits_val base s))"

definition is_digits :: "u8 list \<Rightarrow> bool" where
  "is_digits ds \<longleftrightarrow> ds = digits \<or> ds = udigits"

lemma digit_table: "is_digits ds \<Longrightarrow> d < 16 \<Longrightarrow> digit_val (ds ! d) = d \<and> ds ! d \<noteq> 45"
proof -
  assume a: "is_digits ds" "d < 16"
  have "\<forall>d \<in> set [0..<16]. digit_val (digits ! d) = d \<and> digits ! d \<noteq> 45" by code_simp
  moreover have "\<forall>d \<in> set [0..<16]. digit_val (udigits ! d) = d \<and> udigits ! d \<noteq> 45" by code_simp
  ultimately show ?thesis using a by (auto simp: is_digits_def)
qed

lemma digits_val_snoc: "digits_val b (s @ [c]) = b * digits_val b s + digit_val c"
  by (simp add: digits_val_def)

lemma digits_val_bound: "is_digits ds \<Longrightarrow> 0 < b \<Longrightarrow> b \<le> 16 \<Longrightarrow> digits_val b (s @ [ds ! (x mod b)]) = b * digits_val b s + x mod b"
proof -
  assume a: "is_digits ds" "0 < b" "b \<le> 16"
  then have "x mod b < 16" using mod_less_divisor [of b x] by linarith
  then show ?thesis using digit_table [OF a(1)] by (simp add: digits_val_snoc)
qed

lemma digit_loop_ok:
  assumes "is_digits ds" and "1 < base" and "unat base \<le> 16"
  shows "digits_val (unat base) (rev (digit_loop ds x base)) = unat x" and "45 \<notin> set (digit_loop ds x base)"
    and "digit_loop ds x base \<noteq> []"
proof -
  have "digits_val (unat base) (rev (digit_loop ds x base)) = unat x \<and> 45 \<notin> set (digit_loop ds x base) \<and> digit_loop ds x base \<noteq> []"
    using assms
  proof (induction ds x base rule: digit_loop.induct)
    case (1 ds x base)
    let ?b = "unat base"
    have b: "0 < ?b" "\<not> base \<le> 1" using 1(3) by (auto simp: word_less_nat_alt not_le)
    have m: "ds ! unat (x mod base) = ds ! (unat x mod ?b)" "unat x mod ?b < 16" "unat (x div base) = unat x div ?b"
      using less_le_trans [OF mod_less_divisor [OF b(1)] 1(4)] by (simp_all add: unat_mod unat_div)
    have t: "ds ! (unat x mod ?b) \<noteq> 45" using digit_table [OF 1(2) m(2)] by simp
    show ?case
    proof (cases "x div base = 0")
      case True
      then have "unat x div ?b = 0" using m(3) by simp
      then have "unat x mod ?b = unat x" using b(1) by (simp add: div_eq_0_iff)
      then show ?thesis using digits_val_bound [OF 1(2) b(1) 1(4), of "[]" "unat x"] t True b(2) m(1)
        by (subst digit_loop.simps, subst (2) digit_loop.simps, subst (3) digit_loop.simps) (simp add: digits_val_def)
    next
      case False
      have IH: "digits_val ?b (rev (digit_loop ds (x div base) base)) = unat x div ?b" "45 \<notin> set (digit_loop ds (x div base) base)"
        using 1(1) [OF b(2) False 1(2,3,4)] m(3) by simp_all
      have "digits_val ?b (rev (digit_loop ds (x div base) base) @ [ds ! (unat x mod ?b)]) = unat x"
        using digits_val_bound [OF 1(2) b(1) 1(4)] IH(1) by simp
      then show ?thesis using False b(2) IH(2) t m(1)
        by (subst digit_loop.simps, subst (2) digit_loop.simps, subst (3) digit_loop.simps) simp
    qed
  qed
  then show "digits_val (unat base) (rev (digit_loop ds x base)) = unat x" "45 \<notin> set (digit_loop ds x base)"
    "digit_loop ds x base \<noteq> []" by blast+
qed

lemma digit_loop_length: "1 < base \<Longrightarrow> unat x < unat base ^ Suc k \<Longrightarrow> length (digit_loop ds x base) \<le> Suc k"
proof (induction k arbitrary: x)
  case 0
  then have "x div base = 0" by (simp add: unat_div unat_eq_zero [symmetric] word_unat_eq_iff)
  then show ?case by (subst digit_loop.simps) simp
next
  case (Suc k)
  have "unat (x div base) < unat base ^ Suc k"
    using Suc.prems by (simp add: unat_div less_mult_imp_div_less mult.commute)
  then have "length (digit_loop ds (x div base) base) \<le> Suc k" by (rule Suc.IH [OF Suc.prems(1)])
  then show ?case by (subst digit_loop.simps) simp
qed

lemma sint_cases: "sint (x :: i32) = (if uint x < 2 ^ 31 then uint x else uint x - 2 ^ 32)"
proof -
  have "sint x = take_bit 32 (uint x + 2 ^ 31) - 2 ^ 31"
    by (simp add: sint_uint signed_take_bit_eq_take_bit_shift)
  also have "take_bit 32 (uint x + 2 ^ 31) = (if uint x < 2 ^ 31 then uint x + 2 ^ 31 else uint x + 2 ^ 31 - 2 ^ 32)"
    using unsigned_less [of x, where 'a = int] mod_add_self2 [of "uint x + 2 ^ 31 - 2 ^ 32" "2 ^ 32"]
    by (auto simp: take_bit_eq_mod mod_pos_pos_trivial add.commute)
  finally show ?thesis by simp
qed

lemma neg_value: "sint (x :: i32) < 0 \<Longrightarrow> int (unat (- x)) = - sint x"
proof -
  assume n: "sint x < 0"
  then have "uint x = sint x + 2 ^ 32" "uint x \<noteq> 0" by (auto simp: sint_cases split: if_splits)
  moreover have "uint (- x) = 2 ^ 32 - uint x"
    using calculation(2) unsigned_less [of x, where 'a = int] by (simp add: uint_word_ariths zmod_zminus1_eq_if)
  ultimately show ?thesis by simp
qed


text \<open>
  In base 10 and 16 the digits and the sign fit in the sixteen bytes of \<^verbatim>\<open>buf\<close>.
\<close>

theorem printint_buffer_bound:
  "length (print_buf ds xx 10 sign) \<le> 11 \<and> length (print_buf ds xx 16 sign) \<le> 9"
proof -
  have "length (digit_loop ds x 10) \<le> Suc 9" "length (digit_loop ds x 16) \<le> Suc 7" for x :: u32
    using unsigned_less [of x, where 'a = nat] by (intro digit_loop_length; simp)+
  from this [of xx] this [of "- xx"] show ?thesis by (simp add: print_buf_def Let_def)
qed

text \<open>
  A defect of \<^verbatim>\<open>vprintf\<close> (\<^verbatim>\<open>user/printf.c\<close>): the conversion \<^verbatim>\<open>%l\<close> takes a 64-bit argument and passes it to \<^verbatim>\<open>printint\<close>,
  whose parameter is an \<^verbatim>\<open>int\<close>: numbers that differ only above bit 31 print the same.
\<close>

lemma vprintf_l_truncates:
  "vprintf [37, 108] [Along n] = Ok (uprintint (ucast n) 10 False) \<and> vprintf [37, 108] [Along (2 ^ 32)] = Ok [48]"
proof -
  have "uprintint 0 10 False = [48]"
    by (simp add: uprintint_def print_buf_def digit_loop.simps udigits_def word_le_nat_alt)
  moreover have "(ucast (2 ^ 32 :: u64) :: u32) = 0" by (simp add: ucast_eq)
  moreover have "vprintf [37, 108] [Along n] = Ok (uprintint (ucast n) 10 False)" for n by (simp add: vprintf_def emit_def)
  ultimately show ?thesis by metis
qed

end
