(* ===== verification/Xv6_Console.thy ===== *)
theory Xv6_Console
  imports Xv6_Printf Xv6_Pipe Xv6_Fs
begin

text \<open>
  The console (\<^verbatim>\<open>kernel/console.c\<close>) and the UART driver (\<^verbatim>\<open>kernel/uart.c\<close>). The UART device is a parameter: reading and
  writing one of its registers. Input refines a line editor, and output is sent in order.
\<close>

section \<open>Model\<close>

record 'u uart_dev =
  ReadReg :: "nat \<Rightarrow> 'u \<Rightarrow> u8 \<times> 'u"
  WriteReg :: "nat \<Rightarrow> u8 \<Rightarrow> 'u \<Rightarrow> 'u"

abbreviation (input) RHR :: nat where "RHR \<equiv> 0"
abbreviation (input) THR :: nat where "THR \<equiv> 0"
abbreviation (input) IER :: nat where "IER \<equiv> 1"
abbreviation (input) FCR :: nat where "FCR \<equiv> 2"
abbreviation (input) LCR :: nat where "LCR \<equiv> 3"
abbreviation (input) LSR :: nat where "LSR \<equiv> 5"
abbreviation (input) LSR_RX_READY :: u8 where "LSR_RX_READY \<equiv> 1"
abbreviation (input) LSR_TX_IDLE :: u8 where "LSR_TX_IDLE \<equiv> 32"
abbreviation (input) UART_TX_BUF_SIZE :: nat where "UART_TX_BUF_SIZE \<equiv> 32"
abbreviation (input) INPUT_BUF_SIZE :: nat where "INPUT_BUF_SIZE \<equiv> 128"
abbreviation (input) BACKSPACE :: nat where "BACKSPACE \<equiv> 256"

text \<open>The variables of the two files and \<^verbatim>\<open>panicked\<close> of \<^verbatim>\<open>kernel/printf.c\<close>; the locks make every operation atomic.\<close>

record 'u console =
  cbuf :: "u8 list"
  cr :: u32
  cw :: u32
  ce :: u32
  tx_buf :: "u8 list"
  tx_w :: u64
  tx_r :: u64
  panicked :: bool
  uart :: 'u

subsection \<open>UART\<close>

definition uartinit :: "'u uart_dev \<Rightarrow> 'u console \<Rightarrow> 'u console" where
  "uartinit dev st = st\<lparr>uart := fold (\<lambda>(r, v). WriteReg dev r v)
     [(IER, 0), (LCR, 128), (0, 3), (1, 0), (LCR, 3), (FCR, 1 OR 6), (IER, 2 OR 1)] (uart st)\<rparr>"

function uartstart :: "'u uart_dev \<Rightarrow> 'u console \<Rightarrow> 'u console" where
  "uartstart dev st = (if tx_w st = tx_r st then st
     else let (s, u) = ReadReg dev LSR (uart st) in
       if s AND LSR_TX_IDLE = 0 then st\<lparr>uart := u\<rparr>
       else let c = tx_buf st ! (unat (tx_r st) mod UART_TX_BUF_SIZE) in
         uartstart dev (st\<lparr>tx_r := tx_r st + 1, uart := WriteReg dev THR c u\<rparr>))"
  by pat_completeness auto
termination
proof (relation "measure (\<lambda>(dev, st). unat (tx_w st - tx_r st))", goal_cases)
  case (2 dev st x s u c)
  then have "tx_w st - tx_r st \<noteq> 0" by simp
  from measure_unat [OF this] show ?case by (simp add: algebra_simps)
qed simp

declare uartstart.simps [simp del]

definition uartputc :: "'u uart_dev \<Rightarrow> u8 \<Rightarrow> 'u console \<Rightarrow> 'u console outcome" where
  "uartputc dev c st = (if panicked st then Diverges
     else if tx_w st = tx_r st + word_of_nat UART_TX_BUF_SIZE then Sleeps
     else Ok (uartstart dev (st\<lparr>tx_buf := (tx_buf st)[unat (tx_w st) mod UART_TX_BUF_SIZE := c], tx_w := tx_w st + 1\<rparr>)))"

text \<open>The loop that waits for the transmit register ends only if the device becomes idle.\<close>

partial_function (option) uart_spin :: "'u uart_dev \<Rightarrow> 'u \<Rightarrow> 'u option" where
  "uart_spin dev u = (let (s, u) = ReadReg dev LSR u in if s AND LSR_TX_IDLE = 0 then uart_spin dev u else Some u)"

definition uartputc_sync :: "'u uart_dev \<Rightarrow> u8 \<Rightarrow> 'u console \<Rightarrow> 'u console outcome" where
  "uartputc_sync dev c st = (if panicked st then Diverges
     else obind (of_loop (uart_spin dev (uart st))) (\<lambda>u. Ok (st\<lparr>uart := WriteReg dev THR c u\<rparr>)))"

definition uartgetc :: "'u uart_dev \<Rightarrow> 'u console \<Rightarrow> u8 option \<times> 'u console" where
  "uartgetc dev st = (let (s, u) = ReadReg dev LSR (uart st) in
     if s AND 1 \<noteq> 0 then let (c, u) = ReadReg dev RHR u in (Some c, st\<lparr>uart := u\<rparr>) else (None, st\<lparr>uart := u\<rparr>))"

subsection \<open>Console\<close>

definition consputc :: "'u uart_dev \<Rightarrow> nat \<Rightarrow> 'u console \<Rightarrow> 'u console outcome" where
  "consputc dev c st = (if c = BACKSPACE then ofold (uartputc_sync dev) [8, 32, 8] st
     else uartputc_sync dev (word_of_nat c) st)"

lemma uartputc_sync_keeps: "uartputc_sync dev c st = Ok st' \<Longrightarrow> \<exists>u. st' = st\<lparr>uart := u\<rparr>"
  by (auto simp: uartputc_sync_def outcome_iff split: if_splits)

lemma consputc_keeps: "consputc dev c st = Ok st' \<Longrightarrow> \<exists>u. st' = st\<lparr>uart := u\<rparr>"
  by (auto simp: consputc_def outcome_iff dest!: uartputc_sync_keeps split: if_splits)

text \<open>Kernel \<^verbatim>\<open>printf\<close> sends the formatted bytes to the console; \<^verbatim>\<open>panic\<close> prints its message and stops output.\<close>

definition cprintf :: "'u uart_dev \<Rightarrow> u8 list \<Rightarrow> arg list \<Rightarrow> 'u console \<Rightarrow> 'u console outcome" where
  "cprintf dev fmt as st = obind (kprintf fmt as) (\<lambda>bs. ofold (\<lambda>c. consputc dev (unat c)) bs st)"

function consolewrite :: "'u uart_dev \<Rightarrow> bool \<Rightarrow> u64 \<Rightarrow> int \<Rightarrow> int \<Rightarrow> umem \<Rightarrow> 'u console \<Rightarrow> (int \<times> 'u console) outcome" where
  "consolewrite dev user src n i um st = (if i < n then
     (case either_copyin user (src + word_of_int i) 1 um of (ok, c) \<Rightarrow>
        if \<not> ok then Ok (i, st)
        else obind (uartputc dev (hd c) st) (\<lambda>st. consolewrite dev user src n (i + 1) um st))
     else Ok (i, st))"
  by pat_completeness auto
termination by (relation "measure (\<lambda>(dev, user, src, n, i, um, st). nat (n - i))") auto

text \<open>
  \<^verbatim>\<open>consoleread\<close> up to the point where it returns or sleeps; a sleeping call resumes with the \<open>n\<close> bytes it still
  wants. 4 is control-D and 10 the newline.
\<close>

function consoleread :: "bool \<Rightarrow> bool \<Rightarrow> u64 \<Rightarrow> int \<Rightarrow> int \<Rightarrow> umem \<Rightarrow> 'u console \<Rightarrow> (u64 \<times> int) segment \<times> umem \<times> 'u console" where
  "consoleread killed user dst target n um st = (if 0 < n then
     if cr st = cw st then (if killed then (Returns (-1), um, st) else (Waits (dst, n), um, st))
     else let c = cbuf st ! (unat (cr st) mod INPUT_BUF_SIZE);
              st' = st\<lparr>cr := cr st + 1\<rparr> in
       if c = 4 then (Returns (target - n), um, if n < target then st else st')
       else case either_copyout user dst [c] um of (ok, um') \<Rightarrow>
         if \<not> ok then (Returns (target - n), um', st')
         else if c = 10 then (Returns (target - (n - 1)), um', st')
         else consoleread killed user (dst + 1) target (n - 1) um' st'
     else (Returns (target - n), um, st))"
  by pat_completeness auto
termination by (relation "measure (\<lambda>(killed, user, dst, target, n, um, st). nat n)") auto

declare consolewrite.simps [simp del] consoleread.simps [simp del]

text \<open>The loop for control-U, and the interrupt handler; \<open>dump\<close> is the text of \<^verbatim>\<open>procdump\<close>.\<close>

function kill_line :: "'u uart_dev \<Rightarrow> 'u console \<Rightarrow> 'u console outcome" where
  "kill_line dev st = (if ce st \<noteq> cw st \<and> cbuf st ! (unat (ce st - 1) mod INPUT_BUF_SIZE) \<noteq> 10
     then obind (consputc dev BACKSPACE (st\<lparr>ce := ce st - 1\<rparr>)) (kill_line dev)
     else Ok st)"
  by pat_completeness auto
termination
proof (relation "measure (\<lambda>(dev, st). unat (ce st - cw st))", goal_cases)
  case (2 dev st st')
  then have "ce st - cw st \<noteq> 0" by simp
  from measure_unat [OF this] 2 show ?case by (auto simp: algebra_simps dest!: consputc_keeps)
qed simp

declare kill_line.simps [simp del]

definition consoleintr :: "'u uart_dev \<Rightarrow> u8 list \<Rightarrow> u8 \<Rightarrow> 'u console \<Rightarrow> 'u console outcome" where
  "consoleintr dev dump c st =
    (if c = 16 then ofold (\<lambda>c. consputc dev (unat c)) dump st
     else if c = 21 then kill_line dev st
     else if c = 8 \<or> c = 127 then
       if ce st \<noteq> cw st then consputc dev BACKSPACE (st\<lparr>ce := ce st - 1\<rparr>) else Ok st
     else if c \<noteq> 0 \<and> ce st - cr st < word_of_nat INPUT_BUF_SIZE then
       let c = (if c = 13 then 10 else c) in
       obind (consputc dev (unat c) st) (\<lambda>st.
         let st = st\<lparr>cbuf := (cbuf st)[unat (ce st) mod INPUT_BUF_SIZE := c], ce := ce st + 1\<rparr> in
         Ok (if c = 10 \<or> c = 4 \<or> ce st - cr st = word_of_nat INPUT_BUF_SIZE then st\<lparr>cw := ce st\<rparr> else st))
     else Ok st)"

text \<open>\<^verbatim>\<open>uartintr\<close>: the input loop ends only if the device runs out of input.\<close>

definition uart_input :: "'u uart_dev \<Rightarrow> u8 list \<Rightarrow> 'u console \<Rightarrow> (bool \<times> 'u console) outcome" where
  "uart_input dev dump st = (case uartgetc dev st of
     (None, st) \<Rightarrow> Ok (False, st)
   | (Some c, st) \<Rightarrow> obind (consoleintr dev dump c st) (\<lambda>st. Ok (True, st)))"

partial_function (option) uartintr_loop :: "'u uart_dev \<Rightarrow> u8 list \<Rightarrow> 'u console \<Rightarrow> 'u console outcome option" where
  "uartintr_loop dev dump st = (case uart_input dev dump st of
     Ok (again, st) \<Rightarrow> if again then uartintr_loop dev dump st else Some (Ok st)
   | r \<Rightarrow> Some (obind r (\<lambda>(again, st). Ok st)))"

definition uartintr :: "'u uart_dev \<Rightarrow> u8 list \<Rightarrow> 'u console \<Rightarrow> 'u console outcome" where
  "uartintr dev dump st = obind (of_loop (uartintr_loop dev dump st)) (\<lambda>r. obind r (\<lambda>st. Ok (uartstart dev st)))"

section \<open>Input: a line editor\<close>

text \<open>The bytes from counter \<open>i\<close> on, and the two parts of the buffer: what is ready to be read, and the line being edited.\<close>

definition cons_at :: "u8 list \<Rightarrow> u32 \<Rightarrow> nat \<Rightarrow> u8 list" where
  "cons_at b i n = map (\<lambda>k. b ! ((unat i + k) mod INPUT_BUF_SIZE)) [0..<n]"

definition ready :: "'u console \<Rightarrow> u8 list" where
  "ready st = cons_at (cbuf st) (cr st) (unat (cw st - cr st))"

definition editing :: "'u console \<Rightarrow> u8 list" where
  "editing st = cons_at (cbuf st) (cw st) (unat (ce st - cw st))"

definition cons_ok :: "'u console \<Rightarrow> bool" where
  "cons_ok st \<longleftrightarrow> length (cbuf st) = INPUT_BUF_SIZE \<and>
     unat (cw st - cr st) + unat (ce st - cw st) \<le> INPUT_BUF_SIZE \<and> 10 \<notin> set (editing st)"

text \<open>The specification: a finished part and an edited line of together at most 128 bytes.\<close>

definition line_edit :: "u8 \<Rightarrow> u8 list \<times> u8 list \<Rightarrow> u8 list \<times> u8 list" where
  "line_edit c s = (let (R, E) = s in
     if c = 16 then (R, E)
     else if c = 21 then (R, [])
     else if c = 8 \<or> c = 127 then (R, butlast E)
     else if c \<noteq> 0 \<and> length R + length E < INPUT_BUF_SIZE then
       let c = (if c = 13 then 10 else c) in
       if c = 10 \<or> c = 4 \<or> length R + length E + 1 = INPUT_BUF_SIZE then (R @ E @ [c], []) else (R, E @ [c])
     else (R, E))"

lemma cons_at_0 [simp]: "cons_at b i 0 = []"
  by (simp add: cons_at_def)

lemma cons_at_length [simp]: "length (cons_at b i n) = n"
  by (simp add: cons_at_def)

lemma cons_at_nth: "k < n \<Longrightarrow> cons_at b i n ! k = b ! ((unat i + k) mod 128)"
  by (simp add: cons_at_def)

lemma counter_add: "unat (i + j :: u32) mod 128 = (unat i + unat j) mod 128"
  by (simp add: unat_word_ariths mod_mod_cancel)

lemma cons_at_append: "cons_at b i n @ cons_at b j m = cons_at b i (n + m)" if "unat (j - i) = n" for i j :: u32
proof (rule nth_equalityI)
  fix k assume "k < length (cons_at b i n @ cons_at b j m)"
  have "j = i + (j - i)" by simp
  then have "unat j mod 128 = (unat i + n) mod 128" using counter_add [of i "j - i"] that by simp
  then have "(unat j + (k - n)) mod 128 = (unat i + n + (k - n)) mod 128" by (rule mod_add_cong [OF _ refl])
  then show "(cons_at b i n @ cons_at b j m) ! k = cons_at b i (n + m) ! k"
    using \<open>k < length _\<close> by (auto simp: nth_append cons_at_nth)
qed simp

lemma ready_editing: "cons_ok st \<Longrightarrow> ready st @ editing st = cons_at (cbuf st) (cr st) (unat (ce st - cr st)) \<and>
    unat (ce st - cr st) = unat (cw st - cr st) + unat (ce st - cw st)"
proof -
  assume ok: "cons_ok st"
  have "unat ((cw st - cr st) + (ce st - cw st)) = unat (cw st - cr st) + unat (ce st - cw st)"
    using ok unfolding cons_ok_def unat_word_ariths by simp
  then have "unat (ce st - cr st) = unat (cw st - cr st) + unat (ce st - cw st)" by simp
  then show ?thesis unfolding ready_def editing_def by (simp add: cons_at_append)
qed

text \<open>A UART whose transmit register becomes empty whenever it is waited for.\<close>

definition uart_drains :: "'u uart_dev \<Rightarrow> bool" where
  "uart_drains dev \<longleftrightarrow> (\<forall>u. \<exists>u'. uart_spin dev u = Some u')"

lemma uartputc_sync_ok: "uart_drains dev \<Longrightarrow> \<not> panicked st \<Longrightarrow> \<exists>u. uartputc_sync dev c st = Ok (st\<lparr>uart := u\<rparr>)"
  by (auto simp: uartputc_sync_def uart_drains_def) (metis obind.simps(5) of_loop.simps(2))

lemma ofold_sync_ok: "uart_drains dev \<Longrightarrow> \<not> panicked st \<Longrightarrow> \<exists>u. ofold (uartputc_sync dev) cs st = Ok (st\<lparr>uart := u\<rparr>)"
proof (induction cs arbitrary: st)
  case (Cons c cs)
  obtain u where u: "uartputc_sync dev c st = Ok (st\<lparr>uart := u\<rparr>)" using uartputc_sync_ok [OF Cons.prems] by blast
  obtain u' where "ofold (uartputc_sync dev) cs (st\<lparr>uart := u\<rparr>) = Ok (st\<lparr>uart := u, uart := u'\<rparr>)"
    using Cons.IH [of "st\<lparr>uart := u\<rparr>"] Cons.prems by auto
  then show ?case using u by auto
next
  case Nil
  show ?case by (intro exI [of _ "uart st"]) simp
qed

lemma consputc_ok: "uart_drains dev \<Longrightarrow> \<not> panicked st \<Longrightarrow> \<exists>u. consputc dev c st = Ok (st\<lparr>uart := u\<rparr>)"
  unfolding consputc_def using uartputc_sync_ok ofold_sync_ok by metis

lemma ofold_consputc_ok: "uart_drains dev \<Longrightarrow> \<not> panicked st \<Longrightarrow> \<exists>u. ofold (\<lambda>c. consputc dev (unat (c :: u8))) cs st = Ok (st\<lparr>uart := u\<rparr>)"
proof (induction cs arbitrary: st)
  case (Cons c cs)
  obtain u where u: "consputc dev (unat c) st = Ok (st\<lparr>uart := u\<rparr>)" using consputc_ok [OF Cons.prems] by blast
  obtain u' where "ofold (\<lambda>c. consputc dev (unat c)) cs (st\<lparr>uart := u\<rparr>) = Ok (st\<lparr>uart := u, uart := u'\<rparr>)"
    using Cons.IH [of "st\<lparr>uart := u\<rparr>"] Cons.prems by auto
  then show ?case using u by auto
next
  case Nil
  show ?case by (intro exI [of _ "uart st"]) simp
qed

lemma unat_pred: "x \<noteq> 0 \<Longrightarrow> unat (x - 1) = unat x - 1" for x :: u32
  by (simp add: unat_minus_one)

lemma editing_last:
  assumes "ce st \<noteq> cw st"
  shows "editing st = cons_at (cbuf st) (cw st) (unat (ce st - 1 - cw st)) @ [cbuf st ! (unat (ce st - 1) mod 128)]"
proof -
  have ne: "ce st - cw st \<noteq> 0" using assms by simp
  have e: "ce st - 1 - cw st = ce st - cw st - 1" by simp
  have n: "unat (ce st - cw st) = Suc (unat (ce st - 1 - cw st))" unfolding e unat_pred [OF ne] using ne unat_gt_0 [of "ce st - cw st"] by simp
  have "unat (ce st - 1) mod 128 = (unat (cw st) + unat (ce st - 1 - cw st)) mod 128"
    using counter_add [of "cw st" "ce st - 1 - cw st"] by simp
  then show ?thesis unfolding editing_def n by (simp add: cons_at_def)
qed

lemma kill_line_ok:
  assumes "uart_drains dev" and "\<not> panicked st" and "10 \<notin> set (editing st)"
  shows "\<exists>u. kill_line dev st = Ok (st\<lparr>ce := cw st, uart := u\<rparr>)"
  using assms(2,3)
proof (induction "unat (ce st - cw st)" arbitrary: st rule: less_induct)
  case less
  show ?case
  proof (cases "ce st = cw st")
    case True
    then show ?thesis by (subst kill_line.simps) (auto intro!: exI [of _ "uart st"])
  next
    case False
    note L = editing_last [OF False]
    have c: "cbuf st ! (unat (ce st - 1) mod 128) \<noteq> 10" using L less.prems(2) by auto
    obtain u where u: "consputc dev 256 (st\<lparr>ce := ce st - 1\<rparr>) = Ok (st\<lparr>ce := ce st - 1, uart := u\<rparr>)"
      using consputc_ok [OF assms(1), of "st\<lparr>ce := ce st - 1\<rparr>"] less.prems(1) by auto
    let ?t = "st\<lparr>ce := ce st - 1, uart := u\<rparr>"
    have "ce st - cw st \<noteq> 0" using False by simp
    then have "unat (ce ?t - cw ?t) < unat (ce st - cw st)" using measure_unat [of "ce st - cw st"] by (simp add: algebra_simps)
    moreover have "10 \<notin> set (editing ?t)" using less.prems(2) unfolding L by (simp add: editing_def)
    ultimately obtain u' where "kill_line dev ?t = Ok (?t\<lparr>ce := cw ?t, uart := u'\<rparr>)" using less.hyps less.prems(1) by fastforce
    then show ?thesis using u c False by (subst kill_line.simps) auto
  qed
qed

lemma editing_append:
  fixes c :: u8
  assumes "length (cbuf st) = 128" and "unat (cw st - cr st) + unat (ce st - cw st) < 128"
  defines "b \<equiv> (cbuf st)[unat (ce st) mod 128 := c]"
  shows "cons_at b (cr st) (unat (cw st - cr st)) = ready st" and "cons_at b (cw st) (unat (ce st + 1 - cw st)) = editing st @ [c]"
    and "unat (ce st + 1 - cw st) = Suc (unat (ce st - cw st))"
proof -
  let ?r = "unat (cw st - cr st)" and ?n = "unat (ce st - cw st)"
  have e: "unat (ce st) mod 128 = (unat (cw st) + ?n) mod 128" using counter_add [of "cw st" "ce st - cw st"] by simp
  have w: "unat (cw st) mod 128 = (unat (cr st) + ?r) mod 128" using counter_add [of "cr st" "cw st - cr st"] by simp
  have "unat ((ce st - cw st) + 1) = Suc ?n" using assms(2) unfolding unat_word_ariths by simp
  then show s: "unat (ce st + 1 - cw st) = Suc ?n" by (simp add: algebra_simps)
  have d: "(a + i) mod 128 \<noteq> (a + j) mod 128" if "i < j" "j - i < 128" for a i j :: nat
    using mod_eq_dvd_iff_nat [of "a + i" "a + j" 128] that by (auto dest: dvd_imp_le)
  have "(unat (cw st) + ?n) mod 128 = (unat (cr st) + (?r + ?n)) mod 128" using mod_add_cong [OF w refl, of ?n] by (simp add: add.assoc)
  then have "b ! ((unat (cr st) + k) mod 128) = cbuf st ! ((unat (cr st) + k) mod 128)" if "k < ?r" for k
  proof -
    have "(unat (cr st) + k) mod 128 \<noteq> (unat (cr st) + (?r + ?n)) mod 128" by (rule d) (use that assms(2) in auto)
    then show ?thesis using e \<open>(unat (cw st) + ?n) mod 128 = _\<close> by (simp add: b_def)
  qed
  then show "cons_at b (cr st) ?r = ready st" by (simp add: ready_def cons_at_def)
  have "b ! ((unat (cw st) + ?n) mod 128) = c" using assms(1) by (simp add: b_def flip: e)
  moreover have "b ! ((unat (cw st) + k) mod 128) = cbuf st ! ((unat (cw st) + k) mod 128)" if "k < ?n" for k
  proof -
    have "(unat (cw st) + k) mod 128 \<noteq> (unat (cw st) + ?n) mod 128" by (rule d) (use that assms(2) in auto)
    then show ?thesis using e by (simp add: b_def)
  qed
  ultimately show "cons_at b (cw st) (unat (ce st + 1 - cw st)) = editing st @ [c]"
    unfolding s by (simp add: cons_at_def editing_def)
qed

lemma consoleintr_ok:
  assumes "uart_drains dev" and "\<not> panicked st" and "cons_ok st"
  shows "\<exists>st'. consoleintr dev dump c st = Ok st' \<and> cons_ok st' \<and> \<not> panicked st' \<and>
    (ready st', editing st') = line_edit c (ready st, editing st)"
proof -
  note C = consputc_ok [OF assms(1)] and RE = ready_editing [OF assms(3)]
  have len: "length (ready st) = unat (cw st - cr st)" "length (editing st) = unat (ce st - cw st)"
    by (simp_all add: ready_def editing_def)
  consider "c = 16" | "c = 21" | "c = 8 \<or> c = 127" | "c \<notin> {16, 21, 8, 127}" by blast
  then show ?thesis
  proof cases
    case 1
    obtain u where "ofold (\<lambda>c. consputc dev (unat c)) dump st = Ok (st\<lparr>uart := u\<rparr>)"
      using ofold_consputc_ok [OF assms(1,2)] by blast
    then show ?thesis using 1 assms(2,3) by (simp add: consoleintr_def line_edit_def cons_ok_def ready_def editing_def)
  next
    case 2
    obtain u where "kill_line dev st = Ok (st\<lparr>ce := cw st, uart := u\<rparr>)"
      using kill_line_ok [OF assms(1,2)] assms(3) by (auto simp: cons_ok_def)
    then show ?thesis using 2 assms(2,3) by (simp add: consoleintr_def line_edit_def cons_ok_def ready_def editing_def)
  next
    case 3
    show ?thesis
    proof (cases "ce st = cw st")
      case True
      then have "editing st = []" by (simp add: editing_def cons_at_def)
      then show ?thesis using True 3 assms(2,3) by (auto simp: consoleintr_def line_edit_def)
    next
      case False
      obtain u where u: "consputc dev 256 (st\<lparr>ce := ce st - 1\<rparr>) = Ok (st\<lparr>ce := ce st - 1, uart := u\<rparr>)"
        using C [of "st\<lparr>ce := ce st - 1\<rparr>"] assms(2) by auto
      have e: "editing (st\<lparr>ce := ce st - 1, uart := u\<rparr>) = butlast (editing st)"
        unfolding editing_last [OF False] by (simp add: editing_def)
      moreover have "ready (st\<lparr>ce := ce st - 1, uart := u\<rparr>) = ready st" by (simp add: ready_def)
      moreover have "unat (ce st - 1 - cw st) \<le> unat (ce st - cw st)"
        using measure_unat [of "ce st - cw st"] False by (simp add: algebra_simps)
      moreover have "10 \<notin> set (butlast (editing st))" using assms(3) by (auto simp: cons_ok_def dest: in_set_butlastD)
      ultimately show ?thesis using u False 3 assms(2,3) by (auto simp: consoleintr_def line_edit_def cons_ok_def)
    qed
  next
    case 4
    have full: "ce st - cr st < 128 \<longleftrightarrow> length (ready st) + length (editing st) < 128"
      using RE len by (simp add: word_less_nat_alt)
    show ?thesis
    proof (cases "c \<noteq> 0 \<and> ce st - cr st < 128")
      case False
      then show ?thesis using 4 full assms(2,3) by (auto simp: consoleintr_def line_edit_def)
    next
      case True
      define d where "d = (if c = 13 then 10 else c)"
      obtain u where u: "consputc dev (unat d) st = Ok (st\<lparr>uart := u\<rparr>)" using C assms(2) by blast
      define t where "t = st\<lparr>uart := u, cbuf := (cbuf st)[unat (ce st) mod 128 := d], ce := ce st + 1\<rparr>"
      have lt: "unat (cw st - cr st) + unat (ce st - cw st) < 128" using True full len by simp
      have ok: "length (cbuf st) = 128" using assms(3) by (simp add: cons_ok_def)
      have tr: "ready t = ready st" "editing t = editing st @ [d]" "unat (ce t - cw t) = Suc (unat (ce st - cw st))"
        using editing_append(1,2) [OF ok lt, where c = d] editing_append(3) [OF ok lt] by (simp_all add: t_def ready_def editing_def)
      have "unat (ce t - cr t) = Suc (unat (ce st - cr st))"
      proof -
        have "ce t - cr t = (ce st - cr st) + 1" by (simp add: t_def)
        moreover have "unat (ce st - cr st) < 128" using True by (simp add: word_less_nat_alt)
        ultimately show ?thesis by (simp add: unat_word_ariths)
      qed
      then have n: "unat (ce t - cr t) = unat (cw t - cr t) + unat (ce t - cw t)" and
        cnt: "ce t - cr t = 128 \<longleftrightarrow> length (ready st) + length (editing st) + 1 = 128" "unat (ce t - cr t) \<le> 128"
        using RE len lt tr(3) by (simp_all add: word_unat_eq_iff) (simp_all add: t_def)
      have r: "consoleintr dev dump c st = Ok (if d = 10 \<or> d = 4 \<or> ce t - cr t = 128 then t\<lparr>cw := ce t\<rparr> else t)"
        using 4 True u by (simp add: consoleintr_def t_def flip: d_def)
      have l: "line_edit c (ready st, editing st) = (if d = 10 \<or> d = 4 \<or> length (ready st) + length (editing st) + 1 = 128
          then (ready st @ editing st @ [d], []) else (ready st, editing st @ [d]))"
        using 4 True full by (simp add: line_edit_def flip: d_def)
      have np: "\<not> panicked t" "length (cbuf t) = 128" using assms(2) ok by (simp_all add: t_def)
      have all: "cons_at (cbuf t) (cr t) (unat (ce t - cr t)) = ready st @ editing st @ [d]"
        unfolding n cons_at_append [OF refl, symmetric] using tr by (simp add: ready_def editing_def)
      show ?thesis
      proof (cases "d = 10 \<or> d = 4 \<or> ce t - cr t = 128")
        case True
        then show ?thesis using r l np cnt all by (auto simp: cons_ok_def ready_def editing_def)
      next
        case False
        then have "cons_ok t" using tr np lt assms(3) by (auto simp: cons_ok_def t_def)
        then show ?thesis using r l np cnt(1) False tr by simp
      qed
    qed
  qed
qed

section \<open>Reading a line\<close>

lemma ready_Cons:
  assumes "ready st = c # rest"
  shows "cr st \<noteq> cw st" and "cbuf st ! (unat (cr st) mod 128) = c" and "ready (st\<lparr>cr := cr st + 1\<rparr>) = rest"
proof -
  have n: "unat (cw st - cr st) = Suc (length rest)" using arg_cong [OF assms, of length] by (simp add: ready_def)
  then show ne: "cr st \<noteq> cw st" by auto
  have hd: "ready st = cbuf st ! (unat (cr st) mod 128) # map (\<lambda>k. cbuf st ! ((unat (cr st) + Suc k) mod 128)) [0..<length rest]"
    unfolding ready_def n cons_at_def by (subst upt_conv_Cons) (simp_all add: map_Suc_upt [symmetric] comp_def del: upt_Suc)
  then show "cbuf st ! (unat (cr st) mod 128) = c" using assms by simp
  have m: "unat (cw st - (cr st + 1)) = length rest"
    using unat_pred [of "cw st - cr st"] ne n by (simp add: algebra_simps)
  have e: "(unat (cr st + 1) + k) mod 128 = (unat (cr st) + Suc k) mod 128" for k
    using mod_add_cong [OF counter_add [of "cr st" 1] refl, of k] by simp
  show "ready (st\<lparr>cr := cr st + 1\<rparr>) = rest" using hd assms by (simp add: ready_def m cons_at_def e)
qed

text \<open>The bytes of the line are delivered; the newline is delivered too, control-D is not, and ends an empty read.\<close>

lemma consoleread_line:
  assumes "ready st = line @ e # rest" and "\<forall>c\<in>set line. c \<noteq> 4 \<and> c \<noteq> 10" and "e = 4 \<or> e = 10" and "int (length line) < n" and "n \<le> target"
    and "ucopyout dst (if e = 10 then line @ [10] else line) um = (True, um')"
  shows "\<exists>i. consoleread killed True dst target n um st =
      (Returns (target - n + int (length line) + (if e = 10 then 1 else 0)), um', st\<lparr>cr := i\<rparr>) \<and>
    ready (st\<lparr>cr := i\<rparr>) = (if e = 4 \<and> (line \<noteq> [] \<or> n < target) then 4 # rest else rest)"
  using assms
proof (induction line arbitrary: st dst n um)
  case Nil
  note R = ready_Cons [OF Nil.prems(1) [simplified]]
  show ?case
  proof (cases "e = 10")
    case True
    then show ?thesis using R Nil.prems
      by (subst consoleread.simps) (simp add: either_copyout_def, intro exI [of _ "cr st + 1"], simp)
  next
    case False
    then have e: "e = 4" using Nil.prems(3) by auto
    show ?thesis
    proof (cases "n < target")
      case True
      then show ?thesis using R e Nil.prems by (subst consoleread.simps) (simp, intro exI [of _ "cr st"], simp)
    next
      case False
      then show ?thesis using R e Nil.prems by (subst consoleread.simps) (simp, intro exI [of _ "cr st + 1"], simp)
    qed
  qed
next
  case (Cons c line)
  let ?st = "st\<lparr>cr := cr st + 1\<rparr>"
  note R = ready_Cons [OF Cons.prems(1) [simplified]]
  obtain b where b: "um dst = Some b" using Cons.prems(6) by (auto split: option.splits if_splits)
  have o: "ucopyout (dst + 1) (if e = 10 then line @ [10] else line) (um(dst \<mapsto> c)) = (True, um')"
    using Cons.prems(6) b by (simp split: if_splits)
  have "\<exists>i. consoleread killed True (dst + 1) target (n - 1) (um(dst \<mapsto> c)) ?st =
      (Returns (target - (n - 1) + int (length line) + (if e = 10 then 1 else 0)), um', ?st\<lparr>cr := i\<rparr>) \<and>
    ready (?st\<lparr>cr := i\<rparr>) = (if e = 4 \<and> (line \<noteq> [] \<or> n - 1 < target) then 4 # rest else rest)"
    by (rule Cons.IH [OF R(3) _ Cons.prems(3) _ _ o]) (use Cons.prems in auto)
  then obtain i where i: "consoleread killed True (dst + 1) target (n - 1) (um(dst \<mapsto> c)) ?st =
      (Returns (target - (n - 1) + int (length line) + (if e = 10 then 1 else 0)), um', ?st\<lparr>cr := i\<rparr>)"
    "ready (?st\<lparr>cr := i\<rparr>) = (if e = 4 \<and> (line \<noteq> [] \<or> n - 1 < target) then 4 # rest else rest)" by blast
  have "consoleread killed True dst target n um st = consoleread killed True (dst + 1) target (n - 1) (um(dst \<mapsto> c)) ?st"
    using R(1,2) Cons.prems(2,4) b by (subst consoleread.simps) (simp add: either_copyout_def)
  then show ?case using i Cons.prems(5) by (intro exI [of _ i]) auto
qed

section \<open>Typing and reading a line\<close>

definition plain :: "u8 \<Rightarrow> bool" where
  "plain c \<longleftrightarrow> c \<notin> {0, 4, 8, 10, 13, 16, 21, 127}"

lemma type_plain:
  assumes "uart_drains dev" and "\<not> panicked st" and "cons_ok st" and "ready st = []" and "\<forall>c\<in>set line. plain c"
    and "length (editing st) + length line < 128"
  shows "\<exists>st'. ofold (consoleintr dev dump) line st = Ok st' \<and> cons_ok st' \<and> \<not> panicked st' \<and> ready st' = [] \<and> editing st' = editing st @ line"
  using assms(2-)
proof (induction line arbitrary: st)
  case (Cons c line)
  obtain t where t: "consoleintr dev dump c st = Ok t" "cons_ok t" "\<not> panicked t" "(ready t, editing t) = line_edit c (ready st, editing st)"
    using consoleintr_ok [OF assms(1) Cons.prems(1,2)] by blast
  have "line_edit c (ready st, editing st) = ([], editing st @ [c])"
    using Cons.prems(3,4,5) by (auto simp: line_edit_def plain_def)
  then have "ready t = []" "editing t = editing st @ [c]" using t(4) by simp_all
  then show ?case using Cons.IH [OF t(3,2)] t(1) Cons.prems(4,5) by simp
qed simp

text \<open>
  C34 (\<^verbatim>\<open>consoleintr\<close>, console.c): over a UART whose transmit register drains, the input handler returns for every input byte
  and refines the line editor: erase and kill work on the unfinished line only, a newline, control-D or a
  full buffer hands the line to readers, and nothing is lost or overwritten, also when the counters wrap around.
\<close>

theorem consoleintr_refines_line_editor:
  assumes "uart_drains dev" and "\<not> panicked st" and "cons_ok st"
  shows "\<exists>st'. consoleintr dev dump c st = Ok st' \<and> cons_ok st' \<and> \<not> panicked st' \<and>
    (ready st', editing st') = line_edit c (ready st, editing st)"
  by (rule consoleintr_ok [OF assms])

text \<open>
  C35 (\<^verbatim>\<open>consoleintr\<close> and \<^verbatim>\<open>consoleread\<close>, console.c): a line of ordinary characters typed at an idle console and ended by the
  return key is what the next read with a buffer of sufficient size returns, with the return key as a newline, in
  one piece, and it leaves the console idle.
\<close>

theorem typed_line_is_read:
  assumes "uart_drains dev" and "\<not> panicked st" and "cons_ok st" and "ready st = []" and "editing st = []"
    and "\<forall>c\<in>set line. plain c" and "length line < 128" and "int (length line) < n" and "ucopyout dst (line @ [10]) um = (True, um')"
  shows "\<exists>st1 st2. ofold (consoleintr dev dump) (line @ [13]) st = Ok st1 \<and>
    consoleread killed True dst n n um st1 = (Returns (int (length line) + 1), um', st2) \<and> ready st2 = [] \<and> editing st2 = []"
proof -
  obtain t where t: "ofold (consoleintr dev dump) line st = Ok t" "cons_ok t" "\<not> panicked t" "ready t = []" "editing t = line"
    using type_plain [OF assms(1-4,6)] assms(5,7) by auto
  obtain u where u: "consoleintr dev dump 13 t = Ok u" "(ready u, editing u) = line_edit 13 (ready t, editing t)"
    using consoleintr_ok [OF assms(1) t(3,2)] by blast
  have ru: "ready u = line @ [10]" "editing u = []" using u(2) t(4,5) assms(7) by (simp_all add: line_edit_def)
  have p: "\<forall>c\<in>set line. c \<noteq> 4 \<and> c \<noteq> 10" using assms(6) by (auto simp: plain_def)
  obtain i where i: "consoleread killed True dst n n um u = (Returns (int (length line) + 1), um', u\<lparr>cr := i\<rparr>)" "ready (u\<lparr>cr := i\<rparr>) = []"
    using consoleread_line [of u line 10 "[]" n n dst um um' killed] ru(1) p assms(8,9) by auto
  have "ofold (consoleintr dev dump) (line @ [13]) st = Ok u" using t(1) u(1) by (simp add: ofold_append)
  moreover have "editing (u\<lparr>cr := i\<rparr>) = []" using ru(2) by (simp add: editing_def)
  ultimately show ?thesis using i by blast
qed

text \<open>An example: a UART that is always idle, and a fresh console.\<close>

definition example_uart :: "u8 list uart_dev" where
  "example_uart = \<lparr>ReadReg = (\<lambda>r u. (if r = LSR then 32 else 0, u)), WriteReg = (\<lambda>r v u. if r = THR then u @ [v] else u)\<rparr>"

definition example_console :: "u8 list console" where
  "example_console = \<lparr>cbuf = replicate 128 0, cr = 4294967295, cw = 4294967295, ce = 4294967295, tx_buf = replicate 32 0, tx_w = 0, tx_r = 0,
     panicked = False, uart = []\<rparr>"

lemma example_console_ok: "uart_drains example_uart" "\<not> panicked example_console" "cons_ok example_console"
    "ready example_console = []" "editing example_console = []"
  by (simp_all add: uart_drains_def uart_spin.simps example_uart_def cons_ok_def example_console_def ready_def editing_def)

theorem consoleintr_refines_line_editor_witness:
  "\<exists>st'. consoleintr example_uart [] 104 example_console = Ok st' \<and> editing st' = [104]"
  using consoleintr_refines_line_editor [OF example_console_ok(1-3), of "[]" 104]
  by (auto simp: example_console_ok line_edit_def)

theorem typed_line_is_read_witness:
  "\<exists>st1 um' st2. ofold (consoleintr example_uart []) [104, 105, 13] example_console = Ok st1 \<and>
     consoleread False True 4096 100 100 (\<lambda>a. Some 0) st1 = (Returns 3, um', st2) \<and> um' 4097 = Some 105"
  using typed_line_is_read [OF example_console_ok, of "[104, 105]" 100 4096 "\<lambda>a. Some 0"
      "(\<lambda>a. Some 0)(4096 \<mapsto> 104, 4097 \<mapsto> 105, 4098 \<mapsto> 10)" "[]" False]
  by (auto simp: plain_def)

end
