(* ===== verification/Xv6_File.thy ===== *)
theory Xv6_File
  imports Xv6_Fs_Correct Xv6_Console
begin

text \<open>
  The file table (\<^verbatim>\<open>kernel/file.c\<close>) and \<^verbatim>\<open>pipealloc\<close> (\<^verbatim>\<open>kernel/pipe.c\<close>): open files over inodes, pipes and the console, on
  one kernel state that holds the file system, the pipes, the console and physical memory.
\<close>

section \<open>State\<close>

abbreviation (input) NFILE :: nat where "NFILE \<equiv> 100"
abbreviation (input) NDEV :: int where "NDEV \<equiv> 10"
abbreviation (input) CONSOLE :: nat where "CONSOLE \<equiv> 1"

datatype fdtype = FD_NONE | FD_PIPE | FD_INODE | FD_DEVICE

record struct_file =
  ftype :: fdtype
  fref :: int
  freadable :: bool
  fwritable :: bool
  fpipe :: u64
  fip :: nat
  foff :: u32
  fmajor :: u16

text \<open>
  An entry of \<^verbatim>\<open>devsw\<close> is empty or holds the two console functions, the only ones the kernel ever stores. A file
  is an index into \<^verbatim>\<open>ftable.file\<close>, and a pipe the address of the page that holds it.
\<close>

datatype devfun = NoDev | ConsoleDev

record ('d, 'u) ksys =
  fsys :: "'d fs"
  ftab :: "nat \<Rightarrow> struct_file"
  pipes :: "u64 \<Rightarrow> pipe"
  pool :: kmem
  con :: "'u console"
  devsw :: "nat \<Rightarrow> devfun"

definition fupd :: "nat \<Rightarrow> (struct_file \<Rightarrow> struct_file) \<Rightarrow> ('d, 'u, 'z) ksys_scheme \<Rightarrow> ('d, 'u, 'z) ksys_scheme" where
  "fupd f g st = st\<lparr>ftab := (ftab st)(f := g (ftab st f))\<rparr>"

text \<open>A file-system operation, and the two ends of a transaction, on the kernel state.\<close>

definition on_fs :: "('d fs \<Rightarrow> 'd fs outcome) \<Rightarrow> ('d, 'u, 'z) ksys_scheme \<Rightarrow> ('d, 'u, 'z) ksys_scheme outcome" where
  "on_fs op st = obind (op (fsys st)) (\<lambda>s. Ok (st\<lparr>fsys := s\<rparr>))"

definition on_fs_val :: "('d fs \<Rightarrow> ('a \<times> 'd fs) outcome) \<Rightarrow> ('d, 'u, 'z) ksys_scheme \<Rightarrow> ('a \<times> ('d, 'u, 'z) ksys_scheme) outcome" where
  "on_fs_val op st = obind (op (fsys st)) (\<lambda>(x, s). Ok (x, st\<lparr>fsys := s\<rparr>))"

definition fs_begin_op :: "'d fs \<Rightarrow> 'd fs outcome" where
  "fs_begin_op s = obind (begin_op (lg (ls s))) (\<lambda>l. Ok (s\<lparr>ls := (ls s)\<lparr>lg := l\<rparr>\<rparr>))"

definition fs_end_op :: "'d driver \<Rightarrow> i32 \<Rightarrow> 'd fs \<Rightarrow> 'd fs outcome" where
  "fs_end_op rw me s = obind (end_op rw me (ls s)) (\<lambda>l. Ok (s\<lparr>ls := l\<rparr>))"

section \<open>Operations\<close>

definition consoleinit :: "'u uart_dev \<Rightarrow> ('d, 'u, 'z) ksys_scheme \<Rightarrow> ('d, 'u, 'z) ksys_scheme" where
  "consoleinit dev st = st\<lparr>con := uartinit dev (con st), devsw := (devsw st)(CONSOLE := ConsoleDev)\<rparr>"

definition filealloc :: "('d, 'u, 'z) ksys_scheme \<Rightarrow> nat option \<times> ('d, 'u, 'z) ksys_scheme" where
  "filealloc st = (case List.find (\<lambda>f. fref (ftab st f) = 0) [0..<NFILE] of
     Some f \<Rightarrow> (Some f, fupd f (fref_update (\<lambda>_. 1)) st) | None \<Rightarrow> (None, st))"

definition filedup :: "nat \<Rightarrow> ('d, 'u, 'z) ksys_scheme \<Rightarrow> (nat \<times> ('d, 'u, 'z) ksys_scheme) outcome" where
  "filedup f st = (if fref (ftab st f) < 1 then Panic ''filedup'' else Ok (f, fupd f (\<lambda>x. x\<lparr>fref := fref x + 1\<rparr>) st))"

text \<open>Closing a pipe end of the pipe at address \<open>pi\<close>; the page is freed with the second one.\<close>

definition close_pipe :: "u64 \<Rightarrow> bool \<Rightarrow> ('d, 'u, 'z) ksys_scheme \<Rightarrow> ('d, 'u, 'z) ksys_scheme outcome" where
  "close_pipe pi writable st = (case pipeclose writable (pipes st pi) of (p, both) \<Rightarrow>
     let st = st\<lparr>pipes := (pipes st)(pi := p)\<rparr> in
     if both then obind (kfree pi (pool st)) (\<lambda>k. Ok (st\<lparr>pool := k\<rparr>)) else Ok st)"

definition fileclose :: "'d driver \<Rightarrow> i32 \<Rightarrow> nat \<Rightarrow> ('d, 'u, 'z) ksys_scheme \<Rightarrow> ('d, 'u, 'z) ksys_scheme outcome" where
  "fileclose rw me f st = (if fref (ftab st f) < 1 then Panic ''fileclose''
     else let st = fupd f (\<lambda>x. x\<lparr>fref := fref x - 1\<rparr>) st in
       if 0 < fref (ftab st f) then Ok st
       else let ff = ftab st f;
                st = fupd f (\<lambda>x. x\<lparr>fref := 0, ftype := FD_NONE\<rparr>) st
         in if ftype ff = FD_PIPE then close_pipe (fpipe ff) (fwritable ff) st
         else if ftype ff = FD_INODE \<or> ftype ff = FD_DEVICE then
           obind (on_fs fs_begin_op st) (\<lambda>st.
           obind (on_fs (iput rw me (fip ff)) st) (\<lambda>st. on_fs (fs_end_op rw me) st))
         else Ok st)"

text \<open>
  \<^verbatim>\<open>struct stat\<close> in memory: 24 bytes, of which four between \<^verbatim>\<open>nlink\<close> and \<^verbatim>\<open>size\<close> are padding that nobody
  initialises; \<open>pad\<close> is what the kernel stack holds there.
\<close>

definition stat_bytes :: "u8 list \<Rightarrow> stat \<Rightarrow> u8 list" where
  "stat_bytes pad s = le_encode 4 (unat (st_dev s)) @ le_encode 4 (unat (st_ino s)) @ le_encode 2 (unat (st_type s)) @
     le_encode 2 (unat (st_nlink s)) @ pad @ le_encode 8 (unat (st_size s))"

definition filestat ::
  "'d driver \<Rightarrow> i32 \<Rightarrow> u8 list \<Rightarrow> nat \<Rightarrow> u64 \<Rightarrow> umem \<Rightarrow> ('d, 'u, 'z) ksys_scheme \<Rightarrow> (int \<times> umem \<times> ('d, 'u, 'z) ksys_scheme) outcome" where
  "filestat rw me pad f va um st = (let x = ftab st f in
     if ftype x = FD_INODE \<or> ftype x = FD_DEVICE then
       obind (on_fs (ilock rw me (fip x)) st) (\<lambda>st.
       let s = stati (fip x) (fsys st) in
       obind (on_fs (iunlock me (fip x)) st) (\<lambda>st.
       case ucopyout va (stat_bytes pad s) um of (ok, um) \<Rightarrow> Ok (if ok then 0 else -1, um, st)))
     else Ok (-1, um, st))"

text \<open>A call that has to wait in a pipe or at the console is the outcome \<open>Sleeps\<close>.\<close>

definition seg_value :: "'a segment \<Rightarrow> int outcome" where
  "seg_value s = (case s of Waits _ \<Rightarrow> Sleeps | Returns r \<Rightarrow> Ok r)"

definition dev_ready :: "u16 \<Rightarrow> ('d, 'u, 'z) ksys_scheme \<Rightarrow> bool" where
  "dev_ready m st \<longleftrightarrow> 0 \<le> sint m \<and> sint m < NDEV \<and> devsw st (unat m) \<noteq> NoDev"

definition fileread ::
  "'d driver \<Rightarrow> i32 \<Rightarrow> bool \<Rightarrow> nat \<Rightarrow> u64 \<Rightarrow> int \<Rightarrow> umem \<Rightarrow> ('d, 'u, 'z) ksys_scheme \<Rightarrow> (int \<times> umem \<times> ('d, 'u, 'z) ksys_scheme) outcome" where
  "fileread rw me killed f va n um st = (let x = ftab st f in
     if \<not> freadable x then Ok (-1, um, st)
     else case ftype x of
       FD_PIPE \<Rightarrow> (case piperead (unat me) killed va n um (pipes st (fpipe x)) of (s, um, p) \<Rightarrow>
         obind (seg_value s) (\<lambda>r. Ok (r, um, st\<lparr>pipes := (pipes st)(fpipe x := p)\<rparr>)))
     | FD_DEVICE \<Rightarrow> if \<not> dev_ready (fmajor x) st then Ok (-1, um, st)
         else (case consoleread killed True va n n um (con st) of (s, um, c) \<Rightarrow>
           obind (seg_value s) (\<lambda>r. Ok (r, um, st\<lparr>con := c\<rparr>)))
     | FD_INODE \<Rightarrow>
         obind (on_fs (ilock rw me (fip x)) st) (\<lambda>st.
         obind (readi rw me (fip x) True va (foff x) (word_of_int n) um (fsys st)) (\<lambda>(r, um, s).
         let st = st\<lparr>fsys := s\<rparr>;
             st = (if 0 < r then fupd f (\<lambda>x. x\<lparr>foff := foff x + word_of_int r\<rparr>) st else st)
         in obind (on_fs (iunlock me (fip x)) st) (\<lambda>st. Ok (r, um, st))))
     | FD_NONE \<Rightarrow> Panic ''fileread'')"

text \<open>The loop of \<^verbatim>\<open>filewrite\<close> over an inode: one transaction for every \<open>((MAXOPBLOCKS-1-1-2) / 2) * BSIZE\<close> bytes.\<close>

abbreviation (input) max_write :: int where "max_write \<equiv> 3072"

definition filewrite_chunk ::
  "'d driver \<Rightarrow> i32 \<Rightarrow> nat \<Rightarrow> u64 \<Rightarrow> int \<Rightarrow> umem \<Rightarrow> ('d, 'u, 'z) ksys_scheme \<Rightarrow> (int \<times> ('d, 'u, 'z) ksys_scheme) outcome" where
  "filewrite_chunk rw me f va k um st = (let ip = fip (ftab st f) in
     obind (on_fs fs_begin_op st) (\<lambda>st.
     obind (on_fs (ilock rw me ip) st) (\<lambda>st.
     obind (on_fs_val (writei rw me ip True va (foff (ftab st f)) (word_of_int k) um) st) (\<lambda>(r, st).
     let st = (if 0 < r then fupd f (\<lambda>x. x\<lparr>foff := foff x + word_of_int r\<rparr>) st else st) in
     obind (on_fs (iunlock me ip) st) (\<lambda>st.
     obind (on_fs (fs_end_op rw me) st) (\<lambda>st. Ok (r, st)))))))"

function filewrite_loop ::
  "'d driver \<Rightarrow> i32 \<Rightarrow> nat \<Rightarrow> u64 \<Rightarrow> int \<Rightarrow> int \<Rightarrow> umem \<Rightarrow> ('d, 'u, 'z) ksys_scheme \<Rightarrow> (int \<times> ('d, 'u, 'z) ksys_scheme) outcome" where
  "filewrite_loop rw me f va n i um st = (if i < n then
     let n1 = (if max_write < n - i then max_write else n - i) in
     obind (filewrite_chunk rw me f (va + word_of_int i) n1 um st) (\<lambda>(r, st).
       if r \<noteq> n1 then Ok (i, st) else filewrite_loop rw me f va n (i + r) um st)
     else Ok (i, st))"
  by pat_completeness auto
termination by (relation "measure (\<lambda>(rw, me, f, va, n, i, um, st). nat (n - i))") (auto split: if_splits)

declare filewrite_loop.simps [simp del]

definition filewrite ::
  "'d driver \<Rightarrow> 'u uart_dev \<Rightarrow> i32 \<Rightarrow> (int \<Rightarrow> bool) \<Rightarrow> nat \<Rightarrow> u64 \<Rightarrow> int \<Rightarrow> umem \<Rightarrow> ('d, 'u, 'z) ksys_scheme \<Rightarrow>
   (int \<times> ('d, 'u, 'z) ksys_scheme) outcome" where
  "filewrite rw dev me killed f va n um st = (let x = ftab st f in
     if \<not> fwritable x then Ok (-1, st)
     else case ftype x of
       FD_PIPE \<Rightarrow> (case pipewrite (unat me) killed um va n 0 (pipes st (fpipe x)) of (s, p) \<Rightarrow>
         obind (seg_value s) (\<lambda>r. Ok (r, st\<lparr>pipes := (pipes st)(fpipe x := p)\<rparr>)))
     | FD_DEVICE \<Rightarrow> if \<not> dev_ready (fmajor x) st then Ok (-1, st)
         else obind (consolewrite dev True va n 0 um (con st)) (\<lambda>(r, c). Ok (r, st\<lparr>con := c\<rparr>))
     | FD_INODE \<Rightarrow> obind (filewrite_loop rw me f va n 0 um st) (\<lambda>(i, st). Ok (if i = n then n else -1, st))
     | FD_NONE \<Rightarrow> Panic ''filewrite'')"

section \<open>Creating a pipe\<close>

text \<open>\<^verbatim>\<open>struct pipe\<close> has its data after the 24 bytes of the lock.\<close>

definition pipe_end :: "bool \<Rightarrow> u64 \<Rightarrow> struct_file \<Rightarrow> struct_file" where
  "pipe_end writable pi x = x\<lparr>ftype := FD_PIPE, freadable := \<not> writable, fwritable := writable, fpipe := pi\<rparr>"

definition pipealloc :: "'d driver \<Rightarrow> i32 \<Rightarrow> ('d, 'u, 'z) ksys_scheme \<Rightarrow> ((nat \<times> nat) option \<times> ('d, 'u, 'z) ksys_scheme) outcome" where
  "pipealloc rw me st = (case filealloc st of
     (None, st) \<Rightarrow> Ok (None, st)
   | (Some a, st) \<Rightarrow> (case filealloc st of
       (None, st) \<Rightarrow> obind (fileclose rw me a st) (\<lambda>st. Ok (None, st))
     | (Some b, st) \<Rightarrow> (case kalloc (pool st) of (pi, k) \<Rightarrow>
         let st = st\<lparr>pool := k\<rparr> in
         if pi = 0 then obind (fileclose rw me a st) (\<lambda>st. obind (fileclose rw me b st) (\<lambda>st. Ok (None, st)))
         else Ok (Some (a, b), fupd b (pipe_end True pi) (fupd a (pipe_end False pi)
           (st\<lparr>pipes := (pipes st)(pi := pipe_init (kbytes (mem k) (pi + 24) PIPESIZE))\<rparr>))))))"

section \<open>The life of a pipe\<close>

text \<open>Entries of the file table without references have no type.\<close>

definition free_files :: "('d, 'u, 'z) ksys_scheme \<Rightarrow> bool" where
  "free_files st \<longleftrightarrow> (\<forall>f<NFILE. fref (ftab st f) = 0 \<longrightarrow> ftype (ftab st f) = FD_NONE)"

lemma fupd_simps [simp]:
  "ftab (fupd f g st) = (ftab st)(f := g (ftab st f))" "pool (fupd f g st) = pool st" "pipes (fupd f g st) = pipes st"
  "fsys (fupd f g st) = fsys st"
  by (simp_all add: fupd_def)

lemma filealloc_cases:
  obtains "filealloc st = (None, st)" and "\<And>f. f < NFILE \<Longrightarrow> fref (ftab st f) \<noteq> 0"
  | f where "filealloc st = (Some f, fupd f (fref_update (\<lambda>_. 1)) st)" and "f < NFILE" and "fref (ftab st f) = 0"
proof (cases "List.find (\<lambda>f. fref (ftab st f) = 0) [0..<NFILE]")
  case None
  moreover from None have "\<And>f. f < NFILE \<Longrightarrow> fref (ftab st f) \<noteq> 0" by (auto simp: find_None_iff)
  ultimately show ?thesis using that(1) unfolding filealloc_def by simp
next
  case (Some f)
  moreover from Some have "f < NFILE" "fref (ftab st f) = 0" by (auto simp: find_Some_iff)
  ultimately show ?thesis using that(2) [of f] unfolding filealloc_def by simp
qed

lemma fileclose_none:
  assumes "fref (ftab st f) = 1" and "ftype (ftab st f) = FD_NONE"
  shows "fileclose rw me f st = Ok (fupd f (\<lambda>x. x\<lparr>fref := 0, ftype := FD_NONE\<rparr>) (fupd f (\<lambda>x. x\<lparr>fref := fref x - 1\<rparr>) st))"
  using assms by (simp add: fileclose_def)

lemma fileclose_pipe:
  assumes "fref (ftab st f) = 1" and "ftype (ftab st f) = FD_PIPE"
  shows "fileclose rw me f st = close_pipe (fpipe (ftab st f)) (fwritable (ftab st f))
    (fupd f (\<lambda>x. x\<lparr>fref := 0, ftype := FD_NONE\<rparr>) (fupd f (\<lambda>x. x\<lparr>fref := fref x - 1\<rparr>) st))"
  using assms by (simp add: fileclose_def)

text \<open>
  C37 (\<^verbatim>\<open>pipealloc\<close>, \<^verbatim>\<open>fileclose\<close>, \<^verbatim>\<open>pipeclose\<close>, \<^verbatim>\<open>kalloc\<close> and \<^verbatim>\<open>kfree\<close>): \<^verbatim>\<open>pipealloc\<close> fails only for lack of a page or of two free
  entries of the file table, and then leaves the page pool and all reference counts as they were. Otherwise
  it makes a read end and a write end of one new, empty, open pipe, and closing the two ends gives the page and both entries back.
\<close>

theorem pipe_lifecycle:
  assumes "kmem_ok (pool st)" and "free_files st"
  shows "\<exists>r st1. pipealloc rw me st = Ok (r, st1) \<and> (case r of
      None \<Rightarrow> (avail (pool st) = {} \<or> card {f. f < NFILE \<and> fref (ftab st f) = 0} < 2) \<and> avail (pool st1) = avail (pool st) \<and>
        (\<forall>f. fref (ftab st1 f) = fref (ftab st f))
    | Some (a, b) \<Rightarrow> a \<noteq> b \<and> a < NFILE \<and> b < NFILE \<and> fref (ftab st a) = 0 \<and> fref (ftab st b) = 0 \<and>
        freadable (ftab st1 a) \<and> fwritable (ftab st1 b) \<and> fpipe (ftab st1 a) = fpipe (ftab st1 b) \<and>
        (let p = pipes st1 (fpipe (ftab st1 a)) in Xv6_Pipe.contents p = [] \<and> readopen p \<and> writeopen p) \<and>
        (\<exists>st2 st3. fileclose rw me a st1 = Ok st2 \<and> fileclose rw me b st2 = Ok st3 \<and> avail (pool st3) = avail (pool st) \<and>
          kmem_ok (pool st3) \<and> (\<forall>f. fref (ftab st3 f) = fref (ftab st f))))"
proof (cases rule: filealloc_cases [of st])
  case 1
  then have "{f. f < NFILE \<and> fref (ftab st f) = 0} = {}" by auto
  then have c: "card {f. f < NFILE \<and> fref (ftab st f) = 0} < 2" by (simp only: card.empty)
  show ?thesis by (intro exI [of _ None] exI [of _ st]) (use 1(1) c in \<open>simp add: pipealloc_def\<close>)
next
  case (2 a)
  let ?s = "fupd a (fref_update (\<lambda>_. 1)) st"
  have ta: "ftype (ftab st a) = FD_NONE" using assms(2) 2(2,3) by (simp add: free_files_def)
  show ?thesis
  proof (cases rule: filealloc_cases [of ?s])
    case 1
    have "f = a" if "f < NFILE" "fref (ftab st f) = 0" for f using 1(2) [OF that(1)] that(2) by (cases "f = a") simp_all
    then have "{f. f < NFILE \<and> fref (ftab st f) = 0} \<subseteq> {a}" by blast
    then have "card {f. f < NFILE \<and> fref (ftab st f) = 0} \<le> card {a}" by (intro card_mono) auto
    then show ?thesis using 1(1) 2 ta
      by (simp add: pipealloc_def fileclose_none)
  next
    case (2 b)
    let ?t = "fupd b (fref_update (\<lambda>_. 1)) ?s"
    have b: "b \<noteq> a" "fref (ftab st b) = 0" using 2(3) by (auto split: if_splits)
    have tb: "ftype (ftab st b) = FD_NONE" using assms(2) 2(2) b(2) by (simp add: free_files_def)
    note ab = \<open>filealloc st = _\<close> \<open>fref (ftab st a) = 0\<close> \<open>a < NFILE\<close> 2(1,2) b ta tb
    obtain p k where k: "kalloc (pool st) = (p, k)" by fastforce
    show ?thesis
    proof (rule ka.alloc_cases [OF assms(1) k])
      assume "p = 0" "k = pool st" "avail (pool st) = {}"
      then show ?thesis using k ab by (simp add: pipealloc_def fileclose_none)
    next
      assume a: "p \<noteq> 0" "ram_page (pool st) p" "kmem_ok k" "p \<in> avail (pool st)" "avail k = avail (pool st) - {p}" "ram_page k = ram_page (pool st)"
      obtain k' where k': "kfree p k = Ok k'" "kmem_ok k'" "avail k' = insert p (avail k)"
        using ka.free_some [OF a(3), of p] a by auto
      show ?thesis using k ab a(1,4,5) k'
        by (simp add: pipealloc_def fileclose_pipe close_pipe_def pipe_end_def pipe_init_def pipeclose_def Xv6_Pipe.contents_def pipe_count_def insert_absorb)
    qed
  qed
qed

section \<open>The size of a transaction\<close>

lemma span_max_write: "n \<le> 3072 \<Longrightarrow> span off n \<le> 4"
proof -
  assume n: "n \<le> 3072"
  have "off + n - 1 < (off div 1024 + 4) * 1024" using n dividend_less_div_times [of 1024 off] by simp
  then have "(off + n - 1) div 1024 < off div 1024 + 4" by (rule less_mult_imp_div_less)
  then have "Suc ((off + n - 1) div 1024 - off div 1024) \<le> 4" by linarith
  then show ?thesis by (simp add: span_def)
qed



text \<open>A kernel with one free page and an empty file table.\<close>

definition example_ksys :: "(unit, unit) ksys" where
  "example_ksys = \<lparr>fsys = undefined, ftab = (\<lambda>_. \<lparr>ftype = FD_NONE, fref = 0, freadable = False, fwritable = False, fpipe = 0, fip = 0, foff = 0, fmajor = 0\<rparr>),
     pipes = (\<lambda>_. pipe_init (replicate 512 0)), pool = example_kmem, con = undefined, devsw = (\<lambda>_. NoDev)\<rparr>"

theorem pipe_lifecycle_witness:
  "\<exists>a b st1. pipealloc (\<lambda>w bn d k. Ok (d, k)) 1 example_ksys = Ok (Some (a, b), st1) \<and> a \<noteq> b"
proof -
  have ok: "kmem_ok (pool example_ksys)" and av: "avail (pool example_ksys) = {0x87fff000}"
    using example_kmem_inv avail_eq [OF example_kmem_inv] by (auto simp: example_ksys_def)
  have "{f. f < NFILE \<and> fref (ftab example_ksys f) = 0} = {..<NFILE}" by (auto simp: example_ksys_def)
  then have c: "\<not> card {f. f < NFILE \<and> fref (ftab example_ksys f) = 0} < 2" by (simp only: card_lessThan)
  have "free_files example_ksys" by (simp add: free_files_def example_ksys_def)
  from pipe_lifecycle [OF ok this, of "\<lambda>w bn d k. Ok (d, k)" 1] show ?thesis using av c by (auto split: option.splits)
qed

end
