(* ===== verification/Xv6_Proc.thy ===== *)
theory Xv6_Proc
  imports Xv6_File Xv6_Uvm_Free Xv6_Uvm_Grow
begin

text \<open>
  Processes (\<^verbatim>\<open>kernel/proc.c\<close>): the process table on top of the file table and physical memory. A process is an index
  into \<^verbatim>\<open>proc[]\<close>. The addresses \<open>tramp\<close> and \<open>forkret\<close> are those of the linker symbols of these names. The
  process and table locks make every piece of code that holds them atomic.
\<close>

section \<open>State\<close>

abbreviation (input) NPROC :: nat where "NPROC \<equiv> 64"
abbreviation (input) NOFILE :: nat where "NOFILE \<equiv> 16"

datatype procstate = UNUSED | USED | SLEEPING | RUNNABLE | RUNNING | ZOMBIE

text \<open>What a process sleeps on: another process, the clock, or an address in the kernel.\<close>

datatype chan = NoChan | ProcChan "nat option" | TicksChan | AddrChan u64

record struct_context =
  ctx_ra :: u64
  ctx_sp :: u64
  ctx_s :: "u64 list"

record proc =
  p_state :: procstate
  p_chan :: chan
  p_killed :: bool
  p_xstate :: i32
  p_pid :: i32
  p_parent :: "nat option"
  p_kstack :: u64
  p_sz :: u64
  p_pagetable :: u64
  p_trapframe :: u64
  p_context :: struct_context
  p_ofile :: "nat option list"
  p_cwd :: "nat option"
  p_name :: "u8 list"
  p_trace_mask :: u32

record ('d, 'u) kernel = "('d, 'u) ksys" +
  proc :: "nat \<Rightarrow> proc"
  cpu_proc :: "nat \<Rightarrow> nat option"
  nextpid :: i32
  initproc :: "nat option"
  ticks :: u32

definition pupd :: "nat \<Rightarrow> (proc \<Rightarrow> proc) \<Rightarrow> ('d, 'u) kernel \<Rightarrow> ('d, 'u) kernel" where
  "pupd i f st = st\<lparr>proc := (proc st)(i := f (proc st i))\<rparr>"

definition on_mem :: "(kmem \<Rightarrow> kmem outcome) \<Rightarrow> ('d, 'u) kernel \<Rightarrow> ('d, 'u) kernel outcome" where
  "on_mem op st = obind (op (pool st)) (\<lambda>k. Ok (st\<lparr>pool := k\<rparr>))"

definition on_mem_val :: "(kmem \<Rightarrow> ('a \<times> kmem) outcome) \<Rightarrow> ('d, 'u) kernel \<Rightarrow> ('a \<times> ('d, 'u) kernel) outcome" where
  "on_mem_val op st = obind (op (pool st)) (\<lambda>(x, k). Ok (x, st\<lparr>pool := k\<rparr>))"

text \<open>Fields of the trapframe, which is a page of physical memory, by their offset in \<^verbatim>\<open>struct trapframe\<close>.\<close>

abbreviation (input) tf_epc :: u64 where "tf_epc \<equiv> 24"
abbreviation (input) tf_sp :: u64 where "tf_sp \<equiv> 48"
abbreviation (input) tf_a0 :: u64 where "tf_a0 \<equiv> 112"
abbreviation (input) tf_a7 :: u64 where "tf_a7 \<equiv> 168"
abbreviation (input) tf_size :: nat where "tf_size \<equiv> 288"

definition tf_get :: "nat \<Rightarrow> u64 \<Rightarrow> ('d, 'u) kernel \<Rightarrow> u64" where
  "tf_get i off st = load64 (mem (pool st)) (p_trapframe (proc st i) + off)"

definition tf_set :: "nat \<Rightarrow> u64 \<Rightarrow> u64 \<Rightarrow> ('d, 'u) kernel \<Rightarrow> ('d, 'u) kernel" where
  "tf_set i off v st = st\<lparr>pool := (pool st)\<lparr>mem := store64 (mem (pool st)) (p_trapframe (proc st i) + off) v\<rparr>\<rparr>"

definition bytes_of :: "string \<Rightarrow> u8 list" where
  "bytes_of s = map (\<lambda>c. word_of_nat (of_char c)) s"

text \<open>\<^verbatim>\<open>safestrcpy(dst, src, sizeof(name))\<close> on the two arrays.\<close>

definition copy_name :: "u8 list \<Rightarrow> u8 list \<Rightarrow> u8 list" where
  "copy_name dst src = read_bytes (safestrcpy (two_arrays dst src) 0 4096 16) 0 16"

section \<open>Page tables of processes\<close>

definition loop_free :: "u64 \<Rightarrow> u64 \<Rightarrow> kmem \<Rightarrow> kmem outcome" where
  "loop_free pt sz k = obind (of_loop (uvmfree pt sz k)) id"

definition proc_pagetable :: "u64 \<Rightarrow> u64 \<Rightarrow> kmem \<Rightarrow> (u64 \<times> kmem) outcome" where
  "proc_pagetable tramp tf k = (case uvmcreate k of (pt, k) \<Rightarrow>
     if pt = 0 then Ok (0, k)
     else obind (mappages pt TRAMPOLINE PGSIZE tramp (PTE_R OR PTE_X) k) (\<lambda>(r, k).
       if sint r < 0 then obind (loop_free pt 0 k) (\<lambda>k. Ok (0, k))
       else obind (mappages pt TRAPFRAME PGSIZE tf (PTE_R OR PTE_W) k) (\<lambda>(r, k).
         if sint r < 0 then obind (uvmunmap pt TRAMPOLINE 1 False k) (\<lambda>k. obind (loop_free pt 0 k) (\<lambda>k. Ok (0, k)))
         else Ok (pt, k))))"

definition proc_freepagetable :: "u64 \<Rightarrow> u64 \<Rightarrow> kmem \<Rightarrow> kmem outcome" where
  "proc_freepagetable pt sz k = obind (uvmunmap pt TRAMPOLINE 1 False k) (\<lambda>k.
     obind (uvmunmap pt TRAPFRAME 1 False k) (loop_free pt sz))"

section \<open>Allocating and freeing\<close>

definition procinit :: "('d, 'u) kernel \<Rightarrow> ('d, 'u) kernel" where
  "procinit st = fold (\<lambda>i. pupd i (\<lambda>p. p\<lparr>p_state := UNUSED, p_kstack := KSTACK i\<rparr>)) [0..<NPROC] st"

definition allocpid :: "('d, 'u) kernel \<Rightarrow> i32 \<times> ('d, 'u) kernel" where
  "allocpid st = (nextpid st, st\<lparr>nextpid := nextpid st + 1\<rparr>)"

definition freeproc :: "nat \<Rightarrow> ('d, 'u) kernel \<Rightarrow> ('d, 'u) kernel outcome" where
  "freeproc i st = (let p = proc st i in
     obind (if p_trapframe p \<noteq> 0 then on_mem (kfree (p_trapframe p)) st else Ok st) (\<lambda>st.
     obind (if p_pagetable p \<noteq> 0 then on_mem (proc_freepagetable (p_pagetable p) (p_sz p)) st else Ok st) (\<lambda>st.
     Ok (pupd i (\<lambda>p. p\<lparr>p_trapframe := 0, p_pagetable := 0, p_sz := 0, p_pid := 0, p_parent := None, p_name := (p_name p)[0 := 0],
       p_chan := NoChan, p_killed := False, p_xstate := 0, p_state := UNUSED\<rparr>) st))))"

definition allocproc :: "u64 \<Rightarrow> u64 \<Rightarrow> ('d, 'u) kernel \<Rightarrow> (nat option \<times> ('d, 'u) kernel) outcome" where
  "allocproc tramp forkret st = (case List.find (\<lambda>i. p_state (proc st i) = UNUSED) [0..<NPROC] of
     None \<Rightarrow> Ok (None, st)
   | Some i \<Rightarrow> (case allocpid st of (pd, st) \<Rightarrow>
       let st = pupd i (\<lambda>p. p\<lparr>p_pid := pd, p_state := USED\<rparr>) st in
       case kalloc (pool st) of (tf, k) \<Rightarrow>
       let st = pupd i (p_trapframe_update (\<lambda>_. tf)) (st\<lparr>pool := k\<rparr>) in
       if tf = 0 then obind (freeproc i st) (\<lambda>st. Ok (None, st))
       else obind (on_mem_val (proc_pagetable tramp tf) st) (\<lambda>(pt, st).
         let st = pupd i (p_pagetable_update (\<lambda>_. pt)) st in
         if pt = 0 then obind (freeproc i st) (\<lambda>st. Ok (None, st))
         else Ok (Some i, pupd i (\<lambda>p. p\<lparr>p_context :=
           \<lparr>ctx_ra = forkret, ctx_sp = p_kstack p + PGSIZE, ctx_s = replicate 12 0\<rparr>\<rparr>) st))))"

text \<open>\<open>code\<close> is the address of the array \<^verbatim>\<open>initcode\<close>, 52 bytes long.\<close>

definition userinit :: "'d driver \<Rightarrow> u64 \<Rightarrow> u64 \<Rightarrow> u64 \<Rightarrow> ('d, 'u) kernel \<Rightarrow> ('d, 'u) kernel outcome" where
  "userinit rw tramp forkret code st = obind (allocproc tramp forkret st) (\<lambda>(r, st). case r of
     None \<Rightarrow> Undefined
   | Some i \<Rightarrow> let st = st\<lparr>initproc := Some i\<rparr> in
       obind (on_mem (uvmfirst (p_pagetable (proc st i)) code 52) st) (\<lambda>st.
       let st = tf_set i tf_sp PGSIZE (tf_set i tf_epc 0 (pupd i (\<lambda>p. p\<lparr>p_sz := PGSIZE\<rparr>) st));
           st = pupd i (\<lambda>p. p\<lparr>p_name := copy_name (p_name p) (bytes_of ''initcode'' @ [0])\<rparr>) st
       in obind (on_fs_val (namei rw 0 0 [47]) st) (\<lambda>(ip, st).
         Ok (pupd i (\<lambda>p. p\<lparr>p_cwd := ip, p_state := RUNNABLE, p_trace_mask := 0\<rparr>) st))))"

definition growproc :: "nat \<Rightarrow> int \<Rightarrow> ('d, 'u) kernel \<Rightarrow> (int \<times> ('d, 'u) kernel) outcome" where
  "growproc me n st = (let p = proc st me; sz = p_sz p; pt = p_pagetable p in
     if 0 < n then obind (on_mem_val (uvmalloc pt sz (sz + word_of_int n) PTE_W) st) (\<lambda>(sz, st).
       if sz = 0 then Ok (-1, st) else Ok (0, pupd me (p_sz_update (\<lambda>_. sz)) st))
     else if n < 0 then obind (on_mem_val (uvmdealloc pt sz (sz + word_of_int n)) st) (\<lambda>(sz, st).
       Ok (0, pupd me (p_sz_update (\<lambda>_. sz)) st))
     else Ok (0, pupd me (p_sz_update (\<lambda>_. sz)) st))"

section \<open>Sleeping and waking\<close>

text \<open>\<open>me\<close> is the caller, if a process runs on this CPU.\<close>

definition wakeup :: "nat option \<Rightarrow> chan \<Rightarrow> ('d, 'u) kernel \<Rightarrow> ('d, 'u) kernel" where
  "wakeup me ch st = fold (\<lambda>i st. if Some i \<noteq> me \<and> p_state (proc st i) = SLEEPING \<and> p_chan (proc st i) = ch
     then pupd i (p_state_update (\<lambda>_. RUNNABLE)) st else st) [0..<NPROC] st"

text \<open>\<^verbatim>\<open>sleep\<close> up to \<^verbatim>\<open>sched\<close>, and after it.\<close>

definition sleep :: "nat \<Rightarrow> chan \<Rightarrow> ('d, 'u) kernel \<Rightarrow> ('d, 'u) kernel" where
  "sleep me ch st = pupd me (\<lambda>p. p\<lparr>p_chan := ch, p_state := SLEEPING\<rparr>) st"

definition sleep_tidy :: "nat \<Rightarrow> ('d, 'u) kernel \<Rightarrow> ('d, 'u) kernel" where
  "sleep_tidy me st = pupd me (p_chan_update (\<lambda>_. NoChan)) st"

definition yield :: "nat \<Rightarrow> ('d, 'u) kernel \<Rightarrow> ('d, 'u) kernel" where
  "yield me st = pupd me (p_state_update (\<lambda>_. RUNNABLE)) st"

text \<open>The checks of \<^verbatim>\<open>sched\<close> on CPU \<open>c\<close> (number \<open>hart\<close>) and the process lock \<open>l\<close>; the value is \<^verbatim>\<open>intena\<close>, which it restores.\<close>

definition sched :: "nat \<Rightarrow> nat \<Rightarrow> spinlock \<Rightarrow> cpu \<Rightarrow> ('d, 'u) kernel \<Rightarrow> bool outcome" where
  "sched me hart l c st = (if \<not> holding hart l then Panic ''sched p->lock''
     else if noff c \<noteq> 1 then Panic ''sched locks''
     else if p_state (proc st me) = RUNNING then Panic ''sched running''
     else if intr_get c then Panic ''sched interruptible''
     else Ok (intena c))"

text \<open>One turn of the scheduler loop on CPU \<open>c\<close> at process \<open>i\<close>: up to the switch to the process, and after it comes back.\<close>

definition schedule :: "nat \<Rightarrow> nat \<Rightarrow> ('d, 'u) kernel \<Rightarrow> ('d, 'u) kernel" where
  "schedule c i st = (if p_state (proc st i) = RUNNABLE
     then pupd i (p_state_update (\<lambda>_. RUNNING)) (st\<lparr>cpu_proc := (cpu_proc st)(c := Some i)\<rparr>) else st)"

definition switch_back :: "nat \<Rightarrow> ('d, 'u) kernel \<Rightarrow> ('d, 'u) kernel" where
  "switch_back c st = st\<lparr>cpu_proc := (cpu_proc st)(c := None)\<rparr>"

definition kill :: "i32 \<Rightarrow> ('d, 'u) kernel \<Rightarrow> int \<times> ('d, 'u) kernel" where
  "kill pd st = (case List.find (\<lambda>i. p_pid (proc st i) = pd) [0..<NPROC] of
     Some i \<Rightarrow> (0, pupd i (\<lambda>p. p\<lparr>p_killed := True, p_state := (if p_state p = SLEEPING then RUNNABLE else p_state p)\<rparr>) st)
   | None \<Rightarrow> (-1, st))"

definition setkilled :: "nat \<Rightarrow> ('d, 'u) kernel \<Rightarrow> ('d, 'u) kernel" where
  "setkilled i st = pupd i (p_killed_update (\<lambda>_. True)) st"

definition killed :: "nat \<Rightarrow> ('d, 'u) kernel \<Rightarrow> bool" where
  "killed i st = p_killed (proc st i)"

section \<open>Fork, exit and wait\<close>

definition dup_file :: "nat \<Rightarrow> nat \<Rightarrow> nat \<Rightarrow> ('d, 'u) kernel \<Rightarrow> ('d, 'u) kernel outcome" where
  "dup_file me np fd st = (case p_ofile (proc st me) ! fd of
     None \<Rightarrow> Ok st
   | Some f \<Rightarrow> obind (filedup f st) (\<lambda>(f, st). Ok (pupd np (\<lambda>p. p\<lparr>p_ofile := (p_ofile p)[fd := Some f]\<rparr>) st)))"

text \<open>\<^verbatim>\<open>fork\<close> up to the release of the child's lock, then publishing the parent, and making the child runnable.\<close>

definition fork_child :: "u64 \<Rightarrow> u64 \<Rightarrow> nat \<Rightarrow> ('d, 'u) kernel \<Rightarrow> (nat option \<times> ('d, 'u) kernel) outcome" where
  "fork_child tramp forkret me st = obind (allocproc tramp forkret st) (\<lambda>(r, st). case r of
     None \<Rightarrow> Ok (None, st)
   | Some np \<Rightarrow> let p = proc st me in
       obind (on_mem_val (uvmcopy (p_pagetable p) (p_pagetable (proc st np)) (p_sz p)) st) (\<lambda>(r, st).
       if sint r < 0 then obind (freeproc np st) (\<lambda>st. Ok (None, st))
       else let
         st = pupd np (p_sz_update (\<lambda>_. p_sz p)) st;
         k = pool st;
         st = st\<lparr>pool := k\<lparr>mem := write_bytes (mem k) (p_trapframe (proc st np)) (read_bytes (mem k) (p_trapframe p) tf_size)\<rparr>\<rparr>;
         st = tf_set np tf_a0 0 st
       in obind (ofold (dup_file me np) [0..<NOFILE] st) (\<lambda>st. case p_cwd p of
         None \<Rightarrow> Undefined
       | Some cwd \<Rightarrow> (case idup cwd (fsys st) of (ip, s) \<Rightarrow>
           Ok (Some np, pupd np (\<lambda>q. q\<lparr>p_cwd := Some ip, p_name := copy_name (p_name q) (p_name p)\<rparr>) (st\<lparr>fsys := s\<rparr>))))))"

definition fork_parent :: "nat \<Rightarrow> nat \<Rightarrow> ('d, 'u) kernel \<Rightarrow> ('d, 'u) kernel" where
  "fork_parent me np st = pupd np (p_parent_update (\<lambda>_. Some me)) st"

definition fork_run :: "nat \<Rightarrow> ('d, 'u) kernel \<Rightarrow> ('d, 'u) kernel" where
  "fork_run np st = pupd np (p_state_update (\<lambda>_. RUNNABLE)) st"

definition fork :: "u64 \<Rightarrow> u64 \<Rightarrow> nat \<Rightarrow> ('d, 'u) kernel \<Rightarrow> (int \<times> ('d, 'u) kernel) outcome" where
  "fork tramp forkret me st = obind (fork_child tramp forkret me st) (\<lambda>(r, st). case r of
     None \<Rightarrow> Ok (-1, st)
   | Some np \<Rightarrow> let pd = p_pid (proc st np);
         st = fork_run np (fork_parent me np st);
         st = pupd np (p_trace_mask_update (\<lambda>_. p_trace_mask (proc st me))) st
       in Ok (sint pd, st))"

definition reparent :: "nat \<Rightarrow> ('d, 'u) kernel \<Rightarrow> ('d, 'u) kernel" where
  "reparent p st = fold (\<lambda>i st. if p_parent (proc st i) = Some p
     then wakeup (Some p) (ProcChan (initproc st)) (pupd i (p_parent_update (\<lambda>_. initproc st)) st) else st) [0..<NPROC] st"

definition close_fd :: "'d driver \<Rightarrow> nat \<Rightarrow> nat \<Rightarrow> ('d, 'u) kernel \<Rightarrow> ('d, 'u) kernel outcome" where
  "close_fd rw me fd st = (case p_ofile (proc st me) ! fd of
     None \<Rightarrow> Ok st
   | Some f \<Rightarrow> obind (fileclose rw (p_pid (proc st me)) f st) (\<lambda>st.
       Ok (pupd me (\<lambda>p. p\<lparr>p_ofile := (p_ofile p)[fd := None]\<rparr>) st)))"

text \<open>\<^verbatim>\<open>exit\<close>: closing files, and the end, which holds \<^verbatim>\<open>wait_lock\<close> and the process lock; it does not return.\<close>

definition exit_files :: "'d driver \<Rightarrow> nat \<Rightarrow> ('d, 'u) kernel \<Rightarrow> ('d, 'u) kernel outcome" where
  "exit_files rw me st = (if initproc st = Some me then Panic ''init exiting''
     else obind (ofold (close_fd rw me) [0..<NOFILE] st) (\<lambda>st.
       obind (on_fs fs_begin_op st) (\<lambda>st.
       obind (case p_cwd (proc st me) of None \<Rightarrow> Undefined | Some ip \<Rightarrow> on_fs (iput rw (p_pid (proc st me)) ip) st) (\<lambda>st.
       obind (on_fs (fs_end_op rw (p_pid (proc st me))) st) (\<lambda>st.
       Ok (pupd me (p_cwd_update (\<lambda>_. None)) st))))))"

definition exit_finish :: "nat \<Rightarrow> i32 \<Rightarrow> ('d, 'u) kernel \<Rightarrow> ('d, 'u) kernel" where
  "exit_finish me status st = (let st = reparent me st;
     st = wakeup (Some me) (ProcChan (p_parent (proc st me))) st
   in pupd me (\<lambda>p. p\<lparr>p_xstate := status, p_state := ZOMBIE\<rparr>) st)"

definition exit :: "'d driver \<Rightarrow> nat \<Rightarrow> i32 \<Rightarrow> ('d, 'u) kernel \<Rightarrow> ('d, 'u) kernel outcome" where
  "exit rw me status st = obind (exit_files rw me st) (\<lambda>st. Ok (exit_finish me status st))"

text \<open>
  A \<^verbatim>\<open>copyout\<close> of kernel variables: \<open>kv\<close> is the address of the variable and \<open>bs\<close> its bytes.
\<close>

definition copyout_var :: "u64 \<Rightarrow> u64 \<Rightarrow> u64 \<Rightarrow> u8 list \<Rightarrow> kmem \<Rightarrow> (i32 \<times> kmem) outcome" where
  "copyout_var kv pt va bs k = copyout pt va kv (word_of_nat (length bs)) (k\<lparr>mem := write_bytes (mem k) kv bs\<rparr>)"

text \<open>One scan of the table by \<^verbatim>\<open>wait\<close>, holding \<^verbatim>\<open>wait_lock\<close>; \<open>Sleeps\<close> if it has to wait for a child to exit.\<close>

definition wait :: "u64 \<Rightarrow> nat \<Rightarrow> u64 \<Rightarrow> ('d, 'u) kernel \<Rightarrow> (int \<times> ('d, 'u) kernel) outcome" where
  "wait kv me va st = (case List.find (\<lambda>i. p_parent (proc st i) = Some me \<and> p_state (proc st i) = ZOMBIE) [0..<NPROC] of
     Some i \<Rightarrow> let pd = p_pid (proc st i) in
       obind (if va = 0 then Ok (0, st)
           else on_mem_val (copyout_var kv (p_pagetable (proc st me)) va (le_encode 4 (unat (p_xstate (proc st i))))) st) (\<lambda>(r, st).
         if sint r < 0 then Ok (-1, st) else obind (freeproc i st) (\<lambda>st. Ok (sint pd, st)))
   | None \<Rightarrow> if (\<forall>i\<in>set [0..<NPROC]. p_parent (proc st i) \<noteq> Some me) \<or> killed me st then Ok (-1, st) else Sleeps)"

section \<open>Listing processes\<close>

definition get_nproc :: "('d, 'u) kernel \<Rightarrow> int" where
  "get_nproc st = fold (\<lambda>i n. if p_state (proc st i) \<noteq> UNUSED then n + 1 else n) [0..<NPROC] 0"

definition state_name :: "procstate \<Rightarrow> string" where
  "state_name s = (case s of UNUSED \<Rightarrow> ''unused'' | USED \<Rightarrow> ''used'' | SLEEPING \<Rightarrow> ''sleep '' | RUNNABLE \<Rightarrow> ''runble''
     | RUNNING \<Rightarrow> ''run   '' | ZOMBIE \<Rightarrow> ''zombie'')"

definition procdump_line :: "proc \<Rightarrow> u8 list outcome" where
  "procdump_line p = (if p_state p = UNUSED then Ok []
     else obind (kprintf (bytes_of ''%d %s %s'') [Aint (p_pid p), Astr (Some (bytes_of (state_name (p_state p)))), Astr (Some (cstr (p_name p)))]) (\<lambda>s.
       Ok (s @ [10])))"

definition procdump :: "('d, 'u) kernel \<Rightarrow> u8 list outcome" where
  "procdump st = ofold (\<lambda>i out. obind (procdump_line (proc st i)) (\<lambda>s. Ok (out @ s))) [0..<NPROC] [10]"

end
