(* ===== verification/Xv6_Proc_Table.thy ===== *)
theory Xv6_Proc_Table
  imports Xv6_Proc
begin

text \<open>
  The process table as a state machine: which fields of the table the code of \<^verbatim>\<open>kernel/proc.c\<close> changes, an abstract machine
  on them with its invariants (who runs where, numbers, the tree of parents), and the proof that every atomic step of the code is
  a step of the machine.
\<close>

section \<open>What the operations do to the process table\<close>

lemma pupd_simps [simp]:
  "proc (pupd i f st) = (proc st)(i := f (proc st i))" "cpu_proc (pupd i f st) = cpu_proc st" "nextpid (pupd i f st) = nextpid st"
  "initproc (pupd i f st) = initproc st" "pool (pupd i f st) = pool st" "ftab (pupd i f st) = ftab st" "fsys (pupd i f st) = fsys st"
  by (simp_all add: pupd_def)

text \<open>The part of the state that only process management touches.\<close>

definition same_procs :: "('d, 'u) kernel \<Rightarrow> ('d, 'u) kernel \<Rightarrow> bool" where
  "same_procs st st' \<longleftrightarrow> proc st' = proc st \<and> cpu_proc st' = cpu_proc st \<and> nextpid st' = nextpid st \<and> initproc st' = initproc st"

lemma same_procs_refl [simp]: "same_procs st st" and same_procs_trans: "same_procs a b \<Longrightarrow> same_procs b c \<Longrightarrow> same_procs a c"
  by (simp_all add: same_procs_def)

lemma same_procs_upd [simp]: "same_procs st (st\<lparr>pool := k\<rparr>)" "same_procs st (st\<lparr>fsys := s\<rparr>)" "same_procs st (st\<lparr>pipes := q\<rparr>)"
    "same_procs st (fupd f g st)" "same_procs st (tf_set i off v st)"
  by (simp_all add: same_procs_def fupd_def tf_set_def)

lemma on_procs:
  "yields (on_mem op st) (same_procs st)" "yields (on_mem_val f st) (\<lambda>(x, st'). same_procs st st')"
  "yields (on_fs g st) (same_procs st)" "yields (on_fs_val h st) (\<lambda>(x, st'). same_procs st st')"
  unfolding on_mem_def on_mem_val_def on_fs_def on_fs_val_def by (auto simp: yields_def outcome_iff)

text \<open>After a step that keeps the process table, the next one starts from the same table.\<close>

lemma then_procs: "same_procs a b \<Longrightarrow> yields m (same_procs b) \<Longrightarrow> yields m (same_procs a)"
  by (erule yields_mono) (rule same_procs_trans)

lemma yields_step: "yields m (same_procs b) \<Longrightarrow> same_procs a b \<Longrightarrow> (\<And>x. same_procs a x \<Longrightarrow> yields (f x) P) \<Longrightarrow> yields (obind m f) P"
  by (rule yields_obind, erule yields_mono) (blast intro: same_procs_trans)

lemma close_pipe_procs: "yields (close_pipe p w st) (same_procs st)"
  unfolding close_pipe_def by (auto simp: yields_def outcome_iff same_procs_def Let_def split: prod.splits if_splits)

lemma fileclose_procs: "yields (fileclose rw me f st) (same_procs st)"
proof -
  let ?s = "fupd f (\<lambda>x. x\<lparr>fref := fref x - 1\<rparr>) st"
  let ?t = "fupd f (\<lambda>x. x\<lparr>fref := 0, ftype := FD_NONE\<rparr>) ?s"
  have s: "same_procs st ?s" "same_procs st ?t" by (simp_all add: same_procs_def fupd_def)
  have "yields (obind (on_fs fs_begin_op ?t) (\<lambda>st. obind (on_fs (iput rw me ip) st) (on_fs (fs_end_op rw me)))) (same_procs st)" for ip
    by (rule yields_step [OF on_procs(3) s(2)], rule yields_step [OF on_procs(3)], assumption, erule then_procs) (rule on_procs(3))
  moreover have "yields (close_pipe p w ?t) (same_procs st)" for p w by (rule then_procs [OF s(2) close_pipe_procs])
  ultimately show ?thesis unfolding fileclose_def Let_def using s by (auto intro!: yields_rules)
qed

lemma filedup_procs: "yields (filedup f st) (\<lambda>(g, st'). same_procs st st')"
  by (auto simp: filedup_def yields_rules)

text \<open>A cleared entry.\<close>

definition cleared :: "proc \<Rightarrow> proc" where
  "cleared p = p\<lparr>p_trapframe := 0, p_pagetable := 0, p_sz := 0, p_pid := 0, p_parent := None, p_name := (p_name p)[0 := 0],
     p_chan := NoChan, p_killed := False, p_xstate := 0, p_state := UNUSED\<rparr>"

lemma freeproc_procs: "yields (freeproc i st) (same_procs (pupd i cleared st))"
proof -
  let ?p = "proc st i"
  have "yields (if b then on_mem op a else Ok a) (same_procs a)" for b op and a :: "('d, 'u) kernel"
    using on_procs(1) by (auto intro: yields_rules)
  note Y = yields_step [OF this]
  have f: "(\<lambda>p. p\<lparr>p_trapframe := 0, p_pagetable := 0, p_sz := 0, p_pid := 0, p_parent := None, p_name := (p_name p)[0 := 0],
     p_chan := NoChan, p_killed := False, p_xstate := 0, p_state := UNUSED\<rparr>) = cleared" by (simp add: fun_eq_iff cleared_def)
  show ?thesis unfolding freeproc_def Let_def f
    by (rule Y [of st], simp, rule Y, assumption, rule yields_basic) (simp add: same_procs_def)
qed

text \<open>
  What the state machine of processes is about: the state, number and parent of each process, which process each CPU runs,
  the next number and the first process.
\<close>

record ptable =
  ps :: "nat \<Rightarrow> procstate"
  pp :: "nat \<Rightarrow> i32"
  par :: "nat \<Rightarrow> nat option"
  cpu_of :: "nat \<Rightarrow> nat option"
  next_num :: i32
  first :: "nat option"

definition table :: "('d, 'u) kernel \<Rightarrow> ptable" where
  "table st = \<lparr>ps = (\<lambda>i. p_state (proc st i)), pp = (\<lambda>i. p_pid (proc st i)), par = (\<lambda>i. p_parent (proc st i)),
     cpu_of = cpu_proc st, next_num = nextpid st, first = initproc st\<rparr>"

lemma table_sel [simp]:
  "ps (table st) i = p_state (proc st i)" "pp (table st) i = p_pid (proc st i)" "par (table st) i = p_parent (proc st i)"
  "cpu_of (table st) = cpu_proc st" "next_num (table st) = nextpid st" "first (table st) = initproc st"
  by (simp_all add: table_def)

lemma same_table: "same_procs st st' \<Longrightarrow> table st' = table st"
  by (simp add: same_procs_def table_def)

lemma pupd_table: "p_state (f (proc st i)) = p_state (proc st i) \<Longrightarrow> p_pid (f (proc st i)) = p_pid (proc st i) \<Longrightarrow>
    p_parent (f (proc st i)) = p_parent (proc st i) \<Longrightarrow> table (pupd i f st) = table st"
  by (simp add: table_def fun_eq_iff)

abbreviation keeps_table :: "('d, 'u) kernel \<Rightarrow> ('d, 'u) kernel \<Rightarrow> bool" where
  "keeps_table st st' \<equiv> table st' = table st"

lemma close_fd_table: "yields (close_fd rw me fd st) (keeps_table st)"
  unfolding close_fd_def
  by (intro yields_rules, simp, rule yields_mono [OF fileclose_procs], rule yields_basic)
    (drule same_table, simp add: pupd_table)

lemma dup_file_table: "yields (dup_file me np fd st) (keeps_table st)"
  unfolding dup_file_def
  by (intro yields_rules, simp, rule yields_mono [OF filedup_procs])
    (auto intro!: yields_basic dest!: same_table simp: pupd_table)

lemma yields_table: "yields m (same_procs b) \<Longrightarrow> keeps_table a b \<Longrightarrow> (\<And>x. keeps_table a x \<Longrightarrow> yields (f x) P) \<Longrightarrow> yields (obind m f) P"
  by (rule yields_obind, erule yields_mono) (simp add: same_table)

lemma yields_table_step: "yields m (keeps_table b) \<Longrightarrow> keeps_table a b \<Longrightarrow> (\<And>x. keeps_table a x \<Longrightarrow> yields (f x) P) \<Longrightarrow> yields (obind m f) P"
  by (rule yields_obind, erule yields_mono) simp

lemma exit_files_table: "yields (exit_files rw me st) (\<lambda>st'. keeps_table st st' \<and> initproc st \<noteq> Some me)"
proof (cases "initproc st = Some me")
  case False
  have O: "yields (ofold (close_fd rw me) [0..<NOFILE] st) (keeps_table st)"
    by (rule yields_ofold [where R = keeps_table]) (auto intro: yields_mono [OF close_fd_table])
  have C: "yields (case c of None \<Rightarrow> Undefined | Some ip \<Rightarrow> on_fs (h ip) a) (same_procs a)"
    for c :: "nat option" and h and a :: "('a, 'b) kernel"
    using on_procs(3) by (auto intro: yields_rules)
  have F: "yields (Ok (pupd me (p_cwd_update (\<lambda>_. None)) a)) (\<lambda>st'. keeps_table st st' \<and> initproc st \<noteq> Some me)"
    if "keeps_table st a" for a
    using that False by (auto intro!: yields_basic simp: pupd_table)
  show ?thesis unfolding exit_files_def if_not_P [OF False]
    by (intro yields_table_step [OF O refl] yields_table [where a = st, OF on_procs(3)] yields_table [where a = st, OF C] F)
qed (simp add: exit_files_def yields_rules)

section \<open>The abstract machine\<close>

definition t_state :: "nat \<Rightarrow> procstate \<Rightarrow> ptable \<Rightarrow> ptable" where
  "t_state i s t = t\<lparr>ps := (ps t)(i := s)\<rparr>"

definition t_alloc :: "nat \<Rightarrow> ptable \<Rightarrow> ptable" where
  "t_alloc i t = t\<lparr>ps := (ps t)(i := USED), pp := (pp t)(i := next_num t), next_num := next_num t + 1\<rparr>"

definition t_drop :: "nat \<Rightarrow> ptable \<Rightarrow> ptable" where
  "t_drop i t = t\<lparr>ps := (ps t)(i := UNUSED), pp := (pp t)(i := 0), par := (par t)(i := None)\<rparr>"

definition t_wake :: "nat set \<Rightarrow> ptable \<Rightarrow> ptable" where
  "t_wake S t = t\<lparr>ps := (\<lambda>i. if i \<in> S \<and> ps t i = SLEEPING then RUNNABLE else ps t i)\<rparr>"

definition t_orphan :: "nat \<Rightarrow> ptable \<Rightarrow> ptable" where
  "t_orphan q t = t\<lparr>par := (\<lambda>i. if i < NPROC \<and> par t i = Some q then first t else par t i)\<rparr>"

definition t_cpu :: "nat \<Rightarrow> nat option \<Rightarrow> ptable \<Rightarrow> ptable" where
  "t_cpu c r t = t\<lparr>cpu_of := (cpu_of t)(c := r)\<rparr>"

lemmas t_defs = t_state_def t_alloc_def t_drop_def t_wake_def t_orphan_def t_cpu_def

text \<open>
  The steps of the machine; \<open>f me\<close> is the child that process \<open>me\<close>, inside \<^verbatim>\<open>fork\<close>, is building.
\<close>

inductive tstep :: "ptable \<times> (nat \<Rightarrow> nat option) \<Rightarrow> ptable \<times> (nat \<Rightarrow> nat option) \<Rightarrow> bool" where
  stay: "tstep (t, f) (t, f)"
| run: "cpu_of t c = None \<Longrightarrow> i < NPROC \<Longrightarrow> ps t i = RUNNABLE \<Longrightarrow> tstep (t, f) (t_state i RUNNING (t_cpu c (Some i) t), f)"
| stop: "cpu_of t c = Some i \<Longrightarrow> s \<in> {RUNNABLE, SLEEPING} \<Longrightarrow> tstep (t, f) (t_cpu c None (t_state i s t), f)"
| wake: "tstep (t, f) (t_wake S t, f)"
| alloc: "cpu_of t c = Some me \<Longrightarrow> f me = None \<Longrightarrow> sint (next_num t) < 2 ^ 31 - 1 \<Longrightarrow> i < NPROC \<Longrightarrow> ps t i = UNUSED \<Longrightarrow>
    tstep (t, f) (t_alloc i t, f(me := Some i))"
| alloc_fails: "sint (next_num t) < 2 ^ 31 - 1 \<Longrightarrow> i < NPROC \<Longrightarrow> ps t i = UNUSED \<Longrightarrow> tstep (t, f) (t_drop i (t_alloc i t), f)"
| adopt: "cpu_of t c = Some me \<Longrightarrow> f me = Some i \<Longrightarrow> tstep (t, f) (t\<lparr>par := (par t)(i := Some me)\<rparr>, f)"
| start: "cpu_of t c = Some me \<Longrightarrow> f me = Some i \<Longrightarrow> par t i = Some me \<Longrightarrow> tstep (t, f) (t_state i RUNNABLE t, f(me := None))"
| die: "cpu_of t c = Some me \<Longrightarrow> f me = None \<Longrightarrow> first t \<noteq> Some me \<Longrightarrow>
    tstep (t, f) (t_cpu c None (t_state me ZOMBIE (t_wake S (t_orphan me t))), f)"
| reap: "cpu_of t c = Some me \<Longrightarrow> i < NPROC \<Longrightarrow> par t i = Some me \<Longrightarrow> ps t i = ZOMBIE \<Longrightarrow> tstep (t, f) (t_drop i t, f)"

abbreviation live :: "ptable \<Rightarrow> nat \<Rightarrow> bool" where
  "live t i \<equiv> i < NPROC \<and> ps t i \<notin> {UNUSED, USED, ZOMBIE}"

definition cpus_ok :: "ptable \<Rightarrow> bool" where
  "cpus_ok t \<longleftrightarrow> (\<forall>c i. cpu_of t c = Some i \<longrightarrow> i < NPROC \<and> ps t i = RUNNING)
     \<and> (\<forall>i < NPROC. ps t i = RUNNING \<longrightarrow> (\<exists>c. cpu_of t c = Some i))
     \<and> (\<forall>c d i. cpu_of t c = Some i \<longrightarrow> cpu_of t d = Some i \<longrightarrow> c = d)"

definition pids_ok :: "ptable \<Rightarrow> bool" where
  "pids_ok t \<longleftrightarrow> (\<forall>i < NPROC. ps t i = UNUSED \<longrightarrow> pp t i = 0 \<and> par t i = None)
     \<and> (\<forall>i < NPROC. ps t i \<noteq> UNUSED \<longrightarrow> 0 < sint (pp t i) \<and> sint (pp t i) < sint (next_num t))
     \<and> (\<forall>i < NPROC. \<forall>j < NPROC. pp t i = pp t j \<longrightarrow> ps t i \<noteq> UNUSED \<longrightarrow> i = j) \<and> 0 < sint (next_num t)"

definition root_ok :: "ptable \<Rightarrow> bool" where
  "root_ok t \<longleftrightarrow> (case first t of None \<Rightarrow> False | Some r \<Rightarrow> live t r \<and> par t r = None
     \<and> (\<forall>i < NPROC. ps t i \<noteq> UNUSED \<longrightarrow> i \<noteq> r \<longrightarrow> sint (pp t r) < sint (pp t i))
     \<and> (\<forall>i < NPROC. ps t i \<noteq> UNUSED \<longrightarrow> ps t i \<noteq> USED \<longrightarrow> i \<noteq> r \<longrightarrow> par t i \<noteq> None))"

definition parents_ok :: "ptable \<Rightarrow> bool" where
  "parents_ok t \<longleftrightarrow> (\<forall>i < NPROC. \<forall>q. par t i = Some q \<longrightarrow> live t q \<and> sint (pp t q) < sint (pp t i))"

definition forks_ok :: "ptable \<Rightarrow> (nat \<Rightarrow> nat option) \<Rightarrow> bool" where
  "forks_ok t f \<longleftrightarrow> (\<forall>me i. f me = Some i \<longrightarrow> live t me \<and> i < NPROC \<and> ps t i = USED \<and> sint (pp t me) < sint (pp t i))
     \<and> (\<forall>me you i. f me = Some i \<longrightarrow> f you = Some i \<longrightarrow> me = you)"

definition tree_ok :: "ptable \<Rightarrow> (nat \<Rightarrow> nat option) \<Rightarrow> bool" where
  "tree_ok t f \<longleftrightarrow> root_ok t \<and> parents_ok t \<and> forks_ok t f"

definition tinv :: "ptable \<times> (nat \<Rightarrow> nat option) \<Rightarrow> bool" where
  "tinv tf \<longleftrightarrow> cpus_ok (fst tf) \<and> pids_ok (fst tf) \<and> tree_ok (fst tf) (snd tf)"

lemma sint_next: "sint n < 2 ^ 31 - 1 \<Longrightarrow> sint ((n :: i32) + 1) = sint n + 1"
proof -
  assume n: "sint n < 2 ^ 31 - 1"
  have "- (2 ^ 31) \<le> sint n" using sint_ge [of n] by simp
  then have "signed_take_bit 31 (sint n + 1) = sint n + 1" using n by (intro signed_take_bit_int_eq_self) simp_all
  then show ?thesis using sint_word_ariths(1) [of n 1] by simp
qed

lemma cpus_ok_cong: "cpu_of t' = cpu_of t \<Longrightarrow> (\<And>i. i < NPROC \<Longrightarrow> ps t' i = RUNNING \<longleftrightarrow> ps t i = RUNNING) \<Longrightarrow> cpus_ok t \<Longrightarrow> cpus_ok t'"
  by (simp add: cpus_ok_def)

lemma cpus_ok_run: 
  assumes "cpus_ok t" "cpu_of t c = None" "i < NPROC" "ps t i = RUNNABLE"
  shows "cpus_ok (t_state i RUNNING (t_cpu c (Some i) t))"
proof -
  have "\<exists>d. d \<noteq> c \<and> cpu_of t d = Some j" if "j < NPROC" "ps t j = RUNNING" for j
    using assms(1,2) that unfolding cpus_ok_def by (metis option.distinct(1))
  then show ?thesis using assms unfolding cpus_ok_def t_defs by (auto split: if_splits; blast)
qed

lemma cpus_ok_stop:
  assumes "cpus_ok t" "cpu_of t c = Some i" "s \<noteq> RUNNING"
  shows "cpus_ok (t_cpu c None (t_state i s t))"
proof -
  have A: "cpu_of t d = Some j \<Longrightarrow> j < NPROC \<and> ps t j = RUNNING" for d j using assms(1) unfolding cpus_ok_def by blast
  have C: "cpu_of t d = Some j \<Longrightarrow> cpu_of t e = Some j \<Longrightarrow> d = e" for d e j using assms(1) unfolding cpus_ok_def by blast
  have B: "\<exists>d. d \<noteq> c \<and> cpu_of t d = Some j" if j: "j < NPROC" "ps t j = RUNNING" "j \<noteq> i" for j
  proof -
    obtain d where "cpu_of t d = Some j" using assms(1) j(1,2) unfolding cpus_ok_def by blast
    then show ?thesis using assms(2) j(3) by (intro exI [of _ d]) auto
  qed
  have D: "d \<noteq> c \<Longrightarrow> cpu_of t d \<noteq> Some i" for d using C assms(2) by blast
  show ?thesis unfolding cpus_ok_def t_defs using assms(3) by (auto dest: A C D B split: if_splits)
qed

lemma cpus_step: "tstep a b \<Longrightarrow> cpus_ok (fst a) \<Longrightarrow> tree_ok (fst a) (snd a) \<Longrightarrow> cpus_ok (fst b)"
proof (induction rule: tstep.induct)
  case (die t c me f S)
  have "cpus_ok (t_wake S (t_orphan me t))"
    by (rule cpus_ok_cong [OF _ _ die.prems(1) [unfolded fst_conv]]) (simp_all add: t_defs)
  then show ?case unfolding fst_conv by (rule cpus_ok_stop) (simp_all add: t_defs die.hyps)
next
  case (start t c me f i)
  then have "ps t i = USED" by (auto simp: tree_ok_def forks_ok_def)
  then show ?case using start by (auto elim!: cpus_ok_cong [rotated 2] simp: t_defs split: if_splits)
next
  case (stop t c i s f)
  then show ?case by (auto intro!: cpus_ok_stop)
next
  case (run t c i f)
  then show ?case by (auto intro!: cpus_ok_run)
qed (auto elim!: cpus_ok_cong [rotated 2] simp: t_defs split: if_splits)

lemma cpus_running: "cpus_ok t \<Longrightarrow> cpu_of t c = Some i \<Longrightarrow> i < NPROC \<and> ps t i = RUNNING"
  by (simp add: cpus_ok_def)

lemma pids_ok_cong:
  assumes "\<And>i. i < NPROC \<Longrightarrow> ps t' i = UNUSED \<longleftrightarrow> ps t i = UNUSED" "\<And>i. i < NPROC \<Longrightarrow> ps t i = UNUSED \<Longrightarrow> par t i = None \<Longrightarrow> par t' i = None"
    "pp t' = pp t" "next_num t' = next_num t" "pids_ok t"
  shows "pids_ok t'"
  using assms by (simp add: pids_ok_def)

lemma pids_ok_alloc:
  assumes "pids_ok t" "i < NPROC" "ps t i = UNUSED" "sint (next_num t) < 2 ^ 31 - 1"
  shows "pids_ok (t_alloc i t)"
proof -
  have "sint (pp t j) < sint (next_num t)" if "j < NPROC" for j using assms(1) that unfolding pids_ok_def by (cases "ps t j = UNUSED") simp_all
  then have "pp t j \<noteq> next_num t" "sint (pp t j) < sint (next_num t) + 1" if "j < NPROC" for j using that by force+
  then show ?thesis using assms unfolding pids_ok_def t_alloc_def by (auto simp: sint_next)
qed

lemma pids_okD: "pids_ok t \<Longrightarrow> i < NPROC \<Longrightarrow> ps t i = UNUSED \<Longrightarrow> pp t i = 0 \<and> par t i = None"
    "pids_ok t \<Longrightarrow> i < NPROC \<Longrightarrow> ps t i \<noteq> UNUSED \<Longrightarrow> 0 < sint (pp t i) \<and> sint (pp t i) < sint (next_num t)"
  unfolding pids_ok_def by blast+

lemma pids_okI:
  assumes "\<And>i. i < NPROC \<Longrightarrow> ps t i = UNUSED \<Longrightarrow> pp t i = 0 \<and> par t i = None"
    "\<And>i. i < NPROC \<Longrightarrow> ps t i \<noteq> UNUSED \<Longrightarrow> 0 < sint (pp t i) \<and> sint (pp t i) < sint (next_num t)"
    "\<And>i j. i < NPROC \<Longrightarrow> j < NPROC \<Longrightarrow> pp t i = pp t j \<Longrightarrow> ps t i \<noteq> UNUSED \<Longrightarrow> i = j" "0 < sint (next_num t)"
  shows "pids_ok t"
  unfolding pids_ok_def using assms by blast

lemma pids_ok_drop:
  assumes "pids_ok t"
  shows "pids_ok (t_drop i t)"
proof (rule pids_okI)
  fix j k assume jk: "j < NPROC" "k < NPROC" "pp (t_drop i t) j = pp (t_drop i t) k" "ps (t_drop i t) j \<noteq> UNUSED"
  then have j: "j \<noteq> i" "ps t j \<noteq> UNUSED" by (auto simp: t_drop_def split: if_splits)
  have "pp t j \<noteq> 0" using pids_okD(2) [OF assms jk(1) j(2)] by auto
  then have "k \<noteq> i" "pp t j = pp t k" using jk(3) j(1) by (auto simp: t_drop_def split: if_splits)
  then show "j = k" using assms jk(1,2) j(2) unfolding pids_ok_def by blast
qed (use pids_okD [OF assms] assms in \<open>auto simp: t_drop_def pids_ok_def split: if_splits\<close>)

lemma pids_step: "tstep a b \<Longrightarrow> cpus_ok (fst a) \<Longrightarrow> tree_ok (fst a) (snd a) \<Longrightarrow> pids_ok (fst a) \<Longrightarrow> pids_ok (fst b)"
proof (induction rule: tstep.induct)
  case (adopt t c me f i)
  then have "ps t i = USED" by (auto simp: tree_ok_def forks_ok_def)
  then show ?case using adopt by (auto elim!: pids_ok_cong [rotated 4])
next
  case (start t c me f i)
  then have "ps t i = USED" by (auto simp: tree_ok_def forks_ok_def)
  then show ?case using start by (auto elim!: pids_ok_cong [rotated 4] simp: t_defs split: if_splits)
next
  case (stop t c i s f)
  then show ?case by (auto elim!: pids_ok_cong [rotated 4] dest!: cpus_running simp: t_defs split: if_splits)
next
  case (die t c me f S)
  then show ?case by (auto elim!: pids_ok_cong [rotated 4] dest!: cpus_running simp: t_defs split: if_splits)
next
  case (run t c i f)
  then show ?case by (auto elim!: pids_ok_cong [rotated 4] simp: t_defs split: if_splits)
next
  case (wake t f S)
  then show ?case by (auto elim!: pids_ok_cong [rotated 4] simp: t_defs split: if_splits)
qed (simp_all add: pids_ok_alloc pids_ok_drop)

text \<open>The tree of processes: what each step does to it.\<close>

lemma tree_ok_cong:
  assumes "first t' = first t" "pp t' = pp t" "par t' = par t"
    "\<And>i. ps t' i = UNUSED \<longleftrightarrow> ps t i = UNUSED" "\<And>i. ps t' i = USED \<longleftrightarrow> ps t i = USED"
    "\<And>i. ps t' i = ZOMBIE \<longleftrightarrow> ps t i = ZOMBIE" "tree_ok t f"
  shows "tree_ok t' f"
  using assms by (cases "first t") (simp_all add: tree_ok_def root_ok_def parents_ok_def forks_ok_def)

lemma forks_okD: "forks_ok t f \<Longrightarrow> f me = Some i \<Longrightarrow> live t me \<and> i < NPROC \<and> ps t i = USED \<and> sint (pp t me) < sint (pp t i)"
  unfolding forks_ok_def by blast

lemma parents_okD: "parents_ok t \<Longrightarrow> i < NPROC \<Longrightarrow> par t i = Some q \<Longrightarrow> live t q \<and> sint (pp t q) < sint (pp t i)"
  unfolding parents_ok_def by blast

lemma root_ok_alloc: "root_ok t \<Longrightarrow> pids_ok t \<Longrightarrow> i < NPROC \<Longrightarrow> ps t i = UNUSED \<Longrightarrow> root_ok (t_alloc i t)"
  by (auto simp: root_ok_def t_alloc_def pids_okD split: option.splits)

lemma parents_okI: "(\<And>i q. i < NPROC \<Longrightarrow> par t i = Some q \<Longrightarrow> live t q \<and> sint (pp t q) < sint (pp t i)) \<Longrightarrow> parents_ok t"
  unfolding parents_ok_def by blast

lemma parents_ok_alloc:
  assumes "parents_ok t" "pids_ok t" "i < NPROC" "ps t i = UNUSED"
  shows "parents_ok (t_alloc i t)"
proof (rule parents_okI)
  fix j q assume j: "j < NPROC" "par (t_alloc i t) j = Some q"
  then have "par t j = Some q" "j \<noteq> i" using pids_okD(1) [OF assms(2-4)] by (auto simp: t_alloc_def)
  then show "live (t_alloc i t) q \<and> sint (pp (t_alloc i t) q) < sint (pp (t_alloc i t) j)"
    using parents_okD [OF assms(1) j(1)] assms(4) by (auto simp: t_alloc_def)
qed

lemma forks_ok_alloc:
  assumes "forks_ok t f" "pids_ok t" "i < NPROC" "ps t i = UNUSED" "live t me" "f me = None"
  shows "forks_ok (t_alloc i t) (f(me := Some i))"
proof -
  have "f you \<noteq> Some i" for you using forks_okD [OF assms(1), of you i] assms(4) by auto
  moreover have "f i = None" using forks_okD [OF assms(1), of i] assms(4) by (cases "f i") auto
  ultimately show ?thesis using assms unfolding forks_ok_def by (auto simp: t_alloc_def pids_okD)
qed

lemma root_ok_die: "root_ok t \<Longrightarrow> first t \<noteq> Some me \<Longrightarrow> ps t me = RUNNING \<Longrightarrow> root_ok (t_state me ZOMBIE (t_orphan me t))"
  by (auto simp: root_ok_def t_defs split: option.splits)

lemma parents_ok_die:
  assumes "parents_ok t" "root_ok t" "pids_ok t" "first t \<noteq> Some me" "ps t me = RUNNING"
  shows "parents_ok (t_state me ZOMBIE (t_orphan me t))"
proof -
  obtain r where r: "first t = Some r" "live t r" "par t r = None" "r \<noteq> me"
    and least: "\<And>i. i < NPROC \<Longrightarrow> ps t i \<noteq> UNUSED \<Longrightarrow> i \<noteq> r \<Longrightarrow> sint (pp t r) < sint (pp t i)"
    using assms(2,4) by (auto simp: root_ok_def split: option.splits)
  have "sint (pp t r) < sint (pp t i)" if "i < NPROC" "par t i = Some me" for i
    using that r(3) pids_okD(1) [OF assms(3) that(1)] by (intro least) auto
  then show ?thesis using assms(1) r unfolding parents_ok_def by (auto simp: t_defs)
qed

lemma forks_ok_die: "forks_ok t f \<Longrightarrow> f me = None \<Longrightarrow> ps t me = RUNNING \<Longrightarrow> forks_ok (t_state me ZOMBIE (t_orphan me t)) f"
  unfolding forks_ok_def by (auto simp: t_defs)

lemma root_ok_start: "root_ok t \<Longrightarrow> ps t i = USED \<Longrightarrow> par t i = Some me \<Longrightarrow> root_ok (t_state i RUNNABLE t)"
  by (auto simp: root_ok_def t_defs split: option.splits)

lemma parents_ok_start:
  assumes "parents_ok t"
  shows "parents_ok (t_state i RUNNABLE t)"
proof (rule parents_okI)
  fix j q assume "j < NPROC" "par (t_state i RUNNABLE t) j = Some q"
  then show "live (t_state i RUNNABLE t) q \<and> sint (pp (t_state i RUNNABLE t) q) < sint (pp (t_state i RUNNABLE t) j)"
    using parents_okD [OF assms, of j q] by (auto simp: t_defs)
qed

lemma forks_okI:
  assumes "\<And>me i. f me = Some i \<Longrightarrow> live t me \<and> i < NPROC \<and> ps t i = USED \<and> sint (pp t me) < sint (pp t i)"
    and "\<And>me you i. f me = Some i \<Longrightarrow> f you = Some i \<Longrightarrow> me = you"
  shows "forks_ok t f"
  unfolding forks_ok_def using assms by blast

lemma forks_ok_inj: "forks_ok t f \<Longrightarrow> f me = Some i \<Longrightarrow> f you = Some i \<Longrightarrow> me = you"
  unfolding forks_ok_def by blast

lemma forks_ok_start:
  assumes "forks_ok t f" "f me = Some i"
  shows "forks_ok (t_state i RUNNABLE t) (f(me := None))"
proof (rule forks_okI)
  fix you j assume "(f(me := None)) you = Some j"
  then have you: "you \<noteq> me" "f you = Some j" by (auto split: if_splits)
  then have "j \<noteq> i" using forks_ok_inj [OF assms(1) assms(2), of you] by auto
  then show "live (t_state i RUNNABLE t) you \<and> j < NPROC \<and> ps (t_state i RUNNABLE t) j = USED \<and> sint (pp (t_state i RUNNABLE t) you) < sint (pp (t_state i RUNNABLE t) j)"
    using forks_okD [OF assms(1) you(2)] by (auto simp: t_defs)
qed (use forks_ok_inj [OF assms(1)] in \<open>auto split: if_splits\<close>)

lemma root_ok_reap: "root_ok t \<Longrightarrow> ps t i = ZOMBIE \<Longrightarrow> root_ok (t_drop i t)"
  by (auto simp: root_ok_def t_defs split: option.splits)

lemma parents_ok_reap:
  assumes "parents_ok t" "ps t i = ZOMBIE"
  shows "parents_ok (t_drop i t)"
proof (rule parents_okI)
  fix j q assume "j < NPROC" "par (t_drop i t) j = Some q"
  then show "live (t_drop i t) q \<and> sint (pp (t_drop i t) q) < sint (pp (t_drop i t) j)"
    using parents_okD [OF assms(1), of j q] assms(2) by (auto simp: t_defs split: if_splits)
qed

lemma forks_ok_reap:
  assumes "forks_ok t f" "ps t i = ZOMBIE"
  shows "forks_ok (t_drop i t) f"
proof (rule forks_okI)
  fix you j assume "f you = Some j"
  then show "live (t_drop i t) you \<and> j < NPROC \<and> ps (t_drop i t) j = USED \<and> sint (pp (t_drop i t) you) < sint (pp (t_drop i t) j)"
    using forks_okD [OF assms(1), of you j] assms(2) by (auto simp: t_defs)
qed (rule forks_ok_inj [OF assms(1)])

lemma tree_step: "tstep a b \<Longrightarrow> cpus_ok (fst a) \<Longrightarrow> pids_ok (fst a) \<Longrightarrow> tree_ok (fst a) (snd a) \<Longrightarrow> tree_ok (fst b) (snd b)"
proof (induction rule: tstep.induct)
  case (stop t c i s f)
  then have "ps t i = RUNNING" by (auto dest: cpus_running)
  then show ?case using stop by (auto elim!: tree_ok_cong [rotated 6] simp: t_defs split: if_splits)
next
  case (run t c i f)
  then show ?case by (auto elim!: tree_ok_cong [rotated 6] simp: t_defs split: if_splits)
next
  case (wake t f S)
  then show ?case by (auto elim!: tree_ok_cong [rotated 6] simp: t_defs split: if_splits)
next
  case (alloc t c me f i)
  then have "live t me" by (auto dest: cpus_running)
  then show ?case using alloc unfolding tree_ok_def fst_conv snd_conv
    by (intro conjI root_ok_alloc parents_ok_alloc forks_ok_alloc) simp_all
next
  case (alloc_fails t i f)
  then have "pp t i = 0" "par t i = None" by (simp_all add: pids_okD)
  then have "t_drop i (t_alloc i t) = t\<lparr>next_num := next_num t + 1\<rparr>" using alloc_fails.hyps(3)
    by (simp add: t_defs fun_upd_idem)
  then show ?case using alloc_fails.prems by (auto elim!: tree_ok_cong [rotated 6])
next
  case (adopt t c me f i)
  then have i: "live t me" "ps t i = USED" "sint (pp t me) < sint (pp t i)" and p: "parents_ok t"
    by (auto simp: tree_ok_def dest: forks_okD)
  have "parents_ok (t\<lparr>par := (par t)(i := Some me)\<rparr>)"
  proof (rule parents_okI)
    fix j q assume "j < NPROC" "par (t\<lparr>par := (par t)(i := Some me)\<rparr>) j = Some q"
    then show "live (t\<lparr>par := (par t)(i := Some me)\<rparr>) q \<and> sint (pp (t\<lparr>par := (par t)(i := Some me)\<rparr>) q) < sint (pp (t\<lparr>par := (par t)(i := Some me)\<rparr>) j)"
      using i parents_okD [OF p, of j q] by (cases "j = i") auto
  qed
  moreover have "root_ok (t\<lparr>par := (par t)(i := Some me)\<rparr>)" "forks_ok (t\<lparr>par := (par t)(i := Some me)\<rparr>) f"
    using i adopt.prems(3) by (auto simp: tree_ok_def root_ok_def forks_ok_def split: option.splits)
  ultimately show ?case unfolding tree_ok_def fst_conv snd_conv by blast
next
  case (start t c me f i)
  then have i: "live t me" "ps t i = USED" and u: "\<And>you. f you = Some i \<Longrightarrow> you = me"
    and t: "root_ok t" "parents_ok t" "forks_ok t f"
    by (auto simp: tree_ok_def forks_ok_def)
  show ?case unfolding tree_ok_def fst_conv snd_conv
    using root_ok_start [OF t(1) i(2) start.hyps(3)] parents_ok_start [OF t(2)] forks_ok_start [OF t(3) start.hyps(2)] by blast
next
  case (die t c me f S)
  then have "ps t me = RUNNING" by (auto dest: cpus_running)
  then have "tree_ok (t_state me ZOMBIE (t_orphan me t)) f"
    using die by (simp add: tree_ok_def root_ok_die parents_ok_die forks_ok_die)
  then show ?case unfolding fst_conv snd_conv by (rule tree_ok_cong [rotated 6]) (auto simp: t_defs)
next
  case (reap t c me i f)
  then show ?case unfolding tree_ok_def fst_conv snd_conv by (auto simp: root_ok_reap parents_ok_reap forks_ok_reap)
qed simp

theorem tstep_inv: "tstep a b \<Longrightarrow> tinv a \<Longrightarrow> tinv b"
  unfolding tinv_def using cpus_step pids_step tree_step by blast

section \<open>The code refines the abstract machine\<close>

lemma pupd_at: "table (pupd i f st) = (table st)\<lparr>ps := (ps (table st))(i := p_state (f (proc st i))),
    pp := (pp (table st))(i := p_pid (f (proc st i))), par := (par (table st))(i := p_parent (f (proc st i)))\<rparr>"
  by (simp add: table_def fun_eq_iff)

lemma pupd_same: "p_state p = p_state (proc st i) \<Longrightarrow> (ps (table st))(i := p_state p) = ps (table st)"
    "p_pid p = p_pid (proc st i) \<Longrightarrow> (pp (table st))(i := p_pid p) = pp (table st)"
    "p_parent p = p_parent (proc st i) \<Longrightarrow> (par (table st))(i := p_parent p) = par (table st)"
  by (simp_all add: fun_upd_idem)

lemma pupd_state: "p_pid (f (proc st i)) = p_pid (proc st i) \<Longrightarrow> p_parent (f (proc st i)) = p_parent (proc st i) \<Longrightarrow>
    table (pupd i f st) = t_state i (p_state (f (proc st i))) (table st)"
  by (simp add: pupd_at t_state_def pupd_same)

lemma cpu_table: "table (st\<lparr>cpu_proc := (cpu_proc st)(c := r)\<rparr>) = t_cpu c r (table st)"
  by (simp add: table_def t_cpu_def)

lemma schedule_table: "table (schedule c i st) =
    (if p_state (proc st i) = RUNNABLE then t_state i RUNNING (t_cpu c (Some i) (table st)) else table st)"
  by (simp add: schedule_def pupd_state cpu_table)

lemma yield_table: "table (switch_back c (yield me st)) = t_cpu c None (t_state me RUNNABLE (table st))"
proof -
  have "cpu_proc (yield me st) = cpu_proc st" by (simp add: yield_def)
  then have "table (switch_back c (yield me st)) = t_cpu c None (table (yield me st))" unfolding switch_back_def using cpu_table by metis
  then show ?thesis by (simp add: yield_def pupd_state)
qed

lemma switch_table: "table (switch_back c st) = t_cpu c None (table st)"
  by (simp add: switch_back_def cpu_table)

lemma sleep_table: "table (sleep me ch st) = t_state me SLEEPING (table st)"
  by (simp add: sleep_def pupd_state)

lemma t_wake_none [simp]: "t_wake {} t = t"
  by (simp add: t_wake_def)

lemma t_wake_wake: "t_wake S (t_wake R t) = t_wake (S \<union> R) t"
  by (auto simp: t_wake_def fun_eq_iff)

lemma wake_one_table: "p_state (proc st i) = SLEEPING \<Longrightarrow> table (pupd i (p_state_update (\<lambda>_. RUNNABLE)) st) = t_wake {i} (table st)"
  by (auto simp: pupd_state t_defs fun_eq_iff)

lemma wakeup_table: "\<exists>S. table (wakeup me ch st) = t_wake S (table st)"
proof -
  have "\<exists>S. table (fold (\<lambda>i st. if Some i \<noteq> me \<and> p_state (proc st i) = SLEEPING \<and> p_chan (proc st i) = ch
     then pupd i (p_state_update (\<lambda>_. RUNNABLE)) st else st) xs st) = t_wake S (table st)" for xs
  proof (induction xs arbitrary: st)
    case Nil show ?case by (intro exI [of _ "{}"]) simp
  next
    case (Cons x xs)
    let ?st = "if Some x \<noteq> me \<and> p_state (proc st x) = SLEEPING \<and> p_chan (proc st x) = ch
      then pupd x (p_state_update (\<lambda>_. RUNNABLE)) st else st"
    have "\<exists>S. table ?st = t_wake S (table st)"
    proof (cases "Some x \<noteq> me \<and> p_state (proc st x) = SLEEPING \<and> p_chan (proc st x) = ch")
      case True then show ?thesis by (intro exI [of _ "{x}"]) (simp add: wake_one_table)
    next
      case False then show ?thesis by (intro exI [of _ "{}"]) auto
    qed
    then obtain S where "table ?st = t_wake S (table st)" ..
    moreover obtain R where "table (fold (\<lambda>i st. if Some i \<noteq> me \<and> p_state (proc st i) = SLEEPING \<and> p_chan (proc st i) = ch
       then pupd i (p_state_update (\<lambda>_. RUNNABLE)) st else st) xs ?st) = t_wake R (table ?st)" using Cons.IH [of ?st] ..
    ultimately show ?case unfolding fold.simps comp_def by (intro exI [of _ "R \<union> S"]) (simp only: t_wake_wake)
  qed
  then show ?thesis unfolding wakeup_def .
qed

definition t_orphans :: "nat list \<Rightarrow> nat \<Rightarrow> ptable \<Rightarrow> ptable" where
  "t_orphans xs q t = t\<lparr>par := (\<lambda>i. if i \<in> set xs \<and> par t i = Some q then first t else par t i)\<rparr>"

lemma reparent_one: "\<exists>S. table (if p_parent (proc st i) = Some p then wakeup (Some p) (ProcChan (initproc st)) (pupd i (p_parent_update (\<lambda>_. initproc st)) st) else st)
   = t_wake S (t_orphans [i] p (table st))"
proof (cases "p_parent (proc st i) = Some p")
  case True
  have "table (pupd i (p_parent_update (\<lambda>_. initproc st)) st) = t_orphans [i] p (table st)"
    using True by (auto simp: pupd_at t_orphans_def fun_eq_iff)
  then show ?thesis using True wakeup_table [of "Some p" "ProcChan (initproc st)" "pupd i (p_parent_update (\<lambda>_. initproc st)) st"] by simp
next
  case False
  then have "t_orphans [i] p (table st) = table st" by (auto simp: t_orphans_def fun_eq_iff intro!: ptable.equality)
  then show ?thesis using False by (intro exI [of _ "{}"]) simp
qed

lemma orphans_Cons: "i \<notin> set xs \<Longrightarrow> t_orphans xs p (t_wake S (t_orphans [i] p t)) = t_wake S (t_orphans (i # xs) p t)"
  by (rule ptable.equality) (auto simp: t_orphans_def t_wake_def fun_eq_iff)

lemma reparent_fold: "distinct xs \<Longrightarrow> \<exists>S. table (fold (\<lambda>i st. if p_parent (proc st i) = Some p
     then wakeup (Some p) (ProcChan (initproc st)) (pupd i (p_parent_update (\<lambda>_. initproc st)) st) else st) xs st)
   = t_wake S (t_orphans xs p (table st))"
proof (induction xs arbitrary: st)
  case Nil show ?case by (intro exI [of _ "{}"]) (simp add: t_orphans_def table_def)
next
  case (Cons x xs)
  obtain S where S: "table (if p_parent (proc st x) = Some p then wakeup (Some p) (ProcChan (initproc st)) (pupd x (p_parent_update (\<lambda>_. initproc st)) st) else st)
     = t_wake S (t_orphans [x] p (table st))" (is "table ?st = _") using reparent_one [of st x p] by blast
  obtain R where "table (fold (\<lambda>i st. if p_parent (proc st i) = Some p
     then wakeup (Some p) (ProcChan (initproc st)) (pupd i (p_parent_update (\<lambda>_. initproc st)) st) else st) xs ?st)
   = t_wake R (t_orphans xs p (table ?st))" using Cons.IH [of ?st] Cons.prems by auto
  then show ?case unfolding fold.simps comp_def using S Cons.prems by (intro exI [of _ "R \<union> S"]) (simp add: orphans_Cons t_wake_wake)
qed

lemma reparent_table: "\<exists>S. table (reparent p st) = t_wake S (t_orphan p (table st))"
proof -
  have "t_orphans [0..<NPROC] p t = t_orphan p t" for t by (simp add: t_orphans_def t_orphan_def)
  then show ?thesis unfolding reparent_def using reparent_fold [of "[0..<NPROC]" p st] by simp
qed

lemma exit_finish_table: "\<exists>S. table (exit_finish me status st) = t_state me ZOMBIE (t_wake S (t_orphan me (table st)))"
proof -
  obtain S where S: "table (reparent me st) = t_wake S (t_orphan me (table st))" using reparent_table [of me st] by blast
  let ?w = "wakeup (Some me) (ProcChan (p_parent (proc (reparent me st) me))) (reparent me st)"
  obtain R where "table ?w = t_wake R (table (reparent me st))" using wakeup_table by blast
  moreover have "table (exit_finish me status st) = t_state me ZOMBIE (table ?w)" by (simp add: exit_finish_def Let_def pupd_state)
  ultimately show ?thesis using S by (intro exI [of _ "R \<union> S"]) (simp add: t_wake_wake)
qed

lemma kill_table: "\<exists>S. table (snd (kill pd st)) = t_wake S (table st)"
proof (cases "List.find (\<lambda>i. p_pid (proc st i) = pd) [0..<NPROC]")
  case None then show ?thesis by (intro exI [of _ "{}"]) (simp add: kill_def)
next
  case (Some i)
  then show ?thesis by (intro exI [of _ "{i}"]) (auto simp: kill_def pupd_state t_defs fun_eq_iff)
qed

lemma cleared_table: "table (pupd i cleared st) = t_drop i (table st)"
  by (simp add: pupd_at cleared_def t_drop_def)

lemma freeproc_table: "yields (freeproc i st) (\<lambda>st'. table st' = t_drop i (table st))"
  by (rule yields_mono [OF freeproc_procs]) (simp add: same_table cleared_table)

text \<open>What \<^verbatim>\<open>allocproc\<close> does to the table.\<close>

definition allocated :: "ptable \<Rightarrow> nat option \<Rightarrow> ptable \<Rightarrow> bool" where
  "allocated t r t' \<longleftrightarrow> (case r of None \<Rightarrow> t' = t \<or> (\<exists>i < NPROC. ps t i = UNUSED \<and> t' = t_drop i (t_alloc i t))
     | Some i \<Rightarrow> i < NPROC \<and> ps t i = UNUSED \<and> t' = t_alloc i t)"

lemma claimed_table: "table (pupd i (\<lambda>p. p\<lparr>p_pid := nextpid st, p_state := USED\<rparr>) (st\<lparr>nextpid := nextpid st + 1\<rparr>)) = t_alloc i (table st)"
  by (simp add: table_def t_alloc_def fun_eq_iff)

lemma on_mem_val_table: "yields (on_mem_val op st) (\<lambda>(x, st'). table st' = table st)"
  by (rule yields_mono [OF on_procs(2)]) (auto simp: same_table)

lemma pool_table [simp]: "table (st\<lparr>pool := k\<rparr>) = table st" "table (st\<lparr>fsys := s\<rparr>) = table st" "table (tf_set i off v st) = table st"
  by (simp_all add: same_table)

lemma cleared_alloc: "i < NPROC \<Longrightarrow> ps t i = UNUSED \<Longrightarrow> table st = t_alloc i t \<Longrightarrow>
    yields (obind (freeproc i st) (\<lambda>st. Ok (None, st))) (\<lambda>(r, st'). allocated t r (table st'))"
  by (rule yields_obind, rule yields_mono [OF freeproc_table]) (auto simp: allocated_def intro!: yields_basic)

lemma allocproc_table:
  fixes st :: "('d, 'u) kernel"
  shows "yields (allocproc tramp forkret st) (\<lambda>(r, st'). allocated (table st) r (table st'))"
proof (cases "List.find (\<lambda>i. p_state (proc st i) = UNUSED) [0..<NPROC]")
  case None then show ?thesis by (simp add: allocproc_def allocated_def yields_rules)
next
  case (Some i)
  then have i: "i < NPROC" "ps (table st) i = UNUSED" by (auto simp: find_Some_iff)
  define s1 where "s1 = pupd i (\<lambda>p. p\<lparr>p_pid := nextpid st, p_state := USED\<rparr>) (st\<lparr>nextpid := nextpid st + 1\<rparr>)"
  obtain tf k where tf': "kalloc (pool st) = (tf, k)" by fastforce
  define s2 where "s2 = pupd i (p_trapframe_update (\<lambda>_. tf)) (s1\<lparr>pool := k\<rparr>)"
  have s2: "table s2 = t_alloc i (table st)" by (simp add: s2_def s1_def pupd_table claimed_table)
  have rest: "yields (let s = pupd i (p_pagetable_update (\<lambda>_. pt)) s3 in
        if pt = 0 then obind (freeproc i s) (\<lambda>st. Ok (None, st))
        else Ok (Some i, pupd i (\<lambda>p. p\<lparr>p_context := \<lparr>ctx_ra = forkret, ctx_sp = p_kstack p + PGSIZE, ctx_s = replicate 12 0\<rparr>\<rparr>) s))
      (\<lambda>(r, st'). allocated (table st) r (table st'))" if "table s3 = table s2" for pt and s3 :: "('d, 'u) kernel"
    unfolding Let_def using that s2 i
    by (intro yields_if cleared_alloc [of i]) (auto simp: pupd_table allocated_def intro!: yields_basic)
  have "allocproc tramp forkret st = (if tf = 0 then obind (freeproc i s2) (\<lambda>st. Ok (None, st))
      else obind (on_mem_val (proc_pagetable tramp tf) s2) (\<lambda>(pt, s3). let s = pupd i (p_pagetable_update (\<lambda>_. pt)) s3 in
        if pt = 0 then obind (freeproc i s) (\<lambda>st. Ok (None, st))
        else Ok (Some i, pupd i (\<lambda>p. p\<lparr>p_context := \<lparr>ctx_ra = forkret, ctx_sp = p_kstack p + PGSIZE, ctx_s = replicate 12 0\<rparr>\<rparr>) s)))"
    unfolding allocproc_def by (simp add: Some allocpid_def Let_def tf' s2_def s1_def)
  also have "yields \<dots> (\<lambda>(r, st'). allocated (table st) r (table st'))"
    by (intro yields_if cleared_alloc [OF i s2] yields_obind yields_mono [OF on_mem_val_table]) (auto intro!: rest)
  finally show ?thesis .
qed

lemma allocated_drop: "allocated t (Some i) t' \<Longrightarrow> allocated t None (t_drop i t')"
  by (auto simp: allocated_def)

lemma fork_child_table:
  fixes st :: "('d, 'u) kernel"
  shows "yields (fork_child tramp forkret me st) (\<lambda>(r, st'). allocated (table st) r (table st'))"
proof -
  let ?P = "\<lambda>(r, st'). allocated (table st) r (table st')"
  have cont: "yields (let p = proc s1 me in obind (on_mem_val (uvmcopy (p_pagetable p) (p_pagetable (proc s1 np)) (p_sz p)) s1) (\<lambda>(r, s2).
       if sint r < 0 then obind (freeproc np s2) (\<lambda>s. Ok (None, s))
       else let
         s3 = pupd np (p_sz_update (\<lambda>_. p_sz p)) s2;
         k = pool s3;
         s4 = s3\<lparr>pool := k\<lparr>mem := write_bytes (mem k) (p_trapframe (proc s3 np)) (read_bytes (mem k) (p_trapframe p) tf_size)\<rparr>\<rparr>;
         s5 = tf_set np tf_a0 0 s4
       in obind (ofold (dup_file me np) [0..<NOFILE] s5) (\<lambda>s6. case p_cwd p of
         None \<Rightarrow> Undefined
       | Some cwd \<Rightarrow> (case idup cwd (fsys s6) of (ip, s) \<Rightarrow>
           Ok (Some np, pupd np (\<lambda>q. q\<lparr>p_cwd := Some ip, p_name := copy_name (p_name q) (p_name p)\<rparr>) (s6\<lparr>fsys := s\<rparr>)))))) ?P"
    if s1: "allocated (table st) (Some np) (table s1)" for np and s1 :: "('d, 'u) kernel"
  proof -
    have D: "yields (ofold (dup_file me np) [0..<NOFILE] s5) (\<lambda>s6. table s6 = table s5)" for s5 :: "('d, 'u) kernel"
      by (rule yields_ofold [where R = keeps_table]) (auto intro: yields_mono [OF dup_file_table])
    have E: "yields (case p_cwd p of None \<Rightarrow> Undefined | Some cwd \<Rightarrow> (case idup cwd (fsys s6) of (ip, s) \<Rightarrow>
        Ok (Some np, pupd np (\<lambda>q. q\<lparr>p_cwd := Some ip, p_name := copy_name (p_name q) (p_name p)\<rparr>) (s6\<lparr>fsys := s\<rparr>)))) ?P"
      if "table s6 = table s1" for p :: proc and s6 :: "('d, 'u) kernel"
      by (intro yields_option yields_basic yields_prod) (use s1 that in \<open>auto simp: pupd_table\<close>)
    have G: "yields (obind (freeproc np s2) (\<lambda>s. Ok (None, s))) ?P" if "table s2 = table s1" for s2 :: "('d, 'u) kernel"
      by (rule yields_obind, rule yields_mono [OF freeproc_table], rule yields_basic) (use s1 that allocated_drop in auto)
    show ?thesis unfolding Let_def
      by (rule yields_obind, rule yields_mono [OF on_mem_val_table], rule yields_prod, rule yields_if, rule G, simp,
        rule yields_obind, rule yields_mono [OF D], rule E) (simp add: pupd_table)
  qed
  show ?thesis unfolding fork_child_def
    by (rule yields_obind, rule yields_mono [OF allocproc_table], rule yields_prod, rule yields_option, rule yields_basic, simp)
      (rule cont, simp)
qed

lemma wait_table: "yields (wait kv me va st) (\<lambda>(n, st'). table st' = table st \<or>
    (\<exists>i < NPROC. p_parent (proc st i) = Some me \<and> p_state (proc st i) = ZOMBIE \<and> table st' = t_drop i (table st)))"
proof (cases "List.find (\<lambda>i. p_parent (proc st i) = Some me \<and> p_state (proc st i) = ZOMBIE) [0..<NPROC]")
  case None then show ?thesis by (auto simp: wait_def intro!: yields_rules)
next
  case (Some i)
  then have i: "i < NPROC" "p_parent (proc st i) = Some me" "p_state (proc st i) = ZOMBIE" by (auto simp: find_Some_iff)
  have "yields (if va = 0 then Ok (0, st) else on_mem_val op st) (\<lambda>(r, st'). table st' = table st)" for op :: "kmem \<Rightarrow> (i32 \<times> kmem) outcome"
    using on_mem_val_table by (auto intro: yields_rules)
  note W = yields_mono [OF this]
  show ?thesis unfolding wait_def Some option.case Let_def
    by (rule yields_obind, rule W, rule yields_prod, rule yields_if, rule yields_basic, simp, rule yields_obind,
      rule yields_mono [OF freeproc_table], rule yields_basic) (use i in auto)
qed

section \<open>Executions\<close>

text \<open>
  The steps of the kernel that may change the process table, as the locks make them atomic; \<open>f me\<close> is the local variable
  \<^verbatim>\<open>np\<close> of a process \<open>me\<close> inside \<^verbatim>\<open>fork\<close>. A process takes its steps on the CPU it runs on. The step \<open>work\<close>
  stands for everything else the kernel does. The signed counter \<^verbatim>\<open>nextpid\<close> must not overflow, which C leaves undefined.
\<close>

inductive kstep :: "('d, 'u) kernel \<times> (nat \<Rightarrow> nat option) \<Rightarrow> ('d, 'u) kernel \<times> (nat \<Rightarrow> nat option) \<Rightarrow> bool" where
  work: "table st' = table st \<Longrightarrow> kstep (st, f) (st', f)"
| schedule: "cpu_proc st c = None \<Longrightarrow> i < NPROC \<Longrightarrow> kstep (st, f) (schedule c i st, f)"
| yield: "cpu_proc st c = Some me \<Longrightarrow> kstep (st, f) (switch_back c (yield me st), f)"
| sleep: "cpu_proc st c = Some me \<Longrightarrow> kstep (st, f) (switch_back c (sleep me ch st), f)"
| wakeup: "kstep (st, f) (wakeup (cpu_proc st c) ch st, f)"
| kill: "kstep (st, f) (snd (kill pd st), f)"
| fork_child: "cpu_proc st c = Some me \<Longrightarrow> f me = None \<Longrightarrow> sint (nextpid st) < 2 ^ 31 - 1 \<Longrightarrow>
    fork_child tramp forkret me st = Ok (r, st') \<Longrightarrow> kstep (st, f) (st', f(me := r))"
| fork_parent: "cpu_proc st c = Some me \<Longrightarrow> f me = Some np \<Longrightarrow> kstep (st, f) (fork_parent me np st, f)"
| fork_run: "cpu_proc st c = Some me \<Longrightarrow> f me = Some np \<Longrightarrow> p_parent (proc st np) = Some me \<Longrightarrow>
    kstep (st, f) (fork_run np st, f(me := None))"
| exit_files: "cpu_proc st c = Some me \<Longrightarrow> f me = None \<Longrightarrow> exit_files rw me st = Ok st' \<Longrightarrow> kstep (st, f) (st', f)"
| exit_finish: "cpu_proc st c = Some me \<Longrightarrow> f me = None \<Longrightarrow> initproc st \<noteq> Some me \<Longrightarrow>
    kstep (st, f) (switch_back c (exit_finish me status st), f)"
| wait: "cpu_proc st c = Some me \<Longrightarrow> wait kv me va st = Ok (n, st') \<Longrightarrow> kstep (st, f) (st', f)"

lemma t_cpu_keeps [simp]: "cpu_of (t_state i s t) = cpu_of t" "cpu_of (t_wake S t) = cpu_of t" "cpu_of (t_orphan i t) = cpu_of t"
  by (simp_all add: t_defs)

lemma kstep_tstep: "kstep a b \<Longrightarrow> tstep (table (fst a), snd a) (table (fst b), snd b)"
proof (induction rule: kstep.induct)
  case (schedule st c i f)
  then show ?case by (auto simp: schedule_table intro: tstep.intros)
next
  case (yield st c me f)
  then show ?case by (auto simp: yield_table intro: tstep.stop)
next
  case (sleep st c me f ch)
  then show ?case by (auto simp: switch_table sleep_table intro: tstep.stop)
next
  case (wakeup st f c ch)
  then show ?case using wakeup_table [of "cpu_proc st c" ch st] by (auto intro: tstep.wake)
next
  case (kill st f pd)
  then show ?case using kill_table [of pd st] by (auto intro: tstep.wake)
next
  case (fork_child st c me f tramp forkret r st')
  have a: "allocated (table st) r (table st')" using yieldsD [OF fork_child_table fork_child.hyps(4)] by simp
  show ?case
  proof (cases r)
    case None
    then have "f(me := r) = f" using fork_child.hyps(2) by (simp add: fun_upd_idem)
    moreover have "sint (next_num (table st)) < 2 ^ 31 - 1" using fork_child.hyps(3) by simp
    ultimately show ?thesis using a None tstep.stay tstep.alloc_fails by (auto simp: allocated_def simp del: fun_upd_apply)
  next
    case (Some i)
    then show ?thesis using a fork_child.hyps by (auto simp: allocated_def simp del: fun_upd_apply intro!: tstep.alloc)
  qed
next
  case (fork_parent st c me f np)
  have "table (fork_parent me np st) = (table st)\<lparr>par := (par (table st))(np := Some me)\<rparr>"
    by (simp add: fork_parent_def pupd_at fun_upd_idem)
  then show ?case using fork_parent tstep.adopt [of "table st" c me f np] by simp
next
  case (fork_run st c me f np)
  have "table (fork_run np st) = t_state np RUNNABLE (table st)" by (simp add: fork_run_def pupd_state)
  then show ?case using fork_run tstep.start [of "table st" c me f np] by (simp del: fun_upd_apply)
next
  case (exit_files st c me f rw st')
  then have "table st' = table st" using yieldsD [OF exit_files_table] by blast
  then show ?case by (simp add: tstep.stay)
next
  case (exit_finish st c me f status)
  obtain S where "table (exit_finish me status st) = t_state me ZOMBIE (t_wake S (t_orphan me (table st)))"
    using exit_finish_table [of me status st] by blast
  then show ?case using exit_finish tstep.die [of "table st" c me f S] by (simp add: switch_table)
next
  case (wait st c me kv va n st' f)
  have "table st' = table st \<or> (\<exists>i < NPROC. p_parent (proc st i) = Some me \<and> p_state (proc st i) = ZOMBIE \<and> table st' = t_drop i (table st))"
    using yieldsD [OF wait_table wait.hyps(2)] by simp
  then show ?case using wait.hyps(1) tstep.reap [of "table st" c me] by (auto intro: tstep.stay)
qed (simp add: tstep.stay)

text \<open>The state after \<^verbatim>\<open>userinit\<close>: one process, runnable and waiting for a CPU.\<close>

definition booted :: "ptable \<Rightarrow> bool" where
  "booted t \<longleftrightarrow> (\<exists>r < NPROC. first t = Some r \<and> ps t r = RUNNABLE \<and> pp t r = 1 \<and> par t r = None \<and>
     (\<forall>i < NPROC. i \<noteq> r \<longrightarrow> ps t i = UNUSED \<and> pp t i = 0 \<and> par t i = None)) \<and> cpu_of t = (\<lambda>_. None) \<and> next_num t = 2"

lemma booted_inv: "booted t \<Longrightarrow> tinv (t, \<lambda>_. None)"
proof -
  assume "booted t"
  then obtain r where r: "r < NPROC" "first t = Some r" "ps t r = RUNNABLE" "pp t r = 1" "par t r = None"
    and o: "\<forall>i < NPROC. i \<noteq> r \<longrightarrow> ps t i = UNUSED \<and> pp t i = 0 \<and> par t i = None"
    and c: "cpu_of t = (\<lambda>_. None)" "next_num t = 2" unfolding booted_def by blast
  have st: "ps t i = (if i = r then RUNNABLE else UNUSED)" "pp t i = (if i = r then 1 else 0)" "par t i = None" if "i < NPROC" for i
    using o r that by auto
  have "cpus_ok t" using c st by (simp add: cpus_ok_def)
  moreover have "pids_ok t"
    by (rule pids_okI) (use st c(2) in \<open>auto split: if_splits\<close>)
  moreover have "parents_ok t" by (rule parents_okI) (use st in simp)
  moreover have "root_ok t" using r st by (simp add: root_ok_def)
  moreover have "forks_ok t (\<lambda>_. None)" by (rule forks_okI) simp_all
  ultimately show ?thesis by (simp add: tinv_def tree_ok_def)
qed

lemma reach_inv: "kstep\<^sup>*\<^sup>* a b \<Longrightarrow> tinv (table (fst a), snd a) \<Longrightarrow> tinv (table (fst b), snd b)"
  by (induction rule: rtranclp_induct) (use kstep_tstep tstep_inv in blast)+

text \<open>Each process, with its parent.\<close>

definition child_of :: "('d, 'u) kernel \<Rightarrow> (nat \<times> nat) set" where
  "child_of st = {(i, q). i < NPROC \<and> p_parent (proc st i) = Some q}"

lemma child_path:
  assumes "tinv (table st, f)" "i < NPROC" "p_state (proc st i) \<notin> {UNUSED, USED}" "initproc st = Some r"
  shows "(i, r) \<in> (child_of st)\<^sup>*"
  using assms(2,3)
proof (induction "nat (sint (p_pid (proc st i)))" arbitrary: i rule: less_induct)
  case less
  have t: "root_ok (table st)" "parents_ok (table st)" "pids_ok (table st)" using assms(1) by (simp_all add: tinv_def tree_ok_def)
  show ?case
  proof (cases "i = r")
    case False
    then obtain q where q: "p_parent (proc st i) = Some q" using t(1) assms(4) less.prems by (auto simp: root_ok_def)
    have Q: "live (table st) q" "sint (p_pid (proc st q)) < sint (p_pid (proc st i))"
      using parents_okD [OF t(2) less.prems(1)] q by auto
    then have "(q, r) \<in> (child_of st)\<^sup>*"
      using pids_okD(2) [OF t(3), of q] by (intro less.hyps) auto
    moreover have "(i, q) \<in> child_of st" using q less.prems(1) by (simp add: child_of_def)
    ultimately show ?thesis by (rule converse_rtrancl_into_rtrancl [rotated])
  qed simp
qed

text \<open>What \<^verbatim>\<open>userinit\<close> leaves, on the zeroed table that \<^verbatim>\<open>procinit\<close> sets up.\<close>

definition unbooted :: "ptable \<Rightarrow> bool" where
  "unbooted t \<longleftrightarrow> (\<forall>i < NPROC. ps t i = UNUSED \<and> pp t i = 0 \<and> par t i = None) \<and> cpu_of t = (\<lambda>_. None) \<and> next_num t = 1"

lemma booted_alloc: "unbooted t \<Longrightarrow> i < NPROC \<Longrightarrow> booted (t_state i RUNNABLE ((t_alloc i t)\<lparr>first := Some i\<rparr>))"
  unfolding booted_def unbooted_def by (intro conjI exI [of _ i]) (auto simp: t_defs)

lemma t_state_state: "t_state i s (t_state i s' t) = t_state i s t"
  by (simp add: t_state_def)

lemma initproc_table: "table (st\<lparr>initproc := r\<rparr>) = (table st)\<lparr>first := r\<rparr>"
  by (simp add: table_def)

lemma userinit_booted:
  fixes st :: "('d, 'u) kernel"
  assumes "unbooted (table st)"
  shows "yields (userinit rw tramp forkret code st) (\<lambda>st'. booted (table st'))"
proof -
  have fin: "yields (let s3 = tf_set i tf_sp PGSIZE (tf_set i tf_epc 0 (pupd i (\<lambda>p. p\<lparr>p_sz := PGSIZE\<rparr>) s2));
           s4 = pupd i (\<lambda>p. p\<lparr>p_name := copy_name (p_name p) (bytes_of ''initcode'' @ [0])\<rparr>) s3
       in obind (on_fs_val (namei rw 0 0 [47]) s4) (\<lambda>(ip, s5).
         Ok (pupd i (\<lambda>p. p\<lparr>p_cwd := ip, p_state := RUNNABLE, p_trace_mask := 0\<rparr>) s5))) (\<lambda>st'. booted (table st'))"
    if s2: "table s2 = (t_alloc i (table st))\<lparr>first := Some i\<rparr>" "i < NPROC" for i and s2 :: "('d, 'u) kernel"
  proof -
    have "yields (on_fs_val g s) (\<lambda>(x, s'). table s' = table s)" for g and s :: "('d, 'u) kernel"
      by (rule yields_mono [OF on_procs(4)]) (auto simp: same_table)
    note F = yields_mono [OF this]
    show ?thesis unfolding Let_def
      by (rule yields_obind, rule F, rule yields_prod, rule yields_basic)
        (use booted_alloc [OF assms s2(2)] s2(1) in \<open>simp add: pupd_state t_state_state\<close>)
  qed
  have M: "yields (on_mem op s) (\<lambda>s'. table s' = table s)" for op and s :: "('d, 'u) kernel"
    by (rule yields_mono [OF on_procs(1)]) (simp add: same_table)
  show ?thesis unfolding userinit_def Let_def [of "_ \<lparr>initproc := _\<rparr>"]
    by (rule yields_obind, rule yields_mono [OF allocproc_table], rule yields_prod, rule yields_option, rule yields_basic, rule yields_obind,
      rule yields_mono [OF M], rule fin) (auto simp: allocated_def initproc_table)
qed

section \<open>Properties\<close>

text \<open>
  C11 (safety). In every state the kernel can reach after booting, a CPU only runs a process marked \<open>RUNNING\<close>, and every
  process marked \<open>RUNNING\<close> is on exactly one CPU.
\<close>

theorem running_on_one_cpu:
  assumes "booted (table st)" "kstep\<^sup>*\<^sup>* (st, \<lambda>_. None) (st', f)"
  shows "(\<forall>c i. cpu_proc st' c = Some i \<longrightarrow> i < NPROC \<and> p_state (proc st' i) = RUNNING) \<and>
    (\<forall>i < NPROC. p_state (proc st' i) = RUNNING \<longrightarrow> (\<exists>!c. cpu_proc st' c = Some i))"
proof -
  have "cpus_ok (table st')" using reach_inv [OF assms(2)] booted_inv [OF assms(1)] by (simp add: tinv_def)
  then show ?thesis unfolding cpus_ok_def table_sel by blast
qed

text \<open>
  C2 (invariant). In every state the kernel can reach after booting, the numbers of the processes in the table are distinct
  and smaller than \<^verbatim>\<open>nextpid\<close>, and the processes form a tree: from every process that has started (also a zombie), the
  chain of parents leads to \<^verbatim>\<open>initproc\<close>, through processes that are alive. So every zombie has a living process that can
  collect it.
\<close>

theorem process_tree:
  assumes "booted (table st)" "kstep\<^sup>*\<^sup>* (st, \<lambda>_. None) (st', f)"
  shows "inj_on (\<lambda>i. p_pid (proc st' i)) {i. i < NPROC \<and> p_state (proc st' i) \<noteq> UNUSED} \<and>
    (\<forall>i < NPROC. sint (p_pid (proc st' i)) < sint (nextpid st')) \<and>
    (\<exists>r < NPROC. initproc st' = Some r \<and> p_state (proc st' r) \<noteq> ZOMBIE \<and>
      (\<forall>i < NPROC. p_state (proc st' i) \<notin> {UNUSED, USED} \<longrightarrow> (i, r) \<in> (child_of st')\<^sup>*)) \<and>
    (\<forall>i q. (i, q) \<in> child_of st' \<longrightarrow> q < NPROC \<and> p_state (proc st' q) \<in> {SLEEPING, RUNNABLE, RUNNING})"
proof -
  have t: "tinv (table st', f)" using reach_inv [OF assms(2)] booted_inv [OF assms(1)] by simp
  then have p: "pids_ok (table st')" and r: "root_ok (table st')" and q: "parents_ok (table st')" by (simp_all add: tinv_def tree_ok_def)
  have "inj_on (\<lambda>i. p_pid (proc st' i)) {i. i < NPROC \<and> p_state (proc st' i) \<noteq> UNUSED}"
    using p unfolding pids_ok_def table_sel inj_on_def by blast
  moreover have "sint (p_pid (proc st' i)) < sint (nextpid st')" if "i < NPROC" for i
    using p that by (cases "p_state (proc st' i) = UNUSED") (auto simp: pids_ok_def)
  moreover obtain r where r: "initproc st' = Some r" "r < NPROC" "p_state (proc st' r) \<noteq> ZOMBIE"
    using r by (auto simp: root_ok_def split: option.splits)
  moreover have "(i, r) \<in> (child_of st')\<^sup>*" if "i < NPROC" "p_state (proc st' i) \<notin> {UNUSED, USED}" for i
    using child_path [OF t that r(1)] .
  moreover have "q < NPROC \<and> p_state (proc st' q) \<in> {SLEEPING, RUNNABLE, RUNNING}" if "(i, q) \<in> child_of st'" for i q
    using parents_okD [OF q, of i q] that procstate.exhaust [of "p_state (proc st' q)"] by (auto simp: child_of_def)
  ultimately show ?thesis by blast
qed

text \<open>A kernel that has just booted.\<close>

definition blank_proc :: "proc" where
  "blank_proc = \<lparr>p_state = UNUSED, p_chan = NoChan, p_killed = False, p_xstate = 0, p_pid = 0, p_parent = None, p_kstack = 0, p_sz = 0,
     p_pagetable = 0, p_trapframe = 0, p_context = \<lparr>ctx_ra = 0, ctx_sp = 0, ctx_s = replicate 12 0\<rparr>, p_ofile = replicate NOFILE None,
     p_cwd = None, p_name = replicate 16 0, p_trace_mask = 0\<rparr>"

definition example_kernel :: "(unit, unit) kernel" where
  "example_kernel = \<lparr>fsys = fsys example_ksys, ftab = ftab example_ksys, pipes = pipes example_ksys, pool = pool example_ksys,
     con = con example_ksys, devsw = devsw example_ksys,
     proc = (\<lambda>i. if i = 0 then blank_proc\<lparr>p_state := RUNNABLE, p_pid := 1\<rparr> else blank_proc), cpu_proc = (\<lambda>_. None), nextpid = 2, initproc = Some 0, ticks = 0\<rparr>"

lemma example_booted: "booted (table example_kernel)"
  unfolding booted_def by (intro conjI exI [of _ 0]) (auto simp: example_kernel_def blank_proc_def)

lemma example_run: "kstep\<^sup>*\<^sup>* (example_kernel, \<lambda>_. None) (schedule 0 0 example_kernel, \<lambda>_. None)"
  by (rule r_into_rtranclp, rule kstep.schedule) (simp_all add: example_kernel_def)

theorem running_on_one_cpu_witness:
  "cpu_proc (schedule 0 0 example_kernel) 0 = Some 0 \<and> (\<exists>!c. cpu_proc (schedule 0 0 example_kernel) c = Some 0)"
proof -
  have "cpu_proc (schedule 0 0 example_kernel) 0 = Some 0" by (simp add: schedule_def example_kernel_def blank_proc_def)
  then show ?thesis using running_on_one_cpu [OF example_booted example_run] by blast
qed

theorem process_tree_witness:
  "(0, 0) \<in> (child_of (schedule 0 0 example_kernel))\<^sup>* \<and> sint (p_pid (proc (schedule 0 0 example_kernel) 0)) < 2"
proof -
  have "nextpid (schedule 0 0 example_kernel) = 2" by (simp add: schedule_def example_kernel_def)
  then show ?thesis using process_tree [OF example_booted example_run] by auto
qed

end
