(* ===== verification/Xv6_Proc_Pages.thy ===== *)
theory Xv6_Proc_Pages
  imports Xv6_Proc_Table
begin

text \<open>
  The pages a process holds: \<^verbatim>\<open>proc_pagetable\<close>, \<^verbatim>\<open>proc_freepagetable\<close>, \<^verbatim>\<open>allocproc\<close> and \<^verbatim>\<open>freeproc\<close> of
  \<^verbatim>\<open>kernel/proc.c\<close> neither leak pages nor free them twice.
\<close>

unbundle bit_operations_syntax

section \<open>The page table of a new process\<close>

lemma leaf_entry: "(x OR (PTE_R OR y) OR PTE_V) AND PTE_V \<noteq> 0" "PTE_FLAGS (x OR (PTE_R OR y) OR PTE_V) \<noteq> PTE_V"
proof -
  have "bit ((x OR (PTE_R OR y) OR PTE_V) AND PTE_V) 0" by (simp add: bit_simps)
  then show "(x OR (PTE_R OR y) OR PTE_V) AND PTE_V \<noteq> 0" by force
  have "bit (PTE_FLAGS (x OR (PTE_R OR y) OR PTE_V)) 1" by (simp add: PTE_FLAGS_def bit_simps)
  then show "PTE_FLAGS (x OR (PTE_R OR y) OR PTE_V) \<noteq> PTE_V" by (auto simp: bit_simps)
qed

lemma unmap_one:
  assumes ok: "pt_ok 2 pt s" and a: "page_aligned a" "a < MAXVA"
    and e: "pte (mem s) pt a AND PTE_V \<noteq> 0" "PTE_FLAGS (pte (mem s) pt a) \<noteq> PTE_V"
  obtains s' where "uvmunmap pt a 1 False s = Ok s'" and "pt_change pt s s' (set_page (pte (mem s) pt) a 0)" and "avail s' = avail s"
proof -
  obtain slot where w: "walk pt a False s = Ok (slot, s)" "slot = 0 \<Longrightarrow> pte (mem s) pt a = 0" "slot \<noteq> 0 \<Longrightarrow> slot_of (mem s) 2 pt a slot"
    using walk_lookup [OF ok a(2)] by blast
  have nz: "slot \<noteq> 0" using w(2) e(1) by auto
  note so = w(3) [OF nz]
  have ld: "load64 (mem s) slot = pte (mem s) pt a" by (rule slot_of_load [OF so])
  have lt: "a < a + PGSIZE" using add_PGSIZE_MAXVA [OF a(2)] by (simp add: word_less_nat_alt)
  have "uvmunmap_loop pt a (a + PGSIZE) False s = Ok (set_pte slot 0 s)"
    using lt w(1) nz ld e by (subst uvmunmap_loop.simps) (simp add: uvmunmap_loop.simps)
  then have "uvmunmap pt a 1 False s = Ok (set_pte slot 0 s)" using a(1) by (simp add: uvmunmap_def page_aligned_def)
  then show ?thesis using that pt_change_set [OF ok so a(2), of 0] set_pte_ok(2) [OF ok so a(2), of 0] by blast
qed

lemma loop_free_empty:
  assumes "pt_ok 2 pt s" and "\<And>va. va < VATOP \<Longrightarrow> pte (mem s) pt va = 0"
  obtains s' where "loop_free pt 0 s = Ok s'" and "kmem_ok s'" and "avail s' = avail s \<union> tables (mem s) 2 pt" and "kend s' = kend s"
proof -
  have "leafless (mem s) 2 pt" by (rule leafless_ptes) (use assms(2) in simp)
  then obtain s' where "freewalk pt s = Some (Ok s')" "freed 2 pt s s'" using freewalk_ok [OF assms(1)] by blast
  then show ?thesis using that by (auto simp: loop_free_def uvmfree_def freed_def)
qed

lemma uvmcreate_ok:
  assumes "kmem_ok s" "uvmcreate s = (r, s')"
  shows "r = 0 \<Longrightarrow> s' = s" and "r \<noteq> 0 \<Longrightarrow> pt_ok 2 r s'" and "r \<noteq> 0 \<Longrightarrow> pte (mem s') r va = 0"
    and "r \<noteq> 0 \<Longrightarrow> tables (mem s') 2 r = avail s - avail s'" and "r \<noteq> 0 \<Longrightarrow> avail s' \<subseteq> avail s"
    and "r \<noteq> 0 \<Longrightarrow> kend s' = kend s"
proof -
  obtain p s1 where k: "kalloc s = (p, s1)" by fastforce
  show "r = 0 \<Longrightarrow> s' = s"
    by (rule ka.alloc_cases [OF assms(1) k]) (use assms(2) k in \<open>auto simp: uvmcreate_def\<close>)
  have *: "pt_ok 2 r s' \<and> pte (mem s') r va = 0 \<and> tables (mem s') 2 r = avail s - avail s' \<and> avail s' \<subseteq> avail s \<and> kend s' = kend s" if "r \<noteq> 0"
  proof -
    have p: "r = p" "p \<noteq> 0" "s' = zero_page p s1" using assms(2) k that by (auto simp: uvmcreate_def split: if_splits)
    have A: "ram_page s p" "kmem_ok s1" "p \<in> avail s" "avail s1 = avail s - {p}"
      by (rule ka.alloc_cases [OF assms(1) k]; use p in simp)+
    have pal: "page_aligned p" using A(1) by (simp add: ram_page_def)
    have m: "s' = s1\<lparr>mem := memset (mem s1) p 0 4096\<rparr>" using p(3) by simp
    have "avail s1 \<subseteq> - {p}" using A(4) by auto
    note K = kmem_ok_mem [OF A(2) pages_eq_memset [OF pal] this]
    note Z = zero_table [OF pal, of "mem s'" 2]
    have z: "\<forall>i<512. ent (mem s') p i = 0" using ent_zero_page [OF pal] m by simp
    have ke: "kend s' = kend s" using m kalloc_kend [OF k] by simp
    have av: "avail s' = avail s - {p}" using K(2) A(4) m by metis
    have "kmem_ok s'" using K(1) m by metis
    then have "pt_ok 2 p s'" using Z(1,2) [OF z] av A(1) ram_page_kend [OF ke] by (simp add: pt_ok_def)
    then show ?thesis using Z(2,3) [OF z] av ke A(3) p(1) by auto
  qed
  show "r \<noteq> 0 \<Longrightarrow> pt_ok 2 r s'" "r \<noteq> 0 \<Longrightarrow> pte (mem s') r va = 0" "r \<noteq> 0 \<Longrightarrow> tables (mem s') 2 r = avail s - avail s'"
    "r \<noteq> 0 \<Longrightarrow> avail s' \<subseteq> avail s" "r \<noteq> 0 \<Longrightarrow> kend s' = kend s" using * by blast+
qed

text \<open>The entries of a page table that maps only the trampoline and the trap frame.\<close>

definition two_pages :: "u64 \<Rightarrow> u64 \<Rightarrow> u64 \<Rightarrow> u64" where
  "two_pages tramp tf = set_page (set_page (\<lambda>_. 0) TRAMPOLINE (PA2PTE tramp OR (PTE_R OR PTE_X) OR PTE_V))
     TRAPFRAME (PA2PTE tf OR (PTE_R OR PTE_W) OR PTE_V)"

definition fresh_table :: "u64 \<Rightarrow> u64 \<Rightarrow> u64 \<Rightarrow> kmem \<Rightarrow> kmem \<Rightarrow> bool" where
  "fresh_table tramp tf pt s s' \<longleftrightarrow> pt_ok 2 pt s' \<and> kend s' = kend s \<and> avail s' \<subseteq> avail s \<and> tables (mem s') 2 pt = avail s - avail s' \<and>
     ptes_eq pt (mem s') (two_pages tramp tf)"

lemma two_pages_at: "two_pages tramp tf TRAMPOLINE = PA2PTE tramp OR (PTE_R OR PTE_X) OR PTE_V"
    "two_pages tramp tf TRAPFRAME = PA2PTE tf OR (PTE_R OR PTE_W) OR PTE_V"
  by (simp_all add: two_pages_def set_page_def PGROUNDDOWN_def)

lemma top_pages: "page_aligned TRAMPOLINE" "TRAMPOLINE < MAXVA" "page_aligned TRAPFRAME" "TRAPFRAME < MAXVA"
  by (simp_all add: page_aligned_def)

lemma free_trampoline:
  assumes "pt_ok 2 pt s" and p: "\<And>va. va < VATOP \<Longrightarrow> pte (mem s) pt va = set_page (\<lambda>_. 0) TRAMPOLINE (PA2PTE tramp OR (PTE_R OR PTE_X) OR PTE_V) va"
  obtains s1 s2 where "uvmunmap pt TRAMPOLINE 1 False s = Ok s1" and "loop_free pt 0 s1 = Ok s2" and "kmem_ok s2"
    and "avail s2 = avail s \<union> tables (mem s) 2 pt" and "kend s2 = kend s"
proof -
  have e: "pte (mem s) pt TRAMPOLINE = PA2PTE tramp OR (PTE_R OR PTE_X) OR PTE_V"
    using p [of TRAMPOLINE] by (simp add: set_page_def PGROUNDDOWN_def)
  have "pte (mem s) pt TRAMPOLINE AND PTE_V \<noteq> 0" "PTE_FLAGS (pte (mem s) pt TRAMPOLINE) \<noteq> PTE_V" unfolding e by (rule leaf_entry)+
  then obtain s1 where s1: "uvmunmap pt TRAMPOLINE 1 False s = Ok s1" "pt_change pt s s1 (set_page (pte (mem s) pt) TRAMPOLINE 0)" "avail s1 = avail s"
    using unmap_one [OF assms(1) top_pages(1,2)] by blast
  have "va < VATOP \<Longrightarrow> pte (mem s1) pt va = 0" for va
    using s1(2) p [of va] by (auto simp: pt_change_def ptes_eq_def set_page_def)
  then obtain s2 where "loop_free pt 0 s1 = Ok s2" "kmem_ok s2" "avail s2 = avail s1 \<union> tables (mem s1) 2 pt" "kend s2 = kend s1"
    using loop_free_empty [of pt s1] s1(2) by (auto simp: pt_change_def)
  then show ?thesis using that s1 by (auto simp: pt_change_def)
qed

lemma proc_pagetable_ok:
  assumes "kmem_ok s"
  obtains (none) s' where "proc_pagetable tramp tf s = Ok (0, s')" and "kmem_ok s'" and "avail s' = avail s" and "kend s' = kend s"
  | (some) pt s' where "proc_pagetable tramp tf s = Ok (pt, s')" and "pt \<noteq> 0" and "fresh_table tramp tf pt s s'"
proof -
  obtain pt s1 where c: "uvmcreate s = (pt, s1)" by fastforce
  note C = uvmcreate_ok [OF assms c]
  show ?thesis
  proof (cases "pt = 0")
    case True
    then show ?thesis using none c C(1) assms by (simp add: proc_pagetable_def)
  next
    case nz: False
    note C = C(2-) [OF nz]
    have v1: "pte (mem s1) pt TRAMPOLINE AND PTE_V = 0" by (simp add: C(2))
    obtain r1 s2 where m1: "mappages pt TRAMPOLINE PGSIZE tramp (PTE_R OR PTE_X) s1 = Ok (r1, s2)"
      "r1 = 0 \<and> pt_change pt s1 s2 (set_page (pte (mem s1) pt) TRAMPOLINE (PA2PTE tramp OR (PTE_R OR PTE_X) OR PTE_V)) \<or>
       r1 = -1 \<and> pt_change pt s1 s2 (pte (mem s1) pt) \<and> avail s2 = {}"
      using mappages_page [OF C(1) top_pages(1,2) v1, of tramp "PTE_R OR PTE_X"] by blast
    show ?thesis
    proof (cases "r1 = 0")
      case False
      then have ch: "pt_change pt s1 s2 (pte (mem s1) pt)" and r1: "r1 = -1" using m1(2) by auto
      have ok2: "pt_ok 2 pt s2" and z: "va < VATOP \<Longrightarrow> pte (mem s2) pt va = 0" for va
        using ch C(2) by (auto simp: pt_change_def ptes_eq_def)
      obtain s3 where s3: "loop_free pt 0 s2 = Ok s3" "kmem_ok s3" "avail s3 = avail s2 \<union> tables (mem s2) 2 pt" "kend s3 = kend s2"
        by (rule loop_free_empty [OF ok2 z])
      have "avail s3 = avail s" "kend s3 = kend s" using s3(3,4) ch C(3-5) by (auto simp: pt_change_def)
      then show ?thesis using none c nz m1(1) r1 s3(1,2) by (simp add: proc_pagetable_def)
    next
      case True
      let ?f1 = "set_page (\<lambda>_. 0) TRAMPOLINE (PA2PTE tramp OR (PTE_R OR PTE_X) OR PTE_V)"
      have ch: "pt_change pt s1 s2 ?f1"
        by (rule pt_change_cong [of _ _ _ "set_page (pte (mem s1) pt) TRAMPOLINE (PA2PTE tramp OR (PTE_R OR PTE_X) OR PTE_V)"])
          (use m1(2) True C(2) in \<open>auto simp: set_page_def\<close>)
      then have ok2: "pt_ok 2 pt s2" and p2: "\<And>va. va < VATOP \<Longrightarrow> pte (mem s2) pt va = ?f1 va"
        by (auto simp: pt_change_def ptes_eq_def)
      have v2: "pte (mem s2) pt TRAPFRAME AND PTE_V = 0" using p2 [of TRAPFRAME] by (simp add: set_page_def PGROUNDDOWN_def)
      obtain r2 s3 where m2: "mappages pt TRAPFRAME PGSIZE tf (PTE_R OR PTE_W) s2 = Ok (r2, s3)"
        "r2 = 0 \<and> pt_change pt s2 s3 (set_page (pte (mem s2) pt) TRAPFRAME (PA2PTE tf OR (PTE_R OR PTE_W) OR PTE_V)) \<or>
         r2 = -1 \<and> pt_change pt s2 s3 (pte (mem s2) pt) \<and> avail s3 = {}"
        using mappages_page [OF ok2 top_pages(3,4) v2, of tf "PTE_R OR PTE_W"] by blast
      show ?thesis
      proof (cases "r2 = 0")
        case r2: True
        have "pt_change pt s2 s3 (two_pages tramp tf)"
          by (rule pt_change_cong [of _ _ _ "set_page (pte (mem s2) pt) TRAPFRAME (PA2PTE tf OR (PTE_R OR PTE_W) OR PTE_V)"])
            (use m2(2) r2 p2 in \<open>auto simp: set_page_def two_pages_def\<close>)
        then have "pt_change pt s1 s3 (two_pages tramp tf)" by (rule pt_change_trans [OF ch])
        then have "fresh_table tramp tf pt s s3" using C by (auto simp: fresh_table_def pt_change_def)
        then show ?thesis using some c nz m1(1) True m2(1) r2 by (simp add: proc_pagetable_def)
      next
        case False
        then have ch3: "pt_change pt s2 s3 (pte (mem s2) pt)" and r2: "r2 = -1" using m2(2) by auto
        then have ok3: "pt_ok 2 pt s3" and p3: "\<And>va. va < VATOP \<Longrightarrow> pte (mem s3) pt va = ?f1 va"
          using p2 by (auto simp: pt_change_def ptes_eq_def)
        obtain s4 s5 where s5: "uvmunmap pt TRAMPOLINE 1 False s3 = Ok s4" "loop_free pt 0 s4 = Ok s5" "kmem_ok s5"
          "avail s5 = avail s3 \<union> tables (mem s3) 2 pt" "kend s5 = kend s3" by (rule free_trampoline [OF ok3 p3])
        have "avail s5 = avail s" "kend s5 = kend s" using s5(4,5) pt_change_trans [OF ch ch3] C(3-5) by (auto simp: pt_change_def)
        then show ?thesis using none c nz m1(1) True m2(1) r2 s5(1-3) by (simp add: proc_pagetable_def)
      qed
    qed
  qed
qed

text \<open>Freeing the page table of a process with user memory \<open>0 .. sz\<close>.\<close>

lemma proc_freepagetable_ok:
  assumes ok: "pt_ok 2 pt s" and sz: "unat sz \<le> unat TRAPFRAME" and n: "4096 * n = unat (PGROUNDUP sz)"
    and o: "owns pt (va_pages 0 n) s"
    and e: "pte (mem s) pt TRAMPOLINE AND PTE_V \<noteq> 0" "PTE_FLAGS (pte (mem s) pt TRAMPOLINE) \<noteq> PTE_V"
      "pte (mem s) pt TRAPFRAME AND PTE_V \<noteq> 0" "PTE_FLAGS (pte (mem s) pt TRAPFRAME) \<noteq> PTE_V"
    and z: "\<And>va. va < VATOP \<Longrightarrow> PGROUNDDOWN va \<notin> va_pages 0 n \<union> {TRAMPOLINE, TRAPFRAME} \<Longrightarrow> pte (mem s) pt va AND PTE_V = 0"
  shows "\<exists>s'. proc_freepagetable pt sz s = Ok s' \<and> kmem_ok s' \<and>
    avail s' = avail s \<union> tables (mem s) 2 pt \<union> frames (mem s) pt (va_pages 0 n)"
proof -
  obtain s1 where s1: "uvmunmap pt TRAMPOLINE 1 False s = Ok s1" "pt_change pt s s1 (set_page (pte (mem s) pt) TRAMPOLINE 0)" "avail s1 = avail s"
    by (rule unmap_one [OF ok top_pages(1,2) e(1,2)])
  have p1: "pte (mem s1) pt va = set_page (pte (mem s) pt) TRAMPOLINE 0 va" if "va < VATOP" for va
    using s1(2) that by (auto simp: pt_change_def ptes_eq_def)
  have ok1: "pt_ok 2 pt s1" using s1(2) by (simp add: pt_change_def)
  have "pte (mem s1) pt TRAPFRAME = pte (mem s) pt TRAPFRAME" using p1 [of TRAPFRAME] by (simp add: set_page_def PGROUNDDOWN_def)
  then obtain s2 where s2: "uvmunmap pt TRAPFRAME 1 False s1 = Ok s2" "pt_change pt s1 s2 (set_page (pte (mem s1) pt) TRAPFRAME 0)" "avail s2 = avail s1"
    using unmap_one [OF ok1 top_pages(3,4)] e(3,4) by metis
  have lo: "va < TRAPFRAME" "PGROUNDDOWN va = va" "va < VATOP" if "va \<in> va_pages 0 n" for va
  proof -
    obtain i where i: "i < n" "va = word_of_nat (4096 * i)" using \<open>va \<in> va_pages 0 n\<close> by (auto simp: va_pages_def)
    have "4096 * n \<le> unat TRAPFRAME" using n sz unat_PGROUNDUP_MAXVA [of sz] by simp
    moreover from this have "unat va = 4096 * i" unfolding i(2) using i(1) by (intro unat_word_of_nat_u64) simp
    ultimately have "unat va < unat TRAPFRAME" using i(1) by simp
    then show "va < TRAPFRAME" "va < VATOP" by (simp_all add: word_less_nat_alt)
    show "PGROUNDDOWN va = va" using ownsD(1) [OF o that] by (rule PGROUNDDOWN_aligned)
  qed
  have p2: "pte (mem s2) pt va = (if PGROUNDDOWN va \<in> {TRAMPOLINE, TRAPFRAME} then 0 else pte (mem s) pt va)" if "va < VATOP" for va
    using s2(2) that p1 by (auto simp: pt_change_def ptes_eq_def set_page_def PGROUNDDOWN_def)
  have same: "pte (mem s2) pt va = pte (mem s) pt va" if "va \<in> va_pages 0 n" for va using p2 [OF lo(3) [OF that]] lo [OF that] by auto
  have ok2: "pt_ok 2 pt s2" and t2: "tables (mem s2) 2 pt = tables (mem s) 2 pt" and k2: "kend s2 = kend s"
    using s2 s1 by (auto simp: pt_change_def)
  have a2: "avail s2 = avail s" using s1(3) s2(3) by simp
  have o2: "owns pt (va_pages 0 n) s2"
    by (rule owns_transfer [OF o]) (use same t2 k2 a2 ownsD(6,7) [OF o] in auto)
  have f2: "frames (mem s2) pt (va_pages 0 n) = frames (mem s) pt (va_pages 0 n)" using same by (auto intro!: image_cong)
  have "unat sz \<le> unat MAXVA" using sz by simp
  moreover have "\<forall>va. va < VATOP \<longrightarrow> PGROUNDDOWN va \<notin> va_pages 0 n \<longrightarrow> pte (mem s2) pt va AND PTE_V = 0" using p2 z by auto
  ultimately obtain s3 where s3: "uvmfree pt sz s2 = Some (Ok s3)" "kmem_ok s3" "avail s3 = avail s2 \<union> tables (mem s2) 2 pt \<union> frames (mem s2) pt (va_pages 0 n)"
    using uvmfree_ok [OF ok2 _ n o2] by blast
  have "proc_freepagetable pt sz s = Ok s3" using s1(1) s2(1) s3(1) by (simp add: proc_freepagetable_def loop_free_def)
  then show ?thesis using s3(2,3) t2 f2 a2 by auto
qed

lemma kfree_frame:
  assumes "pt_ok 2 pt s" "ram_page s p" "p \<notin> avail s" "p \<notin> tables (mem s) 2 pt"
  obtains s' where "kfree p s = Ok s'" "pt_ok 2 pt s'" "avail s' = insert p (avail s)" "tables (mem s') 2 pt = tables (mem s) 2 pt"
    "\<forall>va. pte (mem s') pt va = pte (mem s) pt va"
proof -
  note D = pt_okD [OF assms(1)]
  obtain s' where k: "kfree p s = Ok s'" "kmem_ok s'" "avail s' = insert p (avail s)" "ram_page s' = ram_page s" "pages_eq (- {p}) (mem s) (mem s')"
    using ka.free_some [OF D(1) assms(2,3)] by blast
  have "tables (mem s) 2 pt \<subseteq> - {p}" using assms(4) by auto
  note F = table_frame [OF D(2) k(5) this]
  have "pt_ok 2 pt s'" using assms(1,4) F k(2-4) unfolding pt_ok_def by auto
  then show ?thesis using that k F by auto
qed

lemma freeproc_fresh:
  assumes tf: "p_trapframe (proc st i) = tf" "tf \<noteq> 0" "ram_page (pool st) tf" "tf \<notin> avail (pool st)" "tf \<notin> tables (mem (pool st)) 2 pt"
    and pt: "p_pagetable (proc st i) = pt" "pt \<noteq> 0" "pt_ok 2 pt (pool st)" "ptes_eq pt (mem (pool st)) (two_pages tramp tf)" "p_sz (proc st i) = 0"
  shows "\<exists>st'. freeproc i st = Ok st' \<and> kmem_ok (pool st') \<and> avail (pool st') = insert tf (avail (pool st) \<union> tables (mem (pool st)) 2 pt)"
proof -
  obtain k1 where k1: "kfree tf (pool st) = Ok k1" "pt_ok 2 pt k1" "avail k1 = insert tf (avail (pool st))"
    "tables (mem k1) 2 pt = tables (mem (pool st)) 2 pt" "\<forall>va. pte (mem k1) pt va = pte (mem (pool st)) pt va"
    by (rule kfree_frame [OF pt(3) tf(3-5)])
  have P: "pte (mem k1) pt va = two_pages tramp tf va" if "va < VATOP" for va using k1(5) pt(4) that by (simp add: ptes_eq_def)
  have E: "pte (mem k1) pt TRAMPOLINE = PA2PTE tramp OR (PTE_R OR PTE_X) OR PTE_V" "pte (mem k1) pt TRAPFRAME = PA2PTE tf OR (PTE_R OR PTE_W) OR PTE_V"
    using P [of TRAMPOLINE] P [of TRAPFRAME] two_pages_at [of tramp tf] by simp_all
  have "pte (mem k1) pt TRAMPOLINE AND PTE_V \<noteq> 0" "PTE_FLAGS (pte (mem k1) pt TRAMPOLINE) \<noteq> PTE_V"
      "pte (mem k1) pt TRAPFRAME AND PTE_V \<noteq> 0" "PTE_FLAGS (pte (mem k1) pt TRAPFRAME) \<noteq> PTE_V"
    unfolding E by (rule leaf_entry)+
  moreover have "pte (mem k1) pt va AND PTE_V = 0" if "va < VATOP" "PGROUNDDOWN va \<notin> va_pages 0 0 \<union> {TRAMPOLINE, TRAPFRAME}" for va
    using P [OF that(1)] that(2) by (auto simp: two_pages_def set_page_def PGROUNDDOWN_def)
  moreover have "owns pt (va_pages 0 0) k1" "unat 0 \<le> unat TRAPFRAME" "4096 * 0 = unat (PGROUNDUP 0)" by (simp_all add: owns_def PGROUNDUP_def)
  ultimately obtain k2 where k2: "proc_freepagetable pt 0 k1 = Ok k2" "kmem_ok k2" "avail k2 = avail k1 \<union> tables (mem k1) 2 pt"
    using proc_freepagetable_ok [OF k1(2), of 0 0] by auto
  have "\<exists>st'. freeproc i st = Ok st' \<and> pool st' = k2"
    using tf(1,2) pt(1,2,5) k1(1) k2(1) by (simp add: freeproc_def on_mem_def Let_def)
  then show ?thesis using k2(2,3) k1(3,4) by auto
qed

lemma freeproc_blank:
  assumes "p_trapframe (proc st i) = 0" "p_pagetable (proc st i) = 0"
  shows "\<exists>st'. freeproc i st = Ok st' \<and> pool st' = pool st"
  using assms by (simp add: freeproc_def Let_def)

lemma freeproc_frame_only:
  assumes "p_trapframe (proc st i) = tf" "tf \<noteq> 0" "p_pagetable (proc st i) = 0" "kmem_ok (pool st)" "ram_page (pool st) tf" "tf \<notin> avail (pool st)"
  shows "\<exists>st'. freeproc i st = Ok st' \<and> kmem_ok (pool st') \<and> avail (pool st') = insert tf (avail (pool st))"
proof -
  obtain k where "kfree tf (pool st) = Ok k" "kmem_ok k" "avail k = insert tf (avail (pool st))"
    using ka.free_some [OF assms(4-6)] by blast
  then show ?thesis using assms(1-3) by (simp add: freeproc_def on_mem_def Let_def)
qed

text \<open>The entries of the table that are not in use hold no pages.\<close>

definition blank_slots :: "('d, 'u) kernel \<Rightarrow> bool" where
  "blank_slots st \<longleftrightarrow> (\<forall>i < NPROC. p_state (proc st i) = UNUSED \<longrightarrow> p_trapframe (proc st i) = 0 \<and> p_pagetable (proc st i) = 0 \<and> p_sz (proc st i) = 0)"

lemma allocproc_freeproc:
  fixes st :: "('d, 'u) kernel"
  assumes ok: "kmem_ok (pool st)" and blank: "blank_slots st"
  shows "\<exists>r st'. allocproc tramp forkret st = Ok (r, st') \<and> kmem_ok (pool st') \<and> (case r of None \<Rightarrow> avail (pool st') = avail (pool st)
    | Some i \<Rightarrow> p_state (proc st' i) = USED \<and> p_pid (proc st' i) = nextpid st \<and>
        (\<exists>st''. freeproc i st' = Ok st'' \<and> kmem_ok (pool st'') \<and> avail (pool st'') = avail (pool st)))"
proof (cases "List.find (\<lambda>i. p_state (proc st i) = UNUSED) [0..<NPROC]")
  case None
  then show ?thesis using ok by (simp add: allocproc_def)
next
  case (Some i)
  then have "i < NPROC" "p_state (proc st i) = UNUSED" by (auto simp: find_Some_iff)
  then have b: "p_trapframe (proc st i) = 0" "p_pagetable (proc st i) = 0" "p_sz (proc st i) = 0" using blank by (auto simp: blank_slots_def)
  obtain tf k where k: "kalloc (pool st) = (tf, k)" by fastforce
  define s2 where "s2 = pupd i (p_trapframe_update (\<lambda>_. tf))
    (pupd i (\<lambda>p. p\<lparr>p_pid := nextpid st, p_state := USED\<rparr>) (st\<lparr>nextpid := nextpid st + 1\<rparr>)\<lparr>pool := k\<rparr>)"
  have s2: "p_trapframe (proc s2 i) = tf" "p_pagetable (proc s2 i) = 0" "p_sz (proc s2 i) = 0" "pool s2 = k"
    "p_state (proc s2 i) = USED" "p_pid (proc s2 i) = nextpid st" by (simp_all add: s2_def b)
  have A: "allocproc tramp forkret st = (if tf = 0 then obind (freeproc i s2) (\<lambda>st. Ok (None, st))
      else obind (on_mem_val (proc_pagetable tramp tf) s2) (\<lambda>(pt, s3). let s = pupd i (p_pagetable_update (\<lambda>_. pt)) s3 in
        if pt = 0 then obind (freeproc i s) (\<lambda>st. Ok (None, st))
        else Ok (Some i, pupd i (\<lambda>p. p\<lparr>p_context := \<lparr>ctx_ra = forkret, ctx_sp = p_kstack p + PGSIZE, ctx_s = replicate 12 0\<rparr>\<rparr>) s)))"
    unfolding allocproc_def by (simp add: Some allocpid_def Let_def k s2_def)
  from ok k show ?thesis
  proof (cases rule: ka.alloc_cases)
    case none
    then show ?thesis using A freeproc_blank [of s2 i] s2 ok by auto
  next
    case K: some
    from K(3) show ?thesis
    proof (cases rule: proc_pagetable_ok [of k tramp tf])
      case (none k')
      let ?s = "pupd i (p_pagetable_update (\<lambda>_. 0)) (s2\<lparr>pool := k'\<rparr>)"
      have "ram_page k' tf" "tf \<notin> avail k'" using K none(3) ram_page_kend [OF none(4)] by auto
      then obtain s4 where s4: "freeproc i ?s = Ok s4" "kmem_ok (pool s4)" "avail (pool s4) = insert tf (avail k')"
        using freeproc_frame_only [of ?s i tf] s2(1) K(1) none(2) by auto
      have "avail (pool s4) = avail (pool st)" using s4(3) none(3) K(4,5) by auto
      moreover have "allocproc tramp forkret st = Ok (None, s4)"
        using A K(1) none(1) s2(4) s4(1) by (simp add: on_mem_val_def)
      ultimately show ?thesis using s4(2) by auto
    next
      case (some pt k')
      define s4 where "s4 = pupd i (\<lambda>p. p\<lparr>p_context := \<lparr>ctx_ra = forkret, ctx_sp = p_kstack p + PGSIZE, ctx_s = replicate 12 0\<rparr>\<rparr>)
        (pupd i (p_pagetable_update (\<lambda>_. pt)) (s2\<lparr>pool := k'\<rparr>))"
      have f: "pool s4 = k'" "p_trapframe (proc s4 i) = tf" "p_pagetable (proc s4 i) = pt" "p_sz (proc s4 i) = 0" "p_state (proc s4 i) = USED"
        "p_pid (proc s4 i) = nextpid st" by (simp_all add: s4_def s2)
      note F = some(3) [unfolded fresh_table_def]
      have T: "ram_page (pool s4) tf" "tf \<notin> avail (pool s4)" "tf \<notin> tables (mem (pool s4)) 2 pt" "pt_ok 2 pt (pool s4)"
        "ptes_eq pt (mem (pool s4)) (two_pages tramp tf)"
        using F K ram_page_kend [of k' k] unfolding f(1) by auto
      obtain s5 where s5: "freeproc i s4 = Ok s5" "kmem_ok (pool s5)" "avail (pool s5) = insert tf (avail (pool s4) \<union> tables (mem (pool s4)) 2 pt)"
        using freeproc_fresh [OF f(2) K(1) T(1-3) f(3) some(2) T(4,5) f(4)] by blast
      have "avail (pool s5) = avail (pool st)" using s5(3) F K(4,5) unfolding f(1) by auto
      moreover have "allocproc tramp forkret st = Ok (Some i, s4)"
        using A K(1) some(1,2) s2(4) by (simp add: on_mem_val_def s4_def)
      moreover have "kmem_ok (pool s4)" using T(4) pt_okD(1) by blast
      ultimately show ?thesis using s5(1,2) f(5,6) by (intro exI [of _ "Some i"] exI [of _ s4]) simp
    qed
  qed
qed


lemma example_blank: "kmem_ok (pool example_kernel)" "blank_slots example_kernel"
  using example_kmem_inv by (auto simp: example_kernel_def example_ksys_def blank_slots_def blank_proc_def)


text \<open>\<^verbatim>\<open>allocproc\<close> takes the first unused entry and leaves its \<^verbatim>\<open>killed\<close> flag alone.\<close>

lemma allocproc_killed:
  fixes st :: "('d, 'u) kernel"
  shows "yields (allocproc tramp forkret st) (\<lambda>(r, st'). \<forall>i. r = Some i \<longrightarrow>
    List.find (\<lambda>i. p_state (proc st i) = UNUSED) [0..<NPROC] = Some i \<and> p_killed (proc st' i) = p_killed (proc st i))"
proof (cases "List.find (\<lambda>i. p_state (proc st i) = UNUSED) [0..<NPROC]")
  case None then show ?thesis by (simp add: allocproc_def yields_rules)
next
  case (Some i)
  obtain tf k where k: "kalloc (pool st) = (tf, k)" by fastforce
  define s2 where "s2 = pupd i (p_trapframe_update (\<lambda>_. tf))
    (pupd i (\<lambda>p. p\<lparr>p_pid := nextpid st, p_state := USED\<rparr>) (st\<lparr>nextpid := nextpid st + 1\<rparr>)\<lparr>pool := k\<rparr>)"
  have s2: "p_killed (proc s2 i) = p_killed (proc st i)" by (simp add: s2_def)
  let ?P = "\<lambda>(r, st' :: ('d, 'u) kernel). \<forall>j. r = Some j \<longrightarrow> Some i = Some j \<and> p_killed (proc st' j) = p_killed (proc st j)"
  have A: "allocproc tramp forkret st = (if tf = 0 then obind (freeproc i s2) (\<lambda>st. Ok (None, st))
      else obind (on_mem_val (proc_pagetable tramp tf) s2) (\<lambda>(pt, s3). let s = pupd i (p_pagetable_update (\<lambda>_. pt)) s3 in
        if pt = 0 then obind (freeproc i s) (\<lambda>st. Ok (None, st))
        else Ok (Some i, pupd i (\<lambda>p. p\<lparr>p_context := \<lparr>ctx_ra = forkret, ctx_sp = p_kstack p + PGSIZE, ctx_s = replicate 12 0\<rparr>\<rparr>) s)))"
    unfolding allocproc_def by (simp add: Some allocpid_def Let_def k s2_def)
  have N: "yields (obind (freeproc i s) (\<lambda>st. Ok (None, st))) ?P" for s :: "('d, 'u) kernel" by (auto simp: yields_def outcome_iff)
  show ?thesis unfolding A Some Let_def
    by (rule yields_if, rule N, rule yields_obind, rule yields_mono [OF on_procs(2)], rule yields_prod, rule yields_if, rule N, rule yields_basic)
      (auto simp: same_procs_def s2)
qed

text \<open>
  C39 (error). No process has the number 0, yet \<^verbatim>\<open>kill(0)\<close> succeeds as soon as the table has an unused entry: it sets
  \<^verbatim>\<open>killed\<close> in the first one, since freed entries have \<^verbatim>\<open>pid\<close> 0 and \<^verbatim>\<open>kill\<close> does not look at the state. The flag stays:
  the next \<^verbatim>\<open>allocproc\<close> takes the same entry and does not reset it, so that the process forked next is born killed.
\<close>

theorem kill_zero_kills_next_process:
  assumes ok: "kmem_ok (pool st)" "blank_slots st" and p: "pids_ok (table st)"
    and u: "List.find (\<lambda>i. p_state (proc st i) = UNUSED) [0..<NPROC] = Some i"
  shows "\<exists>st1. kill 0 st = (0, st1) \<and> p_state (proc st1 i) = UNUSED \<and> killed i st1 \<and>
    (\<exists>r st2. allocproc tramp forkret st1 = Ok (r, st2) \<and> (\<forall>j. r = Some j \<longrightarrow> j = i \<and> killed j st2))"
proof -
  have z: "p_pid (proc st j) = 0 \<longleftrightarrow> p_state (proc st j) = UNUSED" if "j < NPROC" for j
    using pids_okD(1) [OF p that] pids_okD(2) [OF p that] by (cases "p_state (proc st j) = UNUSED") auto
  have "List.find (\<lambda>i. p_pid (proc st i) = 0) [0..<NPROC] = List.find (\<lambda>i. p_state (proc st i) = UNUSED) [0..<NPROC]"
    by (rule find_cong [OF refl]) (use z in auto)
  then have f: "List.find (\<lambda>i. p_pid (proc st i) = 0) [0..<NPROC] = Some i" using u by simp
  let ?st = "pupd i (\<lambda>p. p\<lparr>p_killed := True, p_state := (if p_state p = SLEEPING then RUNNABLE else p_state p)\<rparr>) st"
  have i: "p_state (proc st i) = UNUSED" using u by (auto simp: find_Some_iff)
  have k: "kill 0 st = (0, ?st)" using f by (simp add: kill_def)
  have s: "(p_state (proc ?st j) = UNUSED) = (p_state (proc st j) = UNUSED)" for j by simp
  have "blank_slots ?st" using ok(2) i by (auto simp: blank_slots_def)
  then obtain r st2 where a: "allocproc tramp forkret ?st = Ok (r, st2)"
    using allocproc_freeproc [of ?st tramp forkret] ok(1) by auto
  have "j = i \<and> killed j st2" if "r = Some j" for j
    using yieldsD [OF allocproc_killed a] that u unfolding killed_def by (simp only: s) simp
  then show ?thesis using k a i by (auto simp: killed_def)
qed

theorem kill_zero_kills_next_process_witness:
  "\<exists>st1. kill 0 example_kernel = (0, st1) \<and> p_state (proc st1 1) = UNUSED \<and> killed 1 st1"
proof -
  have "List.find (\<lambda>i. p_state (proc example_kernel i) = UNUSED) [0..<NPROC] = Some 1"
    by (simp add: example_kernel_def blank_proc_def upt_rec)
  moreover have "pids_ok (table example_kernel)" using booted_inv [OF example_booted] by (simp add: tinv_def)
  ultimately show ?thesis using kill_zero_kills_next_process [OF example_blank, where tramp = 0 and forkret = 0] by blast
qed

end
