(* ===== verification/Xv6_Syscall.thy ===== *)
theory Xv6_Syscall
  imports Xv6_Proc_Pages
begin

unbundle bit_operations_syntax

text \<open>
  Fetching the arguments of system calls (\<^verbatim>\<open>kernel/syscall.c\<close>) and the system calls about processes
  (\<^verbatim>\<open>kernel/sysproc.c\<close>). \<open>me\<close> is the calling process. A system call returns \<open>Some v\<close> with the value for register \<^verbatim>\<open>a0\<close>, or
  \<open>None\<close> if the process is gone; a call that has to wait is \<open>Sleeps\<close>.
\<close>

text \<open>
  What a system call needs beside the state: the disk driver, the UART, the linker symbols \<^verbatim>\<open>trampoline\<close> and \<^verbatim>\<open>forkret\<close>, the
  address of the kernel variable that a call copies out, and the bytes of padding in a \<^verbatim>\<open>struct stat\<close> on the kernel stack.
\<close>

record ('d, 'u) env =
  e_rw :: "'d driver"
  e_uart :: "'u uart_dev"
  e_tramp :: u64
  e_forkret :: u64
  e_var :: u64
  e_pad :: "u8 list"

type_synonym ('d, 'u) sysres = "(u64 option \<times> ('d, 'u) kernel) outcome"

definition sysret :: "int \<Rightarrow> ('d, 'u) kernel \<Rightarrow> ('d, 'u) sysres" where
  "sysret v st = Ok (Some (word_of_int v), st)"

section \<open>Arguments\<close>

definition user_mem :: "nat \<Rightarrow> ('d, 'u) kernel \<Rightarrow> umem" where
  "user_mem me st = uview (p_pagetable (proc st me)) (pool st)"

definition fetchaddr :: "nat \<Rightarrow> u64 \<Rightarrow> ('d, 'u) kernel \<Rightarrow> u64 option" where
  "fetchaddr me a st = (let p = proc st me in
     if p_sz p \<le> a \<or> p_sz p < a + 8 then None
     else map_option (\<lambda>bs. word_of_nat (le_decode bs)) (ucopyin a 8 (user_mem me st)))"

text \<open>The string that \<^verbatim>\<open>fetchstr\<close> leaves in the buffer; its length is the return value.\<close>

definition fetchstr :: "nat \<Rightarrow> u64 \<Rightarrow> nat \<Rightarrow> ('d, 'u) kernel \<Rightarrow> u8 list option" where
  "fetchstr me a mx st = ucopyinstr a mx (user_mem me st)"

definition argraw :: "nat \<Rightarrow> nat \<Rightarrow> ('d, 'u) kernel \<Rightarrow> u64 outcome" where
  "argraw me n st = (if n \<le> 5 then Ok (tf_get me (tf_a0 + 8 * word_of_nat n) st) else Panic ''argraw'')"

definition argint :: "nat \<Rightarrow> nat \<Rightarrow> ('d, 'u) kernel \<Rightarrow> i32 outcome" where
  "argint me n st = obind (argraw me n st) (\<lambda>x. Ok (ucast x))"

definition argaddr :: "nat \<Rightarrow> nat \<Rightarrow> ('d, 'u) kernel \<Rightarrow> u64 outcome" where
  "argaddr me n st = argraw me n st"

definition argstr :: "nat \<Rightarrow> nat \<Rightarrow> nat \<Rightarrow> ('d, 'u) kernel \<Rightarrow> u8 list option outcome" where
  "argstr me n mx st = obind (argaddr me n st) (\<lambda>a. Ok (fetchstr me a mx st))"

section \<open>Calls about processes\<close>

definition sys_exit :: "('d, 'u) env \<Rightarrow> nat \<Rightarrow> ('d, 'u) kernel \<Rightarrow> ('d, 'u) sysres" where
  "sys_exit e me st = obind (argint me 0 st) (\<lambda>n. obind (exit (e_rw e) me n st) (\<lambda>st. Ok (None, st)))"

definition sys_getpid :: "nat \<Rightarrow> ('d, 'u) kernel \<Rightarrow> ('d, 'u) sysres" where
  "sys_getpid me st = sysret (sint (p_pid (proc st me))) st"

definition sys_fork :: "('d, 'u) env \<Rightarrow> nat \<Rightarrow> ('d, 'u) kernel \<Rightarrow> ('d, 'u) sysres" where
  "sys_fork e me st = obind (fork (e_tramp e) (e_forkret e) me st) (\<lambda>(r, st). sysret r st)"

definition sys_wait :: "('d, 'u) env \<Rightarrow> nat \<Rightarrow> ('d, 'u) kernel \<Rightarrow> ('d, 'u) sysres" where
  "sys_wait e me st = obind (argaddr me 0 st) (\<lambda>p. obind (wait (e_var e) me p st) (\<lambda>(r, st). sysret r st))"

definition sys_sbrk :: "nat \<Rightarrow> ('d, 'u) kernel \<Rightarrow> ('d, 'u) sysres" where
  "sys_sbrk me st = obind (argint me 0 st) (\<lambda>n.
     let a = p_sz (proc st me) in
     obind (growproc me (sint n) st) (\<lambda>(r, st). if r < 0 then sysret (-1) st else Ok (Some a, st)))"

text \<open>The test at the head of the loop of \<^verbatim>\<open>sys_sleep\<close>, with the lock of the clock held; \<open>Sleeps\<close> until the next tick.\<close>

definition sleep_check :: "nat \<Rightarrow> u32 \<Rightarrow> u32 \<Rightarrow> ('d, 'u) kernel \<Rightarrow> ('d, 'u) sysres" where
  "sleep_check me ticks0 n st = (if ticks st - ticks0 < n
     then if killed me st then sysret (-1) st else Sleeps else sysret 0 st)"

definition sys_sleep :: "nat \<Rightarrow> ('d, 'u) kernel \<Rightarrow> ('d, 'u) sysres" where
  "sys_sleep me st = obind (argint me 0 st) (\<lambda>n. sleep_check me (ticks st) (if sint n < 0 then 0 else n) st)"

definition sys_kill :: "nat \<Rightarrow> ('d, 'u) kernel \<Rightarrow> ('d, 'u) sysres" where
  "sys_kill me st = obind (argint me 0 st) (\<lambda>pd. case kill pd st of (r, st) \<Rightarrow> sysret r st)"

definition sys_uptime :: "('d, 'u) kernel \<Rightarrow> ('d, 'u) sysres" where
  "sys_uptime st = Ok (Some (ucast (ticks st)), st)"

definition sys_trace :: "nat \<Rightarrow> ('d, 'u) kernel \<Rightarrow> ('d, 'u) sysres" where
  "sys_trace me st = obind (argint me 0 st) (\<lambda>mask. sysret 0 (pupd me (p_trace_mask_update (\<lambda>_. mask)) st))"

definition sysinfo_bytes :: "u64 \<Rightarrow> u64 \<Rightarrow> u8 list" where
  "sysinfo_bytes freemem nproc = le_encode 8 (unat freemem) @ le_encode 8 (unat nproc)"

definition sys_sysinfo :: "('d, 'u) env \<Rightarrow> nat \<Rightarrow> ('d, 'u) kernel \<Rightarrow> ('d, 'u) sysres" where
  "sys_sysinfo e me st = obind (argaddr me 0 st) (\<lambda>dst.
     obind (of_loop (get_freemem (pool st))) (\<lambda>fm.
     obind (on_mem_val (copyout_var (e_var e) (p_pagetable (proc st me)) dst (sysinfo_bytes (scast fm) (word_of_int (get_nproc st)))) st) (\<lambda>(r, st).
       if r = -1 then sysret (-1) st else sysret 0 st)))"

end
