(* ===== verification/Xv6_Sysfile.thy ===== *)
theory Xv6_Sysfile
  imports Xv6_Syscall
begin

text \<open>
  The system calls about files (\<^verbatim>\<open>kernel/sysfile.c\<close>, except \<^verbatim>\<open>sys_exec\<close>). The parts between \<^verbatim>\<open>begin_op\<close> and
  \<^verbatim>\<open>end_op\<close> that only touch the file system are operations on it; \<open>me\<close> is there the number of the calling process and \<open>cwd\<close>
  its current directory, which every process that makes system calls has.
\<close>

abbreviation (input) MAXPATH :: nat where "MAXPATH \<equiv> 128"
abbreviation (input) O_RDONLY :: i32 where "O_RDONLY \<equiv> 0"
abbreviation (input) O_WRONLY :: i32 where "O_WRONLY \<equiv> 1"
abbreviation (input) O_RDWR :: i32 where "O_RDWR \<equiv> 2"
abbreviation (input) O_CREATE :: i32 where "O_CREATE \<equiv> 0x200"
abbreviation (input) O_TRUNC :: i32 where "O_TRUNC \<equiv> 0x400"

section \<open>File descriptors\<close>

definition argfd :: "nat \<Rightarrow> nat \<Rightarrow> ('d, 'u) kernel \<Rightarrow> (nat \<times> nat) option outcome" where
  "argfd me n st = obind (argint me n st) (\<lambda>fd.
     if sint fd < 0 \<or> int NOFILE \<le> sint fd then Ok None
     else Ok (map_option (\<lambda>f. (unat fd, f)) (p_ofile (proc st me) ! unat fd)))"

definition set_fd :: "nat \<Rightarrow> nat \<Rightarrow> nat option \<Rightarrow> ('d, 'u) kernel \<Rightarrow> ('d, 'u) kernel" where
  "set_fd me fd f st = pupd me (\<lambda>p. p\<lparr>p_ofile := (p_ofile p)[fd := f]\<rparr>) st"

definition fdalloc :: "nat \<Rightarrow> nat \<Rightarrow> ('d, 'u) kernel \<Rightarrow> nat option \<times> ('d, 'u) kernel" where
  "fdalloc me f st = (case List.find (\<lambda>fd. p_ofile (proc st me) ! fd = None) [0..<NOFILE] of
     Some fd \<Rightarrow> (Some fd, set_fd me fd (Some f) st) | None \<Rightarrow> (None, st))"

definition sys_dup :: "nat \<Rightarrow> ('d, 'u) kernel \<Rightarrow> ('d, 'u) sysres" where
  "sys_dup me st = obind (argfd me 0 st) (\<lambda>r. case r of
     None \<Rightarrow> sysret (-1) st
   | Some (_, f) \<Rightarrow> (case fdalloc me f st of
       (None, st) \<Rightarrow> sysret (-1) st
     | (Some fd, st) \<Rightarrow> obind (filedup f st) (\<lambda>(_, st). sysret (int fd) st)))"

text \<open>
  Bringing the bytes that a call stored at \<open>va\<close> in the user's view of memory back into the pages of the process.
\<close>

definition poke :: "u64 \<Rightarrow> umem \<Rightarrow> u64 \<Rightarrow> kmem \<Rightarrow> kmem outcome" where
  "poke pt um va k = (case um va of None \<Rightarrow> Ok k
   | Some b \<Rightarrow> obind (walkaddr pt (PGROUNDDOWN va) k) (\<lambda>pa. if pa = 0 then Ok k
       else Ok (k\<lparr>mem := (mem k)(pa + (va - PGROUNDDOWN va) := b)\<rparr>)))"

definition put_user :: "nat \<Rightarrow> u64 \<Rightarrow> nat \<Rightarrow> umem \<Rightarrow> ('d, 'u) kernel \<Rightarrow> ('d, 'u) kernel outcome" where
  "put_user me va n um st = on_mem (ofold (\<lambda>i. poke (p_pagetable (proc st me)) um (va + word_of_nat i)) [0..<n]) st"

definition sys_read :: "('d, 'u) env \<Rightarrow> nat \<Rightarrow> ('d, 'u) kernel \<Rightarrow> ('d, 'u) sysres" where
  "sys_read e me st = obind (argaddr me 1 st) (\<lambda>p. obind (argint me 2 st) (\<lambda>n. obind (argfd me 0 st) (\<lambda>r. case r of
     None \<Rightarrow> sysret (-1) st
   | Some (_, f) \<Rightarrow> obind (fileread (e_rw e) (p_pid (proc st me)) (killed me st) f p (sint n) (user_mem me st) st) (\<lambda>(v, um, st).
       obind (put_user me p (nat (sint n)) um st) (\<lambda>st. sysret v st)))))"

definition sys_write :: "('d, 'u) env \<Rightarrow> nat \<Rightarrow> ('d, 'u) kernel \<Rightarrow> ('d, 'u) sysres" where
  "sys_write e me st = obind (argaddr me 1 st) (\<lambda>p. obind (argint me 2 st) (\<lambda>n. obind (argfd me 0 st) (\<lambda>r. case r of
     None \<Rightarrow> sysret (-1) st
   | Some (_, f) \<Rightarrow> obind (filewrite (e_rw e) (e_uart e) (p_pid (proc st me)) (\<lambda>_. killed me st) f p (sint n) (user_mem me st) st) (\<lambda>(v, st).
       sysret v st))))"

definition sys_close :: "('d, 'u) env \<Rightarrow> nat \<Rightarrow> ('d, 'u) kernel \<Rightarrow> ('d, 'u) sysres" where
  "sys_close e me st = obind (argfd me 0 st) (\<lambda>r. case r of
     None \<Rightarrow> sysret (-1) st
   | Some (fd, f) \<Rightarrow> obind (fileclose (e_rw e) (p_pid (proc st me)) f (set_fd me fd None st)) (\<lambda>st. sysret 0 st))"

definition sys_fstat :: "('d, 'u) env \<Rightarrow> nat \<Rightarrow> ('d, 'u) kernel \<Rightarrow> ('d, 'u) sysres" where
  "sys_fstat e me st = obind (argaddr me 1 st) (\<lambda>p. obind (argfd me 0 st) (\<lambda>r. case r of
     None \<Rightarrow> sysret (-1) st
   | Some (_, f) \<Rightarrow> obind (filestat (e_rw e) (p_pid (proc st me)) (e_pad e) f p (user_mem me st) st) (\<lambda>(v, um, st).
       obind (put_user me p 24 um st) (\<lambda>st. sysret v st))))"

section \<open>Directories\<close>

text \<open>Inside a transaction: run \<open>op\<close> with the number and the current directory of the caller.\<close>

definition with_cwd :: "nat \<Rightarrow> (i32 \<Rightarrow> nat \<Rightarrow> 'd fs \<Rightarrow> ('a \<times> 'd fs) outcome) \<Rightarrow> ('d, 'u) kernel \<Rightarrow> ('a \<times> ('d, 'u) kernel) outcome" where
  "with_cwd me op st = (case p_cwd (proc st me) of None \<Rightarrow> Undefined
     | Some cwd \<Rightarrow> on_fs_val (op (p_pid (proc st me)) cwd) st)"

definition begin_tx :: "('d, 'u) kernel \<Rightarrow> ('d, 'u) kernel outcome" where
  "begin_tx st = on_fs fs_begin_op st"

definition end_tx :: "('d, 'u) env \<Rightarrow> nat \<Rightarrow> ('d, 'u) kernel \<Rightarrow> ('d, 'u) kernel outcome" where
  "end_tx e me st = on_fs (fs_end_op (e_rw e) (p_pid (proc st me))) st"

definition set_nlink :: "'d driver \<Rightarrow> i32 \<Rightarrow> nat \<Rightarrow> (u16 \<Rightarrow> u16) \<Rightarrow> 'd fs \<Rightarrow> 'd fs outcome" where
  "set_nlink rw me ip f s = iupdate rw me ip (iupd ip (\<lambda>x. x\<lparr>inlink := f (inlink x)\<rparr>) s)"

definition link_bad :: "'d driver \<Rightarrow> i32 \<Rightarrow> nat \<Rightarrow> 'd fs \<Rightarrow> (int \<times> 'd fs) outcome" where
  "link_bad rw me ip s = obind (ilock rw me ip s) (\<lambda>s. obind (set_nlink rw me ip (\<lambda>n. n - 1) s) (\<lambda>s.
     obind (iunlockput rw me ip s) (\<lambda>s. Ok (-1, s))))"

definition link_fs :: "'d driver \<Rightarrow> u8 list \<Rightarrow> u8 list \<Rightarrow> i32 \<Rightarrow> nat \<Rightarrow> 'd fs \<Rightarrow> (int \<times> 'd fs) outcome" where
  "link_fs rw old new me cwd s = obind (namei rw me cwd old s) (\<lambda>(r, s). case r of
     None \<Rightarrow> Ok (-1, s)
   | Some ip \<Rightarrow> obind (ilock rw me ip s) (\<lambda>s.
       if itype (itab s ip) = T_DIR then obind (iunlockput rw me ip s) (\<lambda>s. Ok (-1, s))
       else obind (set_nlink rw me ip (\<lambda>n. n + 1) s) (\<lambda>s. obind (iunlock me ip s) (\<lambda>s.
         obind (nameiparent rw me cwd new (replicate DIRSIZ 0) s) (\<lambda>(r, name, s). case r of
           None \<Rightarrow> link_bad rw me ip s
         | Some dp \<Rightarrow> obind (ilock rw me dp s) (\<lambda>s.
             obind (if idev (itab s dp) \<noteq> idev (itab s ip) then Ok (-1, s) else dirlink rw me dp name (inum (itab s ip)) s) (\<lambda>(v, s).
             if v < 0 then obind (iunlockput rw me dp s) (link_bad rw me ip)
             else obind (iunlockput rw me dp s) (\<lambda>s. obind (iput rw me ip s) (\<lambda>s. Ok (0, s))))))))))"

definition sys_link :: "('d, 'u) env \<Rightarrow> nat \<Rightarrow> ('d, 'u) kernel \<Rightarrow> ('d, 'u) sysres" where
  "sys_link e me st = obind (argstr me 0 MAXPATH st) (\<lambda>old. obind (argstr me 1 MAXPATH st) (\<lambda>new. case (old, new) of
     (Some old, Some new) \<Rightarrow> obind (begin_tx st) (\<lambda>st. obind (with_cwd me (link_fs (e_rw e) old new) st) (\<lambda>(v, st).
       obind (end_tx e me st) (\<lambda>st. sysret v st)))
   | _ \<Rightarrow> sysret (-1) st))"

definition isdirempty :: "'d driver \<Rightarrow> i32 \<Rightarrow> nat \<Rightarrow> 'd fs \<Rightarrow> (bool \<times> 'd fs) outcome" where
  "isdirempty rw me dp s = obind (osearch (\<lambda>off s. obind (read_dirent rw me dp ''isdirempty: readi'' off s) (\<lambda>(de, s).
       Ok (if get16 de 0 \<noteq> 0 then Some () else None, s)))
     (filter (\<lambda>off. 32 \<le> off) (steps 16 (unat (isize (itab s dp))))) s) (\<lambda>(r, s). Ok (r = None, s))"

definition unlink_bad :: "'d driver \<Rightarrow> i32 \<Rightarrow> nat \<Rightarrow> 'd fs \<Rightarrow> (int \<times> 'd fs) outcome" where
  "unlink_bad rw me dp s = obind (iunlockput rw me dp s) (\<lambda>s. Ok (-1, s))"

definition unlink_entry :: "'d driver \<Rightarrow> i32 \<Rightarrow> nat \<Rightarrow> nat \<Rightarrow> nat \<Rightarrow> 'd fs \<Rightarrow> (int \<times> 'd fs) outcome" where
  "unlink_entry rw me dp ip off s = obind (writei rw me dp False 0 (word_of_nat off) 16 (array_mem (replicate 16 0)) s) (\<lambda>(v, s).
     if v \<noteq> 16 then Panic ''unlink: writei''
     else obind (if itype (itab s ip) = T_DIR then set_nlink rw me dp (\<lambda>n. n - 1) s else Ok s) (\<lambda>s.
       obind (iunlockput rw me dp s) (\<lambda>s.
       obind (set_nlink rw me ip (\<lambda>n. n - 1) s) (\<lambda>s.
       obind (iunlockput rw me ip s) (\<lambda>s. Ok (0, s))))))"

definition unlink_fs :: "'d driver \<Rightarrow> u8 list \<Rightarrow> i32 \<Rightarrow> nat \<Rightarrow> 'd fs \<Rightarrow> (int \<times> 'd fs) outcome" where
  "unlink_fs rw path me cwd s = obind (nameiparent rw me cwd path (replicate DIRSIZ 0) s) (\<lambda>(r, name, s). case r of
     None \<Rightarrow> Ok (-1, s)
   | Some dp \<Rightarrow> obind (ilock rw me dp s) (\<lambda>s.
       if namecmp name [46, 0] = 0 \<or> namecmp name [46, 46, 0] = 0 then unlink_bad rw me dp s
       else obind (dirlookup rw me dp name s) (\<lambda>(r, s). case r of
         None \<Rightarrow> unlink_bad rw me dp s
       | Some (ip, off) \<Rightarrow> obind (ilock rw me ip s) (\<lambda>s.
           if sint (inlink (itab s ip)) < 1 then Panic ''unlink: nlink < 1''
           else obind (if itype (itab s ip) = T_DIR then isdirempty rw me ip s else Ok (True, s)) (\<lambda>(empty, s).
             if \<not> empty then obind (iunlockput rw me ip s) (unlink_bad rw me dp)
             else unlink_entry rw me dp ip off s)))))"

definition sys_unlink :: "('d, 'u) env \<Rightarrow> nat \<Rightarrow> ('d, 'u) kernel \<Rightarrow> ('d, 'u) sysres" where
  "sys_unlink e me st = obind (argstr me 0 MAXPATH st) (\<lambda>path. case path of
     None \<Rightarrow> sysret (-1) st
   | Some path \<Rightarrow> obind (begin_tx st) (\<lambda>st. obind (with_cwd me (unlink_fs (e_rw e) path) st) (\<lambda>(v, st).
       obind (end_tx e me st) (\<lambda>st. sysret v st))))"

definition create_fail :: "'d driver \<Rightarrow> i32 \<Rightarrow> nat \<Rightarrow> nat \<Rightarrow> 'd fs \<Rightarrow> (nat option \<times> 'd fs) outcome" where
  "create_fail rw me dp ip s = obind (set_nlink rw me ip (\<lambda>_. 0) s) (\<lambda>s. obind (iunlockput rw me ip s) (\<lambda>s.
     obind (iunlockput rw me dp s) (\<lambda>s. Ok (None, s))))"

definition create_new :: "'d driver \<Rightarrow> i32 \<Rightarrow> nat \<Rightarrow> u8 list \<Rightarrow> u16 \<Rightarrow> u16 \<Rightarrow> u16 \<Rightarrow> nat \<Rightarrow> 'd fs \<Rightarrow> (nat option \<times> 'd fs) outcome" where
  "create_new rw me dp name ty major minor ip s = obind (ilock rw me ip s) (\<lambda>s.
     obind (iupdate rw me ip (iupd ip (\<lambda>x. x\<lparr>imajor := major, iminor := minor, inlink := 1\<rparr>) s)) (\<lambda>s.
     obind (if ty = T_DIR then obind (dirlink rw me ip [46, 0] (inum (itab s ip)) s) (\<lambda>(v, s).
         if v < 0 then Ok (-1, s) else dirlink rw me ip [46, 46, 0] (inum (itab s dp)) s) else Ok (0, s)) (\<lambda>(v, s).
     if v < 0 then create_fail rw me dp ip s
     else obind (dirlink rw me dp name (inum (itab s ip)) s) (\<lambda>(v, s).
       if v < 0 then create_fail rw me dp ip s
       else obind (if ty = T_DIR then set_nlink rw me dp (\<lambda>n. n + 1) s else Ok s) (\<lambda>s.
         obind (iunlockput rw me dp s) (\<lambda>s. Ok (Some ip, s)))))))"

definition create :: "'d driver \<Rightarrow> u8 list \<Rightarrow> u16 \<Rightarrow> u16 \<Rightarrow> u16 \<Rightarrow> i32 \<Rightarrow> nat \<Rightarrow> 'd fs \<Rightarrow> (nat option \<times> 'd fs) outcome" where
  "create rw path ty major minor me cwd s = obind (nameiparent rw me cwd path (replicate DIRSIZ 0) s) (\<lambda>(r, name, s). case r of
     None \<Rightarrow> Ok (None, s)
   | Some dp \<Rightarrow> obind (ilock rw me dp s) (\<lambda>s. obind (dirlookup rw me dp name s) (\<lambda>(r, s). case r of
       Some (ip, _) \<Rightarrow> obind (iunlockput rw me dp s) (\<lambda>s. obind (ilock rw me ip s) (\<lambda>s.
         if ty = T_FILE \<and> (itype (itab s ip) = T_FILE \<or> itype (itab s ip) = T_DEVICE) then Ok (Some ip, s)
         else obind (iunlockput rw me ip s) (\<lambda>s. Ok (None, s))))
     | None \<Rightarrow> obind (ialloc rw me (idev (itab s dp)) ty s) (\<lambda>(r, s). case r of
         None \<Rightarrow> obind (iunlockput rw me dp s) (\<lambda>s. Ok (None, s))
       | Some ip \<Rightarrow> create_new rw me dp name ty major minor ip s))))"

section \<open>Opening\<close>

definition open_inode :: "'d driver \<Rightarrow> u8 list \<Rightarrow> i32 \<Rightarrow> i32 \<Rightarrow> nat \<Rightarrow> 'd fs \<Rightarrow> (nat option \<times> 'd fs) outcome" where
  "open_inode rw path omode me cwd s =
     obind (if omode AND O_CREATE \<noteq> 0 then create rw path T_FILE 0 0 me cwd s
       else obind (namei rw me cwd path s) (\<lambda>(r, s). case r of
         None \<Rightarrow> Ok (None, s)
       | Some ip \<Rightarrow> obind (ilock rw me ip s) (\<lambda>s.
           if itype (itab s ip) = T_DIR \<and> omode \<noteq> O_RDONLY then obind (iunlockput rw me ip s) (\<lambda>s. Ok (None, s))
           else Ok (Some ip, s)))) (\<lambda>(r, s). case r of
       None \<Rightarrow> Ok (None, s)
     | Some ip \<Rightarrow> if itype (itab s ip) = T_DEVICE \<and> (sint (imajor (itab s ip)) < 0 \<or> NDEV \<le> sint (imajor (itab s ip)))
         then obind (iunlockput rw me ip s) (\<lambda>s. Ok (None, s)) else Ok (Some ip, s))"

definition open_file :: "i32 \<Rightarrow> nat \<Rightarrow> inode \<Rightarrow> struct_file \<Rightarrow> struct_file" where
  "open_file omode ip x f = (let f = (if itype x = T_DEVICE then f\<lparr>ftype := FD_DEVICE, fmajor := imajor x\<rparr>
       else f\<lparr>ftype := FD_INODE, foff := 0\<rparr>)
     in f\<lparr>fip := ip, freadable := (omode AND O_WRONLY = 0), fwritable := (omode AND O_WRONLY \<noteq> 0 \<or> omode AND O_RDWR \<noteq> 0)\<rparr>)"

definition open_fail :: "('d, 'u) env \<Rightarrow> nat \<Rightarrow> nat \<Rightarrow> ('d, 'u) kernel \<Rightarrow> ('d, 'u) sysres" where
  "open_fail e me ip st = obind (on_fs (iunlockput (e_rw e) (p_pid (proc st me)) ip) st) (\<lambda>st.
     obind (end_tx e me st) (\<lambda>st. sysret (-1) st))"

definition sys_open :: "('d, 'u) env \<Rightarrow> nat \<Rightarrow> ('d, 'u) kernel \<Rightarrow> ('d, 'u) sysres" where
  "sys_open e me st = obind (argint me 1 st) (\<lambda>omode. obind (argstr me 0 MAXPATH st) (\<lambda>path. case path of
     None \<Rightarrow> sysret (-1) st
   | Some path \<Rightarrow> obind (begin_tx st) (\<lambda>st. obind (with_cwd me (open_inode (e_rw e) path omode) st) (\<lambda>(r, st). case r of
       None \<Rightarrow> obind (end_tx e me st) (\<lambda>st. sysret (-1) st)
     | Some ip \<Rightarrow> (case filealloc st of
         (None, st) \<Rightarrow> open_fail e me ip st
       | (Some f, st) \<Rightarrow> (case fdalloc me f st of
           (None, st) \<Rightarrow> obind (fileclose (e_rw e) (p_pid (proc st me)) f st) (open_fail e me ip)
         | (Some fd, st) \<Rightarrow> let x = itab (fsys st) ip; st = fupd f (open_file omode ip x) st in
             obind (if omode AND O_TRUNC \<noteq> 0 \<and> itype x = T_FILE then on_fs (itrunc (e_rw e) (p_pid (proc st me)) ip) st else Ok st) (\<lambda>st.
             obind (on_fs (iunlock (p_pid (proc st me)) ip) st) (\<lambda>st.
             obind (end_tx e me st) (\<lambda>st. sysret (int fd) st)))))))))"

definition make_node :: "('d, 'u) env \<Rightarrow> nat \<Rightarrow> u8 list option \<Rightarrow> u16 \<Rightarrow> u16 \<Rightarrow> u16 \<Rightarrow> ('d, 'u) kernel \<Rightarrow> ('d, 'u) sysres" where
  "make_node e me path ty major minor st =
     obind (case path of None \<Rightarrow> Ok (None, st) | Some path \<Rightarrow> with_cwd me (create (e_rw e) path ty major minor) st) (\<lambda>(r, st). case r of
       None \<Rightarrow> obind (end_tx e me st) (\<lambda>st. sysret (-1) st)
     | Some ip \<Rightarrow> obind (on_fs (iunlockput (e_rw e) (p_pid (proc st me)) ip) st) (\<lambda>st. obind (end_tx e me st) (\<lambda>st. sysret 0 st)))"

definition sys_mkdir :: "('d, 'u) env \<Rightarrow> nat \<Rightarrow> ('d, 'u) kernel \<Rightarrow> ('d, 'u) sysres" where
  "sys_mkdir e me st = obind (begin_tx st) (\<lambda>st. obind (argstr me 0 MAXPATH st) (\<lambda>path. make_node e me path T_DIR 0 0 st))"

definition sys_mknod :: "('d, 'u) env \<Rightarrow> nat \<Rightarrow> ('d, 'u) kernel \<Rightarrow> ('d, 'u) sysres" where
  "sys_mknod e me st = obind (begin_tx st) (\<lambda>st. obind (argint me 1 st) (\<lambda>major. obind (argint me 2 st) (\<lambda>minor.
     obind (argstr me 0 MAXPATH st) (\<lambda>path. make_node e me path T_DEVICE (ucast major) (ucast minor) st))))"

definition sys_chdir :: "('d, 'u) env \<Rightarrow> nat \<Rightarrow> ('d, 'u) kernel \<Rightarrow> ('d, 'u) sysres" where
  "sys_chdir e me st = obind (begin_tx st) (\<lambda>st. obind (argstr me 0 MAXPATH st) (\<lambda>path.
     obind (case path of None \<Rightarrow> Ok (None, st) | Some path \<Rightarrow> with_cwd me (\<lambda>pd cwd. namei (e_rw e) pd cwd path) st) (\<lambda>(r, st). case r of
       None \<Rightarrow> obind (end_tx e me st) (\<lambda>st. sysret (-1) st)
     | Some ip \<Rightarrow> obind (on_fs (ilock (e_rw e) (p_pid (proc st me)) ip) st) (\<lambda>st.
         if itype (itab (fsys st) ip) \<noteq> T_DIR then open_fail e me ip st
         else obind (on_fs (iunlock (p_pid (proc st me)) ip) st) (\<lambda>st.
           obind (with_cwd me (\<lambda>pd cwd s. obind (iput (e_rw e) pd cwd s) (\<lambda>s. Ok ((), s))) st) (\<lambda>(_, st).
           obind (end_tx e me st) (\<lambda>st. sysret 0 (pupd me (p_cwd_update (\<lambda>_. Some ip)) st))))))))"

section \<open>Pipes\<close>

definition pipe_undo :: "('d, 'u) env \<Rightarrow> nat \<Rightarrow> nat \<Rightarrow> nat \<Rightarrow> ('d, 'u) kernel \<Rightarrow> ('d, 'u) sysres" where
  "pipe_undo e me rfile wfile st = obind (fileclose (e_rw e) (p_pid (proc st me)) rfile st) (\<lambda>st.
     obind (fileclose (e_rw e) (p_pid (proc st me)) wfile st) (\<lambda>st. sysret (-1) st))"

definition sys_pipe :: "('d, 'u) env \<Rightarrow> nat \<Rightarrow> ('d, 'u) kernel \<Rightarrow> ('d, 'u) sysres" where
  "sys_pipe e me st = obind (argaddr me 0 st) (\<lambda>fdarray. obind (pipealloc (e_rw e) (p_pid (proc st me)) st) (\<lambda>(r, st). case r of
     None \<Rightarrow> sysret (-1) st
   | Some (rfile, wfile) \<Rightarrow> (case fdalloc me rfile st of
       (None, st) \<Rightarrow> pipe_undo e me rfile wfile st
     | (Some fd0, st) \<Rightarrow> (case fdalloc me wfile st of
         (None, st) \<Rightarrow> pipe_undo e me rfile wfile (set_fd me fd0 None st)
       | (Some fd1, st) \<Rightarrow> let pt = p_pagetable (proc st me) in
           obind (on_mem_val (copyout_var (e_var e) pt fdarray (le_encode 4 fd0)) st) (\<lambda>(v, st).
           obind (if sint v < 0 then Ok (v, st) else on_mem_val (copyout_var (e_var e) pt (fdarray + 4) (le_encode 4 fd1)) st) (\<lambda>(v, st).
             if sint v < 0 then pipe_undo e me rfile wfile (set_fd me fd1 None (set_fd me fd0 None st))
             else sysret 0 st))))))"

end
