(* ===== verification/Xv6_Exec.thy ===== *)
theory Xv6_Exec
  imports Xv6_Sysfile
begin

text \<open>
  Running a program: \<^verbatim>\<open>exec\<close> and \<^verbatim>\<open>loadseg\<close> (\<^verbatim>\<open>kernel/exec.c\<close>, \<^verbatim>\<open>kernel/elf.h\<close>) and \<^verbatim>\<open>sys_exec\<close>
  (\<^verbatim>\<open>kernel/sysfile.c\<close>). The headers of the file are read into variables of the kernel, the segments into the pages of the new
  address space.
\<close>

abbreviation (input) MAXARG :: nat where "MAXARG \<equiv> 32"
abbreviation (input) ELF_MAGIC :: u32 where "ELF_MAGIC \<equiv> 0x464C457F"
abbreviation (input) ELF_PROG_LOAD :: u32 where "ELF_PROG_LOAD \<equiv> 1"

section \<open>Headers\<close>

record elfhdr =
  e_magic :: u32
  e_entry :: u64
  e_phoff :: u64
  e_phnum :: u16

definition decode_elfhdr :: "u8 list \<Rightarrow> elfhdr" where
  "decode_elfhdr d = \<lparr>e_magic = get32 d 0, e_entry = word_of_nat (get_le 8 d 24), e_phoff = word_of_nat (get_le 8 d 32), e_phnum = get16 d 56\<rparr>"

record proghdr =
  ph_type :: u32
  ph_flags :: u32
  ph_off :: u64
  ph_vaddr :: u64
  ph_filesz :: u64
  ph_memsz :: u64

definition decode_proghdr :: "u8 list \<Rightarrow> proghdr" where
  "decode_proghdr d = \<lparr>ph_type = get32 d 0, ph_flags = get32 d 4, ph_off = word_of_nat (get_le 8 d 8), ph_vaddr = word_of_nat (get_le 8 d 16),
     ph_filesz = word_of_nat (get_le 8 d 32), ph_memsz = word_of_nat (get_le 8 d 40)\<rparr>"

definition flags2perm :: "u32 \<Rightarrow> u64" where
  "flags2perm fl = (let perm = (if fl AND 1 \<noteq> 0 then PTE_X else 0) in if fl AND 2 \<noteq> 0 then perm OR PTE_W else perm)"

text \<open>\<^verbatim>\<open>readi\<close> into a variable of \<open>n\<close> bytes.\<close>

definition read_var :: "'d driver \<Rightarrow> i32 \<Rightarrow> nat \<Rightarrow> u32 \<Rightarrow> nat \<Rightarrow> 'd fs \<Rightarrow> (u8 list option \<times> 'd fs) outcome" where
  "read_var rw pd ip off n s = obind (readi rw pd ip False 0 off (word_of_nat n) Map.empty s) (\<lambda>(r, um, s).
     Ok (if r = int n then Some (kbytes_of 0 n um) else None, s))"

section \<open>Loading\<close>

text \<open>One page of a segment: \<^verbatim>\<open>readi\<close> to a physical address; the \<open>bool\<close> is whether all bytes arrived.\<close>

definition load_page :: "'d driver \<Rightarrow> i32 \<Rightarrow> nat \<Rightarrow> u64 \<Rightarrow> u32 \<Rightarrow> u32 \<Rightarrow> ('d, 'u) kernel \<Rightarrow> (bool \<times> ('d, 'u) kernel) outcome" where
  "load_page rw pd ip pa off n st = obind (readi rw pd ip False pa off n (\<lambda>a. Some (mem (pool st) a)) (fsys st)) (\<lambda>(r, um, s).
     Ok (r = int (unat n), st\<lparr>fsys := s, pool := (pool st)\<lparr>mem := (\<lambda>a. case um a of Some b \<Rightarrow> b | None \<Rightarrow> mem (pool st) a)\<rparr>\<rparr>))"

primrec loadseg_loop :: "'d driver \<Rightarrow> i32 \<Rightarrow> u64 \<Rightarrow> u64 \<Rightarrow> nat \<Rightarrow> u32 \<Rightarrow> u32 \<Rightarrow> nat list \<Rightarrow> ('d, 'u) kernel \<Rightarrow> (bool \<times> ('d, 'u) kernel) outcome" where
  "loadseg_loop rw pd pt va ip off sz [] st = Ok (True, st)"
| "loadseg_loop rw pd pt va ip off sz (i # is) st = obind (walkaddr pt (va + word_of_nat i) (pool st)) (\<lambda>pa.
     if pa = 0 then Panic ''loadseg: address should exist''
     else let n = (if sz - word_of_nat i < 4096 then sz - word_of_nat i else 4096) in
       obind (load_page rw pd ip pa (off + word_of_nat i) n st) (\<lambda>(ok, st).
         if ok then loadseg_loop rw pd pt va ip off sz is st else Ok (False, st)))"

definition loadseg :: "'d driver \<Rightarrow> i32 \<Rightarrow> u64 \<Rightarrow> u64 \<Rightarrow> nat \<Rightarrow> u32 \<Rightarrow> u32 \<Rightarrow> ('d, 'u) kernel \<Rightarrow> (bool \<times> ('d, 'u) kernel) outcome" where
  "loadseg rw pd pt va ip off sz st = loadseg_loop rw pd pt va ip off sz (steps 4096 (unat sz)) st"

text \<open>One turn of the loop over the program headers, from a memory size \<open>sz\<close>; the \<open>bool\<close> is false where the code goes to \<^verbatim>\<open>bad\<close>.\<close>

definition load_segment :: "'d driver \<Rightarrow> i32 \<Rightarrow> u64 \<Rightarrow> nat \<Rightarrow> proghdr \<Rightarrow> u64 \<Rightarrow> ('d, 'u) kernel \<Rightarrow> (bool \<times> u64 \<times> ('d, 'u) kernel) outcome" where
  "load_segment rw pd pt ip ph sz st = (if ph_type ph \<noteq> ELF_PROG_LOAD then Ok (True, sz, st)
     else if ph_memsz ph < ph_filesz ph \<or> ph_vaddr ph + ph_memsz ph < ph_vaddr ph \<or> ph_vaddr ph mod PGSIZE \<noteq> 0 then Ok (False, sz, st)
     else obind (on_mem_val (uvmalloc pt sz (ph_vaddr ph + ph_memsz ph) (flags2perm (ph_flags ph))) st) (\<lambda>(sz1, st).
       if sz1 = 0 then Ok (False, sz, st)
       else obind (loadseg rw pd pt (ph_vaddr ph) ip (ucast (ph_off ph)) (ucast (ph_filesz ph)) st) (\<lambda>(ok, st). Ok (ok, sz1, st))))"

primrec load_segments :: "'d driver \<Rightarrow> i32 \<Rightarrow> u64 \<Rightarrow> nat \<Rightarrow> nat \<Rightarrow> u32 \<Rightarrow> u64 \<Rightarrow> ('d, 'u) kernel \<Rightarrow> (bool \<times> u64 \<times> ('d, 'u) kernel) outcome" where
  "load_segments rw pd pt ip 0 off sz st = Ok (True, sz, st)"
| "load_segments rw pd pt ip (Suc n) off sz st = obind (on_fs_val (read_var rw pd ip off 56) st) (\<lambda>(d, st). case d of
     None \<Rightarrow> Ok (False, sz, st)
   | Some d \<Rightarrow> obind (load_segment rw pd pt ip (decode_proghdr d) sz st) (\<lambda>(ok, sz, st).
       if ok then load_segments rw pd pt ip n (off + 56) sz st else Ok (False, sz, st)))"

section \<open>The stack\<close>

text \<open>Pushing the argument strings at the addresses \<open>as\<close>; \<open>None\<close> where the code goes to \<^verbatim>\<open>bad\<close>.\<close>

primrec push_args :: "u64 \<Rightarrow> u64 \<Rightarrow> u64 list \<Rightarrow> u64 \<Rightarrow> u64 list \<Rightarrow> kmem \<Rightarrow> ((u64 \<times> u64 list) option \<times> kmem) outcome" where
  "push_args pt base [] sp ustack k = Ok (Some (sp, ustack), k)"
| "push_args pt base (a # as) sp ustack k = (if MAXARG \<le> length ustack then Ok (None, k)
     else obind (of_loop (strlen (mem k) a)) (\<lambda>len.
       let sp = sp - (scast len + 1); sp = sp - sp mod 16 in
       if sp < base then Ok (None, k)
       else obind (copyout pt sp a (scast len + 1) k) (\<lambda>(r, k).
         if sint r < 0 then Ok (None, k) else push_args pt base as sp (ustack @ [sp]) k)))"

definition array64 :: "u64 list \<Rightarrow> u8 list" where
  "array64 ws = concat (map (\<lambda>w. le_encode 8 (unat w)) ws)"

definition push_argv :: "u64 \<Rightarrow> u64 \<Rightarrow> u64 \<Rightarrow> u64 list \<Rightarrow> u64 \<Rightarrow> kmem \<Rightarrow> ((nat \<times> u64) option \<times> kmem) outcome" where
  "push_argv var pt base as sp k = obind (push_args pt base as sp [] k) (\<lambda>(r, k). case r of
     None \<Rightarrow> Ok (None, k)
   | Some (sp, ustack) \<Rightarrow>
       let argc = length ustack; sp = sp - (word_of_nat argc + 1) * 8; sp = sp - sp mod 16 in
       if sp < base then Ok (None, k)
       else obind (copyout_var var pt sp (array64 (ustack @ [0])) k) (\<lambda>(v, k).
         Ok (if sint v < 0 then None else Some (argc, sp), k)))"

section \<open>exec\<close>

text \<open>The last element of a path.\<close>

definition path_last :: "u8 list \<Rightarrow> u8 list" where
  "path_last path = rev (takeWhile (\<lambda>c. c \<noteq> 47) (rev path))"

text \<open>The label \<^verbatim>\<open>bad\<close>: \<open>pt\<close> is 0 before the page table is created, and \<open>ip\<close> is \<open>None\<close> once the file is closed.\<close>

definition exec_bad :: "('d, 'u) env \<Rightarrow> nat \<Rightarrow> u64 \<Rightarrow> u64 \<Rightarrow> nat option \<Rightarrow> ('d, 'u) kernel \<Rightarrow> (int \<times> ('d, 'u) kernel) outcome" where
  "exec_bad e me pt sz ip st = obind (if pt \<noteq> 0 then on_mem (proc_freepagetable pt sz) st else Ok st) (\<lambda>st. case ip of
     None \<Rightarrow> Ok (-1, st)
   | Some ip \<Rightarrow> obind (on_fs (iunlockput (e_rw e) (p_pid (proc st me)) ip) st) (\<lambda>st. obind (end_tx e me st) (\<lambda>st. Ok (-1, st))))"

text \<open>From the end of loading on: the stack, and the switch to the new image.\<close>

definition exec_commit :: "('d, 'u) env \<Rightarrow> nat \<Rightarrow> u8 list \<Rightarrow> u64 \<Rightarrow> u64 \<Rightarrow> u64 \<Rightarrow> u64 \<Rightarrow> ('d, 'u) kernel \<Rightarrow> ('d, 'u) kernel outcome" where
  "exec_commit e me path entry pt sz sp st = (let
       old = p_pagetable (proc st me); oldsz = p_sz (proc st me);
       st = tf_set me (tf_a0 + 8) sp st;
       st = pupd me (\<lambda>p. p\<lparr>p_name := copy_name (p_name p) (path_last path @ [0]), p_pagetable := pt, p_sz := sz\<rparr>) st;
       st = tf_set me tf_sp sp (tf_set me tf_epc entry st)
     in on_mem (proc_freepagetable old oldsz) st)"

definition exec_stack :: "('d, 'u) env \<Rightarrow> nat \<Rightarrow> u8 list \<Rightarrow> u64 list \<Rightarrow> u64 \<Rightarrow> u64 \<Rightarrow> u64 \<Rightarrow> ('d, 'u) kernel \<Rightarrow> (int \<times> ('d, 'u) kernel) outcome" where
  "exec_stack e me path argv entry pt sz st = (let sz = PGROUNDUP sz in
     obind (on_mem_val (uvmalloc pt sz (sz + 2 * PGSIZE) PTE_W) st) (\<lambda>(sz1, st).
       if sz1 = 0 then exec_bad e me pt sz None st
       else obind (on_mem (uvmclear pt (sz1 - 2 * PGSIZE)) st) (\<lambda>st.
         obind (on_mem_val (push_argv (e_var e) pt (sz1 - PGSIZE) argv sz1) st) (\<lambda>(r, st). case r of
           None \<Rightarrow> exec_bad e me pt sz1 None st
         | Some (argc, sp) \<Rightarrow> obind (exec_commit e me path entry pt sz1 sp st) (\<lambda>st. Ok (int argc, st))))))"

definition exec :: "('d, 'u) env \<Rightarrow> nat \<Rightarrow> u8 list \<Rightarrow> u64 list \<Rightarrow> ('d, 'u) kernel \<Rightarrow> (int \<times> ('d, 'u) kernel) outcome" where
  "exec e me path argv st = obind (begin_tx st) (\<lambda>st. obind (with_cwd me (\<lambda>pd cwd. namei (e_rw e) pd cwd path) st) (\<lambda>(r, st). case r of
     None \<Rightarrow> obind (end_tx e me st) (\<lambda>st. Ok (-1, st))
   | Some ip \<Rightarrow> let pd = p_pid (proc st me) in obind (on_fs (ilock (e_rw e) pd ip) st) (\<lambda>st.
       obind (on_fs_val (read_var (e_rw e) pd ip 0 64) st) (\<lambda>(d, st). case d of
         None \<Rightarrow> exec_bad e me 0 0 (Some ip) st
       | Some d \<Rightarrow> let elf = decode_elfhdr d in
           if e_magic elf \<noteq> ELF_MAGIC then exec_bad e me 0 0 (Some ip) st
           else obind (on_mem_val (proc_pagetable (e_tramp e) (p_trapframe (proc st me))) st) (\<lambda>(pt, st).
             if pt = 0 then exec_bad e me 0 0 (Some ip) st
             else obind (load_segments (e_rw e) pd pt ip (unat (e_phnum elf)) (ucast (e_phoff elf)) 0 st) (\<lambda>(ok, sz, st).
               if \<not> ok then exec_bad e me pt sz (Some ip) st
               else obind (on_fs (iunlockput (e_rw e) pd ip) st) (\<lambda>st. obind (end_tx e me st) (\<lambda>st.
                 exec_stack e me path argv (e_entry elf) pt sz st))))))))"

section \<open>The system call\<close>

definition free_argv :: "u64 list \<Rightarrow> ('d, 'u) kernel \<Rightarrow> ('d, 'u) kernel outcome" where
  "free_argv argv st = ofold (\<lambda>a. on_mem (kfree a)) argv st"

text \<open>Copying in the arguments from index \<open>i\<close> on, with \<open>n\<close> entries of \<^verbatim>\<open>argv\<close> left; \<open>False\<close> where the code goes to \<^verbatim>\<open>bad\<close>.\<close>

primrec fetch_argv :: "nat \<Rightarrow> u64 \<Rightarrow> nat \<Rightarrow> nat \<Rightarrow> u64 list \<Rightarrow> ('d, 'u) kernel \<Rightarrow> (bool \<times> u64 list \<times> ('d, 'u) kernel) outcome" where
  "fetch_argv me uargv i 0 argv st = Ok (False, argv, st)"
| "fetch_argv me uargv i (Suc n) argv st = (case fetchaddr me (uargv + 8 * word_of_nat i) st of
     None \<Rightarrow> Ok (False, argv, st)
   | Some uarg \<Rightarrow> if uarg = 0 then Ok (True, argv, st)
     else (case kalloc (pool st) of (p, k) \<Rightarrow> let st = st\<lparr>pool := k\<rparr> in
       if p = 0 then Ok (False, argv, st)
       else obind (on_mem_val (copyinstr (p_pagetable (proc st me)) p uarg 4096) st) (\<lambda>(r, st).
         if sint r < 0 then Ok (False, argv @ [p], st)
         else fetch_argv me uargv (Suc i) n (argv @ [p]) st)))"

definition sys_exec :: "('d, 'u) env \<Rightarrow> nat \<Rightarrow> ('d, 'u) kernel \<Rightarrow> ('d, 'u) sysres" where
  "sys_exec e me st = obind (argaddr me 1 st) (\<lambda>uargv. obind (argstr me 0 MAXPATH st) (\<lambda>path. case path of
     None \<Rightarrow> sysret (-1) st
   | Some path \<Rightarrow> obind (fetch_argv me uargv 0 MAXARG [] st) (\<lambda>(ok, argv, st).
       if ok then obind (exec e me path argv st) (\<lambda>(r, st). obind (free_argv argv st) (\<lambda>st. sysret r st))
       else obind (free_argv argv st) (\<lambda>st. sysret (-1) st))))"

end
