(* ===== verification/Xv6_Trap.thy ===== *)
theory Xv6_Trap
  imports Xv6_Exec
begin

text \<open>
  Traps (\<^verbatim>\<open>kernel/trap.c\<close>), the interrupt controller (\<^verbatim>\<open>kernel/plic.c\<close>) and the dispatch of system calls
  (\<^verbatim>\<open>kernel/syscall.c\<close>). The control registers of the CPU are a record; the interrupt controller is a parameter, as the addresses of the
  assembly routines are.
\<close>

section \<open>Dispatch\<close>

definition kprint :: "('d, 'u) env \<Rightarrow> string \<Rightarrow> arg list \<Rightarrow> ('d, 'u) kernel \<Rightarrow> ('d, 'u) kernel outcome" where
  "kprint e fmt as st = obind (kprintf (bytes_of fmt) as) (\<lambda>bs.
     obind (ofold (\<lambda>c. consputc (e_uart e) (unat c)) bs (con st)) (\<lambda>c. Ok (st\<lparr>con := c\<rparr>)))"

definition syscalls :: "('d, 'u) env \<Rightarrow> (nat \<Rightarrow> ('d, 'u) kernel \<Rightarrow> ('d, 'u) sysres) list" where
  "syscalls e = [sys_fork e, sys_exit e, sys_wait e, sys_pipe e, sys_read e, sys_kill, sys_exec e, sys_fstat e, sys_chdir e, sys_dup,
     sys_getpid, sys_sbrk, sys_sleep, \<lambda>_. sys_uptime, sys_open e, sys_write e, sys_mknod e, sys_unlink e, sys_link e, sys_mkdir e,
     sys_close e, sys_trace, sys_sysinfo e]"

definition syscalls_str :: "string list" where
  "syscalls_str = [''fork'', ''exit'', ''wait'', ''pipe'', ''read'', ''kill'', ''exec'', ''fstat'', ''chdir'', ''dup'', ''getpid'', ''sbrk'',
     ''sleep'', ''uptime'', ''open'', ''write'', ''mknod'', ''unlink'', ''link'', ''mkdir'', ''close'', ''trace'', ''sysinfo'']"

text \<open>The entry 0 of both arrays is empty; \<open>num\<close> is the \<^verbatim>\<open>int\<close> that \<^verbatim>\<open>a7\<close> is converted to.\<close>

definition syscall :: "('d, 'u) env \<Rightarrow> nat \<Rightarrow> ('d, 'u) kernel \<Rightarrow> ('d, 'u) sysres" where
  "syscall e me st = (let num = sint (ucast (tf_get me tf_a7 st) :: i32) in
     if 0 < num \<and> num < 24 then
       obind ((syscalls e ! (nat num - 1)) me st) (\<lambda>(r, st). case r of
         None \<Rightarrow> Ok (None, st)
       | Some v \<Rightarrow> let st = tf_set me tf_a0 v st in
           if bit (p_trace_mask (proc st me)) (nat num) then
             obind (kprint e (''%d: syscall %s -> %d'' @ [CHR 0x0A]) [Aint (p_pid (proc st me)), Astr (Some (bytes_of (syscalls_str ! (nat num - 1)))), Aint (ucast (tf_get me tf_a0 st))] st) (\<lambda>st.
             Ok (Some v, st))
           else Ok (Some v, st))
     else obind (kprint e (''%d %s: unknown sys call %d'' @ [CHR 0x0A]) [Aint (p_pid (proc st me)), Astr (Some (cstr (p_name (proc st me)))), Aint (word_of_int num)] st) (\<lambda>st.
       Ok (Some (-1), tf_set me tf_a0 (-1) st)))"

section \<open>The interrupt controller\<close>

abbreviation (input) UART0_IRQ :: u32 where "UART0_IRQ \<equiv> 10"
abbreviation (input) VIRTIO0_IRQ :: u32 where "VIRTIO0_IRQ \<equiv> 1"

definition PLIC_SENABLE :: "nat \<Rightarrow> u64" where "PLIC_SENABLE hart = PLIC + 0x2080 + word_of_nat hart * 0x100"
definition PLIC_SPRIORITY :: "nat \<Rightarrow> u64" where "PLIC_SPRIORITY hart = PLIC + 0x201000 + word_of_nat hart * 0x2000"
definition PLIC_SCLAIM :: "nat \<Rightarrow> u64" where "PLIC_SCLAIM hart = PLIC + 0x201004 + word_of_nat hart * 0x2000"

text \<open>The registers of the controller, as loads and stores of 32 bits act on its state.\<close>

record 'p plic_dev =
  plic_load :: "u64 \<Rightarrow> 'p \<Rightarrow> u32 \<times> 'p"
  plic_store :: "u64 \<Rightarrow> u32 \<Rightarrow> 'p \<Rightarrow> 'p"

definition plicinit :: "'p plic_dev \<Rightarrow> 'p \<Rightarrow> 'p" where
  "plicinit d p = plic_store d (PLIC + ucast VIRTIO0_IRQ * 4) 1 (plic_store d (PLIC + ucast UART0_IRQ * 4) 1 p)"

definition plicinithart :: "'p plic_dev \<Rightarrow> nat \<Rightarrow> 'p \<Rightarrow> 'p" where
  "plicinithart d hart p = plic_store d (PLIC_SPRIORITY hart) 0
     (plic_store d (PLIC_SENABLE hart) (push_bit (unat UART0_IRQ) 1 OR push_bit (unat VIRTIO0_IRQ) 1) p)"

definition plic_claim :: "'p plic_dev \<Rightarrow> nat \<Rightarrow> 'p \<Rightarrow> u32 \<times> 'p" where
  "plic_claim d hart p = plic_load d (PLIC_SCLAIM hart) p"

definition plic_complete :: "'p plic_dev \<Rightarrow> nat \<Rightarrow> u32 \<Rightarrow> 'p \<Rightarrow> 'p" where
  "plic_complete d hart irq p = plic_store d (PLIC_SCLAIM hart) irq p"

section \<open>Control registers\<close>

record csrs =
  r_sstatus :: u64
  r_scause :: u64
  r_sepc :: u64
  r_stval :: u64
  r_stvec :: u64
  r_sip :: u64
  r_satp :: u64
  r_tp :: u64

abbreviation (input) SSTATUS_SPP :: u64 where "SSTATUS_SPP \<equiv> 0x100"
abbreviation (input) SSTATUS_SPIE :: u64 where "SSTATUS_SPIE \<equiv> 0x20"
abbreviation (input) SSTATUS_SIE :: u64 where "SSTATUS_SIE \<equiv> 2"

definition csr_intr_on :: "csrs \<Rightarrow> csrs" where "csr_intr_on c = c\<lparr>r_sstatus := r_sstatus c OR SSTATUS_SIE\<rparr>"
definition csr_intr_off :: "csrs \<Rightarrow> csrs" where "csr_intr_off c = c\<lparr>r_sstatus := r_sstatus c AND NOT SSTATUS_SIE\<rparr>"
definition csr_intr_get :: "csrs \<Rightarrow> bool" where "csr_intr_get c \<longleftrightarrow> r_sstatus c AND SSTATUS_SIE \<noteq> 0"

section \<open>Interrupts\<close>

text \<open>
  What a trap handler runs with: the environment of system calls, the interrupt controller, the handler \<^verbatim>\<open>virtio_disk_intr\<close> on the
  state of the disk, and the addresses of \<^verbatim>\<open>kernelvec\<close>, \<^verbatim>\<open>usertrap\<close>, \<^verbatim>\<open>uservec\<close> and \<^verbatim>\<open>userret\<close> (these two as offsets in the
  trampoline page).
\<close>

record ('d, 'u, 'p) tenv = "('d, 'u) env" +
  t_plic :: "'p plic_dev"
  t_disk_intr :: "('d, 'u) kernel \<Rightarrow> ('d, 'u) kernel outcome"
  t_kernelvec :: u64
  t_usertrap :: u64
  t_uservec :: u64
  t_userret :: u64

record ('d, 'u, 'p) hart_state =
  h_csr :: csrs
  h_plic :: 'p
  h_kern :: "('d, 'u) kernel"

definition env_of :: "('d, 'u, 'p) tenv \<Rightarrow> ('d, 'u) env" where
  "env_of t = env.truncate t"

definition clockintr :: "nat option \<Rightarrow> ('d, 'u) kernel \<Rightarrow> ('d, 'u) kernel" where
  "clockintr me st = wakeup me TicksChan (st\<lparr>ticks := ticks st + 1\<rparr>)"

definition trapinithart :: "('d, 'u, 'p) tenv \<Rightarrow> csrs \<Rightarrow> csrs" where
  "trapinithart t c = c\<lparr>r_stvec := t_kernelvec t\<rparr>"

definition device_intr :: "('d, 'u, 'p) tenv \<Rightarrow> u32 \<Rightarrow> ('d, 'u) kernel \<Rightarrow> ('d, 'u) kernel outcome" where
  "device_intr t irq st = (if irq = UART0_IRQ then obind (procdump st) (\<lambda>dump.
       obind (uartintr (e_uart t) dump (con st)) (\<lambda>c. Ok (st\<lparr>con := c\<rparr>)))
     else if irq = VIRTIO0_IRQ then t_disk_intr t st
     else if irq \<noteq> 0 then kprint (env_of t) (''unexpected interrupt irq=%d'' @ [CHR 0x0A]) [Aint irq] st
     else Ok st)"

definition devintr :: "('d, 'u, 'p) tenv \<Rightarrow> nat \<Rightarrow> nat option \<Rightarrow> ('d, 'u, 'p) hart_state \<Rightarrow> (nat \<times> ('d, 'u, 'p) hart_state) outcome" where
  "devintr t hart me h = (let scause = r_scause (h_csr h) in
     if scause AND 0x8000000000000000 \<noteq> 0 \<and> scause AND 0xff = 9 then
       (case plic_claim (t_plic t) hart (h_plic h) of (irq, p) \<Rightarrow>
         obind (device_intr t irq (h_kern h)) (\<lambda>st.
         Ok (1, h\<lparr>h_plic := (if irq \<noteq> 0 then plic_complete (t_plic t) hart irq p else p), h_kern := st\<rparr>)))
     else if scause = 0x8000000000000001 then
       let st = (if hart = 0 then clockintr me (h_kern h) else h_kern h) in
       Ok (2, h\<lparr>h_kern := st, h_csr := (h_csr h)\<lparr>r_sip := r_sip (h_csr h) AND NOT 2\<rparr>\<rparr>)
     else Ok (0, h))"

section \<open>Traps from user space\<close>

text \<open>How the handler of a trap from user space ends: the process is gone, gives up the CPU (and runs \<^verbatim>\<open>usertrapret\<close> when it is scheduled again), or returns to user space with a page table.\<close>

datatype trap_end = Gone | Preempted | ToUser u64

definition usertrapret :: "('d, 'u, 'p) tenv \<Rightarrow> nat \<Rightarrow> ('d, 'u, 'p) hart_state \<Rightarrow> trap_end \<times> ('d, 'u, 'p) hart_state" where
  "usertrapret t me h = (let c = csr_intr_off (h_csr h);
       c = c\<lparr>r_stvec := TRAMPOLINE + t_uservec t\<rparr>;
       st = tf_set me 0 (r_satp c) (h_kern h);
       st = tf_set me 8 (p_kstack (proc st me) + PGSIZE) st;
       st = tf_set me 16 (t_usertrap t) st;
       st = tf_set me 32 (r_tp c) st;
       c = c\<lparr>r_sstatus := (r_sstatus c AND NOT SSTATUS_SPP) OR SSTATUS_SPIE\<rparr>;
       c = c\<lparr>r_sepc := tf_get me tf_epc st\<rparr>
     in (ToUser (MAKE_SATP (p_pagetable (proc st me))), h\<lparr>h_csr := c, h_kern := st\<rparr>))"

definition trap_exit :: "('d, 'u, 'p) tenv \<Rightarrow> nat \<Rightarrow> ('d, 'u, 'p) hart_state \<Rightarrow> (trap_end \<times> ('d, 'u, 'p) hart_state) outcome" where
  "trap_exit t me h = obind (exit (e_rw t) me (-1) (h_kern h)) (\<lambda>st. Ok (Gone, h\<lparr>h_kern := st\<rparr>))"

definition usertrap_end :: "('d, 'u, 'p) tenv \<Rightarrow> nat \<Rightarrow> nat \<Rightarrow> ('d, 'u, 'p) hart_state \<Rightarrow> (trap_end \<times> ('d, 'u, 'p) hart_state) outcome" where
  "usertrap_end t me which_dev h = (if killed me (h_kern h) then trap_exit t me h
     else if which_dev = 2 then Ok (Preempted, h\<lparr>h_kern := yield me (h_kern h)\<rparr>)
     else Ok (usertrapret t me h))"

definition usertrap :: "('d, 'u, 'p) tenv \<Rightarrow> nat \<Rightarrow> nat \<Rightarrow> ('d, 'u, 'p) hart_state \<Rightarrow> (trap_end \<times> ('d, 'u, 'p) hart_state) outcome" where
  "usertrap t hart me h = (if r_sstatus (h_csr h) AND SSTATUS_SPP \<noteq> 0 then Panic ''usertrap: not from user mode''
     else let h = h\<lparr>h_csr := (h_csr h)\<lparr>r_stvec := t_kernelvec t\<rparr>, h_kern := tf_set me tf_epc (r_sepc (h_csr h)) (h_kern h)\<rparr> in
       if r_scause (h_csr h) = 8 then
         if killed me (h_kern h) then trap_exit t me h
         else let st = tf_set me tf_epc (tf_get me tf_epc (h_kern h) + 4) (h_kern h);
                  h = h\<lparr>h_csr := csr_intr_on (h_csr h), h_kern := st\<rparr>
           in obind (syscall (env_of t) me st) (\<lambda>(r, st). case r of
             None \<Rightarrow> Ok (Gone, h\<lparr>h_kern := st\<rparr>)
           | Some _ \<Rightarrow> usertrap_end t me 0 (h\<lparr>h_kern := st\<rparr>))
       else obind (devintr t hart (Some me) h) (\<lambda>(which_dev, h).
         if which_dev \<noteq> 0 then usertrap_end t me which_dev h
         else obind (kprint (env_of t) (''usertrap(): unexpected scause %p pid=%d'' @ [CHR 0x0A]) [Along (r_scause (h_csr h)), Aint (p_pid (proc (h_kern h) me))] (h_kern h)) (\<lambda>st.
           obind (kprint (env_of t) (''            sepc=%p stval=%p'' @ [CHR 0x0A]) [Along (r_sepc (h_csr h)), Along (r_stval (h_csr h))] st) (\<lambda>st.
           usertrap_end t me 0 (h\<lparr>h_kern := setkilled me st\<rparr>)))))"

text \<open>Where a new process starts; \<open>fresh\<close> is the static variable \<^verbatim>\<open>first\<close>, returned updated.\<close>

definition forkret :: "('d, 'u, 'p) tenv \<Rightarrow> nat \<Rightarrow> bool \<Rightarrow> ('d, 'u, 'p) hart_state \<Rightarrow> (bool \<times> trap_end \<times> ('d, 'u, 'p) hart_state) outcome" where
  "forkret t me fresh h = obind (if fresh then on_fs (fsinit (e_rw t) (p_pid (proc (h_kern h) me)) ROOTDEV) (h_kern h) else Ok (h_kern h)) (\<lambda>st.
     Ok (False, usertrapret t me (h\<lparr>h_kern := st\<rparr>)))"

section \<open>Traps in the kernel\<close>

text \<open>The \<open>bool\<close> is whether the interrupted process gives up the CPU before the registers are restored.\<close>

definition kerneltrap :: "('d, 'u, 'p) tenv \<Rightarrow> nat \<Rightarrow> nat option \<Rightarrow> ('d, 'u, 'p) hart_state \<Rightarrow> (bool \<times> ('d, 'u, 'p) hart_state) outcome" where
  "kerneltrap t hart me h = (let sepc = r_sepc (h_csr h); sstatus = r_sstatus (h_csr h); scause = r_scause (h_csr h) in
     if sstatus AND SSTATUS_SPP = 0 then Panic ''kerneltrap: not from supervisor mode''
     else if csr_intr_get (h_csr h) then Panic ''kerneltrap: interrupts enabled''
     else obind (devintr t hart me h) (\<lambda>(which_dev, h).
       if which_dev = 0 then Panic ''kerneltrap''
       else let (y, st) = (case me of None \<Rightarrow> (False, h_kern h)
             | Some i \<Rightarrow> if which_dev = 2 \<and> p_state (proc (h_kern h) i) = RUNNING then (True, yield i (h_kern h)) else (False, h_kern h))
         in Ok (y, h\<lparr>h_kern := st, h_csr := (h_csr h)\<lparr>r_sepc := sepc, r_sstatus := sstatus\<rparr>\<rparr>)))"

end
