(* ===== verification/Xv6_Files.thy ===== *)
theory Xv6_Files
  imports Xv6_Trap
begin

text \<open>
  The file descriptors of all processes account for the reference counts of the file table: an invariant that every system call
  keeps, of the handlers in \<^verbatim>\<open>kernel/sysfile.c\<close>, \<^verbatim>\<open>kernel/sysproc.c\<close> and \<^verbatim>\<open>kernel/exec.c\<close> as dispatched by
  \<^verbatim>\<open>syscall\<close>.
\<close>

section \<open>Counting references\<close>

lemma count_list_update:
  "n < length xs \<Longrightarrow> count_list (xs[n := y]) x + (if xs ! n = x then 1 else 0) = count_list xs x + (if y = x then 1 else 0)"
proof (induction xs arbitrary: n)
  case (Cons z zs)
  show ?case
  proof (cases n)
    case (Suc m)
    then show ?thesis using Cons.IH [of m] Cons.prems by auto
  qed auto
qed simp

lemma sum_update: "finite A \<Longrightarrow> a \<in> A \<Longrightarrow> sum (g(a := x)) A + g a = sum g A + (x :: nat)"
  by (simp add: sum.remove [of A a])

text \<open>How many descriptors hold the file \<open>f\<close>.\<close>

definition fd_refs :: "('d, 'u) kernel \<Rightarrow> nat \<Rightarrow> nat" where
  "fd_refs st f = (\<Sum>i<NPROC. count_list (p_ofile (proc st i)) (Some f))"

lemma fd_refs_cong: "(\<And>i. p_ofile (proc st' i) = p_ofile (proc st i)) \<Longrightarrow> fd_refs st' f = fd_refs st f"
  by (simp add: fd_refs_def)

lemma fd_refs_set:
  assumes "me < NPROC" "fd < length (p_ofile (proc st me))"
  shows "fd_refs (set_fd me fd v st) f + (if p_ofile (proc st me) ! fd = Some f then 1 else 0) = fd_refs st f + (if v = Some f then 1 else 0)"
proof -
  let ?g = "\<lambda>i. count_list (p_ofile (proc st i)) (Some f)" and ?x = "count_list ((p_ofile (proc st me))[fd := v]) (Some f)"
  have "fd_refs (set_fd me fd v st) f = sum (?g(me := ?x)) {..<NPROC}"
    unfolding fd_refs_def by (rule sum.cong) (simp_all add: set_fd_def)
  then have "fd_refs (set_fd me fd v st) f + ?g me = fd_refs st f + ?x"
    using sum_update [of "{..<NPROC}" me ?g ?x] assms(1) by (simp add: fd_refs_def)
  then show ?thesis using count_list_update [OF assms(2), of v "Some f"] by simp
qed

lemma fd_refs_pos:
  assumes "me < NPROC" "fd < length (p_ofile (proc st me))" "p_ofile (proc st me) ! fd = Some f"
  shows "0 < fd_refs st f"
proof -
  have "0 < count_list (p_ofile (proc st me)) (Some f)" using assms(2,3) nth_mem [of fd "p_ofile (proc st me)"] by (metis count_list_0_iff gr0I)
  then show ?thesis unfolding fd_refs_def using assms(1) by (meson finite_lessThan lessThan_iff sum_pos2 less_eq_nat.simps(1) zero_le)
qed

section \<open>The invariant\<close>

abbreviation closed :: "procstate set" where "closed \<equiv> {UNUSED, ZOMBIE}"

definition fds_ok :: "('d, 'u) kernel \<Rightarrow> bool" where
  "fds_ok st \<longleftrightarrow> (\<forall>i < NPROC. length (p_ofile (proc st i)) = NOFILE \<and> (\<forall>f. Some f \<in> set (p_ofile (proc st i)) \<longrightarrow> f < NFILE) \<and>
     (p_state (proc st i) \<in> closed \<longrightarrow> (\<forall>fd < NOFILE. p_ofile (proc st i) ! fd = None)))"

text \<open>The reference counts exceed the descriptors by \<open>d\<close>.\<close>

definition files_off :: "(nat \<Rightarrow> int) \<Rightarrow> ('d, 'u) kernel \<Rightarrow> bool" where
  "files_off d st \<longleftrightarrow> fds_ok st \<and> (\<forall>f < NFILE. fref (ftab st f) = int (fd_refs st f) + d f)"

abbreviation files_ok :: "('d, 'u) kernel \<Rightarrow> bool" where
  "files_ok st \<equiv> files_off (\<lambda>_. 0) st"

text \<open>What an operation does that has nothing to do with descriptors.\<close>

definition calm :: "('d, 'u) kernel \<Rightarrow> ('d, 'u) kernel \<Rightarrow> bool" where
  "calm st st' \<longleftrightarrow> (\<forall>i. p_ofile (proc st' i) = p_ofile (proc st i) \<and> (p_state (proc st' i) \<in> closed \<longrightarrow> p_state (proc st i) \<in> closed)) \<and>
     (\<forall>f. fref (ftab st' f) = fref (ftab st f))"

lemma calm_refl [simp]: "calm st st" and calm_trans: "calm a b \<Longrightarrow> calm b c \<Longrightarrow> calm a c"
  by (auto simp: calm_def)

lemma files_off_calm: "files_off d st \<Longrightarrow> calm st st' \<Longrightarrow> files_off d st'"
proof -
  assume a: "files_off d st" "calm st st'"
  then have "fds_ok st'" unfolding files_off_def fds_ok_def calm_def by auto
  moreover have "fd_refs st' f = fd_refs st f" for f by (rule fd_refs_cong) (use a(2) in \<open>simp add: calm_def\<close>)
  ultimately show ?thesis using a by (simp add: files_off_def calm_def)
qed

named_theorems calms "operations that do not touch descriptors"

lemma calm_upd [simp, calms]:
  "calm st (st\<lparr>pool := k\<rparr>)" "calm st (st\<lparr>fsys := s\<rparr>)" "calm st (st\<lparr>pipes := q\<rparr>)" "calm st (st\<lparr>con := c\<rparr>)" "calm st (tf_set i off v st)"
  "calm st (st\<lparr>fsys := s, pool := k\<rparr>)" "calm st (st\<lparr>nextpid := n\<rparr>)"
  by (simp_all add: calm_def tf_set_def)

lemma calm_pupd: "p_ofile (f (proc st i)) = p_ofile (proc st i) \<Longrightarrow> (p_state (f (proc st i)) \<in> closed \<Longrightarrow> p_state (proc st i) \<in> closed) \<Longrightarrow> calm st (pupd i f st)"
  by (auto simp: calm_def)

lemma calm_fupd: "fref (g (ftab st f)) = fref (ftab st f) \<Longrightarrow> calm st (fupd f g st)"
  by (auto simp: calm_def fupd_def)

lemma calm_on [calms]:
  "yields (on_mem op st) (calm st)" "yields (on_mem_val f st) (\<lambda>(x, st'). calm st st')"
  "yields (on_fs g st) (calm st)" "yields (on_fs_val h st) (\<lambda>(x, st'). calm st st')"
  unfolding on_mem_def on_mem_val_def on_fs_def on_fs_val_def by (auto simp: yields_def outcome_iff)

section \<open>Operations that do not touch descriptors\<close>

text \<open>Rules to compose such operations.\<close>

lemma yields_calm: "yields m (calm st) \<Longrightarrow> calm base st \<Longrightarrow> (\<And>s. calm base s \<Longrightarrow> yields (f s) P) \<Longrightarrow> yields (obind m f) P"
  by (rule yields_obind, erule yields_mono) (blast intro: calm_trans)

lemma yields_calm2: "yields m (\<lambda>(x, s). calm st s) \<Longrightarrow> calm base st \<Longrightarrow> (\<And>x s. calm base s \<Longrightarrow> yields (f (x, s)) P) \<Longrightarrow> yields (obind m f) P"
  by (rule yields_obind, erule yields_mono) (auto intro: calm_trans)

lemma yields_calm3: "yields m (\<lambda>(x, y, s). calm st s) \<Longrightarrow> calm base st \<Longrightarrow> (\<And>x y s. calm base s \<Longrightarrow> yields (f (x, y, s)) P) \<Longrightarrow> yields (obind m f) P"
  by (rule yields_obind, erule yields_mono) (auto intro: calm_trans)

lemma yields_true: "(\<And>x. yields (f x) P) \<Longrightarrow> yields (obind m f) P"
  by (rule yields_obind) (simp add: yields_def)

lemma calm_put_user [calms]: "yields (put_user me va n um st) (calm st)"
  unfolding put_user_def by (rule calm_on)

lemma calm_with_cwd [calms]: "yields (with_cwd me op st) (\<lambda>(x, st'). calm st st')"
  unfolding with_cwd_def by (auto intro: calm_on yields_rules split: option.split)

lemma calm_tx [calms]: "yields (begin_tx st) (calm st)" "yields (end_tx e me st) (calm st)"
  unfolding begin_tx_def end_tx_def by (rule calm_on)+

lemma calm_kprint [calms]: "yields (kprint e fmt as st) (calm st)"
  unfolding kprint_def by (auto simp: yields_def outcome_iff)

lemma calm_filestat: "yields (filestat rw pd pad f va um st) (\<lambda>(v, um, st'). calm st st')"
  unfolding filestat_def Let_def
  by (intro yields_if yields_calm [where base = st, OF calm_on(3)]) (auto intro!: yields_rules split: prod.split)

lemma calm_fileread: "yields (fileread rw pd kl f va n um st) (\<lambda>(v, um, st'). calm st st')"
proof -
  have r: "calm st (if b then fupd f (\<lambda>x. x\<lparr>foff := foff x + y\<rparr>) (s\<lparr>fsys := t\<rparr>) else s\<lparr>fsys := t\<rparr>)" if "calm st s" for b y s t
    using calm_trans [OF that calm_trans [OF calm_upd(2) [of s t] calm_fupd [of "\<lambda>x. x\<lparr>foff := foff x + y\<rparr>" "s\<lparr>fsys := t\<rparr>" f]]] calm_trans [OF that calm_upd(2)] by auto
  have "yields (obind (on_fs (ilock rw pd (fip x)) st) (\<lambda>st. obind (readi rw pd (fip x) True va (foff x) (word_of_int n) um (fsys st)) (\<lambda>(r, um, s).
         let st = st\<lparr>fsys := s\<rparr>;
             st = (if 0 < r then fupd f (\<lambda>x. x\<lparr>foff := foff x + word_of_int r\<rparr>) st else st)
         in obind (on_fs (iunlock pd (fip x)) st) (\<lambda>st. Ok (r, um, st))))) (\<lambda>(v, um, st'). calm st st')" for x :: struct_file
    unfolding Let_def
    by (rule yields_calm [where base = st, OF calm_on(3)], simp, rule yields_true, rule yields_prod, rule yields_prod, rule yields_calm [where base = st, OF calm_on(3)], erule r)
      (auto intro: yields_rules)
  moreover have "yields (case piperead (unat pd) kl va n um (pipes st (fpipe x)) of (s, um, p) \<Rightarrow>
         obind (seg_value s) (\<lambda>r. Ok (r, um, st\<lparr>pipes := (pipes st)(fpipe x := p)\<rparr>))) (\<lambda>(v, um, st'). calm st st')" for x :: struct_file
    by (auto intro!: yields_rules yields_true split: prod.split)
  moreover have "yields (case consoleread kl True va n n um (con st) of (s, um, c) \<Rightarrow>
           obind (seg_value s) (\<lambda>r. Ok (r, um, st\<lparr>con := c\<rparr>))) (\<lambda>(v, um, st'). calm st st')"
    by (auto intro!: yields_rules yields_true split: prod.split)
  ultimately show ?thesis unfolding fileread_def Let_def
    by (cases "ftype (ftab st f)") (auto intro!: yields_if yields_basic)
qed

lemma calm_filewrite_chunk: "yields (filewrite_chunk rw pd f va k um st) (\<lambda>(v, st'). calm st st')"
proof -
  have r: "calm st (if b then fupd f (\<lambda>x. x\<lparr>foff := foff x + y\<rparr>) s else s)" if "calm st s" for b y s
    using calm_trans [OF that calm_fupd [of "\<lambda>x. x\<lparr>foff := foff x + y\<rparr>" s f]] that by auto
  show ?thesis unfolding filewrite_chunk_def Let_def
    by (rule yields_calm [where base = st, OF calm_on(3)], simp, rule yields_calm [where base = st, OF calm_on(3)], assumption,
      rule yields_calm2 [where base = st, OF calm_on(4)], assumption, clarify, rule yields_calm [where base = st, OF calm_on(3)], erule r,
      rule yields_calm [where base = st, OF calm_on(3)], assumption) (auto intro: yields_rules)
qed

lemma calm_filewrite_loop: "yields (filewrite_loop rw pd f va n i um st) (\<lambda>(v, st'). calm st st')"
proof (induction "nat (n - i)" arbitrary: i st rule: less_induct)
  case less
  show ?case
  proof (cases "i < n")
    case True
    let ?n = "if max_write < n - i then max_write else n - i"
    have "yields (if r \<noteq> ?n then Ok (i, s) else filewrite_loop rw pd f va n (i + r) um s) (\<lambda>(v, st'). calm st st')" if "calm st s" for r s
    proof (cases "r = ?n")
      case r: True
      have "nat (n - (i + r)) < nat (n - i)" using True r by (simp split: if_splits)
      from less.hyps [OF this, of s] have "yields (filewrite_loop rw pd f va n (i + r) um s) (\<lambda>(v, st'). calm st st')"
        by (rule yields_mono) (auto intro: calm_trans [OF that])
      then show ?thesis using r by simp
    qed (use that in \<open>auto intro: yields_rules\<close>)
    note R = this
    show ?thesis unfolding filewrite_loop.simps [of rw pd f va n i um st] Let_def if_P [OF True]
      by (rule yields_calm2 [where base = st, OF calm_filewrite_chunk], simp, clarify) (rule R)
  qed (simp add: filewrite_loop.simps yields_rules)
qed

lemma calm_filewrite: "yields (filewrite rw dev pd kl f va n um st) (\<lambda>(v, st'). calm st st')"
proof -
  have "yields (obind (filewrite_loop rw pd f va n 0 um st) (\<lambda>(i, st). Ok (if i = n then n else -1, st))) (\<lambda>(v, st'). calm st st')"
    by (rule yields_calm2 [where base = st, OF calm_filewrite_loop]) (auto intro: yields_rules)
  moreover have "yields (case pipewrite (unat pd) kl um va n 0 (pipes st (fpipe x)) of (s, p) \<Rightarrow>
         obind (seg_value s) (\<lambda>r. Ok (r, st\<lparr>pipes := (pipes st)(fpipe x := p)\<rparr>))) (\<lambda>(v, st'). calm st st')" for x :: struct_file
    by (auto intro!: yields_rules yields_true split: prod.split)
  moreover have "yields (obind (consolewrite dev True va n 0 um (con st)) (\<lambda>(r, c). Ok (r, st\<lparr>con := c\<rparr>))) (\<lambda>(v, st'). calm st st')"
    by (rule yields_true) (auto intro!: yields_rules split: prod.split)
  ultimately show ?thesis unfolding filewrite_def Let_def
    by (cases "ftype (ftab st f)") (auto intro!: yields_if yields_basic)
qed

lemma calm_freeproc:
  assumes "calm st s" "p_state (proc st i) \<in> closed"
  shows "yields (freeproc i s) (calm st)"
proof -
  have "yields (if b then on_mem op a else Ok a) (calm a)" for b op and a :: "('d, 'u) kernel"
    using calm_on(1) by (auto intro: yields_rules)
  note Y = yields_calm [where base = st, OF this]
  have "calm st (pupd i f s)" if "calm st s" "\<And>p. p_ofile (f p) = p_ofile p" for s f
    using that assms(2) by (auto simp: calm_def)
  then show ?thesis unfolding freeproc_def Let_def using assms(1)
    by (intro Y) (auto intro!: yields_basic)
qed

lemma calm_wait: "yields (wait kv me va st) (\<lambda>(n, st'). calm st st')"
proof (cases "List.find (\<lambda>i. p_parent (proc st i) = Some me \<and> p_state (proc st i) = ZOMBIE) [0..<NPROC]")
  case None then show ?thesis by (auto simp: wait_def intro!: yields_rules)
next
  case (Some i)
  then have z: "p_state (proc st i) = ZOMBIE" by (auto simp: find_Some_iff)
  have W: "yields (if va = 0 then Ok (0, st) else on_mem_val op st) (\<lambda>(r, st'). same_procs st st' \<and> calm st st')" for op :: "kmem \<Rightarrow> (i32 \<times> kmem) outcome"
    using on_procs(2) [of op st] calm_on(2) [of op st] by (auto simp: yields_def)
  have F: "yields (freeproc i s) (calm st)" if "same_procs st s" "calm st s" for s
    by (rule calm_freeproc) (use that z in auto)
  show ?thesis unfolding wait_def Some option.case Let_def
    by (rule yields_obind, rule yields_mono [OF W], rule yields_prod, rule yields_if, rule yields_basic, simp, rule yields_obind, rule yields_mono [OF F])
      (auto intro: yields_basic)
qed

lemma calm_wakeup: "calm st (wakeup me ch st)"
proof -
  have "calm st (fold (\<lambda>i st. if Some i \<noteq> me \<and> p_state (proc st i) = SLEEPING \<and> p_chan (proc st i) = ch
     then pupd i (p_state_update (\<lambda>_. RUNNABLE)) st else st) xs st)" for xs
  proof (induction xs arbitrary: st)
    case (Cons x xs)
    have "calm st (if Some x \<noteq> me \<and> p_state (proc st x) = SLEEPING \<and> p_chan (proc st x) = ch then pupd x (p_state_update (\<lambda>_. RUNNABLE)) st else st)"
      by (auto intro: calm_pupd)
    then show ?case using Cons.IH calm_trans by (simp only: fold.simps comp_def) blast
  qed simp
  then show ?thesis unfolding wakeup_def .
qed

lemma calm_kill: "calm st (snd (kill pd st))"
  by (auto simp: kill_def intro!: calm_pupd split: option.split if_splits)

lemma calm_growproc: "yields (growproc me n st) (\<lambda>(v, st'). calm st st')"
proof -
  have "calm st (pupd me (p_sz_update (\<lambda>_. z)) s)" if "calm st s" for s z
    by (rule calm_trans [OF that calm_pupd]) simp_all
  note [intro] = this
  show ?thesis unfolding growproc_def Let_def
    by (intro yields_if yields_calm2 [where base = st, OF calm_on(2)]) (auto intro!: yields_rules split: if_splits)
qed

section \<open>Running a program\<close>

lemma calm_load_page: "yields (load_page rw pd ip pa off n st) (\<lambda>(b, st'). calm st st')"
  unfolding load_page_def by (rule yields_true) (auto intro!: yields_rules split: prod.split)

lemma calm_loadseg: "yields (loadseg rw pd pt va ip off sz st) (\<lambda>(b, st'). calm st st')"
proof -
  have "yields (loadseg_loop rw pd pt va ip off sz is st) (\<lambda>(b, st'). calm st st')" for "is"
  proof (induction "is" arbitrary: st)
    case (Cons i "is")
    have I: "yields (if b then loadseg_loop rw pd pt va ip off sz is s else Ok (False, s)) (\<lambda>(b, st'). calm st st')" if "calm st s" for b s
      using that by (auto intro!: yields_rules yields_mono [OF Cons.IH] calm_trans [OF that])
    show ?case unfolding loadseg_loop.simps Let_def
      by (rule yields_true, rule yields_if, rule yields_basic, rule yields_calm2 [where base = st, OF calm_load_page], simp, simp only: prod.case) (rule I)
  qed (simp add: yields_rules)
  then show ?thesis unfolding loadseg_def .
qed

lemma calm_load_segment: "yields (load_segment rw pd pt ip ph sz st) (\<lambda>(b, z, st'). calm st st')"
  unfolding load_segment_def
  by (rule yields_if, rule yields_basic, simp, rule yields_if, rule yields_basic, simp, rule yields_calm2 [where base = st, OF calm_on(2)], simp, simp only: prod.case,
    rule yields_if, rule yields_basic, simp, rule yields_calm2 [where base = st, OF calm_loadseg], assumption) (auto intro: yields_basic)

lemma calm_load_segments: "yields (load_segments rw pd pt ip n off sz st) (\<lambda>(b, z, st'). calm st st')"
proof (induction n arbitrary: off sz st)
  case (Suc n)
  have I: "yields (if b then load_segments rw pd pt ip n (off + 56) z s else Ok (False, z, s)) (\<lambda>(b, z, st'). calm st st')" if "calm st s" for b z s
    using that by (auto intro!: yields_rules yields_mono [OF Suc.IH] calm_trans [OF that])
  show ?case unfolding load_segments.simps
    by (rule yields_calm2 [where base = st, OF calm_on(4)], simp, simp only: prod.case, rule yields_option, rule yields_basic, simp,
      rule yields_calm3 [where base = st, OF calm_load_segment], assumption, simp only: prod.case) (rule I)
qed (simp add: yields_rules)

lemma calm_exec_bad: "yields (exec_bad e me pt sz ip st) (\<lambda>(v, st'). calm st st')"
proof -
  have "yields (if pt \<noteq> 0 then on_mem op st else Ok st) (calm st)" for op
    using calm_on(1) by (auto intro: yields_rules)
  note Y = yields_calm [where base = st, OF this]
  show ?thesis unfolding exec_bad_def
    by (rule Y, simp, rule yields_option, rule yields_basic, simp, rule yields_calm [where base = st, OF calm_on(3)], assumption,
      rule yields_calm [where base = st, OF calm_tx(2)], assumption) (auto intro: yields_basic)
qed

lemma calm_exec_commit: "yields (exec_commit e me path entry pt sz sp st) (calm st)"
proof -
  let ?g = "\<lambda>p. p\<lparr>p_name := copy_name (p_name p) (path_last path @ [0]), p_pagetable := pt, p_sz := sz\<rparr>"
  have "calm st (tf_set me tf_sp sp (tf_set me tf_epc entry (pupd me ?g (tf_set me (tf_a0 + 8) sp st))))"
    by (rule calm_trans [OF calm_trans [OF calm_trans [OF calm_upd(5)] calm_upd(5)] calm_upd(5)], rule calm_pupd) simp_all
  note C = calm_trans [OF this]
  show ?thesis unfolding exec_commit_def Let_def by (rule yields_mono [OF calm_on(1)]) (rule C)
qed

lemma calm_from: "yields m (\<lambda>(v, st'). calm s st') \<Longrightarrow> calm st s \<Longrightarrow> yields m (\<lambda>(v, st'). calm st st')"
  by (erule yields_mono) (auto intro: calm_trans)

lemma calm_exec_stack: "yields (exec_stack e me path argv entry pt sz st) (\<lambda>(v, st'). calm st st')"
  unfolding exec_stack_def Let_def
  by (rule yields_calm2 [where base = st, OF calm_on(2)], simp, simp only: prod.case, rule yields_if, erule calm_from [OF calm_exec_bad],
    rule yields_calm [where base = st, OF calm_on(1)], assumption, rule yields_calm2 [where base = st, OF calm_on(2)], assumption, simp only: prod.case,
    rule yields_option, erule calm_from [OF calm_exec_bad], rule yields_prod, rule yields_calm [where base = st, OF calm_exec_commit], assumption)
    (auto intro: yields_basic)

lemma calm_exec: "yields (exec e me path argv st) (\<lambda>(v, st'). calm st st')"
  unfolding exec_def Let_def
  by (rule yields_calm [where base = st, OF calm_tx(1)], simp, rule yields_calm2 [where base = st, OF calm_with_cwd], assumption, simp only: prod.case,
    rule yields_option, rule yields_calm [where base = st, OF calm_tx(2)], assumption, rule yields_basic, simp,
    rule yields_calm [where base = st, OF calm_on(3)], assumption, rule yields_calm2 [where base = st, OF calm_on(4)], assumption, simp only: prod.case,
    rule yields_option, erule calm_from [OF calm_exec_bad], rule yields_if, erule calm_from [OF calm_exec_bad],
    rule yields_calm2 [where base = st, OF calm_on(2)], assumption, simp only: prod.case, rule yields_if, erule calm_from [OF calm_exec_bad],
    rule yields_calm3 [where base = st, OF calm_load_segments], assumption, simp only: prod.case, rule yields_if, erule calm_from [OF calm_exec_bad],
    rule yields_calm [where base = st, OF calm_on(3)], assumption, rule yields_calm [where base = st, OF calm_tx(2)], assumption)
    (erule calm_from [OF calm_exec_stack])

lemma calm_free_argv: "yields (free_argv argv st) (calm st)"
  unfolding free_argv_def by (rule yields_ofold [where R = calm]) (auto intro: yields_mono [OF calm_on(1)] calm_trans)

lemma calm_fetch_argv: "yields (fetch_argv me uargv i n argv st) (\<lambda>(b, a, st'). calm st st')"
proof (induction n arbitrary: i argv st)
  case (Suc n)
  have I: "yields (if sint r < 0 then Ok (False, a, s) else fetch_argv me uargv (Suc i) n a s) (\<lambda>(b, a, st'). calm st st')" if "calm st s" for r :: i32 and a s
    using that by (auto intro!: yields_rules yields_mono [OF Suc.IH] calm_trans [OF that])
  show ?case unfolding fetch_argv.simps Let_def
    by (rule yields_option, rule yields_basic, simp, rule yields_if, rule yields_basic, simp, rule yields_prod, rule yields_if, rule yields_basic, simp,
      rule yields_calm2 [where base = st, OF calm_on(2)], simp, simp only: prod.case) (rule I)
qed (simp add: yields_rules)

section \<open>Operations on descriptors and files\<close>

lemma fun_upd_const [simp]: "(\<lambda>_. c)(x := c) = (\<lambda>_. c)"
  by (simp add: fun_eq_iff)

text \<open>A running process in a state where the counts exceed the descriptors by \<open>d\<close>.\<close>

definition files :: "(nat \<Rightarrow> int) \<Rightarrow> nat \<Rightarrow> ('d, 'u) kernel \<Rightarrow> bool" where
  "files d me st \<longleftrightarrow> files_off d st \<and> me < NPROC \<and> p_state (proc st me) \<notin> closed"

lemma files_calm: "files d me st \<Longrightarrow> calm st st' \<Longrightarrow> files d me st'"
  using files_off_calm [of d st st'] by (auto simp: files_def calm_def)

lemma files_fref:
  assumes "files d me st" "\<And>x. fref (g x) = fref x + c"
  shows "files (d(f := d f + c)) me (fupd f g st)"
proof -
  have "fd_refs (fupd f g st) h = fd_refs st h" for h by (rule fd_refs_cong) (simp add: fupd_def)
  then show ?thesis using assms unfolding files_def files_off_def fds_ok_def by (simp add: fupd_def)
qed

lemma files_set_fd:
  assumes f: "files d me st" and fd: "fd < NOFILE" and v: "\<And>f. v = Some f \<Longrightarrow> f < NFILE"
  shows "files (\<lambda>f. d f + (if p_ofile (proc st me) ! fd = Some f then 1 else 0) - (if v = Some f then 1 else 0)) me (set_fd me fd v st)"
proof -
  have me: "me < NPROC" "length (p_ofile (proc st me)) = NOFILE" "p_state (proc st me) \<notin> closed" and ok: "fds_ok st"
    using f by (auto simp: files_def files_off_def fds_ok_def)
  have sub: "set ((p_ofile (proc st me))[fd := v]) \<subseteq> insert v (set (p_ofile (proc st me)))" by (rule set_update_subset_insert)
  have old: "length (p_ofile (proc st i)) = NOFILE \<and> (\<forall>f. Some f \<in> set (p_ofile (proc st i)) \<longrightarrow> f < NFILE) \<and>
     (p_state (proc st i) \<in> closed \<longrightarrow> (\<forall>fd < NOFILE. p_ofile (proc st i) ! fd = None))" if "i < NPROC" for i
    using ok that unfolding fds_ok_def by blast
  have mine: "f < NFILE" if "Some f \<in> set ((p_ofile (proc st me))[fd := v])" for f
  proof -
    have "Some f \<in> insert v (set (p_ofile (proc st me)))" using sub that by (rule subsetD)
    then show ?thesis using v [of f] old [OF me(1)] by auto
  qed
  have "fds_ok (set_fd me fd v st)" unfolding fds_ok_def
  proof (intro allI impI)
    fix i assume i: "i < NPROC"
    show "length (p_ofile (proc (set_fd me fd v st) i)) = NOFILE \<and> (\<forall>f. Some f \<in> set (p_ofile (proc (set_fd me fd v st) i)) \<longrightarrow> f < NFILE) \<and>
     (p_state (proc (set_fd me fd v st) i) \<in> closed \<longrightarrow> (\<forall>fda < NOFILE. p_ofile (proc (set_fd me fd v st) i) ! fda = None))"
    proof (cases "i = me")
      case True
      then show ?thesis using me mine by (simp add: set_fd_def)
    next
      case False
      then show ?thesis using old [OF i] by (simp add: set_fd_def)
    qed
  qed
  moreover have "fref (ftab (set_fd me fd v st) h) = fref (ftab st h)" for h by (simp add: set_fd_def)
  moreover have "int (fd_refs (set_fd me fd v st) h) = int (fd_refs st h) + (if v = Some h then 1 else 0) - (if p_ofile (proc st me) ! fd = Some h then 1 else 0)" for h
    using fd_refs_set [of me fd st v h] me fd by auto
  ultimately show ?thesis using f me unfolding files_def files_off_def by (auto simp: set_fd_def)
qed

lemma files_fd:
  assumes "files d me st" "fd < NOFILE" "p_ofile (proc st me) ! fd = Some f"
  shows "f < NFILE"
proof -
  have "length (p_ofile (proc st me)) = NOFILE" "\<And>f. Some f \<in> set (p_ofile (proc st me)) \<Longrightarrow> f < NFILE"
    using assms(1) by (auto simp: files_def files_off_def fds_ok_def)
  then show ?thesis using assms(2,3) nth_mem by metis
qed

lemma fileclose_calm: "yields (fileclose rw pd f st) (calm (fupd f (\<lambda>x. x\<lparr>fref := fref x - 1\<rparr>) st))"
proof -
  let ?s = "fupd f (\<lambda>x. x\<lparr>fref := fref x - 1\<rparr>) st"
  let ?t = "fupd f (\<lambda>x. x\<lparr>fref := 0, ftype := FD_NONE\<rparr>) ?s"
  have t: "calm ?s ?t" if "\<not> fref (ftab st f) < 1" "\<not> 0 < fref (ftab ?s f)" by (rule calm_fupd) (use that in simp)
  have "yields (close_pipe p w ?t) (calm ?t)" for p w
    unfolding close_pipe_def by (auto simp: yields_def outcome_iff Let_def calm_def split: prod.splits if_splits)
  note P = yields_mono [OF this]
  have B: "yields (obind (on_fs fs_begin_op ?t) (\<lambda>st. obind (on_fs (iput rw pd ip) st) (on_fs (fs_end_op rw pd)))) (calm ?t)" for ip
    by (rule yields_calm [where base = ?t, OF calm_on(3)], simp, rule yields_calm [where base = ?t, OF calm_on(3)], assumption)
      (rule yields_mono [OF calm_on(3)], erule calm_trans)
  note B' = yields_mono [OF B]
  show ?thesis unfolding fileclose_def Let_def
    by (rule yields_if, rule yields_basic, rule yields_if, rule yields_basic, simp, rule yields_if, rule P, erule calm_trans [rotated], rule t, assumption+,
      rule yields_if, rule B', erule calm_trans [rotated], rule t, assumption+, rule yields_basic, rule t, assumption+)
qed

lemma files_fileclose: "files d me st \<Longrightarrow> yields (fileclose rw pd f st) (files (d(f := d f - 1)) me)"
proof -
  assume "files d me st"
  then have "files (d(f := d f + - 1)) me (fupd f (\<lambda>x. x\<lparr>fref := fref x - 1\<rparr>) st)" by (rule files_fref) simp
  note F = files_calm [OF this]
  show ?thesis by (rule yields_mono [OF fileclose_calm]) (use F in simp)
qed

lemma files_filedup: "files d me st \<Longrightarrow> yields (filedup f st) (\<lambda>(g, st'). g = f \<and> files (d(f := d f + 1)) me st')"
  unfolding filedup_def by (auto intro!: yields_rules files_fref)

lemma files_filealloc:
  assumes "files d me st" "filealloc st = (Some f, st')"
  shows "f < NFILE" "files (d(f := d f + 1)) me st'"
proof -
  have "st' = fupd f (fref_update (\<lambda>_. 1)) st \<and> f < NFILE \<and> fref (ftab st f) = 0"
    by (rule filealloc_cases [of st]) (use assms(2) in auto)
  then have f: "st' = fupd f (fref_update (\<lambda>_. 1)) st" "f < NFILE" "fref (ftab st f) = 0" by auto
  show "f < NFILE" by (rule f(2))
  have "files (d(f := d f + 1)) me (fupd f (\<lambda>x. x\<lparr>fref := fref x + 1\<rparr>) st)" by (rule files_fref [OF assms(1)]) simp
  moreover have "fupd f (\<lambda>x. x\<lparr>fref := fref x + 1\<rparr>) st = st'" using f by (simp add: fupd_def fun_eq_iff)
  ultimately show "files (d(f := d f + 1)) me st'" by simp
qed

lemma filealloc_None: "filealloc st = (None, st') \<Longrightarrow> st' = st"
  by (auto simp: filealloc_def split: option.splits)

lemma files_fdalloc:
  assumes "files d me st" "f < NFILE" "fdalloc me f st = (Some fd, st')"
  shows "fd < NOFILE" "files (d(f := d f - 1)) me st'" "p_ofile (proc st' me) ! fd = Some f" "pool st' = pool st"
proof -
  have fd: "fd < NOFILE" "p_ofile (proc st me) ! fd = None" "st' = set_fd me fd (Some f) st"
    using assms(3) by (auto simp: fdalloc_def find_Some_iff split: option.splits)
  have len: "length (p_ofile (proc st me)) = NOFILE" using assms(1) by (auto simp: files_def files_off_def fds_ok_def)
  show "fd < NOFILE" by (rule fd(1))
  show "p_ofile (proc st' me) ! fd = Some f" "pool st' = pool st" using fd len by (simp_all add: set_fd_def)
  have "(\<lambda>h. d h + (if p_ofile (proc st me) ! fd = Some h then 1 else 0) - (if Some f = Some h then 1 else 0)) = d(f := d f - 1)"
    using fd(2) by (auto simp: fun_eq_iff)
  then show "files (d(f := d f - 1)) me st'" using files_set_fd [OF assms(1) fd(1), of "Some f"] assms(2) fd(3) by simp
qed

lemma fdalloc_None: "fdalloc me f st = (None, st') \<Longrightarrow> st' = st"
  by (auto simp: fdalloc_def split: option.splits)

lemma files_clear_fd:
  assumes "files d me st" "fd < NOFILE" "p_ofile (proc st me) ! fd = Some f"
  shows "files (d(f := d f + 1)) me (set_fd me fd None st)"
proof -
  have "(\<lambda>h. d h + (if p_ofile (proc st me) ! fd = Some h then 1 else 0) - (if None = Some h then 1 else 0)) = d(f := d f + 1)"
    using assms(3) by (auto simp: fun_eq_iff)
  then show ?thesis using files_set_fd [OF assms(1,2), of None] by simp
qed

section \<open>System calls on descriptors\<close>

lemma sysret_files: "files d me st \<Longrightarrow> yields (sysret v st) (\<lambda>(r, st'). files d me st')"
  by (simp add: sysret_def yields_rules)

lemma argfd_files: "files d me st \<Longrightarrow> yields (argfd me n st) (\<lambda>r. \<forall>fd f. r = Some (fd, f) \<longrightarrow> fd < NOFILE \<and> p_ofile (proc st me) ! fd = Some f \<and> f < NFILE)"
proof -
  assume f: "files d me st"
  have "unat x < NOFILE" if x: "\<not> (sint x < 0 \<or> int NOFILE \<le> sint x)" for x :: i32
  proof -
    have "uint x < 2 ^ 31"
    proof (rule ccontr)
      assume "\<not> uint x < 2 ^ 31"
      then have "sint x = uint x - 2 ^ 32" using sint_cases [of x] by argo
      moreover have "uint x < 2 ^ 32" using uint_lt2p [of x] by simp
      ultimately show False using x by linarith
    qed
    then have "sint x = int (unat x)" using sint_cases [of x] by simp
    then show ?thesis using x by linarith
  qed
  note U = this
  show ?thesis unfolding argfd_def
  proof (rule yields_true, rule yields_if, rule yields_basic)
    fix x :: i32
    assume "\<not> (sint x < 0 \<or> int NOFILE \<le> sint x)"
    then have u: "unat x < NOFILE" by (rule U)
    show "yields (Ok (map_option (\<lambda>f. (unat x, f)) (p_ofile (proc st me) ! unat x)))
      (\<lambda>r. \<forall>fd f. r = Some (fd, f) \<longrightarrow> fd < NOFILE \<and> p_ofile (proc st me) ! fd = Some f \<and> f < NFILE)"
    proof (rule yields_basic, intro allI impI)
      fix fd g assume "map_option (\<lambda>f. (unat x, f)) (p_ofile (proc st me) ! unat x) = Some (fd, g)"
      then have "fd = unat x" "p_ofile (proc st me) ! fd = Some g" by auto
      then show "fd < NOFILE \<and> p_ofile (proc st me) ! fd = Some g \<and> g < NFILE" using u files_fd [OF f, of fd g] by blast
    qed
  qed simp
qed

lemma sys_dup_files:
  fixes st :: "('d, 'u) kernel"
  assumes F: "files (\<lambda>_. 0) me st"
  shows "yields (sys_dup me st) (\<lambda>(r, st'). files (\<lambda>_. 0) me st')"
proof -
  have "yields (case fdalloc me f st of (None, st) \<Rightarrow> sysret (-1) st
     | (Some fd, st) \<Rightarrow> obind (filedup f st) (\<lambda>(_, st). sysret (int fd) st)) (\<lambda>(r, st'). files (\<lambda>_. 0) me st')" if f: "f < NFILE" for f
  proof (cases "fdalloc me f st")
    case (Pair r s)
    show ?thesis
    proof (cases r)
      case None then show ?thesis using Pair fdalloc_None [of me f st s] F by (auto intro: sysret_files)
    next
      case (Some fd)
      then have s: "files ((\<lambda>_. 0)(f := 0 - 1)) me s" using files_fdalloc(2) [OF F f] Pair by auto
      have "yields (obind (filedup f s) (\<lambda>(_, st). sysret (int fd) st)) (\<lambda>(r, st'). files (\<lambda>_. 0) me st')"
        by (rule yields_obind, rule yields_mono [OF files_filedup [OF s]]) (auto intro!: sysret_files)
      then show ?thesis using Pair Some by simp
    qed
  qed
  note C = this
  show ?thesis unfolding sys_dup_def
    by (rule yields_obind, rule yields_mono [OF argfd_files [OF F]], rule yields_option, rule sysret_files [OF F], rule yields_prod, rule C) auto
qed

lemma sys_close_files:
  fixes st :: "('d, 'u) kernel"
  assumes F: "files (\<lambda>_. 0) me st"
  shows "yields (sys_close e me st) (\<lambda>(r, st'). files (\<lambda>_. 0) me st')"
proof -
  have C: "yields (fileclose (e_rw e) pd f (set_fd me fd None st)) (files (\<lambda>_. 0) me)" if "fd < NOFILE \<and> p_ofile (proc st me) ! fd = Some f \<and> f < NFILE" for pd f fd
    by (rule yields_mono [OF files_fileclose [OF files_clear_fd [OF F]]]) (use that in auto)
  show ?thesis unfolding sys_close_def
    by (rule yields_obind, rule yields_mono [OF argfd_files [OF F]], rule yields_option, rule sysret_files [OF F], rule yields_prod,
      rule yields_obind, rule yields_mono [OF C]) (auto intro: sysret_files)
qed

section \<open>Opening files and pipes\<close>

lemma yields_files: "yields m (calm st) \<Longrightarrow> files d me st \<Longrightarrow> (\<And>s. files d me s \<Longrightarrow> yields (f s) P) \<Longrightarrow> yields (obind m f) P"
  by (rule yields_obind, erule yields_mono) (simp add: files_calm [of d me st])

lemma yields_files2: "yields m (\<lambda>(x, s). calm st s) \<Longrightarrow> files d me st \<Longrightarrow> (\<And>x s. files d me s \<Longrightarrow> yields (f (x, s)) P) \<Longrightarrow> yields (obind m f) P"
  by (rule yields_obind, erule yields_mono) (auto simp: files_calm [of d me st])

lemma files_close:
  assumes "files d me st" "d' = d(f := d f - 1)" "\<And>s. files d' me s \<Longrightarrow> yields (g s) P"
  shows "yields (obind (fileclose rw pd f st) g) P"
  by (rule yields_obind, rule yields_mono [OF files_fileclose [OF assms(1)]]) (use assms(2,3) in simp)

lemma open_fail_files: "files d me st \<Longrightarrow> yields (open_fail e me ip st) (\<lambda>(r, st'). files d me st')"
  unfolding open_fail_def
  by (rule yields_files [OF calm_on(3)], assumption, rule yields_files [OF calm_tx(2)], assumption) (erule sysret_files)

lemma sys_open_files:
  fixes st :: "('d, 'u) kernel"
  assumes F: "files (\<lambda>_. 0) me st"
  shows "yields (sys_open e me st) (\<lambda>(r, st'). files (\<lambda>_. 0) me st')"
proof -
  have T: "yields (if b then on_fs op s else Ok s) (calm s)" for b op and s :: "('d, 'u) kernel"
    by (rule yields_if [OF calm_on(3)]) (simp add: yields_rules)
  have "yields (let x = itab (fsys s) ip; s = fupd f (open_file omode ip x) s in
             obind (if omode AND O_TRUNC \<noteq> 0 \<and> itype x = T_FILE then on_fs (itrunc (e_rw e) (p_pid (proc s me)) ip) s else Ok s) (\<lambda>st.
             obind (on_fs (iunlock (p_pid (proc st me)) ip) st) (\<lambda>st.
             obind (end_tx e me st) (\<lambda>st. sysret (int fd) st)))) (\<lambda>(r, st'). files (\<lambda>_. 0) me st')" if "files (\<lambda>_. 0) me s" for s ip f fd omode
  proof -
    have "calm s (fupd f (open_file omode ip (itab (fsys s) ip)) s)" by (rule calm_fupd) (simp add: open_file_def Let_def)
    with that have s: "files (\<lambda>_. 0) me (fupd f (open_file omode ip (itab (fsys s) ip)) s)" by (rule files_calm)
    show ?thesis unfolding Let_def
      by (rule yields_files [OF T s], rule yields_files [OF calm_on(3)], assumption, rule yields_files [OF calm_tx(2)], assumption) (erule sysret_files)
  qed
  note good = this
  have "yields (case filealloc s of
         (None, st) \<Rightarrow> open_fail e me ip st
       | (Some f, st) \<Rightarrow> (case fdalloc me f st of
           (None, st) \<Rightarrow> obind (fileclose (e_rw e) (p_pid (proc st me)) f st) (open_fail e me ip)
         | (Some fd, st) \<Rightarrow> let x = itab (fsys st) ip; st = fupd f (open_file omode ip x) st in
             obind (if omode AND O_TRUNC \<noteq> 0 \<and> itype x = T_FILE then on_fs (itrunc (e_rw e) (p_pid (proc st me)) ip) st else Ok st) (\<lambda>st.
             obind (on_fs (iunlock (p_pid (proc st me)) ip) st) (\<lambda>st.
             obind (end_tx e me st) (\<lambda>st. sysret (int fd) st))))) (\<lambda>(r, st'). files (\<lambda>_. 0) me st')" if s: "files (\<lambda>_. 0) me s" for s :: "('d, 'u) kernel" and ip omode
  proof (cases "filealloc s")
    case (Pair r t)
    show ?thesis
    proof (cases r)
      case None
      then show ?thesis using Pair filealloc_None [of s t] s open_fail_files by simp
    next
      case (Some f)
      then have f: "f < NFILE" "files ((\<lambda>_. 0)(f := 0 + 1)) me t" using files_filealloc [OF s] Pair by auto
      obtain q u where fd: "fdalloc me f t = (q, u)" by fastforce
      show ?thesis
      proof (cases q)
        case None
        have "yields (obind (fileclose (e_rw e) (p_pid (proc t me)) f t) (open_fail e me ip)) (\<lambda>(r, st'). files (\<lambda>_. 0) me st')"
          by (rule files_close [OF f(2), where d' = "\<lambda>_. 0"]) (auto simp: fun_eq_iff intro: open_fail_files)
        then show ?thesis using Pair Some fd None fdalloc_None [of me f t u] by simp
      next
        case (Some fd')
        have "files (\<lambda>_. 0) me u" using files_fdalloc(2) [OF f(2,1)] fd Some by (simp add: fun_upd_upd)
        then show ?thesis using Pair \<open>r = Some f\<close> fd Some good by simp
      qed
    qed
  qed
  note A = this
  show ?thesis unfolding sys_open_def
    by (rule yields_true, rule yields_true, rule yields_option, rule sysret_files [OF F], rule yields_files [OF calm_tx(1) F],
      rule yields_files2 [OF calm_with_cwd], assumption, simp only: prod.case, rule yields_option, rule yields_files [OF calm_tx(2)], assumption,
      erule sysret_files) (erule A)
qed

lemma files_pipealloc:
  fixes st :: "('d, 'u) kernel"
  assumes F: "files (\<lambda>_. 0) me st"
  shows "yields (pipealloc rw pd st) (\<lambda>(r, st'). case r of None \<Rightarrow> files (\<lambda>_. 0) me st'
    | Some (a, b) \<Rightarrow> a < NFILE \<and> b < NFILE \<and> files (\<lambda>f. (if f = a then 1 else 0) + (if f = b then 1 else 0)) me st')" (is "yields _ ?P")
proof (cases "filealloc st")
  case (Pair r s)
  show ?thesis
  proof (cases r)
    case None
    then show ?thesis using Pair filealloc_None [of st s] F by (simp add: pipealloc_def yields_rules)
  next
    case (Some a)
    then have a: "a < NFILE" "files ((\<lambda>_. 0)(a := 0 + 1)) me s" using files_filealloc [OF F] Pair by auto
    have C: "yields (obind (fileclose rw pd a s') (\<lambda>st. Ok (None, st))) ?P" if "files ((\<lambda>_. 0)(a := 0 + 1)) me s'" for s'
      by (rule files_close [OF that, where d' = "\<lambda>_. 0"]) (auto simp: fun_eq_iff intro: yields_basic)
    obtain q t where q: "filealloc s = (q, t)" by fastforce
    show ?thesis
    proof (cases q)
      case None
      then show ?thesis using Pair Some q filealloc_None [of s t] C [OF a(2)] by (simp add: pipealloc_def)
    next
      case (Some b)
      let ?d = "\<lambda>f. (if f = a then 1 else 0) + (if f = b then 1 else 0) :: int"
      obtain p k where k: "kalloc (pool t) = (p, k)" by fastforce
      have "((\<lambda>_. 0)(a := 0 + 1))(b := ((\<lambda>_. 0)(a := 0 + 1)) b + 1) = ?d" by (auto simp: fun_eq_iff)
      then have b: "b < NFILE" "files ?d me t" using files_filealloc [OF a(2)] q Some by auto
      have k': "files ?d me (t\<lparr>pool := k\<rparr>)" by (rule files_calm [OF b(2)]) simp
      have undo: "yields (obind (fileclose rw pd a (t\<lparr>pool := k\<rparr>)) (\<lambda>st. obind (fileclose rw pd b st) (\<lambda>st. Ok (None, st)))) ?P"
        by (rule files_close [OF k', where d' = "(\<lambda>_. 0)(b := 0 + 1)"], force simp: fun_eq_iff, erule files_close [where d' = "\<lambda>_. 0"])
          (auto simp: fun_eq_iff intro: yields_basic)
      have e: "fref (pipe_end w p x) = fref x" for w x by (simp add: pipe_end_def)
      have "files ?d me (fupd b (pipe_end True p) (fupd a (pipe_end False p) (t\<lparr>pool := k, pipes := z\<rparr>)))" for z
        by (rule files_calm [OF b(2)]) (simp add: calm_def fupd_def e)
      then show ?thesis using Pair \<open>r = Some a\<close> q Some k undo a b by (auto simp: pipealloc_def Let_def intro!: yields_if yields_basic)
    qed
  qed
qed

lemma fdalloc_Some: "fdalloc me f st = (Some fd, st') \<Longrightarrow> p_ofile (proc st me) ! fd = None \<and> st' = set_fd me fd (Some f) st"
  by (auto simp: fdalloc_def find_Some_iff split: option.splits)

lemma calm_ofile: "calm st s \<Longrightarrow> p_ofile (proc s i) = p_ofile (proc st i)"
  by (simp add: calm_def)

lemma pipe_undo_files:
  assumes "files (\<lambda>f. (if f = a then 1 else 0) + (if f = b then 1 else 0)) me st"
  shows "yields (pipe_undo e me a b st) (\<lambda>(r, st'). files (\<lambda>_. 0) me st')"
  unfolding pipe_undo_def
  by (rule files_close [OF assms, where d' = "(\<lambda>_. 0)(b := 0 + 1)"], force simp: fun_eq_iff, erule files_close [where d' = "\<lambda>_. 0"])
    (auto simp: fun_eq_iff intro: sysret_files)

lemma sys_pipe_files:
  fixes st :: "('d, 'u) kernel"
  assumes F: "files (\<lambda>_. 0) me st"
  shows "yields (sys_pipe e me st) (\<lambda>(r, st'). files (\<lambda>_. 0) me st')" (is "yields _ ?P")
proof -
  have M: "yields (if b then Ok (v, s) else on_mem_val op s) (\<lambda>(r, s'). calm s s')" for b v op and s :: "('d, 'u) kernel"
    by (rule yields_if, rule yields_basic, simp, rule calm_on(2))
  have "yields (case fdalloc me a s of
       (None, st) \<Rightarrow> pipe_undo e me a b st
     | (Some fd0, st) \<Rightarrow> (case fdalloc me b st of
         (None, st) \<Rightarrow> pipe_undo e me a b (set_fd me fd0 None st)
       | (Some fd1, st) \<Rightarrow> let pt = p_pagetable (proc st me) in
           obind (on_mem_val (copyout_var (e_var e) pt va (le_encode 4 fd0)) st) (\<lambda>(v, st).
           obind (if sint v < 0 then Ok (v, st) else on_mem_val (copyout_var (e_var e) pt (va + 4) (le_encode 4 fd1)) st) (\<lambda>(v, st).
             if sint v < 0 then pipe_undo e me a b (set_fd me fd1 None (set_fd me fd0 None st))
             else sysret 0 st)))) ?P"
    if ab: "a < NFILE" "b < NFILE" and s: "files (\<lambda>f. (if f = a then 1 else 0) + (if f = b then 1 else 0)) me s" for s a b va
  proof (cases "fdalloc me a s")
    case (Pair r t)
    show ?thesis
    proof (cases r)
      case None
      then show ?thesis using Pair fdalloc_None [of me a s t] pipe_undo_files [OF s] by simp
    next
      case (Some fd0)
      let ?d = "\<lambda>f. (if f = a then 1 else 0) + (if f = b then 1 else 0) :: int"
      have "?d(a := ?d a - 1) = (\<lambda>_. 0)(b := 1)" by (auto simp: fun_eq_iff)
      then have t: "fd0 < NOFILE" "files ((\<lambda>_. 0)(b := 1)) me t" "p_ofile (proc t me) ! fd0 = Some a"
        using files_fdalloc [OF s ab(1)] Pair Some by auto
      have clear: "files (d(a := d a + 1)) me (set_fd me fd0 None u)" if "files d me u" "p_ofile (proc u me) ! fd0 = Some a" for d u
        by (rule files_clear_fd [OF that(1) t(1) that(2)])
      have d: "((\<lambda>_. 0)(b := 1))(a := ((\<lambda>_. 0)(b := 1)) a + 1) = ?d" by (auto simp: fun_eq_iff)
      obtain q u where q: "fdalloc me b t = (q, u)" by fastforce
      show ?thesis
      proof (cases q)
        case None
        then have "files ?d me (set_fd me fd0 None u)" using clear [OF t(2,3)] d q fdalloc_None [of me b t u] by simp
        then show ?thesis using Pair Some q None pipe_undo_files [of a b me] by simp
      next
        case (Some fd1)
        have fd1: "fd1 < NOFILE" "files (\<lambda>_. 0) me u" "p_ofile (proc u me) ! fd1 = Some b" "p_ofile (proc t me) ! fd1 = None" "u = set_fd me fd1 (Some b) t"
          using files_fdalloc [OF t(2) ab(2)] fdalloc_Some [of me b t fd1 u] q Some by (auto simp: fun_upd_upd)
        then have ne: "fd1 \<noteq> fd0" using t(3) by auto
        have len: "length (p_ofile (proc u me)) = NOFILE" using fd1(2) by (auto simp: files_def files_off_def fds_ok_def)
        have u: "p_ofile (proc u me) ! fd0 = Some a" using fd1(5) t(3) ne by (simp add: set_fd_def)
        have fin: "yields (if sint v < 0 then pipe_undo e me a b (set_fd me fd1 None (set_fd me fd0 None x)) else sysret 0 x) ?P" if x: "calm u x" for v :: i32 and x
        proof (rule yields_if)
          have fx: "files (\<lambda>_. 0) me x" by (rule files_calm [OF fd1(2) x])
          have c: "files ((\<lambda>_. 0)(a := 0 + 1)) me (set_fd me fd0 None x)" by (rule clear [OF fx]) (use calm_ofile [OF x] u in simp)
          have "p_ofile (proc (set_fd me fd0 None x) me) ! fd1 = Some b" using calm_ofile [OF x] fd1(3) ne by (simp add: set_fd_def)
          with c fd1(1) have "files (((\<lambda>_. 0)(a := 0 + 1))(b := ((\<lambda>_. 0)(a := 0 + 1)) b + 1)) me (set_fd me fd1 None (set_fd me fd0 None x))"
            by (rule files_clear_fd)
          moreover have "((\<lambda>_. 0)(a := 0 + 1))(b := ((\<lambda>_. 0)(a := 0 + 1)) b + 1) = ?d" by (auto simp: fun_eq_iff)
          ultimately show "yields (pipe_undo e me a b (set_fd me fd1 None (set_fd me fd0 None x))) ?P" by (simp add: pipe_undo_files)
          show "yields (sysret 0 x) ?P" by (rule sysret_files [OF fx])
        qed
        have "yields (let pt = p_pagetable (proc u me) in
           obind (on_mem_val (copyout_var (e_var e) pt va (le_encode 4 fd0)) u) (\<lambda>(v, st).
           obind (if sint v < 0 then Ok (v, st) else on_mem_val (copyout_var (e_var e) pt (va + 4) (le_encode 4 fd1)) st) (\<lambda>(v, st).
             if sint v < 0 then pipe_undo e me a b (set_fd me fd1 None (set_fd me fd0 None st))
             else sysret 0 st))) ?P" unfolding Let_def
          by (rule yields_calm2 [where base = u, OF calm_on(2)], simp, simp only: prod.case, rule yields_calm2 [where base = u, OF M], assumption,
            simp only: prod.case, erule fin)
        then show ?thesis using Pair \<open>r = Some fd0\<close> q Some by simp
      qed
    qed
  qed
  note A = this
  show ?thesis unfolding sys_pipe_def
    by (rule yields_true, rule yields_obind, rule yields_mono [OF files_pipealloc [OF F]], rule yields_prod, rule yields_option, rule sysret_files, simp,
      rule yields_prod, rule A) auto
qed

section \<open>Fork and exit\<close>

lemma yields_ofold_upt:
  assumes "\<And>k s. k < n \<Longrightarrow> J k s \<Longrightarrow> yields (f k s) (J (Suc k))" "J 0 s"
  shows "yields (ofold f [0..<n] s) (J n)"
  using assms
proof (induction n)
  case (Suc n)
  have "yields (ofold f [0..<n] s) (J n)" using Suc.prems by (intro Suc.IH) auto
  then have "yields (ofold f [0..<n] s) (\<lambda>s. yields (f n s) (J (Suc n)))" by (rule yields_mono) (use Suc.prems in auto)
  then have "yields (obind (ofold f [0..<n] s) (f n)) (J (Suc n))" by (rule yields_obind)
  moreover have "ofold f [n] = f n"
  proof
    fix x show "ofold f [n] x = f n x" by (cases "f n x") simp_all
  qed
  ultimately show ?case by (simp add: ofold_append)
qed (simp add: yields_rules)

lemma calm_free_none:
  "calm st s \<Longrightarrow> p_state (proc st i) \<in> closed \<Longrightarrow> yields (obind (freeproc i s) (\<lambda>st. Ok (None, st))) (\<lambda>(r, st'). r = None \<and> calm st st')"
  by (rule yields_obind, rule yields_mono [OF calm_freeproc]) (auto intro: yields_basic)

lemmas calm_free = yields_mono [OF calm_free_none]

lemma calm_allocproc:
  fixes st :: "('d, 'u) kernel"
  shows "yields (allocproc tramp ret st) (\<lambda>(r, st'). calm st st')"
proof (cases "List.find (\<lambda>i. p_state (proc st i) = UNUSED) [0..<NPROC]")
  case None then show ?thesis by (simp add: allocproc_def yields_rules)
next
  case (Some i)
  then have i: "p_state (proc st i) \<in> closed" by (auto simp: find_Some_iff)
  have C: "calm st (pupd i f s)" if "calm st s" "\<And>p. p_ofile (f p) = p_ofile p" for s f
    using that i by (auto simp: calm_def)
  define s1 where "s1 = pupd i (\<lambda>p. p\<lparr>p_pid := nextpid st, p_state := USED\<rparr>) (st\<lparr>nextpid := nextpid st + 1\<rparr>)"
  have "calm st s1" unfolding s1_def by (rule C) simp_all
  obtain tf k where tf': "kalloc (pool st) = (tf, k)" by fastforce
  define s2 where "s2 = pupd i (p_trapframe_update (\<lambda>_. tf)) (s1\<lparr>pool := k\<rparr>)"
  have s2: "calm st s2" unfolding s2_def by (rule C, rule calm_trans [OF \<open>calm st s1\<close>]) simp_all
  have rest: "yields (let s = pupd i (p_pagetable_update (\<lambda>_. pt)) s3 in
        if pt = 0 then obind (freeproc i s) (\<lambda>st. Ok (None, st))
        else Ok (Some i, pupd i (\<lambda>p. p\<lparr>p_context := \<lparr>ctx_ra = ret, ctx_sp = p_kstack p + PGSIZE, ctx_s = replicate 12 0\<rparr>\<rparr>) s))
      (\<lambda>(r, st'). calm st st')" if "calm st s3" for pt and s3 :: "('d, 'u) kernel"
    unfolding Let_def by (rule yields_if, rule calm_free, rule C [OF that], simp, rule i, simp add: split_beta, rule yields_basic, simp only: prod.case, intro C that) simp_all
  have "allocproc tramp ret st = (if tf = 0 then obind (freeproc i s2) (\<lambda>st. Ok (None, st))
      else obind (on_mem_val (proc_pagetable tramp tf) s2) (\<lambda>(pt, s3). let s = pupd i (p_pagetable_update (\<lambda>_. pt)) s3 in
        if pt = 0 then obind (freeproc i s) (\<lambda>st. Ok (None, st))
        else Ok (Some i, pupd i (\<lambda>p. p\<lparr>p_context := \<lparr>ctx_ra = ret, ctx_sp = p_kstack p + PGSIZE, ctx_s = replicate 12 0\<rparr>\<rparr>) s)))"
    unfolding allocproc_def by (simp add: Some allocpid_def Let_def tf' s2_def s1_def)
  also have "yields \<dots> (\<lambda>(r, st'). calm st st')"
    by (rule yields_if, rule calm_free [OF s2 i], simp add: split_beta, rule yields_calm2 [where base = st, OF calm_on(2) s2], simp only: prod.case, erule rest)
  finally show ?thesis .
qed

text \<open>Copying the descriptors of \<open>me\<close> to a new process \<open>np\<close>, whose descriptors from \<open>k\<close> on are free.\<close>

definition fds_copied :: "nat \<Rightarrow> nat \<Rightarrow> nat \<Rightarrow> ('d, 'u) kernel \<Rightarrow> bool" where
  "fds_copied me np k st \<longleftrightarrow> files (\<lambda>_. 0) me st \<and> files (\<lambda>_. 0) np st \<and> np \<noteq> me \<and> (\<forall>fd. k \<le> fd \<and> fd < NOFILE \<longrightarrow> p_ofile (proc st np) ! fd = None)"

lemma files_other: "files d me st \<Longrightarrow> files d' np st \<Longrightarrow> files d np st"
  by (simp add: files_def)

lemma dup_file_copied:
  assumes k: "k < NOFILE" and c: "fds_copied me np k st"
  shows "yields (dup_file me np k st) (fds_copied me np (Suc k))"
proof (cases "p_ofile (proc st me) ! k")
  case None
  then show ?thesis using c by (auto simp: dup_file_def fds_copied_def intro: yields_basic)
next
  case (Some f)
  let ?s = "fupd f (\<lambda>x. x\<lparr>fref := fref x + 1\<rparr>) st"
  let ?t = "set_fd np k (Some f) ?s"
  have ok: "files (\<lambda>_. 0) me st" "files (\<lambda>_. 0) np st" "np \<noteq> me" and free: "\<And>fd. k \<le> fd \<Longrightarrow> fd < NOFILE \<Longrightarrow> p_ofile (proc st np) ! fd = None"
    using c by (auto simp: fds_copied_def)
  have f: "f < NFILE" by (rule files_fd [OF ok(1) k Some])
  have s: "files ((\<lambda>_. 0)(f := 0 + 1)) np ?s" by (rule files_fref [OF ok(2)]) simp
  have s': "p_ofile (proc ?s np) ! fd = p_ofile (proc st np) ! fd" for fd by (simp add: fupd_def)
  have "files (\<lambda>h. ((\<lambda>_. 0)(f := 0 + 1)) h + (if p_ofile (proc ?s np) ! k = Some h then 1 else 0) - (if Some f = Some h then 1 else 0)) np ?t"
    by (rule files_set_fd [OF s k]) (use f in simp)
  moreover have "(\<lambda>h. ((\<lambda>_. 0)(f := 0 + 1)) h + (if p_ofile (proc ?s np) ! k = Some h then 1 else 0) - (if Some f = Some h then 1 else 0)) = (\<lambda>_. 0 :: int)"
    using free [of k] k s' [of k] by (auto simp: fun_eq_iff)
  ultimately have t: "files (\<lambda>_. 0) np ?t" by simp
  have "me < NPROC" "p_state (proc ?t me) \<notin> closed" using ok(1,3) by (auto simp: files_def set_fd_def fupd_def)
  then have "files (\<lambda>_. 0) me ?t" using t by (simp add: files_def)
  moreover have "p_ofile (proc ?t np) ! fd = None" if "Suc k \<le> fd" "fd < NOFILE" for fd
    using free [of fd] that by (simp add: set_fd_def fupd_def)
  ultimately have "fds_copied me np (Suc k) ?t" using t ok(3) by (simp add: fds_copied_def)
  then show ?thesis by (auto simp: dup_file_def Some filedup_def set_fd_def intro!: yields_if yields_basic)
qed

lemma fork_child_files:
  fixes st :: "('d, 'u) kernel"
  assumes F: "files (\<lambda>_. 0) me st"
  shows "yields (fork_child tramp ret me st) (\<lambda>(r, st'). files (\<lambda>_. 0) me st' \<and> (\<forall>np. r = Some np \<longrightarrow> files (\<lambda>_. 0) np st'))" (is "yields _ ?P")
proof -
  have "yields (let p = proc s me in
       obind (on_mem_val (uvmcopy (p_pagetable p) (p_pagetable (proc s np)) (p_sz p)) s) (\<lambda>(r, st).
       if sint r < 0 then obind (freeproc np st) (\<lambda>st. Ok (None, st))
       else let
         st = pupd np (p_sz_update (\<lambda>_. p_sz p)) st;
         k = pool st;
         st = st\<lparr>pool := k\<lparr>mem := write_bytes (mem k) (p_trapframe (proc st np)) (read_bytes (mem k) (p_trapframe p) tf_size)\<rparr>\<rparr>;
         st = tf_set np tf_a0 0 st
       in obind (ofold (dup_file me np) [0..<NOFILE] st) (\<lambda>st. case p_cwd p of
         None \<Rightarrow> Undefined
       | Some cwd \<Rightarrow> (case idup cwd (fsys st) of (ip, s) \<Rightarrow>
           Ok (Some np, pupd np (\<lambda>q. q\<lparr>p_cwd := Some ip, p_name := copy_name (p_name q) (p_name p)\<rparr>) (st\<lparr>fsys := s\<rparr>)))))) ?P"
    if s: "calm st s" "np < NPROC" "p_state (proc st np) = UNUSED" "p_state (proc s np) = USED" for s np
  proof -
    have np: "p_state (proc st np) \<in> closed" using s(3) by simp
    have free: "p_ofile (proc st np) ! fd = None" if "fd < NOFILE" for fd
      using F s(2,3) that by (auto simp: files_def files_off_def fds_ok_def)
    have ne: "np \<noteq> me" using F s(3) by (auto simp: files_def)
    have fail: "yields (obind (freeproc np a) (\<lambda>st. Ok (None, st))) ?P" if "calm st a" for a
      by (rule calm_free [OF that np]) (use F in \<open>auto intro: files_calm\<close>)
    have start: "fds_copied me np 0 u" if "calm st u" "p_state (proc u np) = USED" for u
    proof -
      have "files (\<lambda>_. 0) me u" by (rule files_calm [OF F that(1)])
      moreover from this have "files (\<lambda>_. 0) np u" using that s(2) by (simp add: files_def)
      ultimately show ?thesis using ne free calm_ofile [OF that(1)] by (simp add: fds_copied_def)
    qed
    have loop: "yields (obind (ofold (dup_file me np) [0..<NOFILE] u) (\<lambda>st. case p_cwd (proc s me) of
         None \<Rightarrow> Undefined
       | Some cwd \<Rightarrow> (case idup cwd (fsys st) of (ip, s') \<Rightarrow>
           Ok (Some np, pupd np (\<lambda>q. q\<lparr>p_cwd := Some ip, p_name := copy_name (p_name q) (p_name (proc s me))\<rparr>) (st\<lparr>fsys := s'\<rparr>))))) ?P"
      if u: "fds_copied me np 0 u" for u
    proof -
      have "calm a (pupd np (\<lambda>q. q\<lparr>p_cwd := ip, p_name := copy_name (p_name q) nm\<rparr>) (a\<lparr>fsys := s'\<rparr>))" for a :: "('d, 'u) kernel" and ip nm s'
        by (auto simp: calm_def)
      note Z = files_calm [OF _ this]
      show ?thesis
        by (rule yields_obind, rule yields_mono, rule yields_ofold_upt [where J = "fds_copied me np", OF dup_file_copied], assumption+, rule u)
          (auto simp: fds_copied_def intro!: yields_option yields_basic Z split: prod.split)
    qed
    have M: "yields (on_mem_val op s) (\<lambda>(x, s'). calm st s' \<and> p_state (proc s' np) = USED)" for op :: "kmem \<Rightarrow> (i32 \<times> kmem) outcome"
      using on_procs(2) [of op s] calm_on(2) [of op s] s(1,4) by (auto simp: yields_def same_procs_def intro: calm_trans)
    have cont: "fds_copied me np 0 (tf_set np tf_a0 0 ((pupd np (p_sz_update (\<lambda>_. z)) a)\<lparr>pool := k\<rparr>))" if "calm st a" "p_state (proc a np) = USED" for a k z
      by (rule start) (use that in \<open>auto simp: calm_def tf_set_def\<close>)
    show ?thesis unfolding Let_def
      by (rule yields_obind, rule yields_mono [OF M], rule yields_prod, rule yields_if, rule fail, simp, rule loop, rule cont) simp_all
  qed
  note A = this
  have "yields (allocproc tramp ret st) (\<lambda>(r, st'). allocated (table st) r (table st') \<and> calm st st')"
    using allocproc_table [of tramp ret st] calm_allocproc [of tramp ret st] by (auto simp: yields_def)
  note B = yields_mono [OF this]
  have U: "p_state (proc s np) = USED" if "table s = t_alloc np (table st)" for np and s :: "('d, 'u) kernel"
    using arg_cong [OF that, of "\<lambda>t. ps t np"] by (simp add: t_alloc_def)
  show ?thesis unfolding fork_child_def
    by (rule yields_obind, rule B, rule yields_prod, rule yields_option, rule yields_basic, use files_calm [OF F] in simp, rule A)
      (auto simp: allocated_def U)
qed

lemma sys_fork_files:
  assumes F: "files (\<lambda>_. 0) me st"
  shows "yields (sys_fork e me st) (\<lambda>(r, st'). files (\<lambda>_. 0) me st')"
proof -
  have "calm s (pupd np (p_trace_mask_update g) (pupd np (p_state_update (\<lambda>_. RUNNABLE)) (pupd np (p_parent_update h) s)))" for np g h and s :: "('d, 'u) kernel"
    by (auto simp: calm_def)
  note C = files_calm [OF _ this]
  show ?thesis unfolding sys_fork_def fork_def Let_def fork_run_def fork_parent_def
    by (rule yields_obind, rule yields_obind, rule yields_mono [OF fork_child_files [OF F]]) (auto intro!: yields_option yields_basic sysret_files C)
qed

text \<open>Closing the descriptors of \<open>me\<close>, up to \<open>k\<close>.\<close>

definition closing :: "nat \<Rightarrow> nat \<Rightarrow> ('d, 'u) kernel \<Rightarrow> bool" where
  "closing me k st \<longleftrightarrow> files (\<lambda>_. 0) me st \<and> (\<forall>fd < k. p_ofile (proc st me) ! fd = None)"

lemma close_fd_closing:
  fixes st :: "('d, 'u) kernel"
  assumes k: "k < NOFILE" and c: "closing me k st"
  shows "yields (close_fd rw me k st) (closing me (Suc k))"
proof (cases "p_ofile (proc st me) ! k")
  case None
  then show ?thesis using c by (auto simp: close_fd_def closing_def less_Suc_eq intro: yields_basic)
next
  case (Some f)
  let ?s = "fupd f (\<lambda>x. x\<lparr>fref := fref x - 1\<rparr>) st"
  have F: "files (\<lambda>_. 0) me st" and none: "\<And>fd. fd < k \<Longrightarrow> p_ofile (proc st me) ! fd = None" using c by (auto simp: closing_def)
  have len: "length (p_ofile (proc st me)) = NOFILE" using F by (auto simp: files_def files_off_def fds_ok_def)
  have s: "files ((\<lambda>_. 0)(f := 0 + - 1)) me ?s" by (rule files_fref [OF F]) simp
  have "closing me (Suc k) (set_fd me k None u)" if u: "calm ?s u" for u
  proof -
    have of: "p_ofile (proc u me) = p_ofile (proc st me)" using calm_ofile [OF u] by (simp add: fupd_def)
    have "files (((\<lambda>_. 0)(f := 0 + - 1))(f := ((\<lambda>_. 0)(f := 0 + - 1)) f + 1)) me (set_fd me k None u)"
      by (rule files_clear_fd [OF files_calm [OF s u] k]) (simp add: of Some)
    then have "files (\<lambda>_. 0) me (set_fd me k None u)" by simp
    moreover have "p_ofile (proc (set_fd me k None u) me) ! fd = None" if "fd < Suc k" for fd
      using none [of fd] that len k by (auto simp: set_fd_def of less_Suc_eq)
    ultimately show ?thesis by (simp add: closing_def)
  qed
  then show ?thesis unfolding close_fd_def Some option.case
    by (intro yields_obind yields_mono [OF fileclose_calm] yields_basic) (simp add: set_fd_def)
qed

lemma calm_reparent: "calm st (reparent p st)"
proof -
  have "calm st (fold (\<lambda>i st. if p_parent (proc st i) = Some p
     then wakeup (Some p) (ProcChan (initproc st)) (pupd i (p_parent_update (\<lambda>_. initproc st)) st) else st) xs st)" for xs
  proof (induction xs arbitrary: st)
    case (Cons x xs)
    have "calm st (pupd x (p_parent_update (\<lambda>_. initproc st)) st)" by (rule calm_pupd) simp_all
    then have "calm st (if p_parent (proc st x) = Some p
     then wakeup (Some p) (ProcChan (initproc st)) (pupd x (p_parent_update (\<lambda>_. initproc st)) st) else st)"
      using calm_trans [OF _ calm_wakeup] by auto
    then show ?case using Cons.IH calm_trans by (simp only: fold.simps comp_def) blast
  qed simp
  then show ?thesis unfolding reparent_def .
qed

lemma closing_zombie:
  assumes "closing me NOFILE st"
  shows "files_ok (pupd me (\<lambda>p. p\<lparr>p_xstate := v, p_state := ZOMBIE\<rparr>) st)"
proof -
  let ?t = "pupd me (\<lambda>p. p\<lparr>p_xstate := v, p_state := ZOMBIE\<rparr>) st"
  have c: "files_off (\<lambda>_. 0) st" "\<And>fd. fd < NOFILE \<Longrightarrow> p_ofile (proc st me) ! fd = None" using assms by (auto simp: closing_def files_def)
  have "fd_refs ?t f = fd_refs st f" for f by (rule fd_refs_cong) simp
  then show ?thesis using c unfolding files_off_def fds_ok_def by auto
qed

lemma closing_calm: "closing me k st \<Longrightarrow> calm st s \<Longrightarrow> closing me k s"
  using files_calm [of "\<lambda>_. 0" me st s] calm_ofile [of st s me] by (simp add: closing_def)

lemma yields_closing: "yields m (calm st) \<Longrightarrow> closing me k st \<Longrightarrow> (\<And>s. closing me k s \<Longrightarrow> yields (f s) P) \<Longrightarrow> yields (obind m f) P"
  by (rule yields_obind, erule yields_mono) (simp add: closing_calm [of me k st])

lemma sys_exit_files:
  fixes st :: "('d, 'u) kernel"
  assumes F: "files (\<lambda>_. 0) me st"
  shows "yields (sys_exit e me st) (\<lambda>(r, st'). files_ok st')"
proof -
  have cwd: "yields (case p_cwd (proc s me) of None \<Rightarrow> Undefined | Some ip \<Rightarrow> on_fs (h ip) s) (calm s)" for h and s :: "('d, 'u) kernel"
    by (rule yields_option [OF yields_basic(5) calm_on(3)])
  have fin: "closing me NOFILE (pupd me (p_cwd_update (\<lambda>_. None)) s)" if "closing me NOFILE s" for s :: "('d, 'u) kernel"
    by (rule closing_calm [OF that calm_pupd]) simp_all
  have "yields (exit_files (e_rw e) me st) (closing me NOFILE)" unfolding exit_files_def
    by (rule yields_if, rule yields_basic, rule yields_obind, rule yields_mono,
      rule yields_ofold_upt [where J = "closing me", OF close_fd_closing], assumption+, simp add: closing_def F,
      rule yields_closing [OF calm_on(3)], assumption, rule yields_closing [OF cwd], assumption, rule yields_closing [OF calm_on(3)], assumption,
      rule yields_basic, erule fin)
  note E = yields_mono [OF this]
  have "files_ok (exit_finish me v s)" if "closing me NOFILE s" for v and s :: "('d, 'u) kernel"
    unfolding exit_finish_def Let_def by (intro closing_zombie closing_calm [OF _ calm_wakeup] closing_calm [OF that calm_reparent])
  then show ?thesis unfolding sys_exit_def exit_def
    by (intro yields_true yields_obind E yields_basic) simp
qed

section \<open>The other system calls\<close>

lemma calm_files: "yields m (\<lambda>(r, st'). calm st st') \<Longrightarrow> files d me st \<Longrightarrow> yields m (\<lambda>(r, st'). files d me st')"
  by (erule yields_mono) (auto intro: files_calm)

lemma calm_sysret [intro]: "calm st s \<Longrightarrow> yields (sysret v s) (\<lambda>(r, st'). calm st st')"
  by (simp add: sysret_def yields_rules)

lemma calm_sys_proc:
  fixes st :: "('d, 'u) kernel"
  shows "yields (sys_wait e me st) (\<lambda>(r, st'). calm st st')" "yields (sys_kill me st) (\<lambda>(r, st'). calm st st')"
    "yields (sys_getpid me st) (\<lambda>(r, st'). calm st st')" "yields (sys_sbrk me st) (\<lambda>(r, st'). calm st st')"
    "yields (sys_sleep me st) (\<lambda>(r, st'). calm st st')" "yields (sys_uptime st) (\<lambda>(r, st'). calm st st')"
    "yields (sys_trace me st) (\<lambda>(r, st'). calm st st')" "yields (sys_sysinfo e me st) (\<lambda>(r, st'). calm st st')"
proof -
  show "yields (sys_wait e me st) (\<lambda>(r, st'). calm st st')" unfolding sys_wait_def
    by (rule yields_true, rule yields_calm2 [where base = st, OF calm_wait]) auto
  show "yields (sys_kill me st) (\<lambda>(r, st'). calm st st')" unfolding sys_kill_def
    using calm_kill [of st] by (auto intro!: yields_true yields_prod) (metis calm_sysret snd_conv)
  show "yields (sys_getpid me st) (\<lambda>(r, st'). calm st st')" "yields (sys_uptime st) (\<lambda>(r, st'). calm st st')"
    unfolding sys_getpid_def sys_uptime_def by (auto intro: yields_basic)
  show "yields (sys_sleep me st) (\<lambda>(r, st'). calm st st')"
    unfolding sys_sleep_def sleep_check_def by (intro yields_true yields_if) (auto intro: yields_basic)
  show "yields (sys_sbrk me st) (\<lambda>(r, st'). calm st st')" unfolding sys_sbrk_def Let_def
    by (rule yields_true, rule yields_calm2 [where base = st, OF calm_growproc]) (auto intro!: yields_if yields_basic)
  show "yields (sys_trace me st) (\<lambda>(r, st'). calm st st')" unfolding sys_trace_def
    by (rule yields_true, rule calm_sysret, rule calm_pupd) simp_all
  show "yields (sys_sysinfo e me st) (\<lambda>(r, st'). calm st st')" unfolding sys_sysinfo_def
    by (rule yields_true, rule yields_true, rule yields_calm2 [where base = st, OF calm_on(2)]) (auto intro!: yields_if)
qed

lemma calm_sys_file:
  fixes st :: "('d, 'u) kernel"
  shows "yields (sys_read e me st) (\<lambda>(r, st'). calm st st')" "yields (sys_write e me st) (\<lambda>(r, st'). calm st st')"
    "yields (sys_fstat e me st) (\<lambda>(r, st'). calm st st')" "yields (sys_link e me st) (\<lambda>(r, st'). calm st st')"
    "yields (sys_unlink e me st) (\<lambda>(r, st'). calm st st')" "yields (sys_mkdir e me st) (\<lambda>(r, st'). calm st st')"
    "yields (sys_mknod e me st) (\<lambda>(r, st'). calm st st')" "yields (sys_chdir e me st) (\<lambda>(r, st'). calm st st')"
    "yields (sys_exec e me st) (\<lambda>(r, st'). calm st st')"
proof -
  show "yields (sys_read e me st) (\<lambda>(r, st'). calm st st')" unfolding sys_read_def
    by (rule yields_true, rule yields_true, rule yields_true, rule yields_option, rule calm_sysret, simp, rule yields_prod,
      rule yields_calm3 [where base = st, OF calm_fileread], simp, simp only: prod.case, rule yields_calm [where base = st, OF calm_put_user]) auto
  show "yields (sys_write e me st) (\<lambda>(r, st'). calm st st')" unfolding sys_write_def
    by (rule yields_true, rule yields_true, rule yields_true, rule yields_option, rule calm_sysret, simp, rule yields_prod,
      rule yields_calm2 [where base = st, OF calm_filewrite]) auto
  show "yields (sys_fstat e me st) (\<lambda>(r, st'). calm st st')" unfolding sys_fstat_def
    by (rule yields_true, rule yields_true, rule yields_option, rule calm_sysret, simp, rule yields_prod,
      rule yields_calm3 [where base = st, OF calm_filestat], simp, simp only: prod.case, rule yields_calm [where base = st, OF calm_put_user]) auto
  have T: "yields (obind (begin_tx st) (\<lambda>st. obind (with_cwd me op st) (\<lambda>(v, st). obind (end_tx e me st) (\<lambda>st. sysret v st)))) (\<lambda>(r, st'). calm st st')" for op
    by (rule yields_calm [where base = st, OF calm_tx(1)], simp, rule yields_calm2 [where base = st, OF calm_with_cwd], assumption, simp only: prod.case,
      rule yields_calm [where base = st, OF calm_tx(2)], assumption) auto
  show "yields (sys_link e me st) (\<lambda>(r, st'). calm st st')" unfolding sys_link_def
    by (rule yields_true, rule yields_true, simp only: prod.case, rule yields_option, rule calm_sysret, simp, rule yields_option, rule calm_sysret, simp, rule T)
  show "yields (sys_unlink e me st) (\<lambda>(r, st'). calm st st')" unfolding sys_unlink_def
    by (rule yields_true, rule yields_option, rule calm_sysret, simp, rule T)
  have E: "yields (obind (end_tx e me s) (\<lambda>st. sysret v st)) (\<lambda>(r, st'). calm st st')" if "calm st s" for s v
    by (rule yields_calm [where base = st, OF calm_tx(2) that]) auto
  have P: "yields (case path of None \<Rightarrow> Ok (None, s) | Some path \<Rightarrow> with_cwd me (op path) s) (\<lambda>(x, s'). calm s s')" for op s path and x :: 'x
    by (rule yields_option, rule yields_basic, simp, rule calm_with_cwd)
  have N: "yields (make_node e me path ty major minor s) (\<lambda>(r, st'). calm st st')" if "calm st s" for path ty major minor s
    unfolding make_node_def
    by (rule yields_calm2 [where base = st, OF P that], simp only: prod.case, rule yields_option, erule E,
      rule yields_calm [where base = st, OF calm_on(3)], assumption, erule E)
  show "yields (sys_mkdir e me st) (\<lambda>(r, st'). calm st st')" unfolding sys_mkdir_def
    by (rule yields_calm [where base = st, OF calm_tx(1)], simp, rule yields_true, erule N)
  show "yields (sys_mknod e me st) (\<lambda>(r, st'). calm st st')" unfolding sys_mknod_def
    by (rule yields_calm [where base = st, OF calm_tx(1)], simp, rule yields_true, rule yields_true, rule yields_true, erule N)
  have O: "yields (open_fail e me ip s) (\<lambda>(r, st'). calm st st')" if "calm st s" for ip s unfolding open_fail_def
    by (rule yields_calm [where base = st, OF calm_on(3) that], erule E)
  have D: "yields (obind (end_tx e me s) (\<lambda>st. sysret 0 (pupd me (p_cwd_update g) st))) (\<lambda>(r, st'). calm st st')" if "calm st s" for s g
    by (rule yields_calm [where base = st, OF calm_tx(2) that], rule calm_sysret, erule calm_trans, rule calm_pupd) simp_all
  show "yields (sys_chdir e me st) (\<lambda>(r, st'). calm st st')" unfolding sys_chdir_def
    by (rule yields_calm [where base = st, OF calm_tx(1)], simp, rule yields_true, rule yields_calm2 [where base = st, OF P], assumption,
      simp only: prod.case, rule yields_option, erule E, rule yields_calm [where base = st, OF calm_on(3)], assumption, rule yields_if, erule O,
      rule yields_calm [where base = st, OF calm_on(3)], assumption, rule yields_calm2 [where base = st, OF calm_with_cwd], assumption,
      simp only: prod.case, erule D)
  have A: "yields (obind (free_argv argv s) (\<lambda>st. sysret v st)) (\<lambda>(r, st'). calm st st')" if "calm st s" for argv s v
    by (rule yields_calm [where base = st, OF calm_free_argv that]) auto
  show "yields (sys_exec e me st) (\<lambda>(r, st'). calm st st')" unfolding sys_exec_def
    by (rule yields_true, rule yields_true, rule yields_option, rule calm_sysret, simp, rule yields_calm3 [where base = st, OF calm_fetch_argv], simp,
      simp only: prod.case, rule yields_if, rule yields_calm2 [where base = st, OF calm_exec], assumption, simp only: prod.case, erule A, erule A)
qed

section \<open>Dispatch\<close>

lemma syscalls_files:
  fixes st :: "('d, 'u) kernel"
  assumes F: "files (\<lambda>_. 0) me st" and n: "n < 23"
  shows "yields ((syscalls e ! n) me st) (\<lambda>(r, st'). files_ok st')"
proof -
  have W: "yields m (\<lambda>(r, st'). files_ok st')" if "yields m (\<lambda>(r, st'). files (\<lambda>_. 0) me st')" for m :: "('d, 'u) sysres"
    using that by (rule yields_mono) (auto simp: files_def)
  note C = W [OF calm_files [OF _ F]]
  note X = W [OF sys_fork_files [OF F]] sys_exit_files [OF F] C [OF calm_sys_proc(1)] W [OF sys_pipe_files [OF F]] C [OF calm_sys_file(1)]
    C [OF calm_sys_proc(2)] C [OF calm_sys_file(9)] C [OF calm_sys_file(3)] C [OF calm_sys_file(8)] W [OF sys_dup_files [OF F]]
    C [OF calm_sys_proc(3)] C [OF calm_sys_proc(4)] C [OF calm_sys_proc(5)] C [OF calm_sys_proc(6)] W [OF sys_open_files [OF F]]
    C [OF calm_sys_file(2)] C [OF calm_sys_file(7)] C [OF calm_sys_file(5)] C [OF calm_sys_file(4)] C [OF calm_sys_file(6)]
    W [OF sys_close_files [OF F]] C [OF calm_sys_proc(7)] C [OF calm_sys_proc(8)]
  have "\<forall>f \<in> set (syscalls e). yields (f me st) (\<lambda>(r, st'). files_ok st')"
    unfolding syscalls_def list.set by (intro ballI) (elim insertE emptyE, simp_all only: X)
  moreover have "length (syscalls e) = 23" by (simp add: syscalls_def)
  ultimately show ?thesis using n nth_mem by metis
qed

lemma syscall_files:
  fixes st :: "('d, 'u) kernel"
  assumes F: "files (\<lambda>_. 0) me st"
  shows "yields (syscall e me st) (\<lambda>(r, st'). files_ok st')"
proof -
  have K: "yields (obind (kprint e fmt as s) (\<lambda>st. Ok (Some v, g st))) (\<lambda>(r, st'). files_ok st')" if "files_ok s" "\<And>x. calm x (g x)" for fmt as s and v :: u64 and g
    by (rule yields_obind, rule yields_mono [OF calm_kprint], rule yields_basic)
      (use that files_off_calm in \<open>auto intro: files_off_calm\<close>)
  have "yields (let st = tf_set me tf_a0 v s in if b st then obind (kprint e fmt (as st) st) (\<lambda>st. Ok (Some v, st)) else Ok (Some v, st)) (\<lambda>(r, st'). files_ok st')"
    if "files_ok s" for v s b fmt as
    unfolding Let_def by (rule yields_if, rule K [where g = "\<lambda>x. x"], rule files_off_calm [OF that], simp, simp, rule yields_basic)
      (use files_off_calm [OF that] in simp)
  note R = this
  show ?thesis
  proof (cases "0 < sint (ucast (tf_get me tf_a7 st) :: i32) \<and> sint (ucast (tf_get me tf_a7 st) :: i32) < 24")
    case True
    then have "nat (sint (ucast (tf_get me tf_a7 st) :: i32)) - 1 < 23" by linarith
    note S = yields_mono [OF syscalls_files [OF F this]]
    show ?thesis unfolding syscall_def Let_def [of "sint _"] if_P [OF True]
      by (rule yields_obind, rule S, rule yields_prod, rule yields_option, rule yields_basic, simp, rule R) simp
  next
    case False
    show ?thesis unfolding syscall_def Let_def if_not_P [OF False] by (rule K) (use F in \<open>simp_all add: files_def\<close>)
  qed
qed

text \<open>
  C3 (type). The file table and the descriptors of all processes fit together: every descriptor of a process is empty or
  names an entry of the table, a process that is unused or a zombie has none, and the reference count of an entry is the
  number of descriptors that hold it. Every system call keeps this, whichever number is asked for and whether or not it
  succeeds. So no descriptor ever refers to a closed file.
\<close>

theorem syscall_keeps_files:
  assumes "files_ok st" "me < NPROC" "p_state (proc st me) = RUNNING" "syscall e me st = Ok (r, st')"
  shows "files_ok st' \<and> (\<forall>i fd f. i < NPROC \<and> fd < NOFILE \<and> p_ofile (proc st' i) ! fd = Some f \<longrightarrow> f < NFILE \<and> 1 \<le> fref (ftab st' f))"
proof -
  have "files (\<lambda>_. 0) me st" using assms(1-3) by (simp add: files_def)
  then have ok: "files_ok st'" using syscall_files [of me st e] assms(4) by (auto simp: yields_def)
  moreover have "f < NFILE \<and> 1 \<le> fref (ftab st' f)" if d: "i < NPROC" "fd < NOFILE" "p_ofile (proc st' i) ! fd = Some f" for i fd f
  proof -
    have i: "length (p_ofile (proc st' i)) = NOFILE" "\<And>f. Some f \<in> set (p_ofile (proc st' i)) \<Longrightarrow> f < NFILE"
      using ok d(1) by (auto simp: files_off_def fds_ok_def)
    then have "f < NFILE" using d(2,3) nth_mem by metis
    moreover have "0 < fd_refs st' f" by (rule fd_refs_pos [of i fd]) (use i(1) d in simp_all)
    ultimately show ?thesis using ok by (auto simp: files_off_def)
  qed
  ultimately show ?thesis by blast
qed

text \<open>Process 0 of the example has its standard input open and calls \<^verbatim>\<open>dup(0)\<close>.\<close>

definition dup_kernel :: "(unit, unit) kernel" where
  "dup_kernel = example_kernel\<lparr>
     pool := (pool example_kernel)\<lparr>mem := (\<lambda>_. 0)(168 := 10)\<rparr>,
     ftab := (\<lambda>f. (ftab example_kernel f)\<lparr>fref := if f = 0 then 1 else 0\<rparr>),
     proc := (\<lambda>i. if i = 0 then blank_proc\<lparr>p_state := RUNNING, p_pid := 1, p_ofile := Some 0 # replicate 15 None\<rparr> else blank_proc)\<rparr>"

lemma dup_kernel_files: "files_ok dup_kernel"
proof -
  have "fd_refs dup_kernel f = (if f = 0 then 1 else 0)" for f
  proof -
    have n: "count_list (replicate n None) (Some f) = 0" for n by (induction n) simp_all
    have "fd_refs dup_kernel f = (\<Sum>i<NPROC. if i = 0 then (if f = 0 then 1 else 0) else 0)" unfolding fd_refs_def
      by (rule sum.cong) (auto simp: dup_kernel_def blank_proc_def n)
    then show ?thesis by simp
  qed
  then show ?thesis by (auto simp: files_off_def fds_ok_def dup_kernel_def blank_proc_def nth_Cons')
qed

lemma dup_kernel_arg: "tf_get 0 tf_a7 dup_kernel = 10" "tf_get 0 tf_a0 dup_kernel = 0"
  by (simp_all add: tf_get_def load64_def read_bytes_def dup_kernel_def blank_proc_def upt_rec)

lemma dup_kernel_dup: "sys_dup 0 dup_kernel = Ok (Some 1, fupd 0 (\<lambda>x. x\<lparr>fref := fref x + 1\<rparr>) (set_fd 0 1 (Some 0) dup_kernel))"
proof -
  have of: "p_ofile (proc dup_kernel 0) = Some 0 # replicate 15 None" and r: "fref (ftab dup_kernel 0) = 1"
    by (simp_all add: dup_kernel_def)
  have "argint 0 0 dup_kernel = Ok 0" using dup_kernel_arg(2) by (simp add: argint_def argraw_def)
  then have "argfd 0 0 dup_kernel = Ok (Some (0, 0))" by (simp add: argfd_def of)
  moreover have "[0..<NOFILE] = 0 # 1 # [2..<NOFILE]" by (simp add: upt_conv_Cons)
  then have "fdalloc 0 0 dup_kernel = (Some 1, set_fd 0 1 (Some 0) dup_kernel)"
    unfolding fdalloc_def by (simp only: List.find.simps of) simp
  moreover have "fref (ftab (set_fd 0 1 (Some 0) dup_kernel) 0) = 1" using r by (simp add: set_fd_def)
  ultimately show ?thesis by (simp add: sys_dup_def filedup_def sysret_def del: One_nat_def)
qed

theorem syscall_keeps_files_witness:
  "\<forall>e. \<exists>st'. syscall e 0 dup_kernel = Ok (Some 1, st') \<and> p_ofile (proc st' 0) ! 1 = Some 0 \<and> fref (ftab st' 0) = 2 \<and> files_ok st'"
proof
  fix e :: "(unit, unit) env"
  let ?st = "tf_set 0 tf_a0 1 (fupd 0 (\<lambda>x. x\<lparr>fref := fref x + 1\<rparr>) (set_fd 0 1 (Some 0) dup_kernel))"
  have m: "p_trace_mask (proc ?st 0) = 0" "p_ofile (proc ?st 0) ! 1 = Some 0" "fref (ftab ?st 0) = 2"
    by (simp_all add: tf_set_def fupd_def set_fd_def dup_kernel_def blank_proc_def)
  have s: "syscall e 0 dup_kernel = Ok (Some 1, ?st)"
    unfolding syscall_def dup_kernel_arg(1) by (simp add: syscalls_def dup_kernel_dup m(1) Let_def del: One_nat_def)
  have "files_ok ?st" using syscall_keeps_files [OF dup_kernel_files _ _ s] by (simp add: dup_kernel_def blank_proc_def)
  then show "\<exists>st'. syscall e 0 dup_kernel = Ok (Some 1, st') \<and> p_ofile (proc st' 0) ! 1 = Some 0 \<and> fref (ftab st' 0) = 2 \<and> files_ok st'"
    using s m by blast
qed

end
