(* ===== verification/Xv6_Grep.thy ===== *)
theory Xv6_Grep
  imports Xv6_Prelude
begin

text \<open>
  The program \<^verbatim>\<open>grep\<close> (\<^verbatim>\<open>user/grep.c\<close>): the matcher and the loop over the input. Strings are lists of bytes up to
  the NUL; the bytes 36, 42, 46, 94 and 10 are \<^verbatim>\<open>$ * . ^\<close> and the newline.
\<close>

section \<open>The matcher\<close>

function matchhere :: "u8 list \<Rightarrow> u8 list \<Rightarrow> bool" and matchstar :: "u8 \<Rightarrow> u8 list \<Rightarrow> u8 list \<Rightarrow> bool" where
  "matchhere [] s = True"
| "matchhere (c # re) s = (if re \<noteq> [] \<and> hd re = 42 then matchstar c (tl re) s
     else if c = 36 \<and> re = [] then s = []
     else case s of [] \<Rightarrow> False | x # rest \<Rightarrow> (c = 46 \<or> c = x) \<and> matchhere re rest)"
| "matchstar c re s = (matchhere re s \<or> (case s of [] \<Rightarrow> False | x # rest \<Rightarrow> (x = c \<or> c = 46) \<and> matchstar c re rest))"
  by pat_completeness auto
termination
  by (relation "measures [\<lambda>a. case a of Inl (re, _) \<Rightarrow> 2 * length re | Inr (_, re, _) \<Rightarrow> 2 * length re + 1,
      \<lambda>a. case a of Inl (_, s) \<Rightarrow> length s | Inr (_, _, s) \<Rightarrow> length s]") auto

primrec match_from :: "u8 list \<Rightarrow> u8 list \<Rightarrow> bool" where
  "match_from re [] = matchhere re []"
| "match_from re (x # rest) = (matchhere re (x # rest) \<or> match_from re rest)"

declare matchhere.simps(2) [simp del] matchstar.simps [simp del]

definition match :: "u8 list \<Rightarrow> u8 list \<Rightarrow> bool" where
  "match re s = (if re \<noteq> [] \<and> hd re = 94 then matchhere (tl re) s else match_from re s)"

section \<open>The loop over the input\<close>

text \<open>\<^verbatim>\<open>strchr\<close> on the bytes of a buffer that a NUL follows: where the character is.\<close>

fun strchr :: "u8 list \<Rightarrow> u8 \<Rightarrow> nat option" where
  "strchr [] c = None"
| "strchr (x # xs) c = (if x = 0 then None else if x = c then Some 0 else map_option Suc (strchr xs c))"

lemma strchr_less: "strchr xs c = Some i \<Longrightarrow> i < length xs"
  by (induction xs arbitrary: i) (auto split: if_splits)

text \<open>The inner loop: the bytes written, and those left in the buffer.\<close>

function grep_lines :: "u8 list \<Rightarrow> u8 list \<Rightarrow> u8 list \<times> u8 list" where
  "grep_lines pattern buf = (case strchr buf 10 of
     None \<Rightarrow> ([], buf)
   | Some i \<Rightarrow> (case grep_lines pattern (drop (Suc i) buf) of (out, rest) \<Rightarrow>
       ((if match pattern (take i buf) then take (Suc i) buf else []) @ out, rest)))"
  by auto
termination by (relation "measure (\<lambda>(_, buf). length buf)") (auto dest: strchr_less)

declare grep_lines.simps [simp del]

text \<open>The \<open>i\<close>-th call of \<^verbatim>\<open>read\<close> delivers at most \<open>k i\<close> bytes; \<open>left\<close> holds the first \<^verbatim>\<open>m\<close> bytes of the buffer.\<close>

function grep :: "u8 list \<Rightarrow> (nat \<Rightarrow> nat) \<Rightarrow> nat \<Rightarrow> u8 list \<Rightarrow> u8 list \<Rightarrow> u8 list" where
  "grep pattern k i left input = (let bs = take (min (k i) (1024 - length left - 1)) input in
     if bs = [] then []
     else case grep_lines pattern (left @ bs) of (out, rest) \<Rightarrow> out @ grep pattern k (Suc i) rest (drop (length bs) input))"
  by auto
termination by (relation "measure (\<lambda>(_, _, _, _, input). length input)") auto

declare grep.simps [simp del]

section \<open>What a pattern means\<close>

text \<open>The characters a character of a pattern stands for, the parts of a pattern, and whether it ends with \<^verbatim>\<open>$\<close>.\<close>

datatype item = One u8 | Many u8

definition atom :: "u8 \<Rightarrow> u8 set" where
  "atom c = (if c = 46 then UNIV else {c})"

fun items :: "u8 list \<Rightarrow> item list" and dollar :: "u8 list \<Rightarrow> bool" where
  "items [] = []"
| "items (c # re) = (case re of [] \<Rightarrow> if c = 36 then [] else [One c]
    | d # re' \<Rightarrow> if d = 42 then Many c # items re' else One c # items re)"
| "dollar [] = False"
| "dollar (c # re) = (case re of [] \<Rightarrow> c = 36 | d # re' \<Rightarrow> if d = 42 then dollar re' else dollar re)"

fun lang :: "item list \<Rightarrow> u8 list set" where
  "lang [] = {[]}"
| "lang (One c # is) = {x # w | x w. x \<in> atom c \<and> w \<in> lang is}"
| "lang (Many c # is) = {u @ w | u w. set u \<subseteq> atom c \<and> w \<in> lang is}"

definition regex_matches :: "u8 list \<Rightarrow> u8 list \<Rightarrow> bool" where
  "regex_matches re s \<longleftrightarrow> (let bol = re \<noteq> [] \<and> hd re = 94; body = (if bol then tl re else re) in
     \<exists>a b c. s = a @ b @ c \<and> (bol \<longrightarrow> a = []) \<and> b \<in> lang (items body) \<and> (dollar body \<longrightarrow> c = []))"

definition here :: "u8 list \<Rightarrow> u8 list \<Rightarrow> bool" where
  "here re s \<longleftrightarrow> (\<exists>b c. s = b @ c \<and> b \<in> lang (items re) \<and> (dollar re \<longrightarrow> c = []))"

lemma atom_iff: "x \<in> atom c \<longleftrightarrow> c = 46 \<or> c = x"
  by (auto simp: atom_def)

lemma here_One:
  assumes "\<not> (re \<noteq> [] \<and> hd re = 42)" "\<not> (c = 36 \<and> re = [])"
  shows "here (c # re) s \<longleftrightarrow> (\<exists>x rest. s = x # rest \<and> x \<in> atom c \<and> here re rest)"
proof -
  have i: "items (c # re) = One c # items re" "dollar (c # re) = dollar re" using assms by (cases re; simp)+
  show ?thesis
  proof
    assume "here (c # re) s"
    then obtain b d where "s = b @ d" "b \<in> lang (One c # items re)" "dollar re \<longrightarrow> d = []" unfolding here_def i by blast
    moreover from this(2) obtain x w where "b = x # w" "x \<in> atom c" "w \<in> lang (items re)" by auto
    ultimately show "\<exists>x rest. s = x # rest \<and> x \<in> atom c \<and> here re rest" unfolding here_def
      by (intro exI [of _ x] exI [of _ "w @ d"]) auto
  next
    assume "\<exists>x rest. s = x # rest \<and> x \<in> atom c \<and> here re rest"
    then obtain x w d where "s = x # w @ d" "x \<in> atom c" "w \<in> lang (items re)" "dollar re \<longrightarrow> d = []" unfolding here_def by blast
    then show "here (c # re) s" unfolding here_def i by (intro exI [of _ "x # w"] exI [of _ d]) simp
  qed
qed

lemma here_Many:
  "here (c # 42 # re) s \<longleftrightarrow> (\<exists>u rest. s = u @ rest \<and> set u \<subseteq> atom c \<and> here re rest)"
proof -
  have i: "items (c # 42 # re) = Many c # items re" "dollar (c # 42 # re) = dollar re" by simp_all
  show ?thesis
  proof
    assume "here (c # 42 # re) s"
    then obtain b d where "s = b @ d" "b \<in> lang (Many c # items re)" "dollar re \<longrightarrow> d = []" unfolding here_def i by blast
    moreover from this(2) obtain u w where "b = u @ w" "set u \<subseteq> atom c" "w \<in> lang (items re)" by auto
    ultimately show "\<exists>u rest. s = u @ rest \<and> set u \<subseteq> atom c \<and> here re rest" unfolding here_def
      by (intro exI [of _ u] exI [of _ "w @ d"]) auto
  next
    assume "\<exists>u rest. s = u @ rest \<and> set u \<subseteq> atom c \<and> here re rest"
    then obtain u w d where "s = u @ w @ d" "set u \<subseteq> atom c" "w \<in> lang (items re)" "dollar re \<longrightarrow> d = []" unfolding here_def by blast
    then show "here (c # 42 # re) s" unfolding here_def i by (intro exI [of _ "u @ w"] exI [of _ d]) auto
  qed
qed

lemma star_unfold:
  "(\<exists>u rest. s = u @ rest \<and> set u \<subseteq> A \<and> P rest) \<longleftrightarrow> P s \<or> (\<exists>x rest. s = x # rest \<and> x \<in> A \<and> (\<exists>u r. rest = u @ r \<and> set u \<subseteq> A \<and> P r))"
  (is "?l \<longleftrightarrow> ?r")
proof
  assume ?l
  then obtain u rest where u: "s = u @ rest" "set u \<subseteq> A" "P rest" by blast
  show ?r using u by (cases u) auto
next
  assume ?r
  then show ?l
  proof
    assume "P s"
    then show ?l by (intro exI [of _ "[]"] exI [of _ s]) simp
  next
    assume "\<exists>x rest. s = x # rest \<and> x \<in> A \<and> (\<exists>u r. rest = u @ r \<and> set u \<subseteq> A \<and> P r)"
    then obtain x v r where "s = x # v @ r" "x \<in> A" "set v \<subseteq> A" "P r" by blast
    then show ?l by (intro exI [of _ "x # v"] exI [of _ r]) simp
  qed
qed

lemma matcher_here:
  "matchhere re s \<longleftrightarrow> here re s" "matchstar c re s \<longleftrightarrow> (\<exists>u rest. s = u @ rest \<and> set u \<subseteq> atom c \<and> here re rest)"
proof (induction re s and c re s rule: matchhere_matchstar.induct)
  case (1 s)
  show ?case by (simp add: here_def)
next
  case (2 c re s)
  consider (star) "re \<noteq> [] \<and> hd re = 42" | (eol) "\<not> (re \<noteq> [] \<and> hd re = 42)" "c = 36 \<and> re = []"
    | (plain) "\<not> (re \<noteq> [] \<and> hd re = 42)" "\<not> (c = 36 \<and> re = [])" by blast
  then show ?case
  proof cases
    case star
    then have "re = 42 # tl re" by (cases re) auto
    moreover have "matchhere (c # re) s = matchstar c (tl re) s" using star by (simp only: matchhere.simps(2) if_True simp_thms)
    ultimately show ?thesis using 2(1) [OF star] here_Many [of c "tl re" s] by simp
  next
    case eol
    then show ?thesis by (auto simp: here_def matchhere.simps(2))
  next
    case plain
    have m: "matchhere (c # re) s \<longleftrightarrow> (case s of [] \<Rightarrow> False | x # rest \<Rightarrow> (c = 46 \<or> c = x) \<and> matchhere re rest)"
      unfolding matchhere.simps(2) if_not_P [OF plain(1)] if_not_P [OF plain(2)] ..
    show ?thesis
    proof (cases s)
      case Nil
      then show ?thesis using here_One [OF plain, of s] m by simp
    next
      case (Cons x rest)
      show ?thesis using m here_One [OF plain, of s] 2(2) [OF plain Cons] Cons by (simp add: atom_iff)
    qed
  qed
next
  case (3 c re s)
  show ?case
  proof (cases s)
    case Nil
    then show ?thesis using 3(1) by (simp add: matchstar.simps)
  next
    case (Cons x rest)
    have "matchstar c re s \<longleftrightarrow> here re s \<or> (x \<in> atom c \<and> (\<exists>u r. rest = u @ r \<and> set u \<subseteq> atom c \<and> here re r))"
      unfolding matchstar.simps [of c re s] 3(1) using 3(2) [OF Cons] Cons by (auto simp: atom_iff)
    then show ?thesis unfolding star_unfold [of s] using Cons by simp
  qed
qed

lemma match_from_iff: "match_from re s \<longleftrightarrow> (\<exists>a b. s = a @ b \<and> here re b)"
proof (induction s)
  case Nil
  then show ?case by (simp add: matcher_here)
next
  case (Cons x s)
  show ?case unfolding match_from.simps matcher_here Cons Cons_eq_append_conv by blast
qed

lemma match_regex: "match re s = regex_matches re s"
proof (cases "re \<noteq> [] \<and> hd re = 94")
  case True
  then show ?thesis unfolding match_def regex_matches_def Let_def matcher_here here_def by simp
next
  case False
  then show ?thesis unfolding match_def regex_matches_def Let_def match_from_iff here_def if_not_P [OF False] by blast
qed

section \<open>The lines of the input\<close>

fun full_lines :: "u8 list \<Rightarrow> u8 list list" where
  "full_lines [] = []"
| "full_lines (x # xs) = (if x = 10 then [] # full_lines xs else case full_lines xs of [] \<Rightarrow> [] | l # ls \<Rightarrow> (x # l) # ls)"

text \<open>The part after the last newline.\<close>

fun tail_line :: "u8 list \<Rightarrow> u8 list" where
  "tail_line [] = []"
| "tail_line (x # xs) = (if 10 \<in> set (x # xs) then tail_line xs else x # xs)"

definition chosen :: "u8 list \<Rightarrow> u8 list list \<Rightarrow> u8 list" where
  "chosen pattern ls = concat (map (\<lambda>l. l @ [10]) (filter (regex_matches pattern) ls))"

lemma chosen_append: "chosen pattern (ls @ ls') = chosen pattern ls @ chosen pattern ls'"
  by (simp add: chosen_def)

lemma full_lines_None: "10 \<notin> set xs \<Longrightarrow> full_lines xs = [] \<and> tail_line xs = xs"
  by (induction xs) auto

lemma full_lines_first: "10 \<notin> set l \<Longrightarrow> full_lines (l @ 10 # xs) = l # full_lines xs \<and> tail_line (l @ 10 # xs) = tail_line xs"
proof (induction l)
  case (Cons x l)
  then show ?case by auto
qed auto

lemma strchr_first: "0 \<notin> set l \<Longrightarrow> 10 \<notin> set l \<Longrightarrow> strchr (l @ 10 # xs) 10 = Some (length l)"
  by (induction l) auto

lemma strchr_none: "10 \<notin> set l \<Longrightarrow> strchr l 10 = None"
  by (induction l) auto

lemma split_newline: "10 \<in> set xs \<Longrightarrow> \<exists>l r. xs = l @ 10 # r \<and> (10 :: u8) \<notin> set l"
  by (rule split_list_first)

lemma full_lines_append: "full_lines (a @ b) = full_lines a @ full_lines (tail_line a @ b) \<and> tail_line (tail_line a @ b) = tail_line (a @ b)"
proof (induction "length a" arbitrary: a rule: less_induct)
  case less
  show ?case
  proof (cases "10 \<in> set a")
    case True
    then obtain l r where a: "a = l @ 10 # r" "10 \<notin> set l" using split_newline by blast
    have "full_lines (r @ b) = full_lines r @ full_lines (tail_line r @ b) \<and> tail_line (tail_line r @ b) = tail_line (r @ b)" by (rule less) (simp add: a(1))
    then show ?thesis using a full_lines_first [OF a(2), of "r @ b"] full_lines_first [OF a(2), of r] by simp
  next
    case False
    then show ?thesis using full_lines_None by simp
  qed
qed

lemma grep_lines_full:
  assumes "0 \<notin> set buf"
  shows "grep_lines pattern buf = (chosen pattern (full_lines buf), tail_line buf)"
  using assms
proof (induction "length buf" arbitrary: buf rule: less_induct)
  case less
  show ?case
  proof (cases "10 \<in> set buf")
    case True
    then obtain l r where b: "buf = l @ 10 # r" "10 \<notin> set l" using split_newline by blast
    then have "strchr buf 10 = Some (length l)" using strchr_first less.prems by simp
    moreover have "grep_lines pattern r = (chosen pattern (full_lines r), tail_line r)" by (rule less) (use b less.prems in auto)
    ultimately have "grep_lines pattern buf = ((if regex_matches pattern l then l @ [10] else []) @ chosen pattern (full_lines r), tail_line r)"
      unfolding grep_lines.simps [of pattern buf] using b by (simp add: match_regex)
    then show ?thesis using full_lines_first [OF b(2), of r] b(1) by (simp add: chosen_def)
  next
    case False
    then show ?thesis unfolding grep_lines.simps [of pattern buf] using full_lines_None strchr_none by (simp add: chosen_def)
  qed
qed

lemma tail_line_tail [simp]: "10 \<notin> set (tail_line xs)"
  by (induction xs) auto

lemma tail_line_set: "set (tail_line xs) \<subseteq> set xs"
  by (induction xs) auto

lemma tail_line_length: "length (tail_line xs) \<le> length xs"
  by (induction xs) auto

lemma full_line_long:
  assumes "10 \<notin> set l" "10 \<in> set xs"
  shows "\<exists>m. m \<in> set (full_lines (l @ xs)) \<and> length l \<le> length m"
proof -
  obtain a r where x: "xs = a @ 10 # r" "10 \<notin> set a" using split_newline [OF assms(2)] by blast
  then have "full_lines (l @ xs) = (l @ a) # full_lines r" using full_lines_first [of "l @ a" r] assms(1) by simp
  then show ?thesis by auto
qed

lemma grep_chosen:
  assumes "0 \<notin> set left" "10 \<notin> set left" "length left \<le> 1023" "0 \<notin> set input" "\<And>i. 0 < k i" "\<And>l. l \<in> set (full_lines (left @ input)) \<Longrightarrow> length l \<le> 1022"
  shows "grep pattern k i left input = chosen pattern (full_lines (left @ input))"
  using assms
proof (induction "length input" arbitrary: i left input rule: less_induct)
  case less
  let ?bs = "take (min (k i) (1024 - length left - 1)) input"
  show ?case
  proof (cases "?bs = []")
    case True
    then have "input = [] \<or> length left = 1023" using less.prems(3) less.prems(5) [of i] by (auto simp: min_def split: if_splits)
    moreover have "10 \<notin> set input" if "length left = 1023"
    proof
      assume "10 \<in> set input"
      then obtain m where "m \<in> set (full_lines (left @ input))" "length left \<le> length m" using full_line_long [OF less.prems(2)] by blast
      then show False using less.prems(6) [of m] that by simp
    qed
    ultimately have "full_lines (left @ input) = []" using less.prems(2) full_lines_None [of "left @ input"] by auto
    then show ?thesis unfolding grep.simps [of pattern k i left input] using True by (simp add: Let_def chosen_def)
  next
    case False
    let ?rest = "drop (length ?bs) input"
    have split: "left @ input = (left @ ?bs) @ ?rest" by (simp add: min_def)
    have z: "0 \<notin> set (left @ ?bs)" using less.prems(1,4) by (auto dest: in_set_takeD)
    have len: "length (left @ ?bs) \<le> 1023" using less.prems(3) by simp
    note fl = full_lines_append [of "left @ ?bs" ?rest, folded split]
    have "grep pattern k (Suc i) (tail_line (left @ ?bs)) ?rest = chosen pattern (full_lines (tail_line (left @ ?bs) @ ?rest))"
    proof (rule less.hyps)
      show "length ?rest < length input" using False by (cases input) auto
      show "0 \<notin> set (tail_line (left @ ?bs))" using tail_line_set [of "left @ ?bs"] z by blast
      show "length (tail_line (left @ ?bs)) \<le> 1023" using tail_line_length [of "left @ ?bs"] len by linarith
      show "0 \<notin> set ?rest" using less.prems(4) by (auto dest: in_set_dropD)
      show "length l \<le> 1022" if "l \<in> set (full_lines (tail_line (left @ ?bs) @ ?rest))" for l using that less.prems(6) [of l] fl by simp
    qed (use less.prems(5) in simp_all)
    then show ?thesis
      unfolding grep.simps [of pattern k i left input] Let_def if_not_P [OF False] grep_lines_full [OF z] prod.case conjunct1 [OF fl] chosen_append by simp
  qed
qed

text \<open>
  C10 (equivalence). On an input without NUL bytes whose lines have at most 1022 characters, \<^verbatim>\<open>grep\<close> writes exactly the
  lines that match the pattern, in their order, however the input is split up by the calls of \<^verbatim>\<open>read\<close>. A line matches if it contains a
  string of the language of the pattern, at its beginning for a pattern that starts with \<^verbatim>\<open>^\<close> and up to its end for one that ends with
  \<^verbatim>\<open>$\<close>. A last line without a newline is not looked at.
\<close>

theorem grep_prints_matching_lines:
  assumes "0 \<notin> set input" "\<forall>i. 0 < k i" "\<forall>l \<in> set (full_lines input). length l \<le> 1022"
  shows "grep pattern k 0 [] input = concat (map (\<lambda>l. l @ [10]) (filter (regex_matches pattern) (full_lines input)))"
  using grep_chosen [of "[]" input k pattern 0] assms by (simp add: chosen_def)

text \<open>Searching for \<^verbatim>\<open>^a.*b$\<close> in three lines, two bytes at a time.\<close>

theorem grep_prints_matching_lines_witness:
  "grep [94, 97, 46, 42, 98, 36] (\<lambda>_. 2) 0 [] [97, 98, 10, 97, 10, 97, 120, 98, 10] = [97, 98, 10, 97, 120, 98, 10]"
proof -
  let ?in = "[97, 98, 10, 97, 10, 97, 120, 98, 10] :: u8 list" and ?re = "[94, 97, 46, 42, 98, 36] :: u8 list"
  have "grep ?re (\<lambda>_. 2) 0 [] ?in = concat (map (\<lambda>l. l @ [10]) (filter (regex_matches ?re) (full_lines ?in)))"
    by (rule grep_prints_matching_lines) simp_all
  also have "filter (regex_matches ?re) (full_lines ?in) = [[97, 98], [97, 120, 98]]"
    unfolding match_regex [symmetric] by (simp add: match_def matchhere.simps matchstar.simps)
  finally show ?thesis by simp
qed

end
