(* ===== verification/Xv6_Sh.thy ===== *)
theory Xv6_Sh
  imports Xv6_Grep
begin

text \<open>
  The command parser of the shell (\<^verbatim>\<open>user/sh.c\<close>). The line is the list of its bytes up to the NUL; pointers into it are
  positions. A word of a command is the pair of the pointers to its first byte and behind its last one. \<^verbatim>\<open>panic\<close> is the outcome
  \<open>Panic\<close>. The parser recurses with fuel, and running out of it is the outcome \<open>Diverges\<close>.
\<close>

section \<open>Commands\<close>

datatype 'w cmd = EXEC "'w list" | REDIR "'w cmd" 'w u32 nat | PIPE "'w cmd" "'w cmd" | LIST "'w cmd" "'w cmd" | BACK "'w cmd"

abbreviation (input) MAXARGS :: nat where "MAXARGS \<equiv> 10"

definition whitespace :: "u8 list" where "whitespace = [32, 9, 13, 10, 11]"
definition symbols :: "u8 list" where "symbols = [60, 124, 62, 38, 59, 40, 41]"

definition is_white :: "u8 \<Rightarrow> bool" where "is_white c \<longleftrightarrow> strchr whitespace c \<noteq> None"
definition is_symbol :: "u8 \<Rightarrow> bool" where "is_symbol c \<longleftrightarrow> strchr symbols c \<noteq> None"

section \<open>Tokens\<close>

definition byte_at :: "u8 list \<Rightarrow> nat \<Rightarrow> u8" where
  "byte_at b p = (if p < length b then b ! p else 0)"

function skip_while :: "(u8 \<Rightarrow> bool) \<Rightarrow> u8 list \<Rightarrow> nat \<Rightarrow> nat" where
  "skip_while P b p = (if p < length b \<and> P (b ! p) then skip_while P b (Suc p) else p)"
  by auto
termination by (relation "measure (\<lambda>(_, b, p). length b - p)") auto

declare skip_while.simps [simp del]

text \<open>The token, its two ends, and where to go on.\<close>

definition gettoken :: "u8 list \<Rightarrow> nat \<Rightarrow> u8 \<times> nat \<times> nat \<times> nat" where
  "gettoken b p = (let q = skip_while is_white b p; c = byte_at b q;
     (ret, eq) = (if c = 0 then (0, q)
       else if c \<in> {124, 40, 41, 59, 38, 60} then (c, q + 1)
       else if c = 62 then (if byte_at b (q + 1) = 62 then (43, q + 2) else (62, q + 1))
       else (97, skip_while (\<lambda>c. \<not> is_white c \<and> \<not> is_symbol c) b q))
   in (ret, q, eq, skip_while is_white b eq))"

definition next_token :: "u8 list \<Rightarrow> nat \<Rightarrow> nat" where
  "next_token b p = snd (snd (snd (gettoken b p)))"

definition peek :: "u8 list \<Rightarrow> nat \<Rightarrow> u8 list \<Rightarrow> nat \<times> bool" where
  "peek b p toks = (let p = skip_while is_white b p in (p, byte_at b p \<noteq> 0 \<and> strchr toks (byte_at b p) \<noteq> None))"

lemma skip_while_ge: "p \<le> skip_while P b p"
proof (induction "length b - p" arbitrary: p rule: less_induct)
  case less
  show ?case
  proof (cases "p < length b \<and> P (b ! p)")
    case True
    then have "Suc p \<le> skip_while P b (Suc p)" by (intro less) auto
    then show ?thesis using True by (simp add: skip_while.simps [of P b p])
  qed (auto simp: skip_while.simps [of P b p])
qed

lemma skip_while_le: "p \<le> length b \<Longrightarrow> skip_while P b p \<le> length b"
proof (induction "length b - p" arbitrary: p rule: less_induct)
  case less
  show ?case
  proof (cases "p < length b \<and> P (b ! p)")
    case True
    then have "skip_while P b (Suc p) \<le> length b" by (intro less) auto
    then show ?thesis using True by (simp add: skip_while.simps [of P b p])
  qed (use less.prems in \<open>auto simp: skip_while.simps [of P b p]\<close>)
qed

lemma skip_while_stop: "skip_while P b p < length b \<Longrightarrow> \<not> P (b ! skip_while P b p)"
proof (induction "length b - p" arbitrary: p rule: less_induct)
  case less
  show ?case
  proof (cases "p < length b \<and> P (b ! p)")
    case True
    then have e: "skip_while P b p = skip_while P b (Suc p)" by (simp add: skip_while.simps [of P b p])
    show ?thesis unfolding e by (rule less) (use True less.prems e in auto)
  qed (use less.prems in \<open>auto simp: skip_while.simps [of P b p]\<close>)
qed

lemma skip_while_all: "p \<le> i \<Longrightarrow> i < skip_while P b p \<Longrightarrow> P (b ! i)"
proof (induction "length b - p" arbitrary: p rule: less_induct)
  case less
  show ?case
  proof (cases "p < length b \<and> P (b ! p)")
    case True
    then have e: "skip_while P b p = skip_while P b (Suc p)" by (simp add: skip_while.simps [of P b p])
    show ?thesis
    proof (cases "i = p")
      case False
      then show ?thesis using less.hyps [of "Suc p"] True less.prems e by auto
    qed (use True in simp)
  qed (use less.prems in \<open>auto simp: skip_while.simps [of P b p]\<close>)
qed

lemma is_symbol_iff: "is_symbol c \<longleftrightarrow> c \<in> {60, 124, 62, 38, 59, 40, 41}"
  by (simp add: is_symbol_def symbols_def)

lemma is_white_iff: "is_white c \<longleftrightarrow> c \<in> {32, 9, 13, 10, 11}"
  by (simp add: is_white_def whitespace_def)

text \<open>Every token but the end of the line takes at least one byte.\<close>

lemma byte_at_zero: "0 \<notin> set b \<Longrightarrow> p \<le> length b \<Longrightarrow> byte_at b p = 0 \<longleftrightarrow> p = length b"
  unfolding byte_at_def by (metis le_neq_implies_less nth_mem order_less_irrefl)

lemma byte_at_less: "byte_at b p \<noteq> 0 \<Longrightarrow> p < length b \<and> byte_at b p = b ! p"
  by (simp add: byte_at_def split: if_splits)

definition wordy :: "u8 \<Rightarrow> bool" where "wordy c \<longleftrightarrow> \<not> is_white c \<and> \<not> is_symbol c"

lemma gettoken_cases:
  assumes "0 \<notin> set b" "p \<le> length b"
  defines "q \<equiv> skip_while is_white b p"
  obtains (eol) "q = length b" "gettoken b p = (0, q, q, q)"
    | (sym) c eq where "q < length b" "c = 43 \<and> eq = q + 2 \<or> c \<in> {124, 40, 41, 59, 38, 60, 62} \<and> c = b ! q \<and> eq = q + 1" "eq \<le> length b"
        "gettoken b p = (c, q, eq, skip_while is_white b eq)"
    | (word) "q < length b" "wordy (b ! q)" "gettoken b p = (97, q, skip_while wordy b q, skip_while is_white b (skip_while wordy b q))"
proof -
  have q: "q \<le> length b" unfolding q_def by (rule skip_while_le [OF assms(2)])
  have pl: "(\<lambda>c. \<not> is_white c \<and> \<not> is_symbol c) = wordy" by (simp add: wordy_def fun_eq_iff)
  show thesis
  proof (cases "q = length b")
    case True
    then have "byte_at b q = 0" by (simp add: byte_at_def)
    moreover have "skip_while is_white b q = q" using True by (simp add: skip_while.simps)
    ultimately show thesis using True by (intro eol) (simp_all add: gettoken_def Let_def q_def [symmetric])
  next
    case False
    then have ql: "q < length b" using q by simp
    have c: "byte_at b q = b ! q" "b ! q \<noteq> 0" using ql byte_at_zero [OF assms(1), of q] by (auto simp: byte_at_def)
    have w: "\<not> is_white (b ! q)" using skip_while_stop [of is_white b p] ql by (simp add: q_def)
    consider (one) "b ! q \<in> {124, 40, 41, 59, 38, 60}" | (two) "b ! q = 62" | (other) "b ! q \<notin> {124, 40, 41, 59, 38, 60, 62}" by blast
    then show thesis
    proof cases
      case one
      then show thesis using c ql by (intro sym [of "b ! q" "q + 1"]) (auto simp: gettoken_def Let_def q_def [symmetric])
    next
      case two
      show thesis
      proof (cases "byte_at b (q + 1) = 62")
        case True
        then have "q + 2 \<le> length b" using byte_at_less [of b "q + 1"] by simp
        then show thesis using two c ql True by (intro sym [of 43 "q + 2"]) (auto simp: gettoken_def Let_def q_def [symmetric])
      next
        case False
        then show thesis using two c ql by (intro sym [of 62 "q + 1"]) (auto simp: gettoken_def Let_def q_def [symmetric])
      qed
    next
      case other
      then have "wordy (b ! q)" using w by (auto simp: wordy_def is_symbol_iff)
      then show thesis using other c ql by (intro word) (auto simp: gettoken_def Let_def q_def [symmetric] pl)
    qed
  qed
qed

lemma skip_while_first: "p < length b \<Longrightarrow> P (b ! p) \<Longrightarrow> p < skip_while P b p"
  using skip_while_ge [of "Suc p" P b] by (simp add: skip_while.simps [of P b p])

lemma gettoken_progress:
  assumes "gettoken b p = (ret, q, eq, p')" "0 \<notin> set b" "p \<le> length b"
  shows "p \<le> q \<and> q \<le> eq \<and> eq \<le> p' \<and> p' \<le> length b \<and> (ret \<noteq> 0 \<longrightarrow> q < eq)"
proof (rule gettoken_cases [OF assms(2,3)])
  note le = skip_while_ge skip_while_le
  show ?thesis if "skip_while is_white b p = length b" "gettoken b p = (0, skip_while is_white b p, skip_while is_white b p, skip_while is_white b p)"
    using that assms(1) skip_while_ge [of p is_white b] by auto
  show ?thesis if "eq' \<le> length b" "c = 43 \<and> eq' = skip_while is_white b p + 2 \<or> c \<in> {124, 40, 41, 59, 38, 60, 62} \<and> c = b ! skip_while is_white b p \<and> eq' = skip_while is_white b p + 1"
      "gettoken b p = (c, skip_while is_white b p, eq', skip_while is_white b eq')" for c eq'
    using that assms(1) skip_while_ge [of p is_white b] skip_while_ge [of eq' is_white b] skip_while_le [of eq' b is_white] by auto
  let ?q = "skip_while is_white b p"
  show ?thesis if "?q < length b" "wordy (b ! ?q)" "gettoken b p = (97, ?q, skip_while wordy b ?q, skip_while is_white b (skip_while wordy b ?q))"
    using that assms(1) skip_while_ge [of p is_white b] skip_while_first [of ?q b wordy] skip_while_ge [of "skip_while wordy b ?q" is_white b]
      skip_while_le [of "skip_while wordy b ?q" b is_white] skip_while_le [of ?q b wordy] by auto
qed

lemma gettoken_ge: "gettoken b p = (ret, q, eq, p') \<Longrightarrow> p \<le> q \<and> q \<le> eq \<and> eq \<le> p'"
  using skip_while_ge [of p is_white b] skip_while_ge [of q "\<lambda>c. \<not> is_white c \<and> \<not> is_symbol c" b] skip_while_ge [of eq is_white b]
  by (auto simp: gettoken_def Let_def split: if_splits)

lemma strchr_mem: "strchr xs c \<noteq> None \<Longrightarrow> c \<in> set xs \<and> c \<noteq> 0"
  by (induction xs) (auto split: if_splits)

lemma peek_symbol:
  assumes "peek b p toks = (p1, True)" "set toks \<subseteq> set symbols"
  shows "p \<le> p1 \<and> p1 < length b \<and> p1 < next_token b p1"
proof -
  have p1: "p1 = skip_while is_white b p" "byte_at b p1 \<noteq> 0" "strchr toks (byte_at b p1) \<noteq> None" using assms(1) by (auto simp: peek_def Let_def)
  then have c: "p1 < length b" "b ! p1 \<in> set symbols" "byte_at b p1 = b ! p1" using byte_at_less [OF p1(2)] strchr_mem [OF p1(3)] assms(2) by auto
  then have "skip_while is_white b p1 = p1" by (auto simp: skip_while.simps [of is_white b p1] is_white_iff symbols_def)
  then have "p1 < next_token b p1" using c p1(2) skip_while_ge [of "p1 + 1" is_white b] skip_while_ge [of "p1 + 2" is_white b]
    by (auto simp: next_token_def gettoken_def Let_def symbols_def)
  then show ?thesis using c(1) p1(1) skip_while_ge [of p is_white b] by simp
qed

section \<open>The parser\<close>

text \<open>The redirections at a position, as (file, mode, descriptor).\<close>

function parseredirs :: "u8 list \<Rightarrow> nat \<Rightarrow> (((nat \<times> nat) \<times> u32 \<times> nat) list \<times> nat) outcome" where
  "parseredirs b p = (case peek b p [60, 62] of (p1, more) \<Rightarrow>
     if \<not> more then Ok ([], p1)
     else case gettoken b p1 of (tok, _, _, p2) \<Rightarrow> (case gettoken b p2 of (tok2, q, eq, p3) \<Rightarrow>
       if tok2 \<noteq> 97 then Panic ''missing file for redirection''
       else obind (parseredirs b p3) (\<lambda>(rs, p). Ok (
         if tok = 60 then ((q, eq), 0, 0) # rs
         else if tok = 62 then ((q, eq), 0x601, 1) # rs
         else if tok = 43 then ((q, eq), 0x201, 1) # rs else rs, p))))"
  by pat_completeness auto
termination
proof (relation "measure (\<lambda>(b, p). length b - p)")
  fix b p p1 more tok a q a' p2 tok2 b' eq' p3
  show "((b, p3), b, p) \<in> measure (\<lambda>(b, p). length b - p)" if "(p1, more) = peek b p [60, 62]" "\<not> \<not> more" "(tok, x) = gettoken b p1" "(a, y) = x" "(q, p2) = y"
    "(tok2, z) = gettoken b p2" "(b', w) = z" "(eq', p3) = w" for x y z w
  proof -
    have "next_token b p1 = p2" using that(3-5) by (metis next_token_def snd_conv)
    moreover have "p \<le> p1 \<and> p1 < length b \<and> p1 < next_token b p1" by (rule peek_symbol [of b p "[60, 62]"]) (use that(1,2) in \<open>auto simp: symbols_def\<close>)
    moreover have "p2 \<le> p3" using gettoken_ge [of b p2 tok2 b' eq' p3] that(6-8) by auto
    ultimately show ?thesis by auto
  qed
qed simp

declare parseredirs.simps [simp del]

text \<open>The loop over \<^verbatim>\<open>&\<close> in \<^verbatim>\<open>parseline\<close>.\<close>

function parsebacks :: "u8 list \<Rightarrow> (nat \<times> nat) cmd \<Rightarrow> nat \<Rightarrow> (nat \<times> nat) cmd \<times> nat" where
  "parsebacks b c p = (case peek b p [38] of (p, more) \<Rightarrow> if more then parsebacks b (BACK c) (next_token b p) else (c, p))"
  by pat_completeness auto
termination
proof (relation "measure (\<lambda>(b, _, p). length b - p)")
  fix b c p p1 more
  assume "(p1, more) = peek b p [38]" "more"
  then have "p \<le> p1 \<and> p1 < length b \<and> p1 < next_token b p1" by (intro peek_symbol [of b p "[38]"]) (auto simp: symbols_def)
  then show "((b, BACK c, next_token b p1), b, c, p) \<in> measure (\<lambda>(b, _, p). length b - p)" by auto
qed simp

declare parsebacks.simps [simp del]

text \<open>
  The loop over the arguments in \<^verbatim>\<open>parseexec\<close>. The node of the command is filled in place below the redirections found so far, so
  the result is the node with all arguments, with all redirections around it.
\<close>

function parseargs :: "u8 list \<Rightarrow> (nat \<times> nat) list \<Rightarrow> ((nat \<times> nat) \<times> u32 \<times> nat) list \<Rightarrow> nat \<Rightarrow>
    ((nat \<times> nat) list \<times> ((nat \<times> nat) \<times> u32 \<times> nat) list \<times> nat) outcome" where
  "parseargs b argv redirs p = (case peek b p [124, 41, 38, 59] of (p, stop) \<Rightarrow>
     if stop then Ok (argv, redirs, p)
     else case gettoken b p of (tok, q, eq, p) \<Rightarrow>
       if tok = 0 then Ok (argv, redirs, p)
       else if tok \<noteq> 97 then Panic ''syntax''
       else if MAXARGS \<le> length argv + 1 then Panic ''too many args''
       else obind (parseredirs b p) (\<lambda>(rs, p). parseargs b (argv @ [(q, eq)]) (redirs @ rs) p))"
  by pat_completeness auto
termination by (relation "measure (\<lambda>(_, argv, _, _). MAXARGS - length argv)") auto

declare parseargs.simps [simp del]

definition wrap :: "'w cmd \<Rightarrow> ('w \<times> u32 \<times> nat) list \<Rightarrow> 'w cmd" where
  "wrap c rs = fold (\<lambda>(w, mode, fd) c. REDIR c w mode fd) rs c"

function (sequential) parseline :: "nat \<Rightarrow> u8 list \<Rightarrow> nat \<Rightarrow> ((nat \<times> nat) cmd \<times> nat) outcome"
  and parsepipe :: "nat \<Rightarrow> u8 list \<Rightarrow> nat \<Rightarrow> ((nat \<times> nat) cmd \<times> nat) outcome"
  and parseexec :: "nat \<Rightarrow> u8 list \<Rightarrow> nat \<Rightarrow> ((nat \<times> nat) cmd \<times> nat) outcome"
  and parseblock :: "nat \<Rightarrow> u8 list \<Rightarrow> nat \<Rightarrow> ((nat \<times> nat) cmd \<times> nat) outcome" where
  "parseline 0 b p = Diverges"
| "parseline (Suc n) b p = obind (parsepipe n b p) (\<lambda>(c, p). case parsebacks b c p of (c, p) \<Rightarrow> (case peek b p [59] of (p, more) \<Rightarrow>
     if more then obind (parseline n b (next_token b p)) (\<lambda>(r, p). Ok (LIST c r, p)) else Ok (c, p)))"
| "parsepipe 0 b p = Diverges"
| "parsepipe (Suc n) b p = obind (parseexec n b p) (\<lambda>(c, p). case peek b p [124] of (p, more) \<Rightarrow>
     if more then obind (parsepipe n b (next_token b p)) (\<lambda>(r, p). Ok (PIPE c r, p)) else Ok (c, p))"
| "parseexec 0 b p = Diverges"
| "parseexec (Suc n) b p = (case peek b p [40] of (p, block) \<Rightarrow>
     if block then parseblock n b p
     else obind (parseredirs b p) (\<lambda>(rs, p). obind (parseargs b [] rs p) (\<lambda>(argv, rs, p). Ok (wrap (EXEC argv) rs, p))))"
| "parseblock 0 b p = Diverges"
| "parseblock (Suc n) b p = (case peek b p [40] of (p, more) \<Rightarrow>
     if \<not> more then Panic ''parseblock''
     else obind (parseline n b (next_token b p)) (\<lambda>(c, p). case peek b p [41] of (p, more) \<Rightarrow>
       if \<not> more then Panic ''syntax - missing )''
       else obind (parseredirs b (next_token b p)) (\<lambda>(rs, p). Ok (wrap c rs, p))))"
  by pat_completeness auto
termination by (relation "measure (\<lambda>x. case x of Inl (Inl (n, _)) \<Rightarrow> n | Inl (Inr (n, _)) \<Rightarrow> n | Inr (Inl (n, _)) \<Rightarrow> n | Inr (Inr (n, _)) \<Rightarrow> n)") auto

declare parseline.simps(2) [simp del] parsepipe.simps(2) [simp del] parseexec.simps(2) [simp del] parseblock.simps(2) [simp del]

text \<open>Terminating the words in the buffer, and parsing a line.\<close>

definition terminate :: "nat \<times> nat \<Rightarrow> u8 list \<Rightarrow> u8 list" where
  "terminate w buf = buf[snd w := 0]"

primrec nulterminate :: "(nat \<times> nat) cmd \<Rightarrow> u8 list \<Rightarrow> u8 list" where
  "nulterminate (EXEC argv) buf = fold terminate argv buf"
| "nulterminate (REDIR c w mode fd) buf = terminate w (nulterminate c buf)"
| "nulterminate (PIPE l r) buf = nulterminate r (nulterminate l buf)"
| "nulterminate (LIST l r) buf = nulterminate r (nulterminate l buf)"
| "nulterminate (BACK c) buf = nulterminate c buf"

definition parsecmd :: "u8 list \<Rightarrow> ((nat \<times> nat) cmd \<times> u8 list) outcome" where
  "parsecmd b = obind (parseline (4 * length b + 4) b 0) (\<lambda>(c, p).
     if fst (peek b p []) \<noteq> length b then Panic ''syntax'' else Ok (c, nulterminate c (b @ [0])))"

section \<open>Printed lines\<close>

text \<open>Tokens, each printed with a space behind it.\<close>

datatype token = Word "u8 list" | Sym u8 | Append

fun tok_bytes :: "token \<Rightarrow> u8 list" where
  "tok_bytes (Word w) = w" | "tok_bytes (Sym c) = [c]" | "tok_bytes Append = [62, 62]"

fun tok_code :: "token \<Rightarrow> u8" where
  "tok_code (Word w) = 97" | "tok_code (Sym c) = c" | "tok_code Append = 43"

definition word_fine :: "u8 list \<Rightarrow> bool" where
  "word_fine w \<longleftrightarrow> w \<noteq> [] \<and> (\<forall>c \<in> set w. c \<noteq> 0 \<and> wordy c)"

fun tok_ok :: "token \<Rightarrow> bool" where
  "tok_ok (Word w) = word_fine w" | "tok_ok (Sym c) = (c \<in> set symbols)" | "tok_ok Append = True"

definition flat :: "token list \<Rightarrow> u8 list" where
  "flat ts = concat (map (\<lambda>t. tok_bytes t @ [32]) ts)"

abbreviation first_byte :: "token \<Rightarrow> u8" where "first_byte t \<equiv> hd (tok_bytes t)"

definition at_toks :: "u8 list \<Rightarrow> nat \<Rightarrow> token list \<Rightarrow> bool" where
  "at_toks b p ts \<longleftrightarrow> (\<exists>a. b = a @ flat ts \<and> p = length a) \<and> (\<forall>t \<in> set ts. tok_ok t)"

lemma flat_Cons: "flat (t # ts) = tok_bytes t @ 32 # flat ts" and flat_Nil [simp]: "flat [] = []" and flat_append: "flat (ts @ us) = flat ts @ flat us"
  by (simp_all add: flat_def)

lemma first_ok: "tok_ok t \<Longrightarrow> tok_bytes t \<noteq> [] \<and> first_byte t \<noteq> 0 \<and> \<not> is_white (first_byte t)"
  by (cases t) (auto simp: word_fine_def wordy_def is_white_iff symbols_def)

lemma at_toks_byte:
  assumes "at_toks b p (t # ts)"
  shows "p < length b" "b ! p = first_byte t" "byte_at b p = first_byte t" "first_byte t \<noteq> 0" "\<not> is_white (first_byte t)"
proof -
  obtain a where a: "b = a @ tok_bytes t @ 32 # flat ts" "p = length a" "tok_ok t" using assms by (auto simp: at_toks_def flat_Cons)
  show "first_byte t \<noteq> 0" "\<not> is_white (first_byte t)" using first_ok [OF a(3)] by auto
  show "p < length b" using a by simp
  show "b ! p = first_byte t" using a first_ok [OF a(3)] by (simp add: nth_append hd_conv_nth)
  then show "byte_at b p = first_byte t" using \<open>p < length b\<close> by (simp add: byte_at_def)
qed

lemma at_toks_end: "at_toks b p [] \<Longrightarrow> p = length b"
  by (auto simp: at_toks_def)

lemma at_toks_skip: "at_toks b p ts \<Longrightarrow> skip_while is_white b p = p"
  using at_toks_byte [of b p] at_toks_end [of b p] by (cases ts) (subst skip_while.simps, force)+

lemma at_toks_tl: "at_toks b p (t # ts) \<Longrightarrow> at_toks b (p + length (tok_bytes t) + 1) ts"
proof -
  assume "at_toks b p (t # ts)"
  then obtain a where "b = a @ tok_bytes t @ 32 # flat ts" "p = length a" "\<forall>t \<in> set (t # ts). tok_ok t" by (auto simp: at_toks_def flat_Cons)
  then show ?thesis unfolding at_toks_def by (intro conjI exI [of _ "a @ tok_bytes t @ [32]"]) auto
qed

lemma strchr_iff: "0 \<notin> set xs \<Longrightarrow> c \<noteq> 0 \<Longrightarrow> strchr xs c \<noteq> None \<longleftrightarrow> c \<in> set xs"
  by (induction xs) auto

lemma peek_toks: "at_toks b p ts \<Longrightarrow> 0 \<notin> set xs \<Longrightarrow> peek b p xs = (p, ts \<noteq> [] \<and> first_byte (hd ts) \<in> set xs)"
proof (cases ts)
  case Nil
  assume "at_toks b p ts" "0 \<notin> set xs"
  then show ?thesis using Nil at_toks_end [of b p] at_toks_skip [of b p "[]"] by (simp add: peek_def Let_def byte_at_def)
next
  case (Cons t us)
  assume a: "at_toks b p ts" "0 \<notin> set xs"
  then have "at_toks b p (t # us)" using Cons by simp
  note B = at_toks_byte [OF this]
  then show ?thesis using a Cons strchr_iff [OF a(2) B(4)] by (simp add: peek_def Let_def at_toks_skip [OF a(1)])
qed

lemma skip_while_run:
  "(\<And>i. i < n \<Longrightarrow> p + i < length b \<and> P (b ! (p + i))) \<Longrightarrow> (p + n < length b \<Longrightarrow> \<not> P (b ! (p + n))) \<Longrightarrow> skip_while P b p = p + n"
proof (induction n arbitrary: p)
  case 0
  then have "\<not> (p < length b \<and> P (b ! p))" by auto
  then have "skip_while P b p = p" by (simp only: skip_while.simps [of P b p] if_False)
  then show ?case by simp
next
  case (Suc n)
  have "skip_while P b (Suc p) = Suc p + n"
  proof (rule Suc.IH)
    show "Suc p + i < length b \<and> P (b ! (Suc p + i))" if "i < n" for i using Suc.prems(1) [of "Suc i"] that by simp
    show "\<not> P (b ! (Suc p + n))" if "Suc p + n < length b" using Suc.prems(2) that by simp
  qed
  then show ?case using Suc.prems(1) [of 0] by (simp add: skip_while.simps [of P b p])
qed

lemma at_toks_gap:
  assumes "at_toks b p (t # ts)"
  shows "p + length (tok_bytes t) < length b" "b ! (p + length (tok_bytes t)) = 32"
    "skip_while is_white b (p + length (tok_bytes t)) = p + length (tok_bytes t) + 1" "\<And>i. i < length (tok_bytes t) \<Longrightarrow> b ! (p + i) = tok_bytes t ! i"
proof -
  obtain a where a: "b = a @ tok_bytes t @ 32 # flat ts" "p = length a" using assms by (auto simp: at_toks_def flat_Cons)
  show g: "p + length (tok_bytes t) < length b" "b ! (p + length (tok_bytes t)) = 32" using a by (simp_all add: nth_append)
  show "b ! (p + i) = tok_bytes t ! i" if "i < length (tok_bytes t)" for i using a that by (simp add: nth_append)
  show "skip_while is_white b (p + length (tok_bytes t)) = p + length (tok_bytes t) + 1"
    using g at_toks_skip [OF at_toks_tl [OF assms]] by (simp add: skip_while.simps [of is_white b "p + length (tok_bytes t)"] is_white_iff)
qed

lemma gettoken_toks:
  assumes "at_toks b p (t # ts)"
  shows "gettoken b p = (tok_code t, p, p + length (tok_bytes t), p + length (tok_bytes t) + 1)"
proof -
  note B = at_toks_byte [OF assms] and G = at_toks_gap [OF assms] and S = at_toks_skip [OF assms]
  have ok: "tok_ok t" using assms by (simp add: at_toks_def)
  have f: "(\<lambda>c. \<not> is_white c \<and> \<not> is_symbol c) = wordy" by (simp add: wordy_def fun_eq_iff)
  show ?thesis
  proof (cases t)
    case (Word w)
    then have w: "word_fine w" using ok by simp
    then have p: "wordy (hd w)" by (cases w) (auto simp: word_fine_def)
    have "skip_while wordy b p = p + length w"
      by (rule skip_while_run) (use G Word w in \<open>auto simp: word_fine_def wordy_def is_white_iff\<close>)
    moreover have "hd w \<notin> {124, 40, 41, 59, 38, 60}" "hd w \<noteq> 62" using p by (auto simp: wordy_def is_symbol_iff)
    ultimately show ?thesis using Word B(3,4) G(3) by (simp add: gettoken_def Let_def S f)
  next
    case (Sym c)
    then have "c \<in> {60, 124, 62, 38, 59, 40, 41}" using ok by (auto simp: symbols_def)
    moreover have "byte_at b (p + 1) = 32" using G(1,2) Sym by (simp add: byte_at_def)
    ultimately show ?thesis using Sym B(3) G(3) by (auto simp: gettoken_def Let_def S)
  next
    case Append
    have "byte_at b (p + 1) = 62" using G(1) G(4) [of 1] Append by (simp add: byte_at_def)
    moreover have "length (tok_bytes t) = 2" using Append by simp
    ultimately show ?thesis using Append B(3) G(3) by (simp add: gettoken_def Let_def S)
  qed
qed

lemma gettoken_end: "at_toks b p [] \<Longrightarrow> gettoken b p = (0, p, p, p)"
  using at_toks_skip [of b p "[]"] at_toks_end [of b p] by (simp add: gettoken_def Let_def byte_at_def)

lemma next_token_toks: "at_toks b p (t # ts) \<Longrightarrow> at_toks b (next_token b p) ts"
  using gettoken_toks [of b p t ts] at_toks_tl [of b p t ts] by (simp add: next_token_def)

section \<open>Printing commands\<close>

definition redir_tok :: "u32 \<Rightarrow> token" where
  "redir_tok mode = (if mode = 0 then Sym 60 else if mode = 0x601 then Sym 62 else Append)"

definition redir_ok :: "u32 \<Rightarrow> nat \<Rightarrow> bool" where
  "redir_ok mode fd \<longleftrightarrow> (mode, fd) \<in> {(0, 0), (0x601, 1), (0x201, 1)}"

definition redir_toks :: "(u8 list \<times> u32 \<times> nat) list \<Rightarrow> token list" where
  "redir_toks rs = concat (map (\<lambda>(w, mode, fd). [redir_tok mode, Word w]) rs)"

definition paren :: "bool \<Rightarrow> token list \<Rightarrow> token list" where
  "paren b ts = (if b then Sym 40 # ts @ [Sym 41] else ts)"

text \<open>A command as tokens, in parentheses where the level of the grammar asks for them: 0 a line, 1 without \<^verbatim>\<open>;\<close>, 2 a pipe, 3 one command.\<close>

primrec print :: "u8 list cmd \<Rightarrow> nat \<Rightarrow> token list" where
  "print (EXEC ws) lv = map Word ws"
| "print (REDIR c w mode fd) lv = print c 3 @ [redir_tok mode, Word w]"
| "print (PIPE l r) lv = paren (2 < lv) (print l 3 @ Sym 124 # print r 2)"
| "print (LIST l r) lv = paren (0 < lv) (print l 1 @ Sym 59 # print r 0)"
| "print (BACK c) lv = paren (1 < lv) (print c 1 @ [Sym 38])"

primrec cmd_ok :: "u8 list cmd \<Rightarrow> bool" where
  "cmd_ok (EXEC ws) = (length ws < MAXARGS \<and> (\<forall>w \<in> set ws. word_fine w))"
| "cmd_ok (REDIR c w mode fd) = (cmd_ok c \<and> word_fine w \<and> redir_ok mode fd)"
| "cmd_ok (PIPE l r) = (cmd_ok l \<and> cmd_ok r)"
| "cmd_ok (LIST l r) = (cmd_ok l \<and> cmd_ok r)"
| "cmd_ok (BACK c) = cmd_ok c"

definition slice :: "u8 list \<Rightarrow> nat \<times> nat \<Rightarrow> u8 list" where
  "slice b w = take (snd w - fst w) (drop (fst w) b)"

definition word_at :: "u8 list \<Rightarrow> nat \<times> nat \<Rightarrow> bool" where
  "word_at b w \<longleftrightarrow> fst w \<le> snd w \<and> snd w \<le> length b \<and> (\<forall>i. fst w \<le> i \<and> i < snd w \<longrightarrow> wordy (b ! i) \<and> b ! i \<noteq> 0) \<and> (snd w < length b \<longrightarrow> \<not> wordy (b ! snd w))"

text \<open>The parsed command \<open>c\<close> stands for \<open>t\<close>.\<close>

definition stands :: "u8 list \<Rightarrow> (nat \<times> nat) cmd \<Rightarrow> u8 list cmd \<Rightarrow> bool" where
  "stands b c t \<longleftrightarrow> map_cmd (slice b) c = t \<and> (\<forall>w \<in> set_cmd c. word_at b w)"

definition stands_redirs :: "u8 list \<Rightarrow> ((nat \<times> nat) \<times> u32 \<times> nat) list \<Rightarrow> (u8 list \<times> u32 \<times> nat) list \<Rightarrow> bool" where
  "stands_redirs b rs' rs \<longleftrightarrow> map (map_prod (slice b) id) rs' = rs \<and> (\<forall>r \<in> set rs'. word_at b (fst r))"

lemma word_toks:
  assumes "at_toks b p (Word w # ts)"
  shows "slice b (p, p + length w) = w" "word_at b (p, p + length w)" "at_toks b (p + length w + 1) ts"
    "gettoken b p = (97, p, p + length w, p + length w + 1)"
proof -
  note G = at_toks_gap [OF assms]
  have w: "word_fine w" using assms by (simp add: at_toks_def)
  obtain a where a: "b = a @ w @ 32 # flat ts" "p = length a" using assms by (auto simp: at_toks_def flat_Cons)
  then show "slice b (p, p + length w) = w" by (simp add: slice_def)
  have "wordy (b ! i) \<and> b ! i \<noteq> 0" if "p \<le> i" "i < p + length w" for i
    using G(4) [of "i - p"] that w nth_mem [of "i - p" w] by (simp add: word_fine_def)
  then show "word_at b (p, p + length w)" using G(1,2) by (auto simp: word_at_def wordy_def is_white_iff)
  show "at_toks b (p + length w + 1) ts" "gettoken b p = (97, p, p + length w, p + length w + 1)"
    using at_toks_tl [OF assms] gettoken_toks [OF assms] by simp_all
qed

lemma redir_toks_Cons: "redir_toks ((w, mode, fd) # rs) = redir_tok mode # Word w # redir_toks rs" and redir_toks_Nil [simp]: "redir_toks [] = []"
  by (simp_all add: redir_toks_def)

lemma redir_tok_first: "first_byte (redir_tok mode) \<in> {60, 62}"
  by (auto simp: redir_tok_def)

lemma redir_tok_no_block: "first_byte (redir_tok mode) \<noteq> 40"
  by (simp add: redir_tok_def)

lemma parseredirs_toks:
  assumes "at_toks b p (redir_toks rs @ rest)" "\<forall>(w, mode, fd) \<in> set rs. redir_ok mode fd" "rest = [] \<or> first_byte (hd rest) \<notin> {60, 62}"
  shows "\<exists>rs' p'. parseredirs b p = Ok (rs', p') \<and> at_toks b p' rest \<and> stands_redirs b rs' rs"
  using assms(1,2)
proof (induction rs arbitrary: p)
  case Nil
  then have "peek b p [60, 62] = (p, False)" using peek_toks [of b p rest "[60, 62]"] assms(3) by auto
  then show ?case using Nil by (simp add: parseredirs.simps [of b p] stands_redirs_def)
next
  case (Cons r rs)
  obtain w mode fd where r: "r = (w, mode, fd)" by (cases r)
  have t: "at_toks b p (redir_tok mode # Word w # redir_toks rs @ rest)" using Cons.prems(1) r by (simp add: redir_toks_Cons)
  note T = word_toks [OF at_toks_tl [OF t]]
  let ?q = "p + length (tok_bytes (redir_tok mode)) + 1"
  have pk: "peek b p [60, 62] = (p, True)" using peek_toks [OF t, of "[60, 62]"] redir_tok_first [of mode] by auto
  obtain rs' p' where IH: "parseredirs b (?q + length w + 1) = Ok (rs', p')" "at_toks b p' rest" "stands_redirs b rs' rs"
    using Cons.IH [OF T(3)] Cons.prems(2) by auto
  have "redir_ok mode fd" using Cons.prems(2) r by simp
  then have "parseredirs b p = Ok (((?q, ?q + length w), mode, fd) # rs', p')"
    using pk gettoken_toks [OF t] T(4) IH(1) by (auto simp: parseredirs.simps [of b p] redir_ok_def redir_tok_def)
  moreover have "stands_redirs b (((?q, ?q + length w), mode, fd) # rs') (r # rs)" using IH(3) T(1,2) r by (simp add: stands_redirs_def)
  ultimately show ?case using IH(2) by blast
qed

definition follow :: "u8 set \<Rightarrow> token list \<Rightarrow> bool" where
  "follow cs ts \<longleftrightarrow> ts = [] \<or> (\<exists>c \<in> cs. hd ts = Sym c)"

lemma parseargs_toks:
  assumes "at_toks b p (map Word ws @ redir_toks rs @ rest)" "\<forall>(w, mode, fd) \<in> set rs. redir_ok mode fd" "follow {124, 41, 38, 59} rest"
    "length argv + length ws < MAXARGS" "ws = [] \<longrightarrow> rs = []"
  shows "\<exists>argv' rs' p'. parseargs b argv redirs p = Ok (argv @ argv', redirs @ rs', p') \<and> at_toks b p' rest \<and> map (slice b) argv' = ws \<and>
    (\<forall>w \<in> set argv'. word_at b w) \<and> stands_redirs b rs' rs"
  using assms(1,4,5)
proof (induction ws arbitrary: p argv redirs)
  case Nil
  have rs: "rs = []" using Nil by simp
  then have "at_toks b p rest" using Nil by simp
  moreover from this have "peek b p [124, 41, 38, 59] = (p, rest \<noteq> [])" using peek_toks [of b p rest "[124, 41, 38, 59]"] assms(3) by (auto simp: follow_def)
  ultimately have "parseargs b argv redirs p = Ok (argv, redirs, p)" using gettoken_end [of b p]
    by (cases "rest = []") (simp_all add: parseargs.simps [of b argv redirs p])
  then show ?case using \<open>at_toks b p rest\<close> rs by (simp add: stands_redirs_def)
next
  case (Cons w ws)
  note IH = Cons.IH and prems = Cons.prems
  have t: "at_toks b p (Word w # map Word ws @ redir_toks rs @ rest)" using Cons.prems(1) by simp
  note T = word_toks [OF t]
  have "wordy (hd w)" "hd w \<noteq> 0" using t by (auto simp: at_toks_def word_fine_def)
  then have pk: "peek b p [124, 41, 38, 59] = (p, False)" using peek_toks [OF t, of "[124, 41, 38, 59]"] by (auto simp: wordy_def is_symbol_iff)
  have nr: "rest = [] \<or> first_byte (hd rest) \<notin> {60, 62}" using assms(3) by (auto simp: follow_def)
  show ?case
  proof (cases ws)
    case Nil
    obtain rs' p' where r: "parseredirs b (p + length w + 1) = Ok (rs', p')" "at_toks b p' rest" "stands_redirs b rs' rs"
      using parseredirs_toks [OF _ assms(2) nr, of b "p + length w + 1"] T(3) Nil by auto
    have l: "parseargs b (argv @ [(p, p + length w)]) (redirs @ rs') p' = Ok (argv @ [(p, p + length w)], redirs @ rs', p')"
    proof -
      have "peek b p' [124, 41, 38, 59] = (p', rest \<noteq> [])" using peek_toks [OF r(2), of "[124, 41, 38, 59]"] assms(3) by (auto simp: follow_def)
      then show ?thesis using gettoken_end [of b p'] r(2) by (cases "rest = []") (simp_all add: parseargs.simps [of b "argv @ [(p, p + length w)]"])
    qed
    have "parseargs b argv redirs p = Ok (argv @ [(p, p + length w)], redirs @ rs', p')"
      unfolding parseargs.simps [of b argv redirs p] using pk T(4) r(1) l Cons.prems(2) by simp
    then show ?thesis using r(2,3) T(1,2) Nil by (intro exI [of _ "[(p, p + length w)]"] exI [of _ rs'] exI [of _ p']) simp
  next
    case (Cons w2 ws2)
    have t2: "at_toks b (p + length w + 1) (Word w2 # map Word ws2 @ redir_toks rs @ rest)" using T(3) Cons by simp
    have "wordy (hd w2)" "hd w2 \<noteq> 0" using t2 by (auto simp: at_toks_def word_fine_def)
    then have "peek b (p + length w + 1) [60, 62] = (p + length w + 1, False)" using peek_toks [OF t2, of "[60, 62]"] by (auto simp: wordy_def is_symbol_iff)
    then have pr: "parseredirs b (p + length w + 1) = Ok ([], p + length w + 1)" by (subst parseredirs.simps) simp
    obtain argv' rs' p' where r: "parseargs b (argv @ [(p, p + length w)]) redirs (p + length w + 1) = Ok ((argv @ [(p, p + length w)]) @ argv', redirs @ rs', p')"
        "at_toks b p' rest" "map (slice b) argv' = ws" "\<forall>w \<in> set argv'. word_at b w" "stands_redirs b rs' rs"
      using IH [of "p + length w + 1" "argv @ [(p, p + length w)]" redirs] T(3) prems(2) Cons by auto
    have "parseargs b argv redirs p = Ok (argv @ (p, p + length w) # argv', redirs @ rs', p')"
      unfolding parseargs.simps [of b argv redirs p] using pk T(4) pr r(1) prems(2) by simp
    then show ?thesis using r(2-5) T(1,2) by (intro exI [of _ "(p, p + length w) # argv'"] exI [of _ rs'] exI [of _ p']) simp
  qed
qed

lemma stands_wrap: "stands b c t \<Longrightarrow> stands_redirs b rs' rs \<Longrightarrow> stands b (wrap c rs') (wrap t rs)"
proof (induction rs' arbitrary: rs c t)
  case (Cons r rs')
  obtain w mode fd where r: "r = (w, mode, fd)" by (cases r)
  obtain rs2 where rs: "rs = (slice b w, mode, fd) # rs2" "stands_redirs b rs' rs2" and w: "word_at b w"
    using Cons.prems(2) r by (auto simp: stands_redirs_def)
  have "stands b (REDIR c w mode fd) (REDIR t (slice b w) mode fd)" using Cons.prems(1) w by (simp add: stands_def)
  then show ?case using Cons.IH [OF _ rs(2)] rs(1) r by (simp add: wrap_def)
qed (simp add: stands_redirs_def wrap_def)

lemma wrap_Cons: "wrap c ((w, mode, fd) # rs) = wrap (REDIR c w mode fd) rs"
  by (simp add: wrap_def)

section \<open>Reading printed commands\<close>

text \<open>What the four routines do on the tokens of a command: each with enough fuel, and followed by what cannot go on the command.\<close>

definition reads_exec :: "u8 list cmd \<Rightarrow> bool" where
  "reads_exec t \<longleftrightarrow> (\<forall>n b p rs rest. 4 * length (print t 3) + 2 \<le> n \<and> at_toks b p (print t 3 @ redir_toks rs @ rest) \<and>
     (\<forall>(w, mode, fd) \<in> set rs. redir_ok mode fd) \<and> follow {124, 41, 38, 59} rest \<longrightarrow>
     (\<exists>c p'. parseexec n b p = Ok (c, p') \<and> at_toks b p' rest \<and> stands b c (wrap t rs)))"

definition reads_pipe :: "u8 list cmd \<Rightarrow> bool" where
  "reads_pipe t \<longleftrightarrow> (\<forall>n b p rest. 4 * length (print t 2) + 3 \<le> n \<and> at_toks b p (print t 2 @ rest) \<and> follow {41, 38, 59} rest \<longrightarrow>
     (\<exists>c p'. parsepipe n b p = Ok (c, p') \<and> at_toks b p' rest \<and> stands b c t))"

definition reads_back :: "u8 list cmd \<Rightarrow> bool" where
  "reads_back t \<longleftrightarrow> (\<forall>n b p j rest. 4 * length (print t 1) + 3 \<le> n \<and> at_toks b p (print t 1 @ replicate j (Sym 38) @ rest) \<and> follow {41, 59} rest \<longrightarrow>
     (\<exists>c p1 c' p'. parsepipe n b p = Ok (c, p1) \<and> parsebacks b c p1 = (c', p') \<and> at_toks b p' rest \<and> stands b c' ((BACK ^^ j) t)))"

definition reads_line :: "u8 list cmd \<Rightarrow> bool" where
  "reads_line t \<longleftrightarrow> (\<forall>n b p rest. 4 * length (print t 0) + 4 \<le> n \<and> at_toks b p (print t 0 @ rest) \<and> follow {41} rest \<longrightarrow>
     (\<exists>c p'. parseline n b p = Ok (c, p') \<and> at_toks b p' rest \<and> stands b c t))"

lemma follow_peek: "follow cs ts \<Longrightarrow> at_toks b p ts \<Longrightarrow> 0 \<notin> set xs \<Longrightarrow> cs \<inter> set xs = {} \<Longrightarrow> peek b p xs = (p, False)"
  using peek_toks [of b p ts xs] by (auto simp: follow_def)

lemma sym_peek: "at_toks b p (Sym c # ts) \<Longrightarrow> 0 \<notin> set xs \<Longrightarrow> peek b p xs = (p, c \<in> set xs)"
  using peek_toks [of b p "Sym c # ts" xs] by simp

lemma follow_mono: "follow cs ts \<Longrightarrow> cs \<subseteq> ds \<Longrightarrow> follow ds ts"
  by (auto simp: follow_def)

lemma exec_words: assumes "cmd_ok (EXEC ws)" shows "reads_exec (EXEC ws)"
  unfolding reads_exec_def
proof (intro allI impI, elim conjE)
  fix n b p rs rest
  assume a: "4 * length (print (EXEC ws) 3) + 2 \<le> n" "at_toks b p (print (EXEC ws) 3 @ redir_toks rs @ rest)" "\<forall>(w, mode, fd) \<in> set rs. redir_ok mode fd"
    "follow {124, 41, 38, 59} rest"
  obtain m where n: "n = Suc m" using a(1) by (cases n) auto
  have t: "at_toks b p (map Word ws @ redir_toks rs @ rest)" using a(2) by simp
  have nr: "rest = [] \<or> first_byte (hd rest) \<notin> {60, 62}" using a(4) by (auto simp: follow_def)
  show "\<exists>c p'. parseexec n b p = Ok (c, p') \<and> at_toks b p' rest \<and> stands b c (wrap (EXEC ws) rs)"
  proof (cases ws)
    case Nil
    have "peek b p [40] = (p, False)"
    proof (cases rs)
      case Nil
      then show ?thesis using follow_peek [OF a(4), of b p "[40]"] t \<open>ws = []\<close> by simp
    next
      case (Cons r rs2)
      then show ?thesis using peek_toks [OF t, of "[40]"] \<open>ws = []\<close> redir_tok_no_block by (cases r) (auto simp: redir_toks_Cons)
    qed
    moreover obtain rs' p' where r: "parseredirs b p = Ok (rs', p')" "at_toks b p' rest" "stands_redirs b rs' rs"
      using parseredirs_toks [OF _ a(3) nr, of b p] t Nil by auto
    moreover obtain argv' rs2 p2 where "parseargs b [] rs' p' = Ok ([] @ argv', rs' @ rs2, p2)" "at_toks b p2 rest" "map (slice b) argv' = []" "stands_redirs b rs2 []"
      using parseargs_toks [of b p' "[]" "[]" rest "[]" rs'] r(2) a(4) by auto
    ultimately show ?thesis using n Nil stands_wrap [of b "EXEC []" "EXEC []" rs' rs]
      by (simp add: parseexec.simps(2) stands_def stands_redirs_def)
  next
    case (Cons w ws2)
    have t2: "at_toks b p (Word w # map Word ws2 @ redir_toks rs @ rest)" using t Cons by simp
    have "wordy (hd w)" "hd w \<noteq> 0" using t2 by (auto simp: at_toks_def word_fine_def)
    then have pk: "peek b p [40] = (p, False)" "peek b p [60, 62] = (p, False)"
      using peek_toks [OF t2, of "[40]"] peek_toks [OF t2, of "[60, 62]"] by (auto simp: wordy_def is_symbol_iff)
    have pr: "parseredirs b p = Ok ([], p)" using pk(2) by (subst parseredirs.simps) simp
    obtain argv' rs' p' where r: "parseargs b [] [] p = Ok ([] @ argv', [] @ rs', p')" "at_toks b p' rest" "map (slice b) argv' = ws"
        "\<forall>w \<in> set argv'. word_at b w" "stands_redirs b rs' rs"
      using parseargs_toks [OF t a(3,4), of "[]" "[]"] assms Cons by auto
    have "stands b (EXEC argv') (EXEC ws)" using r(3,4) by (simp add: stands_def)
    then show ?thesis using n pk(1) pr r stands_wrap [of b "EXEC argv'" "EXEC ws" rs' rs] by (simp add: parseexec.simps(2))
  qed
qed

lemma exec_redir: "reads_exec c \<Longrightarrow> redir_ok mode fd \<Longrightarrow> reads_exec (REDIR c w mode fd)"
  unfolding reads_exec_def
proof (intro allI impI, elim conjE)
  fix n b p rs rest
  assume E: "\<forall>n b p rs rest. 4 * length (print c 3) + 2 \<le> n \<and> at_toks b p (print c 3 @ redir_toks rs @ rest) \<and>
     (\<forall>(w, mode, fd) \<in> set rs. redir_ok mode fd) \<and> follow {124, 41, 38, 59} rest \<longrightarrow>
     (\<exists>d p'. parseexec n b p = Ok (d, p') \<and> at_toks b p' rest \<and> stands b d (wrap c rs))"
    and ok: "redir_ok mode fd"
    and a: "4 * length (print (REDIR c w mode fd) 3) + 2 \<le> n" "at_toks b p (print (REDIR c w mode fd) 3 @ redir_toks rs @ rest)"
    "\<forall>(w, mode, fd) \<in> set rs. redir_ok mode fd" "follow {124, 41, 38, 59} rest"
  have "at_toks b p (print c 3 @ redir_toks ((w, mode, fd) # rs) @ rest)" using a(2) by (simp add: redir_toks_Cons)
  then show "\<exists>d p'. parseexec n b p = Ok (d, p') \<and> at_toks b p' rest \<and> stands b d (wrap (REDIR c w mode fd) rs)"
    using E [rule_format, of n b p "(w, mode, fd) # rs" rest] a ok by (simp add: wrap_Cons)
qed

lemma exec_block:
  assumes L: "reads_line t" and e: "print t 3 = Sym 40 # print t 0 @ [Sym 41]"
  shows "reads_exec t"
  unfolding reads_exec_def
proof (intro allI impI, elim conjE)
  fix n b p rs rest
  assume a: "4 * length (print t 3) + 2 \<le> n" "at_toks b p (print t 3 @ redir_toks rs @ rest)" "\<forall>(w, mode, fd) \<in> set rs. redir_ok mode fd"
    "follow {124, 41, 38, 59} rest"
  obtain m where n: "n = Suc (Suc m)" "4 * length (print t 0) + 4 \<le> m" using a(1) e that [of "n - 2"] by simp
  have t: "at_toks b p (Sym 40 # print t 0 @ Sym 41 # redir_toks rs @ rest)" using a(2) e by simp
  have pk: "peek b p [40] = (p, True)" using sym_peek [OF t, of "[40]"] by simp
  obtain c p1 where l: "parseline m b (next_token b p) = Ok (c, p1)" "at_toks b p1 (Sym 41 # redir_toks rs @ rest)" "stands b c t"
    using L [unfolded reads_line_def, rule_format, of m b "next_token b p" "Sym 41 # redir_toks rs @ rest"] n(2) next_token_toks [OF t] by (auto simp: follow_def)
  have pk1: "peek b p1 [41] = (p1, True)" using sym_peek [OF l(2), of "[41]"] by simp
  have nr: "rest = [] \<or> first_byte (hd rest) \<notin> {60, 62}" using a(4) by (auto simp: follow_def)
  obtain rs' p2 where r: "parseredirs b (next_token b p1) = Ok (rs', p2)" "at_toks b p2 rest" "stands_redirs b rs' rs"
    using parseredirs_toks [OF next_token_toks [OF l(2)] a(3) nr] by blast
  have "parseexec n b p = Ok (wrap c rs', p2)" unfolding n parseexec.simps(2) parseblock.simps(2) using pk l(1) pk1 r(1) by simp
  then show "\<exists>c p'. parseexec n b p = Ok (c, p') \<and> at_toks b p' rest \<and> stands b c (wrap t rs)" using r(2) stands_wrap [OF l(3) r(3)] by blast
qed

lemma pipe_exec:
  assumes E: "reads_exec t" and e: "print t 2 = print t 3"
  shows "reads_pipe t"
  unfolding reads_pipe_def
proof (intro allI impI, elim conjE)
  fix n b p rest
  assume a: "4 * length (print t 2) + 3 \<le> n" "at_toks b p (print t 2 @ rest)" "follow {41, 38, 59} rest"
  obtain m where n: "n = Suc m" "4 * length (print t 3) + 2 \<le> m" using a(1) e that [of "n - 1"] by simp
  obtain c p' where c: "parseexec m b p = Ok (c, p')" "at_toks b p' rest" "stands b c (wrap t [])"
    using E [unfolded reads_exec_def, rule_format, of m b p "[]" rest] n(2) a(2) e follow_mono [OF a(3)] by auto
  have "peek b p' [124] = (p', False)" using follow_peek [OF a(3) c(2), of "[124]"] by simp
  then show "\<exists>c p'. parsepipe n b p = Ok (c, p') \<and> at_toks b p' rest \<and> stands b c t" using n(1) c by (simp add: parsepipe.simps(2) wrap_def)
qed

lemma pipe_pipe:
  assumes E: "reads_exec l" and P: "reads_pipe r"
  shows "reads_pipe (PIPE l r)"
  unfolding reads_pipe_def
proof (intro allI impI, elim conjE)
  fix n b p rest
  assume a: "4 * length (print (PIPE l r) 2) + 3 \<le> n" "at_toks b p (print (PIPE l r) 2 @ rest)" "follow {41, 38, 59} rest"
  have n: "n = Suc (n - 1)" "4 * length (print l 3) + 2 \<le> n - 1" "4 * length (print r 2) + 3 \<le> n - 1" using a(1) by (auto simp: paren_def)
  have t: "at_toks b p (print l 3 @ Sym 124 # print r 2 @ rest)" using a(2) by (simp add: paren_def)
  obtain c p1 where c: "parseexec (n - 1) b p = Ok (c, p1)" "at_toks b p1 (Sym 124 # print r 2 @ rest)" "stands b c (wrap l [])"
    using E [unfolded reads_exec_def, rule_format, of "n - 1" b p "[]" "Sym 124 # print r 2 @ rest"] n(2) t by (auto simp: follow_def)
  have pk: "peek b p1 [124] = (p1, True)" using sym_peek [OF c(2), of "[124]"] by simp
  obtain d p2 where d: "parsepipe (n - 1) b (next_token b p1) = Ok (d, p2)" "at_toks b p2 rest" "stands b d r"
    using P [unfolded reads_pipe_def, rule_format, of "n - 1" b "next_token b p1" rest] n(3) next_token_toks [OF c(2)] a(3) by auto
  have "parsepipe n b p = Ok (PIPE c d, p2)" by (subst n(1)) (simp add: parsepipe.simps(2) c(1) pk d(1) del: One_nat_def)
  then show "\<exists>c p'. parsepipe n b p = Ok (c, p') \<and> at_toks b p' rest \<and> stands b c (PIPE l r)"
    using d(2,3) c(3) by (intro exI [of _ "PIPE c d"] exI [of _ p2]) (auto simp: stands_def wrap_def)
qed

lemma parsebacks_toks:
  "at_toks b p (replicate j (Sym 38) @ rest) \<Longrightarrow> follow {41, 59} rest \<Longrightarrow> stands b c t \<Longrightarrow>
    \<exists>c' p'. parsebacks b c p = (c', p') \<and> at_toks b p' rest \<and> stands b c' ((BACK ^^ j) t)"
proof (induction j arbitrary: p c t)
  case 0
  then have "peek b p [38] = (p, False)" using follow_peek [of "{41, 59}" rest b p "[38]"] by simp
  then show ?case using 0 by (simp add: parsebacks.simps [of b c p])
next
  case (Suc j)
  have s: "at_toks b p (Sym 38 # replicate j (Sym 38) @ rest)" using Suc.prems(1) by simp
  have pk: "peek b p [38] = (p, True)" using sym_peek [OF s, of "[38]"] by simp
  have "stands b (BACK c) (BACK t)" using Suc.prems(3) by (simp add: stands_def)
  then obtain c' p' where "parsebacks b (BACK c) (next_token b p) = (c', p')" "at_toks b p' rest" "stands b c' ((BACK ^^ j) (BACK t))"
    using Suc.IH [OF next_token_toks [OF s] Suc.prems(2)] by blast
  then show ?case using pk by (simp add: parsebacks.simps [of b c p] funpow_swap1)
qed

lemma back_pipe:
  assumes P: "reads_pipe t" and e: "print t 1 = print t 2"
  shows "reads_back t"
  unfolding reads_back_def
proof (intro allI impI, elim conjE)
  fix n b p j rest
  assume a: "4 * length (print t 1) + 3 \<le> n" "at_toks b p (print t 1 @ replicate j (Sym 38) @ rest)" "follow {41, 59} rest"
  have "follow {41, 38, 59} (replicate j (Sym 38) @ rest)" using a(3) by (cases j) (auto simp: follow_def)
  then obtain c p1 where c: "parsepipe n b p = Ok (c, p1)" "at_toks b p1 (replicate j (Sym 38) @ rest)" "stands b c t"
    using P [unfolded reads_pipe_def, rule_format, of n b p "replicate j (Sym 38) @ rest"] a e by auto
  then show "\<exists>c p1 c' p'. parsepipe n b p = Ok (c, p1) \<and> parsebacks b c p1 = (c', p') \<and> at_toks b p' rest \<and> stands b c' ((BACK ^^ j) t)"
    using parsebacks_toks [OF c(2) a(3) c(3)] by blast
qed

lemma back_back:
  assumes "reads_back t"
  shows "reads_back (BACK t)"
  unfolding reads_back_def
proof (intro allI impI, elim conjE)
  fix n b p j rest
  assume a: "4 * length (print (BACK t) 1) + 3 \<le> n" "at_toks b p (print (BACK t) 1 @ replicate j (Sym 38) @ rest)" "follow {41, 59} rest"
  have "at_toks b p (print t 1 @ replicate (Suc j) (Sym 38) @ rest)" using a(2) by (simp add: paren_def)
  moreover have "(BACK ^^ Suc j) t = (BACK ^^ j) (BACK t)" by (simp add: funpow_swap1)
  ultimately show "\<exists>c p1 c' p'. parsepipe n b p = Ok (c, p1) \<and> parsebacks b c p1 = (c', p') \<and> at_toks b p' rest \<and> stands b c' ((BACK ^^ j) (BACK t))"
    using assms [unfolded reads_back_def, rule_format, of n b p "Suc j" rest] a(1,3) by (simp add: paren_def)
qed

lemma line_back:
  assumes B: "reads_back t" and e: "print t 0 = print t 1"
  shows "reads_line t"
  unfolding reads_line_def
proof (intro allI impI, elim conjE)
  fix n b p rest
  assume a: "4 * length (print t 0) + 4 \<le> n" "at_toks b p (print t 0 @ rest)" "follow {41} rest"
  obtain m where n: "n = Suc m" "4 * length (print t 1) + 3 \<le> m" using a(1) e that [of "n - 1"] by simp
  obtain c p1 c' p' where c: "parsepipe m b p = Ok (c, p1)" "parsebacks b c p1 = (c', p')" "at_toks b p' rest" "stands b c' t"
    using B [unfolded reads_back_def, rule_format, of m b p 0 rest] n(2) a(2) e follow_mono [OF a(3), of "{41, 59}"] by auto
  have "peek b p' [59] = (p', False)" using follow_peek [OF a(3) c(3), of "[59]"] by simp
  then show "\<exists>c p'. parseline n b p = Ok (c, p') \<and> at_toks b p' rest \<and> stands b c t" using n(1) c by (simp add: parseline.simps(2))
qed

lemma line_list:
  assumes B: "reads_back l" and L: "reads_line r"
  shows "reads_line (LIST l r)"
  unfolding reads_line_def
proof (intro allI impI, elim conjE)
  fix n b p rest
  assume a: "4 * length (print (LIST l r) 0) + 4 \<le> n" "at_toks b p (print (LIST l r) 0 @ rest)" "follow {41} rest"
  have n: "n = Suc (n - 1)" "4 * length (print l 1) + 3 \<le> n - 1" "4 * length (print r 0) + 4 \<le> n - 1" using a(1) by (auto simp: paren_def)
  have t: "at_toks b p (print l 1 @ replicate 0 (Sym 38) @ Sym 59 # print r 0 @ rest)" using a(2) by (simp add: paren_def)
  obtain c p1 c' p2 where c: "parsepipe (n - 1) b p = Ok (c, p1)" "parsebacks b c p1 = (c', p2)" "at_toks b p2 (Sym 59 # print r 0 @ rest)" "stands b c' ((BACK ^^ 0) l)"
    using B [unfolded reads_back_def, rule_format, of "n - 1" b p 0 "Sym 59 # print r 0 @ rest"] n(2) t by (auto simp: follow_def)
  have pk: "peek b p2 [59] = (p2, True)" using sym_peek [OF c(3), of "[59]"] by simp
  obtain d p3 where d: "parseline (n - 1) b (next_token b p2) = Ok (d, p3)" "at_toks b p3 rest" "stands b d r"
    using L [unfolded reads_line_def, rule_format, of "n - 1" b "next_token b p2" rest] n(3) next_token_toks [OF c(3)] a(3) by auto
  have "parseline n b p = Ok (LIST c' d, p3)" by (subst n(1)) (simp add: parseline.simps(2) c(1,2) pk d(1) del: One_nat_def)
  then show "\<exists>c p'. parseline n b p = Ok (c, p') \<and> at_toks b p' rest \<and> stands b c (LIST l r)"
    using d(2,3) c(4) by (intro exI [of _ "LIST c' d"] exI [of _ p3]) (auto simp: stands_def)
qed

lemma reads_all: "cmd_ok t \<Longrightarrow> reads_exec t \<and> reads_pipe t \<and> reads_back t \<and> reads_line t"
proof (induction t)
  case (EXEC ws)
  then have E: "reads_exec (EXEC ws)" by (rule exec_words)
  then have P: "reads_pipe (EXEC ws)" by (rule pipe_exec) simp
  then have B: "reads_back (EXEC ws)" by (rule back_pipe) simp
  then have "reads_line (EXEC ws)" by (rule line_back) simp
  with E P B show ?case by blast
next
  case (REDIR c w mode fd)
  then have E: "reads_exec (REDIR c w mode fd)" by (intro exec_redir) auto
  then have P: "reads_pipe (REDIR c w mode fd)" by (rule pipe_exec) simp
  then have B: "reads_back (REDIR c w mode fd)" by (rule back_pipe) simp
  then have "reads_line (REDIR c w mode fd)" by (rule line_back) simp
  with E P B show ?case by blast
next
  case (PIPE l r)
  then have P: "reads_pipe (PIPE l r)" by (intro pipe_pipe) auto
  then have B: "reads_back (PIPE l r)" by (rule back_pipe) (simp add: paren_def)
  then have L: "reads_line (PIPE l r)" by (rule line_back) (simp add: paren_def)
  then have "reads_exec (PIPE l r)" by (rule exec_block) (simp add: paren_def)
  with P B L show ?case by blast
next
  case (LIST l r)
  then have L: "reads_line (LIST l r)" by (intro line_list) auto
  then have E: "reads_exec (LIST l r)" by (rule exec_block) (simp add: paren_def)
  then have P: "reads_pipe (LIST l r)" by (rule pipe_exec) (simp add: paren_def)
  then have "reads_back (LIST l r)" by (rule back_pipe) (simp add: paren_def)
  with L E P show ?case by blast
next
  case (BACK c)
  then have B: "reads_back (BACK c)" by (intro back_back) auto
  then have L: "reads_line (BACK c)" by (rule line_back) (simp add: paren_def)
  then have E: "reads_exec (BACK c)" by (rule exec_block) (simp add: paren_def)
  then have "reads_pipe (BACK c)" by (rule pipe_exec) (simp add: paren_def)
  with L E B show ?case by blast
qed

section \<open>Terminating the words\<close>

lemma terminate_bytes: "length (terminate w buf) = length buf" "i < length buf \<Longrightarrow> terminate w buf ! i = (if snd w = i then 0 else buf ! i)"
  by (auto simp: terminate_def nth_list_update)

lemma fold_terminate:
  "length (fold terminate ws buf) = length buf \<and> (\<forall>i < length buf. fold terminate ws buf ! i = (if \<exists>w \<in> set ws. snd w = i then 0 else buf ! i))"
proof (induction ws arbitrary: buf)
  case (Cons w ws)
  then show ?case using Cons.IH [of "terminate w buf"] by (auto simp: terminate_bytes)
qed simp

lemma nulterminate_bytes:
  "length (nulterminate c buf) = length buf \<and> (\<forall>i < length buf. nulterminate c buf ! i = (if \<exists>w \<in> set_cmd c. snd w = i then 0 else buf ! i))"
proof (induction c arbitrary: buf)
  case (EXEC ws)
  then show ?case using fold_terminate [of ws buf] by simp
next
  case (REDIR c w mode fd)
  show ?case using REDIR.IH [of buf] by (auto simp: terminate_bytes)
qed auto

definition cstring_at :: "u8 list \<Rightarrow> nat \<times> nat \<Rightarrow> u8 list" where
  "cstring_at buf w = takeWhile (\<lambda>c. c \<noteq> 0) (drop (fst w) buf)"

lemma nulterminate_words:
  assumes "\<forall>w \<in> set_cmd c. word_at b w" "w \<in> set_cmd c"
  shows "cstring_at (nulterminate c (b @ [0])) w = slice b w"
proof -
  let ?u = "nulterminate c (b @ [0])"
  have u: "length ?u = length b + 1" "\<And>i. i < length b + 1 \<Longrightarrow> ?u ! i = (if \<exists>w \<in> set_cmd c. snd w = i then 0 else (b @ [0]) ! i)"
    using nulterminate_bytes [of c "b @ [0]"] by auto
  have w: "fst w \<le> snd w" "snd w \<le> length b" "\<And>i. fst w \<le> i \<Longrightarrow> i < snd w \<Longrightarrow> wordy (b ! i) \<and> b ! i \<noteq> 0"
    using assms by (auto simp: word_at_def)
  have in_word: "?u ! i = b ! i \<and> b ! i \<noteq> 0" if i: "fst w \<le> i" "i < snd w" for i
  proof -
    have "snd v \<noteq> i" if "v \<in> set_cmd c" for v
      using assms(1) that w(2) w(3) [OF i] i(2) unfolding word_at_def by fastforce
    then show ?thesis using u(2) [of i] w(2) w(3) [OF i] i(2) by (auto simp: nth_append)
  qed
  have "takeWhile (\<lambda>c. c \<noteq> 0) (drop (fst w) ?u) = take (snd w - fst w) (drop (fst w) ?u)"
  proof (rule takeWhile_eq_take_P_nth)
    show "drop (fst w) ?u ! i \<noteq> 0" if "i < snd w - fst w" for i using in_word [of "fst w + i"] that u(1) w(2) by simp
    show "\<not> drop (fst w) ?u ! (snd w - fst w) \<noteq> 0" using u(2) [of "snd w"] w(1,2) assms(2) u(1) by auto
  qed
  also have "\<dots> = take (snd w - fst w) (drop (fst w) b)" by (rule nth_equalityI) (use in_word u(1) w(1,2) in auto)
  finally show ?thesis by (simp add: cstring_at_def slice_def)
qed

text \<open>
  C9 (roundtrip). A command of the shell, built from words without white space, symbols or NUL, with at most nine arguments
  for a program, redirections, pipes, lists, background commands and any nesting of them, is printed as a line with parentheses
  where the grammar needs them. The parser returns from this line, without an error, the same command: every argument and every
  file name is a C string in the buffer after \<^verbatim>\<open>nulterminate\<close>.
\<close>

theorem parsecmd_roundtrip:
  assumes "cmd_ok t"
  shows "\<exists>c buf. parsecmd (flat (print t 0)) = Ok (c, buf) \<and> map_cmd (cstring_at buf) c = t"
proof -
  let ?ts = "print t 0" and ?b = "flat (print t 0)"
  have "\<forall>k \<in> set (print u lv). tok_ok k" if "cmd_ok u" for u lv using that
    by (induction u arbitrary: lv) (auto simp: paren_def symbols_def redir_tok_def)
  then have at: "at_toks ?b 0 (?ts @ [])" using assms by (auto simp: at_toks_def)
  have "length ts \<le> length (flat ts)" for ts by (induction ts) (auto simp: flat_Cons)
  then have "4 * length ?ts + 4 \<le> 4 * length ?b + 4" by simp
  then obtain c p where c: "parseline (4 * length ?b + 4) ?b 0 = Ok (c, p)" "at_toks ?b p []" "stands ?b c t"
    using reads_all [OF assms, THEN conjunct2, THEN conjunct2, THEN conjunct2, unfolded reads_line_def, rule_format, of "4 * length ?b + 4" ?b 0 "[]"] at
    by (auto simp: follow_def)
  have "peek ?b p [] = (length ?b, False)" using peek_toks [OF c(2), of "[]"] at_toks_end [OF c(2)] by simp
  then have "parsecmd ?b = Ok (c, nulterminate c (?b @ [0]))" using c(1) by (simp add: parsecmd_def)
  moreover have "map_cmd (cstring_at (nulterminate c (?b @ [0]))) c = map_cmd (slice ?b) c"
    by (rule cmd.map_cong0) (use c(3) nulterminate_words in \<open>auto simp: stands_def\<close>)
  ultimately show ?thesis using c(3) by (auto simp: stands_def)
qed

text \<open>The line \<^verbatim>\<open>a < f | ( b & ; c d ) ; e\<close>.\<close>

theorem parsecmd_roundtrip_witness:
  "\<exists>c buf. parsecmd [97, 32, 60, 32, 102, 32, 124, 32, 40, 32, 98, 32, 38, 32, 59, 32, 99, 32, 100, 32, 41, 32, 59, 32, 101, 32] = Ok (c, buf) \<and>
    map_cmd (cstring_at buf) c = LIST (PIPE (REDIR (EXEC [[97]]) [102] 0 0) (LIST (BACK (EXEC [[98]])) (EXEC [[99], [100]]))) (EXEC [[101]])"
proof -
  let ?t = "LIST (PIPE (REDIR (EXEC [[97]]) [102] 0 0) (LIST (BACK (EXEC [[98]])) (EXEC [[99], [100]]))) (EXEC [[101]]) :: u8 list cmd"
  have "flat (print ?t 0) = [97, 32, 60, 32, 102, 32, 124, 32, 40, 32, 98, 32, 38, 32, 59, 32, 99, 32, 100, 32, 41, 32, 59, 32, 101, 32]"
    by (simp add: paren_def redir_tok_def flat_def)
  moreover have "cmd_ok ?t" by (simp add: word_fine_def wordy_def is_white_iff is_symbol_iff redir_ok_def)
  ultimately show ?thesis using parsecmd_roundtrip [of ?t] by simp
qed

section \<open>The parser always returns\<close>

definition settles :: "'a outcome \<Rightarrow> ('a \<Rightarrow> bool) \<Rightarrow> bool" where
  "settles m P \<longleftrightarrow> (case m of Panic _ \<Rightarrow> True | Ok x \<Rightarrow> P x | _ \<Rightarrow> False)"

lemma settles_basic [simp]: "settles (Ok x) P = P x" "settles (Panic e) P"
  by (simp_all add: settles_def)

lemma settles_obind: "settles m P \<Longrightarrow> (\<And>x. P x \<Longrightarrow> settles (f x) Q) \<Longrightarrow> settles (obind m f) Q"
  by (cases m) (auto simp: settles_def)

lemma settles_mono: "settles m P \<Longrightarrow> (\<And>x. P x \<Longrightarrow> Q x) \<Longrightarrow> settles m Q"
  by (cases m) (auto simp: settles_def)

text \<open>Positions in a line without NUL, from \<open>p\<close> on.\<close>

abbreviation from_pos :: "u8 list \<Rightarrow> nat \<Rightarrow> nat \<Rightarrow> bool" where
  "from_pos b p q \<equiv> p \<le> q \<and> q \<le> length b"

lemma next_token_pos:
  assumes "0 \<notin> set b" "p \<le> length b"
  shows "from_pos b p (next_token b p)"
proof (cases "gettoken b p")
  case (fields ret q eq p')
  then show ?thesis using gettoken_progress [OF fields assms] by (simp add: next_token_def)
qed

lemma peek_pos: "p \<le> length b \<Longrightarrow> from_pos b p (fst (peek b p toks))"
  using skip_while_ge [of p is_white b] skip_while_le [of p b is_white] by (simp add: peek_def Let_def)

lemma parseredirs_settles: "0 \<notin> set b \<Longrightarrow> p \<le> length b \<Longrightarrow> settles (parseredirs b p) (\<lambda>(rs, p'). from_pos b p p')"
proof (induction b p rule: parseredirs.induct)
  case (1 b p)
  obtain p1 m where pk: "peek b p [60, 62] = (p1, m)" by fastforce
  then have p1: "from_pos b p p1" using peek_pos [OF 1(3), of "[60, 62]"] by simp
  obtain tok x y p2 where g: "gettoken b p1 = (tok, x, y, p2)" by (metis prod_cases4)
  obtain tok2 q eq p3 where g2: "gettoken b p2 = (tok2, q, eq, p3)" by (metis prod_cases4)
  have p2: "from_pos b p1 p2" using gettoken_progress [OF g 1(2)] p1 by simp
  have p3: "from_pos b p2 p3" using gettoken_progress [OF g2 1(2)] p2 by simp
  have "settles (parseredirs b p3) (\<lambda>(rs, p'). from_pos b p3 p')" if "m" "tok2 = 97"
    using 1(1) [OF pk [symmetric] _ g [symmetric] _ _ g2 [symmetric]] 1(2) p3 that by simp
  then have "settles (parseredirs b p3) (\<lambda>(rs, p'). from_pos b p p')" if "m" "tok2 = 97"
    by (rule settles_mono) (use that p1 p2 p3 in auto)
  then show ?case unfolding parseredirs.simps [of b p] pk g g2 prod.case using p1 by (auto intro!: settles_obind)
qed

lemma parsebacks_pos: "0 \<notin> set b \<Longrightarrow> p \<le> length b \<Longrightarrow> from_pos b p (snd (parsebacks b c p))"
proof (induction b c p rule: parsebacks.induct)
  case (1 b c p)
  obtain p1 m where pk: "peek b p [38] = (p1, m)" by fastforce
  then have p1: "from_pos b p p1" using peek_pos [OF 1(3), of "[38]"] by simp
  have "from_pos b (next_token b p1) (snd (parsebacks b (BACK c) (next_token b p1)))" if m
    using 1(1) [OF pk [symmetric] that 1(2)] next_token_pos [OF 1(2), of p1] p1 by simp
  then show ?case unfolding parsebacks.simps [of b c p] pk prod.case using p1 next_token_pos [OF 1(2), of p1] by auto
qed

lemma parseargs_settles: "0 \<notin> set b \<Longrightarrow> p \<le> length b \<Longrightarrow> settles (parseargs b argv rs p) (\<lambda>(argv', rs', p'). from_pos b p p')"
proof (induction "MAXARGS - length argv" arbitrary: argv rs p rule: less_induct)
  case less
  obtain p1 m where pk: "peek b p [124, 41, 38, 59] = (p1, m)" by fastforce
  then have p1: "from_pos b p p1" using peek_pos [OF less.prems(2), of "[124, 41, 38, 59]"] by simp
  obtain tok q eq p2 where g: "gettoken b p1 = (tok, q, eq, p2)" by (metis prod_cases4)
  have p2: "from_pos b p1 p2" using gettoken_progress [OF g less.prems(1)] p1 by simp
  have "settles (parseargs b (argv @ [(q, eq)]) (rs @ rs') p3) (\<lambda>(argv', rs', p'). from_pos b p p')"
    if "\<not> MAXARGS \<le> length argv + 1" "from_pos b p2 p3" for rs' p3
    by (rule settles_mono [OF less.hyps]) (use that less.prems p1 p2 in auto)
  note R = this
  have "settles (obind (parseredirs b p2) (\<lambda>(rs', p). parseargs b (argv @ [(q, eq)]) (rs @ rs') p)) (\<lambda>(argv', rs', p'). from_pos b p p')"
    if "\<not> MAXARGS \<le> length argv + 1"
    by (rule settles_obind [OF parseredirs_settles [OF less.prems(1)]]) (use p2 R [OF that] in auto)
  then show ?case unfolding parseargs.simps [of b argv rs p] pk g prod.case using p1 p2 by auto
qed

text \<open>With enough fuel, a routine returns from every position.\<close>

definition settled :: "(nat \<Rightarrow> u8 list \<Rightarrow> nat \<Rightarrow> ((nat \<times> nat) cmd \<times> nat) outcome) \<Rightarrow> nat \<Rightarrow> nat \<Rightarrow> u8 list \<Rightarrow> bool" where
  "settled f k n b \<longleftrightarrow> (\<forall>p. p \<le> length b \<and> 4 * (length b - p) + k \<le> n \<longrightarrow> settles (f n b p) (\<lambda>(c, p'). from_pos b p p'))"

lemma settledD: "settled f k n b \<Longrightarrow> p \<le> length b \<Longrightarrow> 4 * (length b - p) + k \<le> n \<Longrightarrow> settles (f n b p) (\<lambda>(c, p'). from_pos b p p')"
  by (simp add: settled_def)

lemma settledI: "(\<And>p. p \<le> length b \<Longrightarrow> 4 * (length b - p) + k \<le> n \<Longrightarrow> settles (f n b p) (\<lambda>(c, p'). from_pos b p p')) \<Longrightarrow> settled f k n b"
  by (simp add: settled_def)

lemma next_token_sym: "peek b p [c] = (p1, True) \<Longrightarrow> c \<in> set symbols \<Longrightarrow> p1 < next_token b p1"
  using peek_symbol [of b p "[c]" p1] by simp

lemma settles_node: "settles m (\<lambda>(c, p'). from_pos b q p') \<Longrightarrow> p \<le> q \<Longrightarrow> settles (obind m (\<lambda>(r, p). Ok (g r, p))) (\<lambda>(c, p'). from_pos b p p')"
  by (rule settles_obind, assumption) auto

lemma parseline_settled:
  assumes z: "0 \<notin> set b" and P: "settled parsepipe 3 n b" and L: "settled parseline 4 n b"
  shows "settled parseline 4 (Suc n) b"
proof (rule settledI)
  fix p assume p: "p \<le> length b" "4 * (length b - p) + 4 \<le> Suc n"
  have "settles (case parsebacks b c p1 of (c, p) \<Rightarrow> (case peek b p [59] of (p, more) \<Rightarrow>
       if more then obind (parseline n b (next_token b p)) (\<lambda>(r, p). Ok (LIST c r, p)) else Ok (c, p))) (\<lambda>(c, p'). from_pos b p p')"
    if p1: "from_pos b p p1" for c p1
  proof -
    obtain c' p2 where b: "parsebacks b c p1 = (c', p2)" by fastforce
    obtain p3 m where k: "peek b p2 [59] = (p3, m)" by fastforce
    have p3: "from_pos b p p3" using parsebacks_pos [OF z, of p1 c] peek_pos [of p2 b "[59]"] b k p1 by simp
    have "settles (obind (parseline n b (next_token b p3)) (\<lambda>(r, p). Ok (LIST c' r, p))) (\<lambda>(c, p'). from_pos b p p')" if m
      by (rule settles_node [OF settledD [OF L]]) (use next_token_pos [OF z, of p3] p3 p next_token_sym [of b p2 59 p3] k that in \<open>auto simp: symbols_def\<close>)
    then show ?thesis using b k p3 by simp
  qed
  note K = this
  show "settles (parseline (Suc n) b p) (\<lambda>(c, p'). from_pos b p p')" unfolding parseline.simps(2)
    by (rule settles_obind [OF settledD [OF P]]) (use p K in auto)
qed

lemma parsepipe_settled:
  assumes z: "0 \<notin> set b" and E: "settled parseexec 2 n b" and P: "settled parsepipe 3 n b"
  shows "settled parsepipe 3 (Suc n) b"
proof (rule settledI)
  fix p assume p: "p \<le> length b" "4 * (length b - p) + 3 \<le> Suc n"
  have "settles (case peek b p1 [124] of (p, more) \<Rightarrow>
       if more then obind (parsepipe n b (next_token b p)) (\<lambda>(r, p). Ok (PIPE c r, p)) else Ok (c, p)) (\<lambda>(c, p'). from_pos b p p')"
    if p1: "from_pos b p p1" for c p1
  proof -
    obtain p3 m where k: "peek b p1 [124] = (p3, m)" by fastforce
    have p3: "from_pos b p p3" using peek_pos [of p1 b "[124]"] k p1 by simp
    have "settles (obind (parsepipe n b (next_token b p3)) (\<lambda>(r, p). Ok (PIPE c r, p))) (\<lambda>(c, p'). from_pos b p p')" if m
      by (rule settles_node [OF settledD [OF P]]) (use next_token_pos [OF z, of p3] p3 p next_token_sym [of b p1 124 p3] k that in \<open>auto simp: symbols_def\<close>)
    then show ?thesis using k p3 by simp
  qed
  note K = this
  show "settles (parsepipe (Suc n) b p) (\<lambda>(c, p'). from_pos b p p')" unfolding parsepipe.simps(2)
    by (rule settles_obind [OF settledD [OF E]]) (use p K in auto)
qed

lemma parseexec_settled:
  assumes z: "0 \<notin> set b" and B: "settled parseblock 1 n b"
  shows "settled parseexec 2 (Suc n) b"
proof (rule settledI)
  fix p assume p: "p \<le> length b" "4 * (length b - p) + 2 \<le> Suc n"
  obtain p1 m where k: "peek b p [40] = (p1, m)" by fastforce
  then have p1: "from_pos b p p1" using peek_pos [OF p(1), of "[40]"] by simp
  have "settles (parseblock n b p1) (\<lambda>(c, p'). from_pos b p p')"
    by (rule settles_mono [OF settledD [OF B]]) (use p p1 in auto)
  moreover have "settles (obind (parseargs b [] rs p2) (\<lambda>(argv, rs, p). Ok (wrap (EXEC argv) rs, p))) (\<lambda>(c, p'). from_pos b p p')" if "from_pos b p p2" for rs p2
    by (rule settles_obind [OF parseargs_settles [OF z]]) (use that in auto)
  then have "settles (obind (parseredirs b p1) (\<lambda>(rs, p). obind (parseargs b [] rs p) (\<lambda>(argv, rs, p). Ok (wrap (EXEC argv) rs, p)))) (\<lambda>(c, p'). from_pos b p p')"
    using p1 by (intro settles_obind [OF parseredirs_settles [OF z]]) auto
  ultimately show "settles (parseexec (Suc n) b p) (\<lambda>(c, p'). from_pos b p p')" unfolding parseexec.simps(2) using k by simp
qed

lemma parseblock_settled:
  assumes z: "0 \<notin> set b" and L: "settled parseline 4 n b"
  shows "settled parseblock 1 (Suc n) b"
proof (rule settledI)
  fix p assume p: "p \<le> length b" "4 * (length b - p) + 1 \<le> Suc n"
  obtain p1 m where k: "peek b p [40] = (p1, m)" by fastforce
  then have p1: "from_pos b p p1" using peek_pos [OF p(1), of "[40]"] by simp
  have R: "settles (case peek b p2 [41] of (p, more) \<Rightarrow> if \<not> more then Panic ''syntax - missing )''
       else obind (parseredirs b (next_token b p)) (\<lambda>(rs, p). Ok (wrap c rs, p))) (\<lambda>(c, p'). from_pos b p p')" if "from_pos b p p2" for p2 c
  proof (cases "peek b p2 [41]")
    case (Pair p3 k)
    then have p3: "from_pos b p p3" using peek_pos [of p2 b "[41]"] that by simp
    have "settles (obind (parseredirs b (next_token b p3)) (\<lambda>(rs, p). Ok (wrap c rs, p))) (\<lambda>(c, p'). from_pos b p p')"
      by (rule settles_node [OF parseredirs_settles [OF z]]) (use p3 next_token_pos [OF z, of p3] in auto)
    then show ?thesis using Pair by simp
  qed
  have "settles (obind (parseline n b (next_token b p1)) (\<lambda>(c, p). case peek b p [41] of (p, more) \<Rightarrow> if \<not> more then Panic ''syntax - missing )''
       else obind (parseredirs b (next_token b p)) (\<lambda>(rs, p). Ok (wrap c rs, p)))) (\<lambda>(c, p'). from_pos b p p')" if m
  proof (rule settles_obind [OF settledD [OF L]])
    show "next_token b p1 \<le> length b" using next_token_pos [OF z, of p1] p1 by simp
    show "4 * (length b - next_token b p1) + 4 \<le> n" using next_token_sym [of b p 40 p1] next_token_pos [OF z, of p1] k that p p1 by (auto simp: symbols_def)
  qed (use R p1 next_token_pos [OF z, of p1] in auto)
  then show "settles (parseblock (Suc n) b p) (\<lambda>(c, p'). from_pos b p p')" unfolding parseblock.simps(2) using k by simp
qed

lemma parser_settled:
  assumes "0 \<notin> set b"
  shows "settled parseline 4 n b \<and> settled parsepipe 3 n b \<and> settled parseexec 2 n b \<and> settled parseblock 1 n b"
proof (induction n)
  case 0
  show ?case by (simp add: settled_def)
next
  case (Suc n)
  then show ?case using parseline_settled parsepipe_settled parseexec_settled parseblock_settled assms by blast
qed

text \<open>
  C40 (termination). On every line the parser of the shell returns: with a command, or with one of its error messages. The
  fuel of the model is four calls for every byte of the line.
\<close>

theorem parsecmd_returns:
  assumes "0 \<notin> set b"
  shows "(\<exists>c buf. parsecmd b = Ok (c, buf) \<and> length buf = length b + 1) \<or> (\<exists>message. parsecmd b = Panic message)"
proof -
  have "settles (parseline (4 * length b + 4) b 0) (\<lambda>(c, p'). from_pos b 0 p')" using parser_settled [OF assms, of "4 * length b + 4"] by (auto simp: settled_def)
  then show ?thesis using nulterminate_bytes by (cases "parseline (4 * length b + 4) b 0") (auto simp: settles_def parsecmd_def split: if_splits)
qed

text \<open>The line \<^verbatim>\<open>( a < b\<close>.\<close>

theorem parsecmd_returns_witness:
  "(\<exists>c buf. parsecmd [40, 97, 60, 98] = Ok (c, buf) \<and> length buf = 5) \<or> (\<exists>message. parsecmd [40, 97, 60, 98] = Panic message)"
proof -
  have "length [40, 97, 60, 98 :: u8] + 1 = 5" by simp
  then show ?thesis using parsecmd_returns [of "[40, 97, 60, 98]"] by (simp only:) simp
qed

end
