(* ===== verification/Spec2Isabelle.thy ===== *)
theory Spec2Isabelle
  imports Xv6_Uvm_Free Xv6_Uvm_Grow Xv6_Pipe Xv6_Files Xv6_Sh
begin

text \<open>Verification of the xv6 kernel.\<close>

end
